(* ===== verification/Prelude.thy ===== *)
theory Prelude
  imports Main "HOL-Library.Multiset" "HOL-Library.Word" "HOL-Library.Product_Lexorder"
begin

text \<open>
  Shared vocabulary of the development: the collections of facts the component theories
  fill and use, C integer wrap-around, C strings as character lists, and the generic lemmas
  on lists and multisets that more than one component needs.
\<close>

section \<open>Collections\<close>

named_theorems heap_simps \<open>facts about array positions of the binary heap\<close>
named_theorems ring_simps \<open>facts about head, tail and count of the ring buffers\<close>
named_theorems inv_intros \<open>introduction rules for the invariants of the state machines\<close>
named_theorems wrap_simps \<open>arithmetic of wrapped C integers\<close>

section \<open>C integers\<close>

text \<open>
  A value of the C type \<open>int\<close> or \<open>long\<close> is an integer in two's complement range.  The
  sources are compiled by gcc without trapping, so an addition that leaves the range comes back
  on the other side; \<open>wrap32\<close> and \<open>wrap64\<close> write that out.  Where the C standard calls
  the overflow undefined, the theorems state the bounds under which it does not occur.
\<close>

definition int_max :: int where "int_max = 2147483647"
definition int_min :: int where "int_min = - 2147483648"
definition long_max :: int where "long_max = 9223372036854775807"
definition long_min :: int where "long_min = - 9223372036854775808"

lemmas limits_defs = int_max_def int_min_def long_max_def long_min_def

definition wrap32 :: "int \<Rightarrow> int" where
  "wrap32 x = (x + 2147483648) mod 4294967296 - 2147483648"

definition wrap64 :: "int \<Rightarrow> int" where
  "wrap64 x = (x + 9223372036854775808) mod 18446744073709551616 - 9223372036854775808"

lemma wrap32_id: "int_min \<le> x \<Longrightarrow> x \<le> int_max \<Longrightarrow> wrap32 x = x"
  by (simp add: wrap32_def limits_defs mod_pos_pos_trivial)

lemma wrap64_id: "long_min \<le> x \<Longrightarrow> x \<le> long_max \<Longrightarrow> wrap64 x = x"
  by (simp add: wrap64_def limits_defs mod_pos_pos_trivial)

lemma wrap32_range: "int_min \<le> wrap32 x \<and> wrap32 x \<le> int_max"
  using pos_mod_sign [of 4294967296 "x + 2147483648"]
    pos_mod_bound [of 4294967296 "x + 2147483648"]
  by (simp add: wrap32_def limits_defs)

lemma wrap32_add_left [wrap_simps]: "wrap32 (wrap32 x + y) = wrap32 (x + y)"
proof -
  have "wrap32 x + y + 2147483648 = (x + 2147483648) mod 4294967296 + y"
    by (simp add: wrap32_def)
  then have "(wrap32 x + y + 2147483648) mod 4294967296 = (x + 2147483648 + y) mod 4294967296"
    by (simp only: mod_add_left_eq)
  then show ?thesis
    unfolding wrap32_def [of "wrap32 x + y"] wrap32_def [of "x + y"] by (simp add: ac_simps)
qed

lemma wrap64_add_left [wrap_simps]: "wrap64 (wrap64 x + y) = wrap64 (x + y)"
proof -
  have "wrap64 x + y + 9223372036854775808 = (x + 9223372036854775808) mod 18446744073709551616 + y"
    by (simp add: wrap64_def)
  then have "(wrap64 x + y + 9223372036854775808) mod 18446744073709551616 = (x + 9223372036854775808 + y) mod 18446744073709551616"
    by (simp only: mod_add_left_eq)
  then show ?thesis
    unfolding wrap64_def [of "wrap64 x + y"] wrap64_def [of "x + y"] by (simp add: ac_simps)
qed

lemma wrap32_add_right [wrap_simps]: "wrap32 (x + wrap32 y) = wrap32 (x + y)"
  using wrap32_add_left [of y x] by (simp add: add.commute)

lemma wrap64_add_right [wrap_simps]: "wrap64 (x + wrap64 y) = wrap64 (x + y)"
  using wrap64_add_left [of y x] by (simp add: add.commute)

lemma wrap32_0 [simp]: "wrap32 0 = 0" and wrap32_1 [simp]: "wrap32 1 = 1"
  and wrap64_0 [simp]: "wrap64 0 = 0"
  by (simp_all add: wrap32_def wrap64_def)

section \<open>C strings\<close>

text \<open>
  A C string is the character list up to, not including, its NUL.  \<open>cstr\<close> reads a buffer
  as a C string.
\<close>

abbreviation NUL :: char where "NUL \<equiv> CHR 0x00"
abbreviation LF :: char where "LF \<equiv> CHR 0x0A"
abbreviation CR :: char where "CR \<equiv> CHR 0x0D"

definition cstr :: "string \<Rightarrow> string" where
  "cstr s = takeWhile (\<lambda>c. c \<noteq> NUL) s"

lemma cstr_id: "NUL \<notin> set s \<Longrightarrow> cstr s = s"
  unfolding cstr_def by (rule takeWhile_eq_all_conv [THEN iffD2]) auto

lemma NUL_notin_cstr [simp]: "NUL \<notin> set (cstr s)"
  unfolding cstr_def by (auto dest: set_takeWhileD)

lemma set_cstr_subset: "set (cstr s) \<subseteq> set s"
  unfolding cstr_def by (auto dest: set_takeWhileD)

lemma length_cstr: "length (cstr s) \<le> length s"
  by (simp add: cstr_def length_takeWhile_le)

text \<open>\<open>strncpy\<close> into a buffer of \<open>n + 1\<close> bytes whose last byte is then set to NUL.\<close>

definition strncpy :: "nat \<Rightarrow> string \<Rightarrow> string" where
  "strncpy n s = take n s"

lemma strncpy_id [simp]: "length s \<le> n \<Longrightarrow> strncpy n s = s"
  by (simp add: strncpy_def)

section \<open>Lists and multisets\<close>

lemma dropWhile_neq_Nil_hd: "dropWhile P xs = y # ys \<Longrightarrow> \<not> P y"
  by (metis hd_dropWhile list.discI list.sel(1))

lemma takeWhile_append_stop:
  "\<forall>x \<in> set xs. P x \<Longrightarrow> \<not> P y \<Longrightarrow> takeWhile P (xs @ y # ys) = xs"
  by (induction xs) auto

lemma dropWhile_append_stop:
  "\<forall>x \<in> set xs. P x \<Longrightarrow> \<not> P y \<Longrightarrow> dropWhile P (xs @ y # ys) = y # ys"
  by (induction xs) auto

lemma takeWhile_all: "\<forall>x \<in> set xs. P x \<Longrightarrow> takeWhile P xs = xs"
  by (simp add: takeWhile_eq_all_conv)

lemma dropWhile_all: "\<forall>x \<in> set xs. P x \<Longrightarrow> dropWhile P xs = []"
  by simp

lemma mset_take_Suc: "n < length xs \<Longrightarrow> mset (take (Suc n) xs) = add_mset (xs ! n) (mset (take n xs))"
  by (simp add: take_Suc_conv_app_nth)

lemma mset_swap_take:
  assumes "i < n" "j < n" "n \<le> length xs"
  shows "mset (take n (xs[i := xs ! j, j := xs ! i])) = mset (take n xs)"
proof -
  have "take n (xs[i := xs ! j, j := xs ! i]) = (take n xs)[i := take n xs ! j, j := take n xs ! i]"
    using assms by (simp add: take_update_swap)
  moreover have "mset ((take n xs)[i := take n xs ! j, j := take n xs ! i]) = mset (take n xs)"
    using assms by (intro mset_swap) auto
  ultimately show ?thesis by simp
qed

text \<open>A sum over a list after one element is replaced, in a form without subtraction.\<close>

lemma sum_list_upd:
  fixes f :: "'a \<Rightarrow> 'b::comm_monoid_add"
  shows "i < length xs \<Longrightarrow> (\<Sum>x\<leftarrow>xs[i := y]. f x) + f (xs ! i) = (\<Sum>x\<leftarrow>xs. f x) + f y"
proof (induction xs arbitrary: i)
  case (Cons a xs)
  show ?case
  proof (cases i)
    case 0
    then show ?thesis by (simp add: ac_simps)
  next
    case (Suc j)
    then have "(\<Sum>x\<leftarrow>xs[j := y]. f x) + f (xs ! j) = (\<Sum>x\<leftarrow>xs. f x) + f y"
      using Cons by simp
    then show ?thesis using Suc by (simp add: add.assoc)
  qed
qed simp

lemma list_all_upd: "list_all P xs \<Longrightarrow> P y \<Longrightarrow> list_all P (xs[i := y])"
  unfolding list_all_iff using set_update_subset_insert by fastforce

lemma wrap_idem [simp]: "wrap32 (wrap32 x) = wrap32 x" "wrap64 (wrap64 x) = wrap64 x"
  using wrap32_add_left [of x 0] wrap64_add_left [of x 0] by simp_all

end
