(* ===== verification/Cargo_Order.thy ===== *)
theory Cargo_Order
  imports Prelude
begin

text \<open>
  \<open>HW5/inc/order.h\<close> and \<open>HW5/src/order.c\<close>: the delivery orders of the cargo
  simulation and the names of their priorities.
\<close>

datatype priority_t = PRIO_EXPRESS | PRIO_STANDARD | PRIO_ECONOMY

text \<open>The numbers the enumeration gives its constants; \<open><\<close> on priorities compares them.\<close>

fun prio_code :: "priority_t \<Rightarrow> int" where
  "prio_code PRIO_EXPRESS = 1"
| "prio_code PRIO_STANDARD = 2"
| "prio_code PRIO_ECONOMY = 3"

lemma prio_code_inj [simp]: "prio_code a = prio_code b \<longleftrightarrow> a = b"
  by (cases a; cases b) simp_all

instantiation priority_t :: linorder
begin

definition less_eq_priority_t :: "priority_t \<Rightarrow> priority_t \<Rightarrow> bool" where
  "less_eq_priority_t a b \<longleftrightarrow> prio_code a \<le> prio_code b"

definition less_priority_t :: "priority_t \<Rightarrow> priority_t \<Rightarrow> bool" where
  "less_priority_t a b \<longleftrightarrow> prio_code a < prio_code b"

instance
  by standard (auto simp: less_eq_priority_t_def less_priority_t_def)

end

definition MAX_NAME_LEN :: nat where "MAX_NAME_LEN = 32"
definition SIM_UNIT_MS :: int where "SIM_UNIT_MS = 500"

record order =
  oid :: int
  oname :: string
  oprio :: priority_t
  odur :: int

text \<open>\<open>priority_from_string\<close>: \<open>None\<close> is the return value \<open>-1\<close>.\<close>

definition priority_from_string :: "string \<Rightarrow> priority_t option" where
  "priority_from_string s =
     (if s = ''EXPRESS'' then Some PRIO_EXPRESS
      else if s = ''STANDARD'' then Some PRIO_STANDARD
      else if s = ''ECONOMY'' then Some PRIO_ECONOMY
      else None)"

fun priority_to_string :: "priority_t \<Rightarrow> string" where
  "priority_to_string PRIO_EXPRESS = ''EXPRESS''"
| "priority_to_string PRIO_STANDARD = ''STANDARD''"
| "priority_to_string PRIO_ECONOMY = ''ECONOMY''"

lemma priority_from_to [simp]: "priority_from_string (priority_to_string p) = Some p"
  by (cases p) (simp_all add: priority_from_string_def)

lemma priority_from_string_Some:
  "priority_from_string s = Some p \<longleftrightarrow> s = priority_to_string p"
  by (cases p) (auto simp: priority_from_string_def split: if_splits)

text \<open>
  \<open>order_less\<close> of \<open>priority_queue.c\<close> is the strict part of a linear order on the
  pair of priority and id.
\<close>

definition order_less :: "order \<Rightarrow> order \<Rightarrow> bool" where
  "order_less a b =
     (if oprio a \<noteq> oprio b then oprio a < oprio b else oid a < oid b)"

definition order_key :: "order \<Rightarrow> priority_t \<times> int" where
  "order_key a = (oprio a, oid a)"

lemma order_less_key: "order_less a b \<longleftrightarrow> order_key a < order_key b"
  by (auto simp: order_less_def order_key_def less_prod_simp)

end
