(* ===== verification/Cargo_Queue.thy ===== *)
theory Cargo_Queue
  imports Cargo_Order
begin

text \<open>
  \<open>HW5/src/priority_queue.c\<close>: the array-based binary heap of orders with its shutdown
  flag.  The heap array is a list of length \<open>pq_cap\<close> of which the first \<open>pq_sz\<close> cells
  are live.  Every public operation runs under the queue's mutex, so it is one function on the
  state.  The theory also states the interface of a minimum queue as a locale, which the
  courier system uses, and interprets it on these operations.
\<close>

section \<open>The heap array\<close>

record pqueue =
  pq_heap :: "order list"
  pq_sz :: nat
  pq_cap :: nat
  pq_shut :: bool

definition swap_at :: "order list \<Rightarrow> nat \<Rightarrow> nat \<Rightarrow> order list" where
  "swap_at h i j = h[i := h ! j, j := h ! i]"

function sift_up :: "order list \<Rightarrow> nat \<Rightarrow> order list" where
  "sift_up h i =
     (if i > 0 then
        (let parent = (i - 1) div 2 in
         if order_less (h ! i) (h ! parent) then sift_up (swap_at h i parent) parent
         else h)
      else h)"
  by pat_completeness auto
termination
  by (relation "measure snd") auto

declare sift_up.simps [simp del]

definition best_child :: "order list \<Rightarrow> nat \<Rightarrow> nat \<Rightarrow> nat" where
  "best_child h sz i =
     (let left = 2 * i + 1; right = 2 * i + 2;
          best = (if left < sz \<and> order_less (h ! left) (h ! i) then left else i)
      in if right < sz \<and> order_less (h ! right) (h ! best) then right else best)"

lemma best_child_cases [heap_simps]:
  "best_child h sz i = i \<or>
   (i < best_child h sz i \<and> best_child h sz i < sz \<and> (best_child h sz i - 1) div 2 = i)"
  by (auto simp: best_child_def Let_def)

function sift_down :: "order list \<Rightarrow> nat \<Rightarrow> nat \<Rightarrow> order list" where
  "sift_down h sz i =
     (let best = best_child h sz i in
      if best = i then h else sift_down (swap_at h i best) sz best)"
  by pat_completeness auto
termination
proof (relation "measure (\<lambda>(h, sz, i). sz - i)")
  fix h sz i and best :: nat
  assume "best = best_child h sz i" and "best \<noteq> i"
  then show "((swap_at h i best, sz, best), h, sz, i) \<in> measure (\<lambda>(h, sz, i). sz - i)"
    using best_child_cases [of h sz i] by auto
qed simp

declare sift_down.simps [simp del]

section \<open>Public operations\<close>

text \<open>
  What the allocator and the thread library answer to the four calls of \<open>pq_create\<close>.  The
  cells of the new array are uninitialised memory, \<open>cells\<close>.
\<close>

record pq_env =
  malloc_pq_ok :: bool
  malloc_heap_ok :: bool
  mutex_init_ok :: bool
  cond_init_ok :: bool

definition pq_create :: "pq_env \<Rightarrow> (nat \<Rightarrow> order) \<Rightarrow> nat \<Rightarrow> pqueue option" where
  "pq_create env cells capacity =
     (if capacity = 0 then None
      else if \<not> malloc_pq_ok env then None
      else if \<not> malloc_heap_ok env then None
      else if \<not> mutex_init_ok env then None
      else if \<not> cond_init_ok env then None
      else Some \<lparr>pq_heap = map cells [0..<capacity], pq_sz = 0, pq_cap = capacity,
                 pq_shut = False\<rparr>)"

text \<open>\<open>pq_push\<close>: \<open>None\<close> is the return value \<open>-1\<close> of a full queue.\<close>

definition pq_push :: "pqueue \<Rightarrow> order \<Rightarrow> pqueue option" where
  "pq_push pq x =
     (if pq_sz pq \<ge> pq_cap pq then None
      else Some (pq\<lparr>pq_heap := sift_up ((pq_heap pq)[pq_sz pq := x]) (pq_sz pq),
                    pq_sz := pq_sz pq + 1\<rparr>))"

text \<open>Taking the root out, the common part of \<open>pq_pop_blocking\<close> and \<open>pq_drain\<close>.\<close>

definition take_root :: "pqueue \<Rightarrow> order \<times> pqueue" where
  "take_root pq =
     (let out = pq_heap pq ! 0; n = pq_sz pq - 1 in
      (out,
       if n > 0 then pq\<lparr>pq_heap := sift_down ((pq_heap pq)[0 := pq_heap pq ! n]) n 0, pq_sz := n\<rparr>
       else pq\<lparr>pq_sz := n\<rparr>))"

text \<open>
  \<open>pq_pop_blocking\<close>, from one test of the wait condition to the next: \<open>Pop_Wait\<close> is the
  call of \<open>pthread_cond_wait\<close>, after which the test is repeated.
\<close>

datatype pop_result = Pop_Wait | Pop_Ok order | Pop_Shutdown

definition pq_pop_blocking :: "pqueue \<Rightarrow> pop_result \<times> pqueue" where
  "pq_pop_blocking pq =
     (if pq_sz pq = 0 \<and> \<not> pq_shut pq then (Pop_Wait, pq)
      else if pq_sz pq = 0 then (Pop_Shutdown, pq)
      else (let (out, pq') = take_root pq in (Pop_Ok out, pq')))"

definition pq_shutdown :: "pqueue \<Rightarrow> pqueue" where
  "pq_shutdown pq = pq\<lparr>pq_shut := True\<rparr>"

definition pq_size :: "pqueue \<Rightarrow> nat" where
  "pq_size pq = pq_sz pq"

lemma take_root_sz [simp]: "pq_sz (snd (take_root pq)) = pq_sz pq - 1"
  by (simp add: take_root_def Let_def)

function pq_drain :: "pqueue \<Rightarrow> order list \<times> pqueue" where
  "pq_drain pq =
     (if pq_sz pq > 0 then
        (let (out, pq') = take_root pq; (outs, pq'') = pq_drain pq' in (out # outs, pq''))
      else ([], pq))"
  by pat_completeness auto
termination
  by (relation "measure pq_sz") (simp, metis diff_less in_measure snd_conv take_root_sz zero_less_one)

declare pq_drain.simps [simp del]

section \<open>Heap order\<close>

text \<open>
  Heap order is stated on the function from positions to keys.  \<open>heap_but_up f n i\<close> allows
  the key at \<open>i\<close> to be too small, \<open>heap_but_down f n i\<close> allows it to be too large; the
  second part of each relates the parent of \<open>i\<close> to its children.
\<close>

definition heap_ok :: "(nat \<Rightarrow> 'k::linorder) \<Rightarrow> nat \<Rightarrow> bool" where
  "heap_ok f n \<longleftrightarrow> (\<forall>c. 0 < c \<and> c < n \<longrightarrow> f ((c - 1) div 2) \<le> f c)"

definition heap_but_up :: "(nat \<Rightarrow> 'k::linorder) \<Rightarrow> nat \<Rightarrow> nat \<Rightarrow> bool" where
  "heap_but_up f n i \<longleftrightarrow> (\<forall>c. 0 < c \<and> c < n \<longrightarrow>
     (c \<noteq> i \<longrightarrow> f ((c - 1) div 2) \<le> f c) \<and>
     ((c - 1) div 2 = i \<and> 0 < i \<longrightarrow> f ((i - 1) div 2) \<le> f c))"

definition heap_but_down :: "(nat \<Rightarrow> 'k::linorder) \<Rightarrow> nat \<Rightarrow> nat \<Rightarrow> bool" where
  "heap_but_down f n i \<longleftrightarrow> (\<forall>c. 0 < c \<and> c < n \<longrightarrow>
     ((c - 1) div 2 \<noteq> i \<longrightarrow> f ((c - 1) div 2) \<le> f c) \<and>
     ((c - 1) div 2 = i \<and> 0 < i \<longrightarrow> f ((i - 1) div 2) \<le> f c))"

lemma heap_okD [heap_simps]: "heap_ok f n \<Longrightarrow> 0 < c \<Longrightarrow> c < n \<Longrightarrow> f ((c - 1) div 2) \<le> f c"
  by (simp add: heap_ok_def)

lemma heap_root_least:
  assumes "heap_ok f n" and "c < n"
  shows "f 0 \<le> f c"
  using assms(2)
proof (induction c rule: less_induct)
  case (less c)
  show ?case
  proof (cases "c = 0")
    case False
    then have "f 0 \<le> f ((c - 1) div 2)" using less by (intro less.IH) auto
    also have "\<dots> \<le> f c" using assms(1) False less.prems by (simp add: heap_ok_def)
    finally show ?thesis .
  qed simp
qed

lemma heap_ok_append: "heap_ok f n \<Longrightarrow> (\<forall>c < n. g c = f c) \<Longrightarrow> heap_but_up g (Suc n) n"
  unfolding heap_ok_def heap_but_up_def by auto

lemma heap_but_up_stop:
  "heap_but_up f n i \<Longrightarrow> i = 0 \<or> f ((i - 1) div 2) \<le> f i \<Longrightarrow> heap_ok f n"
  unfolding heap_ok_def heap_but_up_def
proof (intro allI impI)
  fix c assume h: "\<forall>c. 0 < c \<and> c < n \<longrightarrow> (c \<noteq> i \<longrightarrow> f ((c - 1) div 2) \<le> f c) \<and>
      ((c - 1) div 2 = i \<and> 0 < i \<longrightarrow> f ((i - 1) div 2) \<le> f c)"
    and i: "i = 0 \<or> f ((i - 1) div 2) \<le> f i" and c: "0 < c \<and> c < n"
  show "f ((c - 1) div 2) \<le> f c"
    by (cases "c = i") (use h i c in auto)
qed

lemma heap_but_up_swap:
  assumes h: "heap_but_up f n i" and i: "0 < i" "i < n" and less: "f i < f ((i - 1) div 2)"
  shows "heap_but_up (f(i := f ((i - 1) div 2), (i - 1) div 2 := f i)) n ((i - 1) div 2)"
proof -
  define p where "p = (i - 1) div 2"
  have p: "p < i" using i by (auto simp: p_def)
  have ord: "\<And>c. 0 < c \<Longrightarrow> c < n \<Longrightarrow> c \<noteq> i \<Longrightarrow> f ((c - 1) div 2) \<le> f c"
    and up: "\<And>c. 0 < c \<Longrightarrow> c < n \<Longrightarrow> (c - 1) div 2 = i \<Longrightarrow> f p \<le> f c"
    using h i by (auto simp: heap_but_up_def p_def)
  have pp: "0 < p \<Longrightarrow> f ((p - 1) div 2) \<le> f p"
    using ord [of p] p i by auto
  have "heap_but_up (f(i := f p, p := f i)) n p"
    unfolding heap_but_up_def
  proof (intro allI impI conjI)
    fix c assume c: "0 < c \<and> c < n" and "c \<noteq> p"
    then show "(f(i := f p, p := f i)) ((c - 1) div 2) \<le> (f(i := f p, p := f i)) c"
      using ord [of c] up [of c] less p p_def by (auto simp: not_less dest: order.trans)
  next
    fix c assume c: "0 < c \<and> c < n" and cp: "(c - 1) div 2 = p \<and> 0 < p"
    then have "f ((p - 1) div 2) \<le> f (if c = i then p else c)"
      using ord [of c] pp by (auto intro: order.trans)
    moreover have "(p - 1) div 2 < p" "p < c"
      using cp c by linarith+
    then have "(p - 1) div 2 \<noteq> p" "(p - 1) div 2 \<noteq> i" "c \<noteq> p"
      using p by auto
    ultimately show "(f(i := f p, p := f i)) ((p - 1) div 2) \<le> (f(i := f p, p := f i)) c"
      by (auto split: if_splits)
  qed
  then show ?thesis by (simp add: p_def)
qed

lemma heap_but_down_stop:
  assumes "heap_but_down f n i" and "2 * i + 1 < n \<longrightarrow> f i \<le> f (2 * i + 1)"
    and "2 * i + 2 < n \<longrightarrow> f i \<le> f (2 * i + 2)"
  shows "heap_ok f n"
  unfolding heap_ok_def
proof (intro allI impI)
  fix c assume c: "0 < c \<and> c < n"
  show "f ((c - 1) div 2) \<le> f c"
  proof (cases "(c - 1) div 2 = i")
    case True
    then have "c = 2 * i + 1 \<or> c = 2 * i + 2" using c by auto
    then show ?thesis using assms(2,3) c True by auto
  qed (use assms(1) c in \<open>auto simp: heap_but_down_def\<close>)
qed

lemma heap_but_down_swap:
  assumes h: "heap_but_down f n i" and b: "0 < b" "b < n" "(b - 1) div 2 = i"
    and less: "f b < f i" and least: "\<And>c. 0 < c \<Longrightarrow> c < n \<Longrightarrow> (c - 1) div 2 = i \<Longrightarrow> f b \<le> f c"
  shows "heap_but_down (f(i := f b, b := f i)) n b"
proof -
  have ib: "i < b" using b by auto
  have ord: "\<And>c. 0 < c \<Longrightarrow> c < n \<Longrightarrow> (c - 1) div 2 \<noteq> i \<Longrightarrow> f ((c - 1) div 2) \<le> f c"
    and up: "\<And>c. 0 < c \<Longrightarrow> c < n \<Longrightarrow> (c - 1) div 2 = i \<Longrightarrow> 0 < i \<Longrightarrow> f ((i - 1) div 2) \<le> f c"
    using h by (auto simp: heap_but_down_def)
  show ?thesis
    unfolding heap_but_down_def
  proof (intro allI impI conjI)
    fix c assume c: "0 < c \<and> c < n" and "(c - 1) div 2 \<noteq> b"
    then show "(f(i := f b, b := f i)) ((c - 1) div 2) \<le> (f(i := f b, b := f i)) c"
      using ord [of c] up [of b] less least [of c] ib b by auto
  next
    fix c assume c: "0 < c \<and> c < n" and cb: "(c - 1) div 2 = b \<and> 0 < b"
    then have "c \<noteq> i" "c \<noteq> b" using ib by auto
    then show "(f(i := f b, b := f i)) ((b - 1) div 2) \<le> (f(i := f b, b := f i)) c"
      using ord [of c] c cb b ib by auto
  qed
qed

section \<open>The two sifting loops\<close>

definition key_at :: "order list \<Rightarrow> nat \<Rightarrow> priority_t \<times> int" where
  "key_at h i = order_key (h ! i)"

lemma length_swap_at [simp]: "length (swap_at h i j) = length h"
  by (simp add: swap_at_def)

lemma key_at_swap:
  "i < length h \<Longrightarrow> j < length h \<Longrightarrow>
   key_at (swap_at h i j) = (key_at h)(i := key_at h j, j := key_at h i)"
  by (auto simp: key_at_def swap_at_def nth_list_update)

lemma mset_swap_at [simp]:
  "i < n \<Longrightarrow> j < n \<Longrightarrow> n \<le> length h \<Longrightarrow> mset (take n (swap_at h i j)) = mset (take n h)"
  by (simp add: swap_at_def mset_swap_take)

lemma sift_up_correct:
  assumes "heap_but_up (key_at h) n i" "i < n" "n \<le> length h"
  shows "heap_ok (key_at (sift_up h i)) n \<and> mset (take n (sift_up h i)) = mset (take n h) \<and>
         length (sift_up h i) = length h"
  using assms
proof (induction h i rule: sift_up.induct)
  case (1 h i)
  let ?p = "(i - 1) div 2"
  show ?case
  proof (cases "0 < i \<and> key_at h i < key_at h ?p")
    case True
    then have "sift_up h i = sift_up (swap_at h i ?p) ?p"
      by (subst sift_up.simps) (simp add: order_less_key key_at_def Let_def)
    moreover have up: "heap_but_up (key_at (swap_at h i ?p)) n ?p"
      using 1 True by (subst key_at_swap) (auto simp del: One_nat_def intro!: heap_but_up_swap)
    have "heap_ok (key_at (sift_up (swap_at h i ?p) ?p)) n \<and>
        mset (take n (sift_up (swap_at h i ?p) ?p)) = mset (take n (swap_at h i ?p)) \<and>
        length (sift_up (swap_at h i ?p) ?p) = length (swap_at h i ?p)"
      by (rule 1(1) [OF _ refl _ up]) (use 1 True in \<open>auto simp: order_less_key key_at_def\<close>)
    ultimately show ?thesis
      using 1 True by simp
  next
    case False
    then have "sift_up h i = h"
      by (subst sift_up.simps) (auto simp: order_less_key key_at_def Let_def)
    moreover have "i = 0 \<or> key_at h ?p \<le> key_at h i" using False by auto
    ultimately show ?thesis
      using heap_but_up_stop [OF 1(2)] by simp
  qed
qed

lemma best_child_least:
  assumes b: "best_child h n i = b" "b \<noteq> i"
  shows "0 < b \<and> b < n \<and> (b - 1) div 2 = i \<and> key_at h b < key_at h i \<and>
    (\<forall>c. 0 < c \<and> c < n \<and> (c - 1) div 2 = i \<longrightarrow> key_at h b \<le> key_at h c)"
proof -
  have child: "\<And>c. 0 < c \<Longrightarrow> (c - 1) div 2 = i \<Longrightarrow> c = 2 * i + 1 \<or> c = 2 * i + 2" by auto
  have least: "key_at h b < key_at h i \<and> (2 * i + 1 < n \<longrightarrow> key_at h b \<le> key_at h (2 * i + 1))
      \<and> (2 * i + 2 < n \<longrightarrow> key_at h b \<le> key_at h (2 * i + 2))"
    using b by (auto simp: best_child_def Let_def order_less_key key_at_def split: if_splits)
  have "i < b \<and> b < n \<and> (b - 1) div 2 = i"
    using b best_child_cases [of h n i] by auto
  moreover have "key_at h b \<le> key_at h c" if "0 < c" "c < n" "(c - 1) div 2 = i" for c
    using child [OF that(1,3)] least that(2) by auto
  ultimately show ?thesis
    using least by auto
qed

lemma best_child_none:
  assumes "best_child h n i = i"
  shows "(2 * i + 1 < n \<longrightarrow> key_at h i \<le> key_at h (2 * i + 1)) \<and>
         (2 * i + 2 < n \<longrightarrow> key_at h i \<le> key_at h (2 * i + 2))"
  using assms by (auto simp: best_child_def Let_def order_less_key key_at_def split: if_splits)

lemma sift_down_correct:
  assumes "heap_but_down (key_at h) n i" "i < n" "n \<le> length h"
  shows "heap_ok (key_at (sift_down h n i)) n \<and>
         mset (take n (sift_down h n i)) = mset (take n h) \<and> length (sift_down h n i) = length h"
  using assms
proof (induction h n i rule: sift_down.induct)
  case (1 h n i)
  let ?b = "best_child h n i"
  show ?case
  proof (cases "?b = i")
    case True
    then have "sift_down h n i = h" by (subst sift_down.simps) (simp add: Let_def)
    then show ?thesis
      using 1 best_child_none [OF True] by (simp add: heap_but_down_stop)
  next
    case False
    note b = best_child_least [OF refl False]
    have down: "heap_but_down (key_at (swap_at h i ?b)) n ?b"
      using 1 b by (subst key_at_swap) (auto intro!: heap_but_down_swap)
    have "heap_ok (key_at (sift_down (swap_at h i ?b) n ?b)) n \<and>
        mset (take n (sift_down (swap_at h i ?b) n ?b)) = mset (take n (swap_at h i ?b)) \<and>
        length (sift_down (swap_at h i ?b) n ?b) = length (swap_at h i ?b)"
      by (rule 1(1) [OF refl False down]) (use 1 b in auto)
    moreover have "sift_down h n i = sift_down (swap_at h i ?b) n ?b"
      using False by (subst sift_down.simps) (simp add: Let_def)
    ultimately show ?thesis
      using 1 b by simp
  qed
qed

section \<open>Invariant and abstraction of the queue\<close>

definition pq_elems :: "pqueue \<Rightarrow> order multiset" where
  "pq_elems pq = mset (take (pq_sz pq) (pq_heap pq))"

definition pq_inv :: "pqueue \<Rightarrow> bool" where
  "pq_inv pq \<longleftrightarrow> pq_sz pq \<le> pq_cap pq \<and> length (pq_heap pq) = pq_cap pq \<and> 0 < pq_cap pq \<and>
     heap_ok (key_at (pq_heap pq)) (pq_sz pq)"

lemma size_pq_elems [simp]: "pq_inv pq \<Longrightarrow> size (pq_elems pq) = pq_sz pq"
  by (simp add: pq_elems_def pq_inv_def)

lemma pq_elems_empty_iff: "pq_inv pq \<Longrightarrow> pq_elems pq = {#} \<longleftrightarrow> pq_sz pq = 0"
  by (metis size_pq_elems size_eq_0_iff_empty)

lemma pq_create_Some:
  assumes "pq_create env cells n = Some pq"
  shows "pq_inv pq" and "pq_elems pq = {#}" and "pq_cap pq = n" and "\<not> pq_shut pq" and "0 < n"
    and "pq_sz pq = 0"
  using assms by (auto simp: pq_create_def pq_inv_def pq_elems_def heap_ok_def split: if_splits)

lemma pq_push_Some:
  assumes inv: "pq_inv pq" and push: "pq_push pq x = Some pq'"
  shows "pq_inv pq' \<and> pq_elems pq' = add_mset x (pq_elems pq) \<and> pq_shut pq' = pq_shut pq \<and>
         pq_cap pq' = pq_cap pq \<and> pq_sz pq' = Suc (pq_sz pq)"
proof -
  let ?n = "pq_sz pq" and ?h = "(pq_heap pq)[pq_sz pq := x]"
  have n: "?n < pq_cap pq" and pq': "pq' = pq\<lparr>pq_heap := sift_up ?h ?n, pq_sz := Suc ?n\<rparr>"
    using push by (auto simp: pq_push_def split: if_splits)
  have "heap_but_up (key_at ?h) (Suc ?n) ?n"
    using inv by (intro heap_ok_append [of "key_at (pq_heap pq)"]) (auto simp: pq_inv_def key_at_def)
  then have "heap_ok (key_at (sift_up ?h ?n)) (Suc ?n) \<and>
      mset (take (Suc ?n) (sift_up ?h ?n)) = mset (take (Suc ?n) ?h) \<and> length (sift_up ?h ?n) = length ?h"
    using inv n by (intro sift_up_correct) (auto simp: pq_inv_def)
  then show ?thesis
    using inv n by (simp add: pq' pq_inv_def pq_elems_def mset_take_Suc)
qed

lemma pq_push_None: "pq_push pq x = None \<longleftrightarrow> pq_cap pq \<le> pq_sz pq"
  by (simp add: pq_push_def)

lemma mset_replace_root:
  "0 < n \<Longrightarrow> n < length h \<Longrightarrow>
   add_mset (h ! 0) (mset (take n (h[0 := h ! n]))) = mset (take (Suc n) h)"
  by (cases h; cases n) (auto simp: take_Suc_conv_app_nth)

lemma take_root_correct:
  assumes inv: "pq_inv pq" and pos: "0 < pq_sz pq" and tr: "take_root pq = (x, pq')"
  shows "pq_inv pq' \<and> pq_elems pq = add_mset x (pq_elems pq') \<and> pq_shut pq' = pq_shut pq \<and>
         pq_cap pq' = pq_cap pq \<and> Suc (pq_sz pq') = pq_sz pq \<and>
         (\<forall>y \<in># pq_elems pq. order_key x \<le> order_key y)"
proof -
  let ?h = "pq_heap pq" and ?n = "pq_sz pq - 1"
  have len: "?n < length ?h" "Suc ?n = pq_sz pq" and ok: "heap_ok (key_at ?h) (pq_sz pq)"
    using inv pos by (auto simp: pq_inv_def)
  have x: "x = ?h ! 0" using tr by (simp add: take_root_def Let_def)
  have least: "\<forall>y \<in># pq_elems pq. order_key x \<le> order_key y"
    using heap_root_least [OF ok] by (auto simp: pq_elems_def in_set_conv_nth x key_at_def)
  show ?thesis
  proof (cases "0 < ?n")
    case True
    let ?h0 = "?h[0 := ?h ! ?n]"
    have pq': "pq' = pq\<lparr>pq_heap := sift_down ?h0 ?n 0, pq_sz := ?n\<rparr>"
      using tr True by (simp add: take_root_def Let_def)
    have "heap_but_down (key_at ?h0) ?n 0"
      using ok by (auto simp: heap_but_down_def heap_ok_def key_at_def nth_list_update)
    then have "heap_ok (key_at (sift_down ?h0 ?n 0)) ?n \<and>
        mset (take ?n (sift_down ?h0 ?n 0)) = mset (take ?n ?h0) \<and> length (sift_down ?h0 ?n 0) = length ?h0"
      using True len by (intro sift_down_correct) auto
    moreover have "pq_elems pq = add_mset x (mset (take ?n ?h0))"
      using mset_replace_root [OF True len(1)] len(2) by (simp add: pq_elems_def x)
    ultimately show ?thesis
      using inv pos least by (auto simp: pq' pq_inv_def pq_elems_def)
  next
    case False
    then have "pq_sz pq = 1" "pq' = pq\<lparr>pq_sz := 0\<rparr>" using tr pos by (auto simp: take_root_def Let_def)
    then show ?thesis
      using inv least len by (auto simp: pq_inv_def pq_elems_def heap_ok_def x mset_take_Suc)
  qed
qed

definition pq_pop :: "pqueue \<Rightarrow> (order \<times> pqueue) option" where
  "pq_pop pq = (case pq_pop_blocking pq of (Pop_Ok x, pq') \<Rightarrow> Some (x, pq') | _ \<Rightarrow> None)"

lemma pq_pop_eq: "pq_pop pq = (if pq_sz pq = 0 then None else Some (take_root pq))"
  by (auto simp: pq_pop_def pq_pop_blocking_def split: prod.splits)

section \<open>The interface of a minimum queue\<close>

text \<open>
  What the users of the queue rely on: a push adds one element while there is room, a pop
  removes an element whose key is least, and a pop fails exactly on an empty queue.
\<close>

locale min_queue =
  fixes inv :: "'q \<Rightarrow> bool"
    and elems :: "'q \<Rightarrow> 'a multiset"
    and key :: "'a \<Rightarrow> 'k::linorder"
    and push :: "'q \<Rightarrow> 'a \<Rightarrow> 'q option"
    and pop :: "'q \<Rightarrow> ('a \<times> 'q) option"
  assumes push_law: "inv q \<Longrightarrow> push q x = Some q' \<Longrightarrow> inv q' \<and> elems q' = add_mset x (elems q)"
    and pop_none: "inv q \<Longrightarrow> pop q = None \<longleftrightarrow> elems q = {#}"
    and pop_law: "inv q \<Longrightarrow> pop q = Some (x, q') \<Longrightarrow>
      inv q' \<and> elems q = add_mset x (elems q') \<and> (\<forall>y \<in># elems q. key x \<le> key y)"
begin

text \<open>\<open>pops q xs q'\<close>: taking elements from \<open>q\<close> until it is empty or the taker stops gives
  \<open>xs\<close> and leaves \<open>q'\<close>.\<close>

inductive pops :: "'q \<Rightarrow> 'a list \<Rightarrow> 'q \<Rightarrow> bool" where
  pops_stop: "pops q [] q"
| pops_step: "pop q = Some (x, q') \<Longrightarrow> pops q' xs q'' \<Longrightarrow> pops q (x # xs) q''"

lemma pops_correct:
  assumes "pops q xs q'" and "inv q"
  shows "inv q' \<and> elems q = mset xs + elems q' \<and> sorted (map key xs) \<and>
         (\<forall>x \<in> set xs. \<forall>y \<in># elems q'. key x \<le> key y)"
  using assms
proof (induction rule: pops.induct)
  case (pops_stop q)
  then show ?case by simp
next
  case (pops_step q x q' xs q'')
  note law = pop_law [OF pops_step.prems pops_step.hyps(1)]
  then have IH: "inv q''" "elems q' = mset xs + elems q''" "sorted (map key xs)"
    "\<forall>x \<in> set xs. \<forall>y \<in># elems q''. key x \<le> key y"
    using pops_step.IH by auto
  then show ?case using law by auto
qed

fun push_all :: "'q \<Rightarrow> 'a list \<Rightarrow> 'q option" where
  "push_all q [] = Some q"
| "push_all q (x # xs) = (case push q x of None \<Rightarrow> None | Some q' \<Rightarrow> push_all q' xs)"

lemma push_all_correct:
  "push_all q xs = Some q' \<Longrightarrow> inv q \<Longrightarrow> inv q' \<and> elems q' = mset xs + elems q"
proof (induction xs arbitrary: q)
  case (Cons x xs)
  then obtain q1 where q1: "push q x = Some q1" "push_all q1 xs = Some q'"
    by (auto split: option.splits)
  then have "inv q1 \<and> elems q1 = add_mset x (elems q)" using push_law Cons.prems by blast
  then show ?case using Cons.IH q1 by simp
qed simp

text \<open>Pushing a list into an empty queue and taking everything out sorts it.\<close>

lemma push_pops_sorts:
  assumes "inv q" "elems q = {#}" "push_all q xs = Some q1" "pops q1 ys q2" "elems q2 = {#}"
  shows "mset ys = mset xs \<and> sorted (map key ys)"
  using assms push_all_correct [OF assms(3,1)] pops_correct [OF assms(4)] by simp

end

interpretation cargo_pq: min_queue pq_inv pq_elems order_key pq_push pq_pop
proof
  fix pq x pq'
  assume "pq_inv pq" "pq_push pq x = Some pq'"
  then show "pq_inv pq' \<and> pq_elems pq' = add_mset x (pq_elems pq)"
    using pq_push_Some by blast
next
  fix pq
  assume "pq_inv pq"
  then show "pq_pop pq = None \<longleftrightarrow> pq_elems pq = {#}"
    by (simp add: pq_pop_eq pq_elems_empty_iff)
next
  fix pq x pq'
  assume "pq_inv pq" "pq_pop pq = Some (x, pq')"
  then show "pq_inv pq' \<and> pq_elems pq = add_mset x (pq_elems pq') \<and>
      (\<forall>y \<in># pq_elems pq. order_key x \<le> order_key y)"
    using take_root_correct [of pq x pq'] by (auto simp: pq_pop_eq split: if_splits)
qed

lemma pq_drain_pops: "cargo_pq.pops pq (fst (pq_drain pq)) (snd (pq_drain pq)) \<and> pq_sz (snd (pq_drain pq)) = 0"
proof (induction pq rule: pq_drain.induct)
  case (1 pq)
  show ?case
  proof (cases "0 < pq_sz pq")
    case True
    obtain x pq' where tr: "take_root pq = (x, pq')" by force
    then have "pq_pop pq = Some (x, pq')" using True by (simp add: pq_pop_eq)
    moreover have "pq_drain pq = (x # fst (pq_drain pq'), snd (pq_drain pq'))"
      using True tr by (subst pq_drain.simps) (simp add: Let_def case_prod_beta)
    ultimately show ?thesis using 1 True tr by (auto intro: cargo_pq.pops_step)
  next
    case False
    then show ?thesis by (subst (1 2 3) pq_drain.simps) (simp add: cargo_pq.pops_stop)
  qed
qed

lemma pq_drain_frame: "pq_shut (snd (pq_drain pq)) = pq_shut pq \<and> pq_cap (snd (pq_drain pq)) = pq_cap pq"
proof (induction pq rule: pq_drain.induct)
  case (1 pq)
  then show ?case
    by (subst (1 2) pq_drain.simps) (auto simp: case_prod_beta take_root_def Let_def)
qed

lemma pq_drain_length: "length (fst (pq_drain pq)) + pq_sz (snd (pq_drain pq)) = pq_sz pq"
proof (induction pq rule: pq_drain.induct)
  case (1 pq)
  then show ?case
    by (subst (1 2) pq_drain.simps) (auto simp: case_prod_beta take_root_def Let_def)
qed

end
