(* ===== verification/C_Library.thy ===== *)
theory C_Library
  imports Prelude
begin

text \<open>
  The functions of the C library that the programs call on data, in the C locale and with
  glibc's behaviour where the standard leaves it open: character classes, \<open>strtok\<close>,
  \<open>strtol\<close> and \<open>atoi\<close>, decimal printing, \<open>fgets\<close>, \<open>sscanf\<close> on a word and an
  integer, \<open>snprintf\<close>'s truncation and \<open>getopt\<close>.
\<close>

section \<open>Characters\<close>

definition code_of :: "char \<Rightarrow> nat" where
  "code_of c = of_char c"

definition is_digit :: "char \<Rightarrow> bool" where
  "is_digit c \<longleftrightarrow> 48 \<le> code_of c \<and> code_of c \<le> 57"

definition is_upper :: "char \<Rightarrow> bool" where
  "is_upper c \<longleftrightarrow> 65 \<le> code_of c \<and> code_of c \<le> 90"

definition is_lower :: "char \<Rightarrow> bool" where
  "is_lower c \<longleftrightarrow> 97 \<le> code_of c \<and> code_of c \<le> 122"

definition is_alnum :: "char \<Rightarrow> bool" where
  "is_alnum c \<longleftrightarrow> is_digit c \<or> is_upper c \<or> is_lower c"

definition is_space :: "char \<Rightarrow> bool" where
  "is_space c \<longleftrightarrow> code_of c = 32 \<or> (9 \<le> code_of c \<and> code_of c \<le> 13)"

definition to_lower :: "char \<Rightarrow> char" where
  "to_lower c = (if is_upper c then char_of (code_of c + 32) else c)"

lemmas char_class_defs = is_digit_def is_upper_def is_lower_def is_alnum_def is_space_def code_of_def

lemma digit_not_space: "is_digit c \<Longrightarrow> \<not> is_space c"
  and alnum_not_space: "is_alnum c \<Longrightarrow> \<not> is_space c"
  by (auto simp: char_class_defs)

section \<open>Tokens\<close>

text \<open>
  One call of \<open>strtok_r\<close> on the rest of the text: the token, \<open>None\<close> for a null pointer,
  and the rest after the delimiter that ends it.
\<close>

definition strtok :: "char list \<Rightarrow> string \<Rightarrow> string option \<times> string" where
  "strtok ds s =
     (let t = dropWhile (\<lambda>c. c \<in> set ds) s in
      if t = [] then (None, [])
      else (Some (takeWhile (\<lambda>c. c \<notin> set ds) t), tl (dropWhile (\<lambda>c. c \<notin> set ds) t)))"

lemma strtok_token: "strtok ds s = (Some t, r) \<Longrightarrow> t \<noteq> [] \<and> set t \<inter> set ds = {} \<and> set t \<subseteq> set s"
  by (auto simp: strtok_def Let_def split: if_splits dest: set_takeWhileD set_dropWhileD)
     (metis (mono_tags, lifting) dropWhile_eq_Nil_conv hd_dropWhile set_takeWhileD takeWhile_eq_Nil_iff)+

lemma strtok_rest_shorter: "strtok ds s = (Some t, r) \<Longrightarrow> length r < length s"
proof -
  assume "strtok ds s = (Some t, r)"
  moreover define d where "d = dropWhile (\<lambda>c. c \<in> set ds) s"
  ultimately have d: "d \<noteq> []" and r: "r = tl (dropWhile (\<lambda>c. c \<notin> set ds) d)"
    by (auto simp: strtok_def Let_def split: if_splits)
  have "length r < length d"
    using d r length_dropWhile_le [of "\<lambda>c. c \<notin> set ds" d] by (cases d) auto
  also have "\<dots> \<le> length s" by (simp add: d_def length_dropWhile_le)
  finally show ?thesis .
qed

lemma strtok_step:
  assumes "t \<noteq> []" "set t \<inter> set ds = {}" "d \<in> set ds"
  shows "strtok ds (t @ d # r) = (Some t, r)"
proof -
  obtain a u where t: "t = a # u" using assms(1) by (cases t) auto
  then have "dropWhile (\<lambda>c. c \<in> set ds) (t @ d # r) = t @ d # r" using assms by auto
  then show ?thesis
    using assms by (auto simp: strtok_def Let_def takeWhile_append_stop dropWhile_append_stop disjoint_iff)
qed

lemma strtok_last:
  assumes "t \<noteq> []" "set t \<inter> set ds = {}"
  shows "strtok ds t = (Some t, [])"
proof -
  obtain a u where t: "t = a # u" using assms(1) by (cases t) auto
  then have "dropWhile (\<lambda>c. c \<in> set ds) t = t" using assms by auto
  then show ?thesis
    using assms by (auto simp: strtok_def Let_def disjoint_iff takeWhile_all dropWhile_all)
qed

lemma strtok_Nil [simp]: "strtok ds [] = (None, [])"
  by (simp add: strtok_def)

section \<open>Numbers\<close>

definition digit_val :: "char \<Rightarrow> nat" where
  "digit_val c = code_of c - 48"

definition dec_value :: "string \<Rightarrow> nat" where
  "dec_value ds = foldl (\<lambda>n c. 10 * n + digit_val c) 0 ds"

text \<open>\<open>strtol\<close> in base 10: the value, the text from \<open>endptr\<close> on, and whether \<open>ERANGE\<close> is set.\<close>

definition strtol :: "string \<Rightarrow> int \<times> string \<times> bool" where
  "strtol s =
     (let s1 = dropWhile is_space s;
          neg = (s1 \<noteq> [] \<and> hd s1 = CHR ''-'');
          s2 = (if s1 \<noteq> [] \<and> (hd s1 = CHR ''-'' \<or> hd s1 = CHR ''+'') then tl s1 else s1);
          ds = takeWhile is_digit s2;
          v = (if neg then - int (dec_value ds) else int (dec_value ds));
          rest = dropWhile is_digit s2
      in if ds = [] then (0, s, False)
         else if v > long_max then (long_max, rest, True)
         else if v < long_min then (long_min, rest, True)
         else (v, rest, False))"

definition atoi :: "string \<Rightarrow> int" where
  "atoi s = wrap32 (fst (strtol s))"

fun nat_dec :: "nat \<Rightarrow> string" where
  "nat_dec n = (if n < 10 then [char_of (n + 48)] else nat_dec (n div 10) @ [char_of (n mod 10 + 48)])"

declare nat_dec.simps [simp del]

definition int_dec :: "int \<Rightarrow> string" where
  "int_dec i = (if i < 0 then CHR ''-'' # nat_dec (nat (- i)) else nat_dec (nat i))"

lemma nat_dec_nonempty [simp]: "nat_dec n \<noteq> []"
  by (subst nat_dec.simps) simp

lemma code_of_digit_char: "d < 10 \<Longrightarrow> code_of (char_of (d + 48)) = d + 48"
  by (simp add: code_of_def)

lemma nat_dec_digits: "c \<in> set (nat_dec n) \<Longrightarrow> is_digit c"
proof (induction n rule: nat_dec.induct)
  case (1 n)
  have "is_digit (char_of (d + 48))" if "d < 10" for d :: nat
    using that by (simp add: is_digit_def code_of_digit_char)
  then show ?case
    using 1 by (subst (asm) (2) nat_dec.simps) (auto split: if_splits)
qed

lemma dec_value_snoc: "dec_value (ds @ [c]) = 10 * dec_value ds + digit_val c"
  by (simp add: dec_value_def)

lemma dec_value_nat_dec [simp]: "dec_value (nat_dec n) = n"
proof (induction n rule: nat_dec.induct)
  case (1 n)
  show ?case
  proof (cases "n < 10")
    case True
    then show ?thesis
      by (subst nat_dec.simps) (simp add: dec_value_def digit_val_def code_of_digit_char)
  next
    case False
    then have "dec_value (nat_dec n) = 10 * (n div 10) + n mod 10"
      using 1 by (subst nat_dec.simps)
        (simp add: dec_value_snoc digit_val_def code_of_digit_char)
    then show ?thesis by simp
  qed
qed

lemma nat_dec_hd: "\<exists>c cs. nat_dec n = c # cs \<and> is_digit c"
  by (metis list.exhaust list.set_intros(1) nat_dec_digits nat_dec_nonempty)

lemma nat_dec_length: "n < 10 ^ k \<Longrightarrow> 0 < k \<Longrightarrow> length (nat_dec n) \<le> k"
proof (induction n arbitrary: k rule: nat_dec.induct)
  case (1 n)
  show ?case
  proof (cases "n < 10")
    case True
    then show ?thesis using 1 by (subst nat_dec.simps) simp
  next
    case False
    obtain j where j: "k = Suc j" using 1 by (cases k) auto
    have "0 < j" using False 1 j by (cases j) auto
    moreover have "n div 10 < 10 ^ j" using 1 j by (simp add: less_mult_imp_div_less mult.commute)
    ultimately show ?thesis using 1 False j by (subst nat_dec.simps) simp
  qed
qed

lemma strtol_int_dec:
  assumes "long_min \<le> i" "i \<le> long_max" "r = [] \<or> \<not> is_digit (hd r)"
  shows "strtol (int_dec i @ r) = (i, r, False)"
proof -
  have tw: "takeWhile is_digit (nat_dec n @ r) = nat_dec n"
    and dw: "dropWhile is_digit (nat_dec n @ r) = r" for n
    using assms(3) by (cases r; auto simp: takeWhile_append_stop dropWhile_append_stop nat_dec_digits
        takeWhile_all)+
  have lead: "dropWhile is_space (nat_dec n @ r) = nat_dec n @ r \<and>
      hd (nat_dec n @ r) \<noteq> CHR ''-'' \<and> hd (nat_dec n @ r) \<noteq> CHR ''+''" for n
  proof -
    obtain c cs where "nat_dec n = c # cs" "is_digit c" using nat_dec_hd by blast
    then show ?thesis by (auto simp: digit_not_space) (auto simp: char_class_defs)
  qed
  have minus: "\<not> is_space CHR ''-''" by (simp add: char_class_defs)
  show ?thesis
  proof (cases "i < 0")
    case True
    then show ?thesis
      using assms(1,2) minus tw dw by (simp add: strtol_def int_dec_def Let_def limits_defs)
  next
    case False
    then show ?thesis
      using assms(1,2) lead tw dw by (simp add: strtol_def int_dec_def Let_def limits_defs)
  qed
qed

lemma set_int_dec: "c \<in> set (int_dec i) \<Longrightarrow> is_digit c \<or> c = CHR ''-''"
  by (auto simp: int_dec_def nat_dec_digits split: if_splits)

lemma int_dec_nonempty [simp]: "int_dec i \<noteq> []"
  by (simp add: int_dec_def)

section \<open>Reading and writing text\<close>

text \<open>One call of \<open>fgets\<close> with a buffer of \<open>k + 1\<close> bytes reads at most \<open>k\<close> characters,
  up to and including a newline.\<close>

fun fgets_chunk :: "nat \<Rightarrow> string \<Rightarrow> string" where
  "fgets_chunk 0 s = []"
| "fgets_chunk (Suc k) [] = []"
| "fgets_chunk (Suc k) (c # s) = c # (if c = LF then [] else fgets_chunk k s)"

lemma length_fgets_chunk: "length (fgets_chunk k s) \<le> k \<and> length (fgets_chunk k s) \<le> length s"
  by (induction k s rule: fgets_chunk.induct) auto

lemma fgets_chunk_prefix: "fgets_chunk k s @ drop (length (fgets_chunk k s)) s = s"
  by (induction k s rule: fgets_chunk.induct) auto

lemma fgets_chunk_pos: "s \<noteq> [] \<Longrightarrow> 0 < k \<Longrightarrow> fgets_chunk k s \<noteq> []"
  by (cases s; cases k) auto

text \<open>The buffers that repeated calls \<open>fgets(line, n, fp)\<close> return on a file, until its end.\<close>

function fgets_lines :: "nat \<Rightarrow> string \<Rightarrow> string list" where
  "fgets_lines n s =
     (if s = [] \<or> n < 2 then []
      else (let l = fgets_chunk (n - 1) s in l # fgets_lines n (drop (length l) s)))"
  by pat_completeness auto
termination
proof (relation "measure (\<lambda>(n, s). length s)")
  fix n :: nat and s l :: string
  assume "\<not> (s = [] \<or> n < 2)" and "l = fgets_chunk (n - 1) s"
  then have "l \<noteq> []" "s \<noteq> []" using fgets_chunk_pos [of s "n - 1"] by auto
  then show "((n, drop (length l) s), n, s) \<in> measure (\<lambda>(n, s). length s)" by simp
qed simp

declare fgets_lines.simps [simp del]

lemma fgets_lines_Nil [simp]: "fgets_lines n [] = []"
  by (simp add: fgets_lines.simps)

lemma fgets_chunk_line:
  "LF \<notin> set l \<Longrightarrow> length l < k \<Longrightarrow> fgets_chunk k (l @ LF # r) = l @ [LF]"
proof (induction l arbitrary: k)
  case Nil
  then show ?case by (cases k) auto
next
  case (Cons a l)
  then show ?case by (cases k) auto
qed

lemma fgets_lines_line:
  "LF \<notin> set l \<Longrightarrow> length l < n - 1 \<Longrightarrow> fgets_lines n (l @ LF # r) = (l @ [LF]) # fgets_lines n r"
  by (subst fgets_lines.simps) (auto simp: fgets_chunk_line Let_def)

text \<open>\<open>snprintf(buf, n, ...)\<close> leaves at most \<open>n - 1\<close> characters of the text in the buffer.\<close>

definition snprintf :: "nat \<Rightarrow> string \<Rightarrow> string" where
  "snprintf n s = take (n - 1) s"

lemma snprintf_fits [simp]: "length s < n \<Longrightarrow> snprintf n s = s"
  by (simp add: snprintf_def)

text \<open>The conversions \<open>%Ns\<close> and \<open>%d\<close> of \<open>sscanf\<close>: the value and the rest of the input.\<close>

definition scan_word :: "nat \<Rightarrow> string \<Rightarrow> (string \<times> string) option" where
  "scan_word n s =
     (let t = dropWhile is_space s; w = take n (takeWhile (\<lambda>c. \<not> is_space c) t) in
      if w = [] then None else Some (w, drop (length w) t))"

definition scan_int :: "string \<Rightarrow> (int \<times> string) option" where
  "scan_int s = (case strtol s of (v, r, e) \<Rightarrow> if r = s then None else Some (wrap32 v, r))"

section \<open>getopt\<close>

text \<open>
  \<open>getopt\<close> with an option string in which every option takes an argument: the sequence of
  its results and the remaining positional arguments (glibc moves them behind the options).
  The first list is the rest of the argument element being read.
\<close>

datatype opt_event = Opt char string | Opt_Missing char | Opt_Unknown char

function getopt :: "char list \<Rightarrow> string \<Rightarrow> string list \<Rightarrow> opt_event list \<times> string list" where
  "getopt opts [] [] = ([], [])"
| "getopt opts [] (a # as) =
     (if a = ''--'' then ([], as)
      else if length a \<ge> 2 \<and> hd a = CHR ''-'' then getopt opts (tl a) as
      else (case getopt opts [] as of (es, ns) \<Rightarrow> (es, a # ns)))"
| "getopt opts (c # cs) as =
     (if c \<notin> set opts then
        (case getopt opts cs as of (es, ns) \<Rightarrow> (Opt_Unknown c # es, ns))
      else if cs \<noteq> [] then
        (case getopt opts [] as of (es, ns) \<Rightarrow> (Opt c cs # es, ns))
      else (case as of
              [] \<Rightarrow> ([Opt_Missing c], [])
            | b # bs \<Rightarrow> (case getopt opts [] bs of (es, ns) \<Rightarrow> (Opt c b # es, ns))))"
  by pat_completeness auto
termination
  by (relation "measure (\<lambda>(opts, cs, as). 2 * length cs + sum_list (map (\<lambda>a. 2 * length a + 1) as))") auto

lemma getopt_pair:
  "o1 \<in> set opts \<Longrightarrow> o1 \<noteq> CHR ''-'' \<Longrightarrow>
   getopt opts [] ([CHR ''-'', o1] # v # as) =
     (Opt o1 v # fst (getopt opts [] as), snd (getopt opts [] as))"
  by (simp add: case_prod_beta)

section \<open>Padding\<close>

definition pad_left :: "nat \<Rightarrow> string \<Rightarrow> string" where
  "pad_left n s = replicate (n - length s) CHR '' '' @ s"

definition pad_right :: "nat \<Rightarrow> string \<Rightarrow> string" where
  "pad_right n s = s @ replicate (n - length s) CHR '' ''"

end
