(* ===== verification/Cargo_Parser.thy ===== *)
theory Cargo_Parser
  imports Cargo_Order C_Library
begin

text \<open>
  \<open>HW5/src/parser.c\<close> and \<open>HW5/src/parse_cli_args.c\<close>: the reader of the orders file and
  of the command line.  A rejected line or command line is \<open>None\<close>.
\<close>

section \<open>One line\<close>

definition is_valid_name :: "string \<Rightarrow> bool" where
  "is_valid_name s \<longleftrightarrow> s \<noteq> [] \<and> length s \<le> MAX_NAME_LEN \<and> list_all (\<lambda>c. is_alnum c \<or> c = CHR ''_'') s"

definition parse_int :: "string \<Rightarrow> int option" where
  "parse_int s =
     (if s = [] then None
      else (case strtol s of (v, endptr, erange) \<Rightarrow>
        if endptr = s \<or> endptr \<noteq> [] then None
        else if erange then None
        else if v < int_min \<or> v > int_max then None
        else Some v))"

definition rstrip_newline :: "string \<Rightarrow> string" where
  "rstrip_newline line = rev (dropWhile (\<lambda>c. c = LF \<or> c = CR) (rev line))"

definition is_blank :: "string \<Rightarrow> bool" where
  "is_blank s = list_all is_space s"

definition has_duplicate_id :: "order list \<Rightarrow> int \<Rightarrow> bool" where
  "has_duplicate_id orders i = list_ex (\<lambda>x. oid x = i) orders"

definition parse_one_line :: "string \<Rightarrow> order option" where
  "parse_one_line line =
     (let delim = [CHR '' '', CHR 0x09];
          (tok_id, s1) = strtok delim line;
          (tok_name, s2) = strtok delim s1;
          (tok_priority, s3) = strtok delim s2;
          (tok_duration, s4) = strtok delim s3;
          (tok_extra, s5) = strtok delim s4
      in case (tok_id, tok_name, tok_priority, tok_duration) of
        (Some ti, Some tn, Some tp, Some td) \<Rightarrow>
          if tok_extra \<noteq> None then None
          else (case parse_int ti of
            None \<Rightarrow> None
          | Some i \<Rightarrow>
              if i < 0 then None
              else if \<not> is_valid_name tn then None
              else (case priority_from_string tp of
                None \<Rightarrow> None
              | Some prio \<Rightarrow>
                  (case parse_int td of
                    None \<Rightarrow> None
                  | Some d \<Rightarrow>
                      if d \<le> 0 then None
                      else Some \<lparr>oid = i, oname = strncpy MAX_NAME_LEN tn, oprio = prio, odur = d\<rparr>)))
      | _ \<Rightarrow> None)"

section \<open>The orders file\<close>

definition LINE_BUF_SIZE :: nat where "LINE_BUF_SIZE = 1024"
definition INITIAL_CAPACITY :: nat where "INITIAL_CAPACITY = 16"

text \<open>
  The loop of \<open>parse_orders_file\<close> over the buffers that \<open>fgets\<close> returns; \<open>grow\<close> tells
  whether \<open>realloc\<close> to a capacity succeeds.
\<close>

fun orders_loop :: "(nat \<Rightarrow> bool) \<Rightarrow> string list \<Rightarrow> nat \<Rightarrow> order list \<Rightarrow> order list" where
  "orders_loop grow [] capacity orders = orders"
| "orders_loop grow (buf # bufs) capacity orders =
     (let line = rstrip_newline (cstr buf) in
      if is_blank line then orders_loop grow bufs capacity orders
      else (case parse_one_line line of
        None \<Rightarrow> orders_loop grow bufs capacity orders
      | Some parsed \<Rightarrow>
          if has_duplicate_id orders (oid parsed) then orders_loop grow bufs capacity orders
          else if length orders = capacity then
            (if grow (capacity * 2) then orders_loop grow bufs (capacity * 2) (orders @ [parsed])
             else orders)
          else orders_loop grow bufs capacity (orders @ [parsed])))"

text \<open>The file is \<open>None\<close> when \<open>fopen\<close> fails; \<open>malloc_ok\<close> is the first allocation.\<close>

definition parse_orders_file :: "string option \<Rightarrow> bool \<Rightarrow> (nat \<Rightarrow> bool) \<Rightarrow> order list option" where
  "parse_orders_file file malloc_ok grow =
     (case file of
        None \<Rightarrow> None
      | Some content \<Rightarrow>
          if \<not> malloc_ok then None
          else Some (orders_loop grow (fgets_lines LINE_BUF_SIZE content) INITIAL_CAPACITY []))"

section \<open>The command line\<close>

definition parse_positive_int :: "string \<Rightarrow> int option" where
  "parse_positive_int s =
     (if s = [] then None
      else (case strtol s of (v, endptr, erange) \<Rightarrow>
        if endptr = s \<or> endptr \<noteq> [] then None
        else if v < 1 \<or> v > int_max then None
        else Some v))"

record cli =
  num_couriers :: int
  input_path :: "string option"
  stats_path :: "string option"

fun cli_options :: "opt_event list \<Rightarrow> cli \<Rightarrow> cli option" where
  "cli_options [] c = Some c"
| "cli_options (Opt f v # es) c =
     (if f = CHR ''n'' then
        (case parse_positive_int v of
           None \<Rightarrow> None
         | Some n \<Rightarrow> cli_options es (c\<lparr>num_couriers := n\<rparr>))
      else if f = CHR ''i'' then cli_options es (c\<lparr>input_path := Some v\<rparr>)
      else if f = CHR ''s'' then cli_options es (c\<lparr>stats_path := Some v\<rparr>)
      else None)"
| "cli_options (Opt_Missing f # es) c = None"
| "cli_options (Opt_Unknown f # es) c = None"

definition parse_cli_args :: "string list \<Rightarrow> cli option" where
  "parse_cli_args args =
     (case getopt ''nis'' [] args of (events, positional) \<Rightarrow>
        (case cli_options events \<lparr>num_couriers = 0, input_path = None, stats_path = None\<rparr> of
           None \<Rightarrow> None
         | Some c \<Rightarrow>
             if num_couriers c < 1 \<or> input_path c = None \<or> stats_path c = None then None
             else if positional \<noteq> [] then None
             else Some c))"

section \<open>What is accepted\<close>

definition order_wf :: "order \<Rightarrow> bool" where
  "order_wf x \<longleftrightarrow> 0 \<le> oid x \<and> oid x \<le> int_max \<and> is_valid_name (oname x) \<and>
     0 < odur x \<and> odur x \<le> int_max"

lemma parse_int_range: "parse_int s = Some v \<Longrightarrow> int_min \<le> v \<and> v \<le> int_max"
  by (auto simp: parse_int_def split: if_splits prod.splits)

lemma parse_one_line_wf:
  assumes "parse_one_line line = Some x"
  shows "order_wf x"
  using assms parse_int_range
  by (fastforce simp: parse_one_line_def order_wf_def is_valid_name_def Let_def
      split: prod.splits option.splits if_splits)

lemma orders_loop_inv:
  assumes "list_all order_wf orders" "distinct (map oid orders)"
  shows "list_all order_wf (orders_loop grow bufs cap orders) \<and>
         distinct (map oid (orders_loop grow bufs cap orders)) \<and>
         (\<exists>more. orders_loop grow bufs cap orders = orders @ more)"
  using assms
proof (induction grow bufs cap orders rule: orders_loop.induct)
  case (2 grow buf bufs cap orders)
  let ?line = "rstrip_newline (cstr buf)"
  show ?case
  proof (cases "\<not> is_blank ?line \<and> (\<exists>x. parse_one_line ?line = Some x \<and> \<not> has_duplicate_id orders (oid x))")
    case False
    then show ?thesis
      using "2.IH"(1) [OF refl] "2.IH"(2) [OF refl] "2.IH"(3) [OF refl] "2.prems"
      by (cases "is_blank ?line"; cases "parse_one_line ?line") auto
  next
    case True
    then obtain x where nb: "\<not> is_blank ?line" and x: "parse_one_line ?line = Some x"
      and nd: "\<not> has_duplicate_id orders (oid x)" by blast
    have ext: "list_all order_wf (orders @ [x])" "distinct (map oid (orders @ [x]))"
      using nd "2.prems" parse_one_line_wf [OF x] by (auto simp: has_duplicate_id_def list_ex_iff)
    show ?thesis
    proof (cases "length orders = cap")
      case True
      then show ?thesis
        using "2.IH"(4) [OF refl nb x nd True _ ext] nb x nd "2.prems" by (auto simp: Let_def)
    next
      case False
      then show ?thesis
        using "2.IH"(5) [OF refl nb x nd False ext] nb x nd by (auto simp: Let_def)
    qed
  qed
qed simp

section \<open>Printing and reading back\<close>

definition order_line :: "order \<Rightarrow> string" where
  "order_line x = int_dec (oid x) @ '' '' @ oname x @ '' '' @ priority_to_string (oprio x) @ '' '' @
     int_dec (odur x)"

lemma parse_int_int_dec: "int_min \<le> i \<Longrightarrow> i \<le> int_max \<Longrightarrow> parse_int (int_dec i) = Some i"
  using strtol_int_dec [of i "[]"] int_dec_nonempty [of i]
  by (simp add: parse_int_def limits_defs del: int_dec_nonempty)

lemma int_dec_no_delim: "set (int_dec i) \<inter> {CHR '' '', CHR 0x09, LF, CR, NUL} = {}"
  by (auto dest!: set_int_dec simp: char_class_defs)

lemma name_no_delim: "is_valid_name s \<Longrightarrow> set s \<inter> {CHR '' '', CHR 0x09, LF, CR, NUL} = {}"
  by (auto simp: is_valid_name_def list_all_iff char_class_defs)

lemma priority_no_delim: "set (priority_to_string p) \<inter> {CHR '' '', CHR 0x09, LF, CR, NUL} = {}"
  and priority_nonempty [simp]: "priority_to_string p \<noteq> []"
  and length_priority: "length (priority_to_string p) \<le> 8"
  by (cases p; simp)+

lemma strtok_field:
  assumes "t \<noteq> []" "set t \<inter> {CHR '' '', CHR 0x09, LF, CR, NUL} = {}"
  shows "strtok [CHR '' '', CHR 0x09] (t @ CHR '' '' # r) = (Some t, r)"
    and "strtok [CHR '' '', CHR 0x09] t = (Some t, [])"
  using assms by (auto intro!: strtok_step strtok_last)

lemma parse_order_line:
  assumes wf: "order_wf x"
  shows "parse_one_line (order_line x) = Some x"
proof -
  let ?d = "[CHR '' '', CHR 0x09]"
  let ?r3 = "int_dec (odur x)" let ?r2 = "priority_to_string (oprio x) @ CHR '' '' # ?r3"
  let ?r1 = "oname x @ CHR '' '' # ?r2"
  have name: "is_valid_name (oname x)" using wf by (simp add: order_wf_def)
  have toks: "strtok ?d (int_dec (oid x) @ CHR '' '' # ?r1) = (Some (int_dec (oid x)), ?r1)"
      "strtok ?d ?r1 = (Some (oname x), ?r2)"
      "strtok ?d ?r2 = (Some (priority_to_string (oprio x)), ?r3)"
      "strtok ?d ?r3 = (Some (int_dec (odur x)), [])"
    using strtok_field int_dec_no_delim name_no_delim [OF name] priority_no_delim name
    by (auto simp: is_valid_name_def)
  have "parse_int (int_dec (oid x)) = Some (oid x)" "parse_int (int_dec (odur x)) = Some (odur x)"
    using wf by (auto intro!: parse_int_int_dec simp: order_wf_def limits_defs)
  then show ?thesis
    using toks wf by (simp add: parse_one_line_def order_line_def Let_def order_wf_def
        is_valid_name_def)
qed

lemma order_line_fits:
  assumes "order_wf x"
  shows "length (order_line x) < LINE_BUF_SIZE - 1"
proof -
  have "length (int_dec i) \<le> 10" if "0 \<le> i" "i \<le> int_max" for i
    using that nat_dec_length [of "nat i" 10] by (simp add: int_dec_def limits_defs)
  then have "length (int_dec (oid x)) \<le> 10" "length (int_dec (odur x)) \<le> 10" "length (oname x) \<le> 32"
    using assms by (auto simp: order_wf_def is_valid_name_def MAX_NAME_LEN_def)
  then show ?thesis
    using length_priority [of "oprio x"] by (simp add: order_line_def LINE_BUF_SIZE_def)
qed

lemma rstrip_newline_snoc:
  "s \<noteq> [] \<Longrightarrow> last s \<noteq> LF \<Longrightarrow> last s \<noteq> CR \<Longrightarrow> rstrip_newline (s @ [LF]) = s"
  by (cases s rule: rev_cases) (simp_all add: rstrip_newline_def)

lemma order_line_chars:
  assumes "order_wf x"
  shows "set (order_line x) \<inter> {LF, CR, NUL} = {}" and "rstrip_newline (cstr (order_line x @ [LF])) = order_line x"
    and "\<not> is_blank (order_line x)"
proof -
  have name: "is_valid_name (oname x)" using assms by (simp add: order_wf_def)
  show chars: "set (order_line x) \<inter> {LF, CR, NUL} = {}"
    using int_dec_no_delim [of "oid x"] int_dec_no_delim [of "odur x"] name_no_delim [OF name]
      priority_no_delim [of "oprio x"] by (auto simp: order_line_def)
  have ne: "order_line x \<noteq> []" by (simp add: order_line_def)
  then have "last (order_line x) \<in> set (order_line x)" by simp
  then have "last (order_line x) \<noteq> LF" "last (order_line x) \<noteq> CR" using chars by auto
  then have "rstrip_newline (order_line x @ [LF]) = order_line x" by (intro rstrip_newline_snoc ne)
  moreover have "cstr (order_line x @ [LF]) = order_line x @ [LF]"
    using chars by (intro cstr_id) auto
  ultimately show "rstrip_newline (cstr (order_line x @ [LF])) = order_line x"
    by simp
  show "\<not> is_blank (order_line x)"
  proof -
    have "oname x \<noteq> []" "hd (oname x) \<in> set (oname x)" "set (oname x) \<subseteq> set (order_line x)"
      using name by (auto simp: is_valid_name_def order_line_def)
    moreover from this have "is_alnum (hd (oname x)) \<or> hd (oname x) = CHR ''_''"
      using name by (simp add: is_valid_name_def list_all_iff)
    then have "\<not> is_space (hd (oname x))" by (auto simp: char_class_defs)
    ultimately show ?thesis unfolding is_blank_def list_all_iff by blast
  qed
qed

lemma orders_loop_accept:
  assumes "rstrip_newline (cstr b) = l" "\<not> is_blank l" "parse_one_line l = Some x"
    "\<not> has_duplicate_id acc (oid x)" "grow (cap * 2)"
  shows "orders_loop grow (b # bs) cap acc =
    orders_loop grow bs (if length acc = cap then cap * 2 else cap) (acc @ [x])"
  using assms by simp

lemma orders_loop_lines:
  assumes "list_all order_wf (acc @ xs)" "distinct (map oid (acc @ xs))" "\<And>n. grow n"
    "length acc \<le> cap" "0 < cap"
  shows "orders_loop grow (fgets_lines LINE_BUF_SIZE (concat (map (\<lambda>x. order_line x @ [LF]) xs))) cap acc =
    acc @ xs"
  using assms
proof (induction xs arbitrary: acc cap)
  case (Cons x xs)
  let ?r = "concat (map (\<lambda>x. order_line x @ [LF]) xs)"
  have wf: "order_wf x" using Cons.prems by simp
  have lines: "fgets_lines LINE_BUF_SIZE (order_line x @ LF # ?r) =
      (order_line x @ [LF]) # fgets_lines LINE_BUF_SIZE ?r"
    using order_line_fits [OF wf] order_line_chars(1) [OF wf] by (intro fgets_lines_line) auto
  have dup: "\<not> has_duplicate_id acc (oid x)"
  proof -
    have "oid x \<notin> oid ` set acc" using Cons.prems(2) by auto
    then show ?thesis unfolding has_duplicate_id_def list_ex_iff by (metis imageI)
  qed
  have "orders_loop grow ((order_line x @ [LF]) # fgets_lines LINE_BUF_SIZE ?r) cap acc =
      orders_loop grow (fgets_lines LINE_BUF_SIZE ?r) (if length acc = cap then cap * 2 else cap) (acc @ [x])"
    by (rule orders_loop_accept [OF order_line_chars(2,3) [OF wf] parse_order_line [OF wf] dup Cons.prems(3)])
  also have "\<dots> = (acc @ [x]) @ xs"
    using Cons.prems by (intro Cons.IH) auto
  finally show ?case by (simp add: lines)
qed simp

lemma parse_cli_args_positive: "parse_cli_args args = Some c \<Longrightarrow> 0 < num_couriers c"
  by (auto simp: parse_cli_args_def split: prod.splits option.splits if_splits)

end
