(* ===== verification/Cargo_System.thy ===== *)
theory Cargo_System
  imports Cargo_Queue Cargo_Parser
begin

text \<open>
  \<open>HW5/src/courier.c\<close>, \<open>HW5/src/stats.c\<close>, \<open>HW5/src/signal_handler.c\<close> and
  \<open>HW5/main.c\<close>: the courier threads, the main thread and the SIGINT handler, interleaved.
  A step of a thread is one access to the state it shares: a call of the queue (atomic, since it
  holds the mutex of the queue), one atomic addition, or one line of \<open>log_printf\<close> (atomic, since
  it holds the mutex of the log).  The lines are the list \<open>s_log\<close>; \<open>s_taken\<close> is a history
  variable, the orders in the sequence in which the queue handed them out.
\<close>

section \<open>State\<close>

datatype log_event =
    Ev_Queued order
  | Ev_Shift_Start int nat
  | Ev_Waiting int
  | Ev_Start int order
  | Ev_Complete int order int
  | Ev_Shift_Over int
  | Ev_Sigint nat
  | Ev_Cancelled order
  | Ev_Shift_End int int int
  | Ev_Shutdown_Complete

text \<open>
  Where a courier thread is: before the line WAITING, before the pop, inside
  \<open>pthread_cond_wait\<close>, before the line DELIVERY_START, asleep for the delivery, before each of
  the additions, before the line SHIFT_OVER, returned.
\<close>

datatype courier_pc =
    At_Top | At_Pop | Asleep
  | Popped order | Delivering order | Count_Global order | Count_Time order | Count_Own order
  | Leaving | Over

record courier =
  c_id :: int
  c_pc :: courier_pc
  c_completed :: int
  c_time :: int

definition courier_stats_init :: "int \<Rightarrow> courier" where
  "courier_stats_init i = \<lparr>c_id = i, c_pc = At_Top, c_completed = 0, c_time = 0\<rparr>"

text \<open>
  Where the main thread is; after \<open>pq_drain\<close> it holds the orders it still has to report as
  cancelled, first the line SIGINT_RECEIVED and then one line and one addition for each.
\<close>

datatype main_pc =
    Spawning | Polling | Cancelling | Drained "order list" | Reporting "order list"
  | Count_Cancel "order list" | Shutting | Joining | Ended | Fail_Joining | Failed

record sys =
  s_pq :: pqueue
  s_completed :: int
  s_cancelled :: int
  s_time :: int
  s_sig :: bool
  s_couriers :: "courier list"
  s_main :: main_pc
  s_num :: nat
  s_n :: nat
  s_log :: "log_event list"
  s_taken :: "order list"

section \<open>The courier thread\<close>

definition duration_ms :: "order \<Rightarrow> int" where
  "duration_ms x = odur x * SIM_UNIT_MS"

text \<open>One step of courier \<open>i\<close>; \<open>None\<close> when it cannot move by itself.\<close>

definition courier_step :: "sys \<Rightarrow> nat \<Rightarrow> sys option" where
  "courier_step s i =
     (let c = s_couriers s ! i;
          goto = (\<lambda>pc. (s_couriers s)[i := c\<lparr>c_pc := pc\<rparr>]);
          say = (\<lambda>ev. s_log s @ [ev])
      in case c_pc c of
        At_Top \<Rightarrow> Some (s\<lparr>s_couriers := goto At_Pop, s_log := say (Ev_Waiting (c_id c))\<rparr>)
      | At_Pop \<Rightarrow>
          (case pq_pop_blocking (s_pq s) of
             (Pop_Wait, pq') \<Rightarrow> Some (s\<lparr>s_pq := pq', s_couriers := goto Asleep\<rparr>)
           | (Pop_Ok x, pq') \<Rightarrow>
               Some (s\<lparr>s_pq := pq', s_couriers := goto (Popped x), s_taken := s_taken s @ [x]\<rparr>)
           | (Pop_Shutdown, pq') \<Rightarrow> Some (s\<lparr>s_pq := pq', s_couriers := goto Leaving\<rparr>))
      | Asleep \<Rightarrow> None
      | Popped x \<Rightarrow> Some (s\<lparr>s_couriers := goto (Delivering x), s_log := say (Ev_Start (c_id c) x)\<rparr>)
      | Delivering x \<Rightarrow>
          Some (s\<lparr>s_couriers := goto (Count_Global x),
                  s_log := say (Ev_Complete (c_id c) x (duration_ms x))\<rparr>)
      | Count_Global x \<Rightarrow>
          Some (s\<lparr>s_completed := wrap32 (s_completed s + 1), s_couriers := goto (Count_Time x)\<rparr>)
      | Count_Time x \<Rightarrow>
          Some (s\<lparr>s_time := wrap64 (s_time s + duration_ms x), s_couriers := goto (Count_Own x)\<rparr>)
      | Count_Own x \<Rightarrow>
          Some (s\<lparr>s_couriers := (s_couriers s)[i := c\<lparr>c_pc := At_Top,
                    c_completed := wrap32 (c_completed c + 1),
                    c_time := wrap64 (c_time c + duration_ms x)\<rparr>]\<rparr>)
      | Leaving \<Rightarrow> Some (s\<lparr>s_couriers := goto Over, s_log := say (Ev_Shift_Over (c_id c))\<rparr>)
      | Over \<Rightarrow> None)"

text \<open>What \<open>pthread_cond_broadcast\<close> does to the couriers.\<close>

definition wake :: "courier \<Rightarrow> courier" where
  "wake c = (if c_pc c = Asleep then c\<lparr>c_pc := At_Pop\<rparr> else c)"

section \<open>The main thread\<close>

definition shutdown_queue :: "sys \<Rightarrow> sys" where
  "shutdown_queue s = s\<lparr>s_pq := pq_shutdown (s_pq s), s_couriers := map wake (s_couriers s)\<rparr>"

text \<open>
  \<open>handle_shutdown_cancellations\<close> up to its first line; \<open>calloc_ok\<close> is the answer of its
  allocation.  The line and the additions that follow are the steps \<open>Drained\<close>, \<open>Reporting\<close>
  and \<open>Count_Cancel\<close> of the main thread.
\<close>

definition handle_shutdown_cancellations :: "bool \<Rightarrow> sys \<Rightarrow> sys" where
  "handle_shutdown_cancellations calloc_ok s =
     (if \<not> s_sig s then s\<lparr>s_main := Shutting\<rparr>
      else if \<not> calloc_ok then s\<lparr>s_main := Drained []\<rparr>
      else (case pq_drain (s_pq s) of (pending, pq') \<Rightarrow> s\<lparr>s_pq := pq', s_main := Drained pending\<rparr>))"

text \<open>
  One step of the main thread.  \<open>ok\<close> is the answer of the system call the step makes
  (\<open>pthread_create\<close>, \<open>calloc\<close>); \<open>None\<close> when it polls on or waits in \<open>pthread_join\<close>.
\<close>

definition main_step :: "bool \<Rightarrow> sys \<Rightarrow> sys option" where
  "main_step ok s =
     (case s_main s of
        Spawning \<Rightarrow>
          if length (s_couriers s) = s_num s then Some (s\<lparr>s_main := Polling\<rparr>)
          else if ok then
            Some (s\<lparr>s_couriers := s_couriers s @ [courier_stats_init (int (length (s_couriers s)) + 1)]\<rparr>)
          else Some ((shutdown_queue s)\<lparr>s_main := Fail_Joining\<rparr>)
      | Polling \<Rightarrow>
          if \<not> s_sig s \<and> s_completed s < wrap32 (int (s_n s)) then None
          else Some (s\<lparr>s_main := Cancelling\<rparr>)
      | Cancelling \<Rightarrow> Some (handle_shutdown_cancellations ok s)
      | Drained xs \<Rightarrow>
          Some (s\<lparr>s_main := Reporting xs, s_log := s_log s @ [Ev_Sigint (length xs)]\<rparr>)
      | Reporting [] \<Rightarrow> Some (s\<lparr>s_main := Shutting\<rparr>)
      | Reporting (x # xs) \<Rightarrow>
          Some (s\<lparr>s_main := Count_Cancel xs, s_log := s_log s @ [Ev_Cancelled x]\<rparr>)
      | Count_Cancel xs \<Rightarrow>
          Some (s\<lparr>s_main := Reporting xs, s_cancelled := wrap32 (s_cancelled s + 1)\<rparr>)
      | Shutting \<Rightarrow> Some ((shutdown_queue s)\<lparr>s_main := Joining\<rparr>)
      | Joining \<Rightarrow>
          if list_all (\<lambda>c. c_pc c = Over) (s_couriers s)
          then Some (s\<lparr>s_main := Ended,
                       s_log := s_log s @ [Ev_Shift_End (s_completed s) (s_cancelled s) (s_time s),
                                           Ev_Shutdown_Complete]\<rparr>)
          else None
      | Fail_Joining \<Rightarrow>
          if list_all (\<lambda>c. c_pc c = Over) (s_couriers s) then Some (s\<lparr>s_main := Failed\<rparr>) else None
      | Ended \<Rightarrow> None
      | Failed \<Rightarrow> None)"

section \<open>Starting the shift\<close>

text \<open>\<open>enqueue_all_orders\<close>: a failed push is reported and skipped.\<close>

fun enqueue_all_orders :: "pqueue \<Rightarrow> order list \<Rightarrow> pqueue" where
  "enqueue_all_orders pq [] = pq"
| "enqueue_all_orders pq (x # xs) =
     enqueue_all_orders (case pq_push pq x of None \<Rightarrow> pq | Some pq' \<Rightarrow> pq') xs"

text \<open>
  \<open>main\<close> up to \<open>spawn_couriers\<close>: \<open>None\<close> is an early \<open>return EXIT_FAILURE\<close>.  The
  arguments after the command line are what the system answers: the input file, the allocations
  of the parser, \<open>sigaction\<close>, the four calls of \<open>pq_create\<close> and the allocation of the
  thread tables.
\<close>

record main_env =
  e_file :: "string option"
  e_malloc :: bool
  e_grow :: "nat \<Rightarrow> bool"
  e_sigaction :: bool
  e_pq :: pq_env
  e_cells :: "nat \<Rightarrow> order"
  e_calloc :: bool

definition initial_sys :: "pqueue \<Rightarrow> order list \<Rightarrow> nat \<Rightarrow> sys" where
  "initial_sys pq orders num =
     \<lparr>s_pq = enqueue_all_orders pq orders, s_completed = 0, s_cancelled = 0, s_time = 0,
      s_sig = False, s_couriers = [], s_main = Spawning, s_num = num, s_n = length orders,
      s_log = Ev_Shift_Start (int num) (length orders) # map Ev_Queued orders, s_taken = []\<rparr>"

definition start_shift :: "string list \<Rightarrow> main_env \<Rightarrow> sys option" where
  "start_shift args env =
     (case parse_cli_args args of
        None \<Rightarrow> None
      | Some c \<Rightarrow>
          (case parse_orders_file (e_file env) (e_malloc env) (e_grow env) of
             None \<Rightarrow> None
           | Some orders \<Rightarrow>
               if \<not> e_sigaction env then None
               else (case pq_create (e_pq env) (e_cells env)
                            (if length orders > 0 then length orders else 1) of
                       None \<Rightarrow> None
                     | Some pq \<Rightarrow>
                         if \<not> e_calloc env then None
                         else Some (initial_sys pq orders (nat (num_couriers c))))))"

section \<open>The steps of the program\<close>

inductive sys_step :: "sys \<Rightarrow> sys \<Rightarrow> bool" where
  step_courier: "i < length (s_couriers s) \<Longrightarrow> courier_step s i = Some s' \<Longrightarrow> sys_step s s'"
| step_main: "main_step ok s = Some s' \<Longrightarrow> sys_step s s'"
| step_sigint: "\<not> s_sig s \<Longrightarrow> sys_step s (s\<lparr>s_sig := True\<rparr>)"

text \<open>POSIX lets a thread return from \<open>pthread_cond_wait\<close> without a signal.\<close>

inductive spurious_step :: "sys \<Rightarrow> sys \<Rightarrow> bool" where
  "i < length (s_couriers s) \<Longrightarrow> c_pc (s_couriers s ! i) = Asleep \<Longrightarrow>
   spurious_step s (s\<lparr>s_couriers := (s_couriers s)[i := wake (s_couriers s ! i)]\<rparr>)"

inductive reach :: "sys \<Rightarrow> sys \<Rightarrow> bool" for s0 where
  reach_init: "reach s0 s0"
| reach_step: "reach s0 s \<Longrightarrow> sys_step s s' \<Longrightarrow> reach s0 s'"
| reach_spurious: "reach s0 s \<Longrightarrow> spurious_step s s' \<Longrightarrow> reach s0 s'"

section \<open>The statistics file\<close>

definition c_div :: "int \<Rightarrow> int \<Rightarrow> int" where
  "c_div a b = sgn a * sgn b * (\<bar>a\<bar> div \<bar>b\<bar>)"

definition courier_line :: "courier \<Rightarrow> string" where
  "courier_line c = ''Courier-'' @ int_dec (c_id c) @ '' completed='' @ int_dec (c_completed c) @
     '' total_time='' @ int_dec (c_time c) @ ''ms'' @ [LF]"

definition stats_file :: "nat \<Rightarrow> int \<Rightarrow> int \<Rightarrow> int \<Rightarrow> courier list \<Rightarrow> string" where
  "stats_file total_orders completed cancelled total_ms couriers =
     (let avg_ms = (if completed > 0 then c_div total_ms completed else 0) in
      ''SHIFT_SUMMARY'' @ [LF] @
      ''Total orders  : '' @ nat_dec total_orders @ [LF] @
      ''Completed     : '' @ int_dec completed @ [LF] @
      ''Cancelled     : '' @ int_dec cancelled @ [LF] @
      ''Total time    : '' @ int_dec total_ms @ ''ms'' @ [LF] @
      ''Avg per order : '' @ int_dec avg_ms @ ''ms'' @ [LF] @
      [LF] @
      ''COURIER_STATS'' @ [LF] @
      concat (map courier_line couriers))"

text \<open>\<open>write_final_stats\<close>: what ends up in the statistics file, if it can be written.\<close>

definition write_final_stats :: "bool \<Rightarrow> bool \<Rightarrow> sys \<Rightarrow> string option" where
  "write_final_stats calloc_ok fopen_ok s =
     (if \<not> calloc_ok then None
      else if \<not> fopen_ok then None
      else Some (stats_file (s_n s) (s_completed s) (s_cancelled s) (s_time s) (s_couriers s)))"

section \<open>Inversion of the steps\<close>

lemma courier_step_cases:
  assumes "courier_step s i = Some s'"
  obtains (top) "c_pc (s_couriers s ! i) = At_Top"
      "s' = s\<lparr>s_couriers := (s_couriers s)[i := (s_couriers s ! i)\<lparr>c_pc := At_Pop\<rparr>],
              s_log := s_log s @ [Ev_Waiting (c_id (s_couriers s ! i))]\<rparr>"
    | (sleep) "c_pc (s_couriers s ! i) = At_Pop" "pq_sz (s_pq s) = 0" "\<not> pq_shut (s_pq s)"
      "s' = s\<lparr>s_couriers := (s_couriers s)[i := (s_couriers s ! i)\<lparr>c_pc := Asleep\<rparr>]\<rparr>"
    | (take) x pq' where "c_pc (s_couriers s ! i) = At_Pop" "0 < pq_sz (s_pq s)"
      "take_root (s_pq s) = (x, pq')"
      "s' = s\<lparr>s_pq := pq', s_couriers := (s_couriers s)[i := (s_couriers s ! i)\<lparr>c_pc := Popped x\<rparr>],
              s_taken := s_taken s @ [x]\<rparr>"
    | (leave) "c_pc (s_couriers s ! i) = At_Pop" "pq_sz (s_pq s) = 0" "pq_shut (s_pq s)"
      "s' = s\<lparr>s_couriers := (s_couriers s)[i := (s_couriers s ! i)\<lparr>c_pc := Leaving\<rparr>]\<rparr>"
    | (over) "c_pc (s_couriers s ! i) = Leaving"
      "s' = s\<lparr>s_couriers := (s_couriers s)[i := (s_couriers s ! i)\<lparr>c_pc := Over\<rparr>],
              s_log := s_log s @ [Ev_Shift_Over (c_id (s_couriers s ! i))]\<rparr>"
    | (start) x where "c_pc (s_couriers s ! i) = Popped x"
      "s' = s\<lparr>s_couriers := (s_couriers s)[i := (s_couriers s ! i)\<lparr>c_pc := Delivering x\<rparr>],
              s_log := s_log s @ [Ev_Start (c_id (s_couriers s ! i)) x]\<rparr>"
    | (complete) x where "c_pc (s_couriers s ! i) = Delivering x"
      "s' = s\<lparr>s_couriers := (s_couriers s)[i := (s_couriers s ! i)\<lparr>c_pc := Count_Global x\<rparr>],
              s_log := s_log s @ [Ev_Complete (c_id (s_couriers s ! i)) x (duration_ms x)]\<rparr>"
    | (count) x where "c_pc (s_couriers s ! i) = Count_Global x"
      "s' = s\<lparr>s_completed := wrap32 (s_completed s + 1),
              s_couriers := (s_couriers s)[i := (s_couriers s ! i)\<lparr>c_pc := Count_Time x\<rparr>]\<rparr>"
    | (time) x where "c_pc (s_couriers s ! i) = Count_Time x"
      "s' = s\<lparr>s_time := wrap64 (s_time s + duration_ms x),
              s_couriers := (s_couriers s)[i := (s_couriers s ! i)\<lparr>c_pc := Count_Own x\<rparr>]\<rparr>"
    | (own) x where "c_pc (s_couriers s ! i) = Count_Own x"
      "s' = s\<lparr>s_couriers := (s_couriers s)[i := (s_couriers s ! i)\<lparr>c_pc := At_Top,
              c_completed := wrap32 (c_completed (s_couriers s ! i) + 1),
              c_time := wrap64 (c_time (s_couriers s ! i) + duration_ms x)\<rparr>]\<rparr>"
proof (cases "c_pc (s_couriers s ! i)")
  case At_Pop
  show ?thesis
  proof (cases "pq_sz (s_pq s) = 0")
    case True
    then show ?thesis
      using assms At_Pop sleep leave
      by (cases "pq_shut (s_pq s)") (auto simp: courier_step_def pq_pop_blocking_def Let_def)
  next
    case False
    then show ?thesis
      using assms At_Pop take [OF At_Pop _ surjective_pairing]
      by (auto simp: courier_step_def pq_pop_blocking_def Let_def case_prod_beta)
  qed
next
  case At_Top
  with assms show ?thesis by (intro top) (simp_all add: courier_step_def Let_def)
next
  case Leaving
  with assms show ?thesis by (intro over) (simp_all add: courier_step_def Let_def)
next
  case (Popped x)
  with assms show ?thesis by (intro start [of x]) (simp_all add: courier_step_def Let_def)
next
  case (Count_Global x)
  with assms show ?thesis by (intro count [of x]) (simp_all add: courier_step_def Let_def)
next
  case (Delivering x)
  with assms show ?thesis by (intro complete [of x]) (simp_all add: courier_step_def Let_def)
next
  case (Count_Time x)
  with assms show ?thesis by (intro time [of x]) (simp_all add: courier_step_def Let_def)
next
  case (Count_Own x)
  with assms show ?thesis by (intro own [of x]) (simp_all add: courier_step_def Let_def)
next
  case Asleep
  with assms show ?thesis by (simp add: courier_step_def)
next
  case Over
  with assms show ?thesis by (simp add: courier_step_def)
qed

lemma main_step_cases:
  assumes "main_step ok s = Some s'"
  obtains (spawned) "s_main s = Spawning" "length (s_couriers s) = s_num s" "s' = s\<lparr>s_main := Polling\<rparr>"
    | (spawn) "s_main s = Spawning" "length (s_couriers s) \<noteq> s_num s" "ok"
      "s' = s\<lparr>s_couriers := s_couriers s @ [courier_stats_init (int (length (s_couriers s)) + 1)]\<rparr>"
    | (spawn_fail) "s_main s = Spawning" "length (s_couriers s) \<noteq> s_num s" "\<not> ok"
      "s' = (shutdown_queue s)\<lparr>s_main := Fail_Joining\<rparr>"
    | (poll) "s_main s = Polling" "s_sig s \<or> wrap32 (int (s_n s)) \<le> s_completed s"
      "s' = s\<lparr>s_main := Cancelling\<rparr>"
    | (no_cancel) "s_main s = Cancelling" "\<not> s_sig s" "s' = s\<lparr>s_main := Shutting\<rparr>"
    | (no_memory) "s_main s = Cancelling" "s_sig s" "\<not> ok" "s' = s\<lparr>s_main := Drained []\<rparr>"
    | (drain) xs pq' where "s_main s = Cancelling" "s_sig s" "ok" "pq_drain (s_pq s) = (xs, pq')"
      "s' = s\<lparr>s_pq := pq', s_main := Drained xs\<rparr>"
    | (sigint) xs where "s_main s = Drained xs"
      "s' = s\<lparr>s_main := Reporting xs, s_log := s_log s @ [Ev_Sigint (length xs)]\<rparr>"
    | (reported) "s_main s = Reporting []" "s' = s\<lparr>s_main := Shutting\<rparr>"
    | (report) x xs where "s_main s = Reporting (x # xs)"
      "s' = s\<lparr>s_main := Count_Cancel xs, s_log := s_log s @ [Ev_Cancelled x]\<rparr>"
    | (cancel) xs where "s_main s = Count_Cancel xs"
      "s' = s\<lparr>s_main := Reporting xs, s_cancelled := wrap32 (s_cancelled s + 1)\<rparr>"
    | (shut) "s_main s = Shutting" "s' = (shutdown_queue s)\<lparr>s_main := Joining\<rparr>"
    | (join) "s_main s = Joining" "list_all (\<lambda>c. c_pc c = Over) (s_couriers s)"
      "s' = s\<lparr>s_main := Ended, s_log := s_log s @ [Ev_Shift_End (s_completed s) (s_cancelled s) (s_time s),
              Ev_Shutdown_Complete]\<rparr>"
    | (fail) "s_main s = Fail_Joining" "list_all (\<lambda>c. c_pc c = Over) (s_couriers s)"
      "s' = s\<lparr>s_main := Failed\<rparr>"
  using assms
  by (cases "s_main s")
     (auto simp: main_step_def handle_shutdown_cancellations_def split: if_splits prod.splits list.splits)

section \<open>Reading the log\<close>

fun start_of :: "log_event \<Rightarrow> order list" where
  "start_of (Ev_Start i x) = [x]"
| "start_of _ = []"

fun complete_of :: "log_event \<Rightarrow> (int \<times> order) list" where
  "complete_of (Ev_Complete i x d) = [(i, x)]"
| "complete_of _ = []"

fun cancel_of :: "log_event \<Rightarrow> order list" where
  "cancel_of (Ev_Cancelled x) = [x]"
| "cancel_of _ = []"

definition started :: "sys \<Rightarrow> order list" where
  "started s = concat (map start_of (s_log s))"

text \<open>The orders that have been cancelled: reported, or held by the main thread to be reported.\<close>

fun pending :: "main_pc \<Rightarrow> order list" where
  "pending (Drained xs) = xs"
| "pending (Reporting xs) = xs"
| "pending (Count_Cancel xs) = xs"
| "pending _ = []"

definition completions :: "sys \<Rightarrow> (int \<times> order) list" where
  "completions s = concat (map complete_of (s_log s))"

definition delivered :: "sys \<Rightarrow> order list" where
  "delivered s = map snd (completions s)"

definition cancelled :: "sys \<Rightarrow> order list" where
  "cancelled s = concat (map cancel_of (s_log s))"

lemmas log_defs = started_def completions_def delivered_def cancelled_def

text \<open>What a courier still owes: an order it carries, an addition it has not made yet.\<close>

fun carried :: "courier_pc \<Rightarrow> order multiset" where
  "carried (Popped x) = {#x#}"
| "carried (Delivering x) = {#x#}"
| "carried _ = {#}"

fun unlogged :: "courier_pc \<Rightarrow> order multiset" where
  "unlogged (Popped x) = {#x#}"
| "unlogged _ = {#}"

fun owed_count :: "courier_pc \<Rightarrow> int" where
  "owed_count (Count_Global x) = 1"
| "owed_count _ = 0"

fun owed_time :: "courier_pc \<Rightarrow> int" where
  "owed_time (Count_Global x) = duration_ms x"
| "owed_time (Count_Time x) = duration_ms x"
| "owed_time _ = 0"

fun own_owed :: "courier_pc \<Rightarrow> order list" where
  "own_owed (Count_Global x) = [x]"
| "own_owed (Count_Time x) = [x]"
| "own_owed (Count_Own x) = [x]"
| "own_owed _ = []"

fun owed_cancel :: "main_pc \<Rightarrow> int" where
  "owed_cancel (Count_Cancel xs) = 1"
| "owed_cancel _ = 0"

lemma pq_elems_shutdown [simp]: "pq_elems (pq_shutdown pq) = pq_elems pq"
  and pq_inv_shutdown [simp]: "pq_inv (pq_shutdown pq) = pq_inv pq"
  and pq_sz_shutdown [simp]: "pq_sz (pq_shutdown pq) = pq_sz pq"
  and pq_shut_shutdown [simp]: "pq_shut (pq_shutdown pq)"
  by (simp_all add: pq_elems_def pq_shutdown_def pq_inv_def)

lemma wake_simps [simp]: "carried (c_pc (wake c)) = carried (c_pc c)"
  "unlogged (c_pc (wake c)) = unlogged (c_pc c)" "owed_count (c_pc (wake c)) = owed_count (c_pc c)"
  "owed_time (c_pc (wake c)) = owed_time (c_pc c)" "own_owed (c_pc (wake c)) = own_owed (c_pc c)"
  "c_id (wake c) = c_id c" "c_completed (wake c) = c_completed c" "c_time (wake c) = c_time c"
  "c_pc (wake c) \<noteq> Asleep" "c_pc (wake c) = Over \<longleftrightarrow> c_pc c = Over"
  by (auto simp: wake_def)

end
