(* ===== verification/Runs.thy ===== *)
theory Runs
  imports Prelude
begin

text \<open>
  What the components owe to the theorems on whole runs, as interfaces: a system whose steps keep an
  invariant, one whose steps also use up a weight, and one that can go on until it is over.  The
  processes of \<open>HW2\<close>, \<open>HW3\<close>, \<open>HW4\<close> and \<open>HW5\<close> and the server of \<open>HW6\<close> are instances, in the theories
  that prove their invariants.
\<close>

section \<open>Invariants\<close>

locale invariant_system =
  fixes reach :: "'s \<Rightarrow> 's \<Rightarrow> bool"
    and step :: "'s \<Rightarrow> 's \<Rightarrow> bool"
    and good :: "'s \<Rightarrow> bool"
  assumes reach_closed: "reach s t \<Longrightarrow> step\<^sup>*\<^sup>* s t"
    and step_keeps: "good s \<Longrightarrow> step s t \<Longrightarrow> good t"
begin

lemma steps_keep: "step\<^sup>*\<^sup>* s t \<Longrightarrow> good s \<Longrightarrow> good t"
  by (induction rule: rtranclp_induct) (auto intro: step_keeps)

lemma reach_keeps: "reach s t \<Longrightarrow> good s \<Longrightarrow> good t"
  using steps_keep reach_closed by blast

end

section \<open>Termination\<close>

locale terminating_system = invariant_system +
  fixes weight :: "'s \<Rightarrow> nat"
  assumes step_less: "good s \<Longrightarrow> step s t \<Longrightarrow> weight t < weight s"
begin

lemma runs_bounded: "(step ^^ k) s t \<Longrightarrow> good s \<Longrightarrow> k + weight t \<le> weight s"
proof (induction k arbitrary: t)
  case (Suc k)
  then obtain u where u: "(step ^^ k) s u" "step u t" by auto
  then have "good u" using Suc.prems steps_keep [of s u] by (metis rtranclp_power)
  then show ?case using Suc.IH [OF u(1) Suc.prems(2)] step_less [OF _ u(2)] by simp
qed simp

lemma no_endless_run: "good (f 0) \<Longrightarrow> \<exists>n. \<not> step (f n) (f (Suc n))"
proof (rule ccontr)
  assume good: "good (f 0)" and "\<nexists>n. \<not> step (f n) (f (Suc n))"
  then have "(step ^^ n) (f 0) (f n)" for n by (induction n) auto
  from runs_bounded [OF this good, of "Suc (weight (f 0))"] show False by simp
qed

lemma comes_to_rest: "good s \<Longrightarrow> \<exists>t. step\<^sup>*\<^sup>* s t \<and> (\<nexists>u. step t u)"
proof (induction "weight s" arbitrary: s rule: less_induct)
  case less
  show ?case
  proof (cases "\<exists>t. step s t")
    case True
    then obtain t where t: "step s t" ..
    then have "weight t < weight s" "good t" using less.prems step_less step_keeps by auto
    from less.hyps [OF this] t show ?thesis by (meson converse_rtranclp_into_rtranclp)
  qed blast
qed

end

section \<open>Progress\<close>

locale live_system = terminating_system +
  fixes over :: "'s \<Rightarrow> bool"
  assumes goes_on: "good s \<Longrightarrow> \<not> over s \<Longrightarrow> \<exists>t. step s t"
begin

lemma rest_is_over: "good s \<Longrightarrow> (\<nexists>t. step s t) \<Longrightarrow> over s"
  using goes_on by blast

lemma gets_over: "good s \<Longrightarrow> \<exists>t. step\<^sup>*\<^sup>* s t \<and> over t"
  using comes_to_rest rest_is_over steps_keep by blast

end

end
