(* ===== verification/Cargo_Invariants.thy ===== *)
theory Cargo_Invariants
  imports Cargo_System Runs
begin

text \<open>
  Invariants of the courier system: where every order is, what the counters hold, which phase
  the threads are in; and the measure that every step but a spurious wake-up decreases.
\<close>

section \<open>Where every order is\<close>

fun before_cancel :: "main_pc \<Rightarrow> bool" where
  "before_cancel Spawning = True"
| "before_cancel Polling = True"
| "before_cancel Cancelling = True"
| "before_cancel Fail_Joining = True"
| "before_cancel Failed = True"
| "before_cancel _ = False"

definition flow_inv :: "order list \<Rightarrow> sys \<Rightarrow> bool" where
  "flow_inv orders s \<longleftrightarrow>
     pq_inv (s_pq s) \<and> s_n s = length orders \<and>
     mset orders = pq_elems (s_pq s) + mset (s_taken s) + mset (cancelled s @ pending (s_main s)) \<and>
     mset (started s) + (\<Sum>c\<leftarrow>s_couriers s. unlogged (c_pc c)) = mset (s_taken s) \<and>
     mset (s_taken s) = mset (delivered s) + (\<Sum>c\<leftarrow>s_couriers s. carried (c_pc c)) \<and>
     sorted (map order_key (s_taken s @ cancelled s @ pending (s_main s))) \<and>
     (\<forall>x \<in> set (s_taken s). \<forall>y \<in># pq_elems (s_pq s). order_key x \<le> order_key y) \<and>
     (cancelled s @ pending (s_main s) \<noteq> [] \<longrightarrow> pq_sz (s_pq s) = 0) \<and>
     (before_cancel (s_main s) \<longrightarrow> cancelled s = [])"

lemma log_map_simps [simp]:
  "concat (map (cancel_of \<circ> Ev_Queued) xs) = []"
  "concat (map (start_of \<circ> Ev_Queued) xs) = []" "concat (map (complete_of \<circ> Ev_Queued) xs) = []"
  by (induction xs) auto

lemma couriers_upd:
  assumes "i < length (s_couriers s)"
  shows "(\<Sum>c\<leftarrow>(s_couriers s)[i := c']. carried (c_pc c)) + carried (c_pc (s_couriers s ! i)) =
      (\<Sum>c\<leftarrow>s_couriers s. carried (c_pc c)) + carried (c_pc c')"
    and "(\<Sum>c\<leftarrow>(s_couriers s)[i := c']. unlogged (c_pc c)) + unlogged (c_pc (s_couriers s ! i)) =
      (\<Sum>c\<leftarrow>s_couriers s. unlogged (c_pc c)) + unlogged (c_pc c')"
  by (rule sum_list_upd [OF assms])+

lemma flow_inv_cong:
  assumes "flow_inv orders s" "s_pq s' = s_pq s" "s_n s' = s_n s" "started s' = started s"
    "delivered s' = delivered s" "cancelled s' = cancelled s" "s_taken s' = s_taken s"
    "pending (s_main s') = pending (s_main s)" "before_cancel (s_main s') \<longrightarrow> before_cancel (s_main s)"
    "(\<Sum>c\<leftarrow>s_couriers s'. carried (c_pc c)) = (\<Sum>c\<leftarrow>s_couriers s. carried (c_pc c))"
    "(\<Sum>c\<leftarrow>s_couriers s'. unlogged (c_pc c)) = (\<Sum>c\<leftarrow>s_couriers s. unlogged (c_pc c))"
  shows "flow_inv orders s'"
  using assms by (simp add: flow_inv_def)

lemma flow_inv_courier:
  assumes inv: "flow_inv orders s" and i: "i < length (s_couriers s)" and step: "courier_step s i = Some s'"
  shows "flow_inv orders s'"
  using step
proof (cases rule: courier_step_cases)
  case top
  show ?thesis
    by (rule flow_inv_cong [OF inv]) (use top couriers_upd [OF i] in \<open>simp_all add: log_defs\<close>)
next
  case sleep
  show ?thesis
    by (rule flow_inv_cong [OF inv]) (use sleep couriers_upd [OF i] in \<open>simp_all add: log_defs\<close>)
next
  case leave
  show ?thesis
    by (rule flow_inv_cong [OF inv]) (use leave couriers_upd [OF i] in \<open>simp_all add: log_defs\<close>)
next
  case over
  show ?thesis
    by (rule flow_inv_cong [OF inv]) (use over couriers_upd [OF i] in \<open>simp_all add: log_defs\<close>)
next
  case (count x)
  show ?thesis
    by (rule flow_inv_cong [OF inv]) (use count couriers_upd [OF i] in \<open>simp_all add: log_defs\<close>)
next
  case (time x)
  show ?thesis
    by (rule flow_inv_cong [OF inv]) (use time couriers_upd [OF i] in \<open>simp_all add: log_defs\<close>)
next
  case (own x)
  show ?thesis
    by (rule flow_inv_cong [OF inv]) (use own couriers_upd [OF i] in \<open>simp_all add: log_defs\<close>)
next
  case (start x)
  let ?c = "(s_couriers s ! i)\<lparr>c_pc := Delivering x\<rparr>"
  have "(\<Sum>c\<leftarrow>s_couriers s. unlogged (c_pc c)) = add_mset x (\<Sum>c\<leftarrow>(s_couriers s)[i := ?c]. unlogged (c_pc c))"
    "(\<Sum>c\<leftarrow>(s_couriers s)[i := ?c]. carried (c_pc c)) = (\<Sum>c\<leftarrow>s_couriers s. carried (c_pc c))"
    using couriers_upd [OF i, of ?c] start by simp_all
  then show ?thesis
    using inv start(2) by (simp add: flow_inv_def log_defs)
next
  case (complete x)
  let ?c = "(s_couriers s ! i)\<lparr>c_pc := Count_Global x\<rparr>"
  have "(\<Sum>c\<leftarrow>s_couriers s. carried (c_pc c)) = add_mset x (\<Sum>c\<leftarrow>(s_couriers s)[i := ?c]. carried (c_pc c))"
    "(\<Sum>c\<leftarrow>(s_couriers s)[i := ?c]. unlogged (c_pc c)) = (\<Sum>c\<leftarrow>s_couriers s. unlogged (c_pc c))"
    using couriers_upd [OF i, of ?c] complete by simp_all
  then show ?thesis
    using inv complete(2) by (simp add: flow_inv_def log_defs)
next
  case (take x pq')
  let ?c = "(s_couriers s ! i)\<lparr>c_pc := Popped x\<rparr>"
  have pq: "pq_inv (s_pq s)" using inv by (simp add: flow_inv_def)
  have root: "pq_inv pq'" "pq_elems (s_pq s) = add_mset x (pq_elems pq')"
    "\<forall>y \<in># pq_elems (s_pq s). order_key x \<le> order_key y"
    using take_root_correct [OF pq take(2,3)] by auto
  have "(\<Sum>c\<leftarrow>(s_couriers s)[i := ?c]. carried (c_pc c)) = add_mset x (\<Sum>c\<leftarrow>s_couriers s. carried (c_pc c))"
    "(\<Sum>c\<leftarrow>(s_couriers s)[i := ?c]. unlogged (c_pc c)) = add_mset x (\<Sum>c\<leftarrow>s_couriers s. unlogged (c_pc c))"
    using couriers_upd [OF i, of ?c] take by simp_all
  moreover have "cancelled s = []" "pending (s_main s) = []" using inv take(2) by (auto simp: flow_inv_def)
  moreover have "pq_elems pq' \<subseteq># pq_elems (s_pq s)" using root by simp
  ultimately show ?thesis
    using inv take(4) root by (auto simp: flow_inv_def log_defs sorted_append)
qed

lemma flow_inv_main:
  assumes inv: "flow_inv orders s" and step: "main_step ok s = Some s'"
  shows "flow_inv orders s'"
  using step
proof (cases rule: main_step_cases)
  case (drain xs pq')
  have pops: "cargo_pq.pops (s_pq s) xs pq'" and e: "pq_sz pq' = 0"
    using pq_drain_pops [of "s_pq s"] by (auto simp: drain(4))
  have law: "pq_inv pq'" "pq_elems (s_pq s) = mset xs + pq_elems pq'" "sorted (map order_key xs)"
    using cargo_pq.pops_correct [OF pops] inv by (auto simp: flow_inv_def)
  moreover have "pq_elems pq' = {#}" using law(1) e by (simp add: pq_elems_empty_iff)
  moreover have "started s' = started s" "delivered s' = delivered s" "cancelled s' = []" "cancelled s = []"
    "s_taken s' = s_taken s" "s_couriers s' = s_couriers s" "s_n s' = s_n s" "s_pq s' = pq'"
    using drain inv by (auto simp: log_defs flow_inv_def)
  ultimately show ?thesis
    using inv e drain(1,5) by (auto simp: flow_inv_def sorted_append)
next
  case (report x xs)
  then have "started s' = started s" "delivered s' = delivered s" "cancelled s' = cancelled s @ [x]"
    by (simp_all add: log_defs)
  then show ?thesis using inv report by (simp add: flow_inv_def)
qed (use inv in \<open>simp_all add: flow_inv_def log_defs shutdown_queue_def comp_def courier_stats_init_def\<close>)

lemma flow_inv_spurious: "flow_inv orders s \<Longrightarrow> spurious_step s s' \<Longrightarrow> flow_inv orders s'"
proof (erule spurious_step.cases)
  fix i t
  assume inv: "flow_inv orders s" and "s = t" "s' = t\<lparr>s_couriers := (s_couriers t)[i := wake (s_couriers t ! i)]\<rparr>"
    and "i < length (s_couriers t)"
  then show "flow_inv orders s'"
    using couriers_upd [of i s "wake (s_couriers s ! i)"]
    by (intro flow_inv_cong [OF inv]) (simp_all add: log_defs)
qed

lemma flow_inv_sigint: "flow_inv orders s \<Longrightarrow> flow_inv orders (s\<lparr>s_sig := True\<rparr>)"
  by (erule flow_inv_cong) (simp_all add: log_defs)

lemma flow_inv_step: "flow_inv orders s \<Longrightarrow> sys_step s s' \<Longrightarrow> flow_inv orders s'"
  by (erule sys_step.cases) (auto intro: flow_inv_courier flow_inv_main flow_inv_sigint)

lemma enqueue_all_orders_correct:
  "pq_inv pq \<Longrightarrow> pq_sz pq + length xs \<le> pq_cap pq \<Longrightarrow>
   pq_inv (enqueue_all_orders pq xs) \<and> pq_elems (enqueue_all_orders pq xs) = pq_elems pq + mset xs \<and>
   pq_shut (enqueue_all_orders pq xs) = pq_shut pq"
proof (induction xs arbitrary: pq)
  case (Cons x xs)
  obtain pq1 where p: "pq_push pq x = Some pq1"
    using Cons.prems by (cases "pq_push pq x") (auto simp: pq_push_None)
  then have "pq_inv pq1" "pq_elems pq1 = add_mset x (pq_elems pq)" "pq_shut pq1 = pq_shut pq"
    "pq_cap pq1 = pq_cap pq" "pq_sz pq1 = Suc (pq_sz pq)"
    using pq_push_Some [OF Cons.prems(1) p] by auto
  then show ?case using Cons.IH [of pq1] Cons.prems p by simp
qed simp

lemma flow_inv_initial:
  assumes "pq_create env cells cap = Some pq" "length orders \<le> cap"
  shows "flow_inv orders (initial_sys pq orders num)"
proof -
  have "pq_inv (enqueue_all_orders pq orders)" "pq_elems (enqueue_all_orders pq orders) = mset orders"
    using enqueue_all_orders_correct [of pq orders] pq_create_Some [OF assms(1)] assms(2) by auto
  then show ?thesis
    by (simp add: flow_inv_def initial_sys_def log_defs)
qed

section \<open>What the counters hold\<close>

definition by_courier :: "sys \<Rightarrow> int \<Rightarrow> order list" where
  "by_courier s j = map snd (filter (\<lambda>p. fst p = j) (completions s))"

definition total_ms :: "order list \<Rightarrow> int" where
  "total_ms xs = (\<Sum>x\<leftarrow>xs. duration_ms x)"

lemma total_ms_simps [simp]: "total_ms [] = 0" "total_ms (x # xs) = duration_ms x + total_ms xs"
  "total_ms (xs @ ys) = total_ms xs + total_ms ys"
  by (simp_all add: total_ms_def)

definition courier_counts :: "sys \<Rightarrow> nat \<Rightarrow> courier \<Rightarrow> bool" where
  "courier_counts s i c \<longleftrightarrow>
     c_id c = int i + 1 \<and>
     c_completed c = wrap32 (int (length (by_courier s (c_id c))) - int (length (own_owed (c_pc c)))) \<and>
     c_time c = wrap64 (total_ms (by_courier s (c_id c)) - total_ms (own_owed (c_pc c)))"

definition count_inv :: "sys \<Rightarrow> bool" where
  "count_inv s \<longleftrightarrow>
     s_completed s = wrap32 (int (length (completions s)) - (\<Sum>c\<leftarrow>s_couriers s. owed_count (c_pc c))) \<and>
     s_cancelled s = wrap32 (int (length (cancelled s)) - owed_cancel (s_main s)) \<and>
     s_time s = wrap64 (total_ms (delivered s) - (\<Sum>c\<leftarrow>s_couriers s. owed_time (c_pc c))) \<and>
     (\<forall>i < length (s_couriers s). courier_counts s i (s_couriers s ! i)) \<and>
     (\<forall>p \<in> set (completions s). 1 \<le> fst p \<and> fst p \<le> int (length (s_couriers s)))"

lemma owed_upd:
  assumes "i < length (s_couriers s)"
  shows "(\<Sum>c\<leftarrow>(s_couriers s)[i := c']. owed_time (c_pc c)) =
      (\<Sum>c\<leftarrow>s_couriers s. owed_time (c_pc c)) + owed_time (c_pc c') - owed_time (c_pc (s_couriers s ! i))"
    and "(\<Sum>c\<leftarrow>(s_couriers s)[i := c']. owed_count (c_pc c)) =
      (\<Sum>c\<leftarrow>s_couriers s. owed_count (c_pc c)) + owed_count (c_pc c') - owed_count (c_pc (s_couriers s ! i))"
  using sum_list_upd [OF assms, of "\<lambda>c. owed_time (c_pc c)" c']
    sum_list_upd [OF assms, of "\<lambda>c. owed_count (c_pc c)" c'] by simp_all

lemma count_inv_cong:
  assumes "count_inv s" "s_completed s' = s_completed s" "s_cancelled s' = s_cancelled s"
    "s_time s' = s_time s" "completions s' = completions s" "cancelled s' = cancelled s"
    "owed_cancel (s_main s') = owed_cancel (s_main s)" "length (s_couriers s') = length (s_couriers s)"
    "\<And>i. i < length (s_couriers s) \<Longrightarrow> owed_time (c_pc (s_couriers s' ! i)) = owed_time (c_pc (s_couriers s ! i)) \<and>
      owed_count (c_pc (s_couriers s' ! i)) = owed_count (c_pc (s_couriers s ! i)) \<and>
      own_owed (c_pc (s_couriers s' ! i)) = own_owed (c_pc (s_couriers s ! i)) \<and>
      c_id (s_couriers s' ! i) = c_id (s_couriers s ! i) \<and>
      c_completed (s_couriers s' ! i) = c_completed (s_couriers s ! i) \<and>
      c_time (s_couriers s' ! i) = c_time (s_couriers s ! i)"
  shows "count_inv s'"
proof -
  have "map (\<lambda>c. owed_time (c_pc c)) (s_couriers s') = map (\<lambda>c. owed_time (c_pc c)) (s_couriers s)"
    "map (\<lambda>c. owed_count (c_pc c)) (s_couriers s') = map (\<lambda>c. owed_count (c_pc c)) (s_couriers s)"
    using assms(8,9) by (intro nth_equalityI; auto)+
  then show ?thesis
    using assms by (simp add: count_inv_def courier_counts_def by_courier_def delivered_def)
qed

lemma courier_counts_other:
  assumes "\<forall>i < length cs. courier_counts s i (cs ! i)" "courier_counts s' k c'" "k < length cs"
    "\<And>i. i < length cs \<Longrightarrow> i \<noteq> k \<Longrightarrow> by_courier s' (int i + 1) = by_courier s (int i + 1)"
  shows "\<forall>i < length cs. courier_counts s' i (cs[k := c'] ! i)"
  using assms by (auto simp: courier_counts_def nth_list_update)

text \<open>A step of one courier that pays a part of what it owes and completes nothing.\<close>

lemma count_inv_pay:
  assumes inv: "count_inv s" and i: "i < length (s_couriers s)"
    and cs: "s_couriers s' = (s_couriers s)[i := c']" and id: "c_id c' = c_id (s_couriers s ! i)"
    and same: "completions s' = completions s" "cancelled s' = cancelled s" "s_main s' = s_main s"
      "s_cancelled s' = s_cancelled s"
    and count: "s_completed s' = wrap32 (s_completed s + (owed_count (c_pc (s_couriers s ! i)) - owed_count (c_pc c')))"
    and time: "s_time s' = wrap64 (s_time s + (owed_time (c_pc (s_couriers s ! i)) - owed_time (c_pc c')))"
    and own: "c_completed c' = wrap32 (c_completed (s_couriers s ! i) +
        (int (length (own_owed (c_pc (s_couriers s ! i)))) - int (length (own_owed (c_pc c')))))"
      "c_time c' = wrap64 (c_time (s_couriers s ! i) +
        (total_ms (own_owed (c_pc (s_couriers s ! i))) - total_ms (own_owed (c_pc c'))))"
  shows "count_inv s'"
proof -
  have c: "courier_counts s i (s_couriers s ! i)" using inv i by (simp add: count_inv_def)
  then have "courier_counts s' i c'"
    by (simp add: courier_counts_def by_courier_def same id own wrap_simps)
  then have "\<forall>k < length (s_couriers s). courier_counts s' k (s_couriers s' ! k)"
    unfolding cs
    by (intro courier_counts_other [of _ s]) (use inv i in \<open>simp_all add: count_inv_def by_courier_def same\<close>)
  moreover have "s_completed s' = wrap32 ((int (length (completions s)) - (\<Sum>c\<leftarrow>s_couriers s. owed_count (c_pc c))) +
      (owed_count (c_pc (s_couriers s ! i)) - owed_count (c_pc c')))"
    using inv by (simp only: count_inv_def count wrap32_add_left)
  then have "s_completed s' = wrap32 (int (length (completions s')) - (\<Sum>c\<leftarrow>s_couriers s'. owed_count (c_pc c)))"
    using i by (simp add: same cs owed_upd algebra_simps)
  moreover have "s_time s' = wrap64 ((total_ms (delivered s) - (\<Sum>c\<leftarrow>s_couriers s. owed_time (c_pc c))) +
      (owed_time (c_pc (s_couriers s ! i)) - owed_time (c_pc c')))"
    using inv by (simp only: count_inv_def time wrap64_add_left)
  then have "s_time s' = wrap64 (total_ms (delivered s') - (\<Sum>c\<leftarrow>s_couriers s'. owed_time (c_pc c)))"
    using i by (simp add: same delivered_def cs owed_upd algebra_simps)
  ultimately show ?thesis
    using inv by (simp add: count_inv_def same cs)
qed

lemma count_inv_wrapped:
  assumes "count_inv s"
  shows "wrap32 (s_completed s) = s_completed s" "wrap64 (s_time s) = s_time s"
    "i < length (s_couriers s) \<Longrightarrow> wrap32 (c_completed (s_couriers s ! i)) = c_completed (s_couriers s ! i)"
    "i < length (s_couriers s) \<Longrightarrow> wrap64 (c_time (s_couriers s ! i)) = c_time (s_couriers s ! i)"
  using assms by (auto simp: count_inv_def courier_counts_def wrap_idem)

text \<open>A step that only moves a courier to another point of its loop.\<close>

lemma count_inv_goto:
  assumes inv: "count_inv s" and i: "i < length (s_couriers s)"
    and cs: "s_couriers s' = (s_couriers s)[i := (s_couriers s ! i)\<lparr>c_pc := p\<rparr>]"
    and same: "completions s' = completions s" "cancelled s' = cancelled s" "s_main s' = s_main s"
      "s_cancelled s' = s_cancelled s" "s_completed s' = s_completed s" "s_time s' = s_time s"
    and idle: "own_owed (c_pc (s_couriers s ! i)) = []" "own_owed p = []"
      "owed_count (c_pc (s_couriers s ! i)) = 0" "owed_count p = 0"
      "owed_time (c_pc (s_couriers s ! i)) = 0" "owed_time p = 0"
  shows "count_inv s'"
  using i count_inv_wrapped [OF inv]
  by (intro count_inv_pay [OF inv i cs _ same(1-4)]) (simp_all add: same idle)

lemma count_inv_courier:
  assumes inv: "count_inv s" and i: "i < length (s_couriers s)" and step: "courier_step s i = Some s'"
  shows "count_inv s'"
  using step
proof (cases rule: courier_step_cases)
  case (complete x)
  let ?c = "s_couriers s ! i"
  let ?c' = "?c\<lparr>c_pc := Count_Global x\<rparr>"
  have c: "courier_counts s i ?c" using inv i by (simp add: count_inv_def)
  have sc: "s_couriers s' = (s_couriers s)[i := ?c']" using complete by simp
  have comp: "completions s' = completions s @ [(c_id ?c, x)]" using complete by (simp add: log_defs)
  have f: "s_completed s' = s_completed s" "s_cancelled s' = s_cancelled s" "s_main s' = s_main s"
    "s_time s' = s_time s" "cancelled s' = cancelled s"
    using complete(2) by (simp_all add: log_defs)
  have "courier_counts s' i ?c'"
    using c complete(1) by (simp add: courier_counts_def by_courier_def comp)
  moreover have "by_courier s' (int k + 1) = by_courier s (int k + 1)" if "k \<noteq> i" for k
    using c that by (simp add: by_courier_def comp courier_counts_def)
  ultimately have "\<forall>k < length (s_couriers s). courier_counts s' k (s_couriers s' ! k)"
    unfolding sc by (intro courier_counts_other [of _ s]) (use inv i in \<open>simp_all add: count_inv_def\<close>)
  moreover have "s_completed s' = wrap32 (int (length (completions s')) - (\<Sum>c\<leftarrow>s_couriers s'. owed_count (c_pc c)))"
    "s_time s' = wrap64 (total_ms (delivered s') - (\<Sum>c\<leftarrow>s_couriers s'. owed_time (c_pc c)))"
    using inv complete(1) i by (simp_all add: count_inv_def f comp sc delivered_def owed_upd ac_simps)
  moreover have "\<forall>p \<in> set (completions s'). 1 \<le> fst p \<and> fst p \<le> int (length (s_couriers s'))"
    using inv c i by (simp add: count_inv_def comp sc courier_counts_def)
  ultimately show ?thesis using inv by (simp add: count_inv_def sc f)
next
  case top
  show ?thesis by (rule count_inv_goto [OF inv i, of _ At_Pop]) (use top in \<open>simp_all add: log_defs\<close>)
next
  case sleep
  show ?thesis by (rule count_inv_goto [OF inv i, of _ Asleep]) (use sleep in \<open>simp_all add: log_defs\<close>)
next
  case (take x pq')
  show ?thesis by (rule count_inv_goto [OF inv i, of _ "Popped x"]) (use take in \<open>simp_all add: log_defs\<close>)
next
  case leave
  show ?thesis by (rule count_inv_goto [OF inv i, of _ Leaving]) (use leave in \<open>simp_all add: log_defs\<close>)
next
  case over
  show ?thesis by (rule count_inv_goto [OF inv i, of _ Over]) (use over in \<open>simp_all add: log_defs\<close>)
next
  case (start x)
  show ?thesis by (rule count_inv_goto [OF inv i, of _ "Delivering x"]) (use start in \<open>simp_all add: log_defs\<close>)
next
  case (count x)
  show ?thesis
    by (rule count_inv_pay [OF inv i, of _ "(s_couriers s ! i)\<lparr>c_pc := Count_Time x\<rparr>"])
       (use count count_inv_wrapped [OF inv] i in \<open>simp_all add: log_defs\<close>)
next
  case (time x)
  show ?thesis
    by (rule count_inv_pay [OF inv i, of _ "(s_couriers s ! i)\<lparr>c_pc := Count_Own x\<rparr>"])
       (use time count_inv_wrapped [OF inv] i in \<open>simp_all add: log_defs\<close>)
next
  case (own x)
  show ?thesis
    by (rule count_inv_pay [OF inv i, of _ "(s_couriers s ! i)\<lparr>c_pc := At_Top,
              c_completed := wrap32 (c_completed (s_couriers s ! i) + 1),
              c_time := wrap64 (c_time (s_couriers s ! i) + duration_ms x)\<rparr>"])
       (use own count_inv_wrapped [OF inv] i in \<open>simp_all add: log_defs\<close>)
qed

lemma count_inv_main:
  assumes inv: "count_inv s" and step: "main_step ok s = Some s'"
  shows "count_inv s'"
  using step
proof (cases rule: main_step_cases)
  case spawn
  let ?c = "courier_stats_init (int (length (s_couriers s)) + 1)"
  have "filter (\<lambda>p. fst p = int (length (s_couriers s)) + 1) (completions s) = []"
    using inv by (force simp: count_inv_def filter_empty_conv)
  then show ?thesis
    using inv spawn
    by (force simp: count_inv_def courier_counts_def by_courier_def log_defs courier_stats_init_def
        nth_append less_Suc_eq)
next
  case (report x xs)
  then have "completions s' = completions s" "cancelled s' = cancelled s @ [x]"
    by (simp_all add: log_defs)
  then show ?thesis
    using inv report by (simp add: count_inv_def courier_counts_def by_courier_def delivered_def)
next
  case (cancel xs)
  then have "completions s' = completions s" "cancelled s' = cancelled s"
    by (simp_all add: log_defs)
  then show ?thesis
    using inv cancel by (simp add: count_inv_def courier_counts_def by_courier_def delivered_def wrap_simps)
qed (rule count_inv_cong [OF inv]; force simp: log_defs shutdown_queue_def)+

lemma count_inv_spurious: "count_inv s \<Longrightarrow> spurious_step s s' \<Longrightarrow> count_inv s'"
  by (erule spurious_step.cases, erule count_inv_cong) (auto simp: log_defs nth_list_update)

lemma count_inv_sigint: "count_inv s \<Longrightarrow> count_inv (s\<lparr>s_sig := True\<rparr>)"
  by (erule count_inv_cong) (simp_all add: log_defs)

lemma count_inv_step: "count_inv s \<Longrightarrow> sys_step s s' \<Longrightarrow> count_inv s'"
  by (erule sys_step.cases) (auto intro: count_inv_courier count_inv_main count_inv_sigint)

lemma count_inv_initial: "count_inv (initial_sys pq orders num)"
  by (simp add: count_inv_def initial_sys_def log_defs)

end
