(* ===== verification/Cargo_Shift.thy ===== *)
theory Cargo_Shift
  imports Cargo_Invariants
begin

text \<open>
  The life of a shift: the phases of the main thread and the couriers, what holds in every
  reachable state and at the end, that some thread can always move, and the measure that bounds
  the number of steps.
\<close>

section \<open>Phases\<close>

fun after_shutdown :: "main_pc \<Rightarrow> bool" where
  "after_shutdown Joining = True"
| "after_shutdown Ended = True"
| "after_shutdown Fail_Joining = True"
| "after_shutdown Failed = True"
| "after_shutdown _ = False"

fun may_miss_couriers :: "main_pc \<Rightarrow> bool" where
  "may_miss_couriers Spawning = True"
| "may_miss_couriers Fail_Joining = True"
| "may_miss_couriers Failed = True"
| "may_miss_couriers _ = False"

fun after_polling :: "main_pc \<Rightarrow> bool" where
  "after_polling Spawning = False"
| "after_polling Polling = False"
| "after_polling Fail_Joining = False"
| "after_polling Failed = False"
| "after_polling _ = True"

definition courier_phase :: "sys \<Rightarrow> courier \<Rightarrow> bool" where
  "courier_phase s c \<longleftrightarrow>
     (c_pc c = Leaving \<or> c_pc c = Over \<longrightarrow> pq_shut (s_pq s) \<and> pq_sz (s_pq s) = 0) \<and>
     (c_pc c = Asleep \<longrightarrow> \<not> pq_shut (s_pq s) \<and> pq_sz (s_pq s) = 0)"

definition phase_inv :: "sys \<Rightarrow> bool" where
  "phase_inv s \<longleftrightarrow>
     (\<forall>c \<in> set (s_couriers s). courier_phase s c) \<and>
     pq_shut (s_pq s) = after_shutdown (s_main s) \<and>
     length (s_couriers s) \<le> s_num s \<and>
     (\<not> may_miss_couriers (s_main s) \<longrightarrow> length (s_couriers s) = s_num s) \<and>
     (s_main s = Ended \<or> s_main s = Failed \<longrightarrow> list_all (\<lambda>c. c_pc c = Over) (s_couriers s)) \<and>
     (cancelled s @ pending (s_main s) \<noteq> [] \<longrightarrow> s_sig s)"

lemma take_root_frame: "take_root pq = (x, pq') \<Longrightarrow> pq_shut pq' = pq_shut pq"
  unfolding take_root_def Let_def prod.inject by (elim conjE) (hypsubst, simp)

lemma take_root_size: "take_root pq = (x, pq') \<Longrightarrow> pq_sz pq' = pq_sz pq - 1"
  unfolding take_root_def Let_def prod.inject by (elim conjE) (hypsubst, simp)

lemma courier_phase_same:
  "pq_shut (s_pq s') = pq_shut (s_pq s) \<Longrightarrow> pq_sz (s_pq s') = pq_sz (s_pq s) \<Longrightarrow>
   courier_phase s' c = courier_phase s c"
  by (simp add: courier_phase_def)

lemma phase_inv_same:
  assumes "phase_inv s" "s_couriers s' = s_couriers s" "s_pq s' = s_pq s" "s_num s' = s_num s"
    "s_sig s \<longrightarrow> s_sig s'" "cancelled s' @ pending (s_main s') \<noteq> [] \<longrightarrow> s_sig s'"
    "after_shutdown (s_main s') = after_shutdown (s_main s)"
    "\<not> may_miss_couriers (s_main s') \<longrightarrow> length (s_couriers s) = s_num s"
    "s_main s' = Ended \<or> s_main s' = Failed \<longrightarrow> list_all (\<lambda>c. c_pc c = Over) (s_couriers s)"
  shows "phase_inv s'"
  using assms by (simp add: phase_inv_def courier_phase_same [of s' s])

lemma phase_inv_sig: "phase_inv s \<Longrightarrow> cancelled s @ pending (s_main s) \<noteq> [] \<Longrightarrow> s_sig s"
  and phase_inv_full: "phase_inv s \<Longrightarrow> \<not> may_miss_couriers (s_main s) \<Longrightarrow> length (s_couriers s) = s_num s"
  by (simp_all add: phase_inv_def)

lemma phase_inv_shutdown:
  assumes "phase_inv s" "\<not> after_shutdown (s_main s)" "after_shutdown p" "pending p = []"
    "p \<noteq> Ended" "p \<noteq> Failed" "may_miss_couriers p \<or> length (s_couriers s) = s_num s"
  shows "phase_inv ((shutdown_queue s)\<lparr>s_main := p\<rparr>)"
proof -
  have "courier_phase ((shutdown_queue s)\<lparr>s_main := p\<rparr>) (wake c)" if "c \<in> set (s_couriers s)" for c
    using assms(1,2) that by (auto simp: phase_inv_def courier_phase_def shutdown_queue_def wake_def)
  moreover have "cancelled ((shutdown_queue s)\<lparr>s_main := p\<rparr>) = cancelled s"
    by (simp add: shutdown_queue_def log_defs)
  ultimately show ?thesis
    using assms by (auto simp: phase_inv_def shutdown_queue_def)
qed

lemma phase_inv_courier:
  assumes inv: "phase_inv s" and i: "i < length (s_couriers s)" and step: "courier_step s i = Some s'"
  shows "phase_inv s'"
proof -
  let ?c = "s_couriers s ! i"
  have c: "courier_phase s ?c" and all: "\<forall>c \<in> set (s_couriers s). courier_phase s c"
    and over: "s_main s = Ended \<or> s_main s = Failed \<longrightarrow> c_pc ?c = Over"
    using inv i by (simp_all add: phase_inv_def list_all_length)
  obtain c' where c': "s_couriers s' = (s_couriers s)[i := c']" "courier_phase s' c'"
    and frame: "s_main s' = s_main s" "s_num s' = s_num s" "s_sig s' = s_sig s" "cancelled s' = cancelled s"
      "pq_shut (s_pq s') = pq_shut (s_pq s)" "pq_sz (s_pq s') \<le> pq_sz (s_pq s)"
    and moved: "c_pc ?c \<noteq> Over"
    using step c
    by (cases rule: courier_step_cases)
       (force simp: log_defs courier_phase_def dest: take_root_frame take_root_size)+
  have "courier_phase s' c" if "c \<in> set (s_couriers s)" for c
    using all that frame by (auto simp: courier_phase_def)
  then have "\<forall>c \<in> set (s_couriers s'). courier_phase s' c"
    using c' by (auto dest: set_update_subset_insert [THEN subsetD])
  then show ?thesis
    using inv frame over moved by (simp add: phase_inv_def c')
qed

lemma phase_inv_main:
  assumes inv: "phase_inv s" and step: "main_step ok s = Some s'"
  shows "phase_inv s'"
  using step
proof (cases rule: main_step_cases)
  case spawn
  let ?c = "courier_stats_init (int (length (s_couriers s)) + 1)"
  have f: "cancelled s' = cancelled s" "s_main s' = s_main s" "s_sig s' = s_sig s" "s_num s' = s_num s"
    "s_pq s' = s_pq s" "s_couriers s' = s_couriers s @ [?c]"
    using spawn by (simp_all add: log_defs)
  have "courier_phase s' c = courier_phase s c" for c
    using f by (intro courier_phase_same) simp_all
  moreover have "courier_phase s ?c"
    by (simp add: courier_phase_def courier_stats_init_def)
  ultimately show ?thesis
    using inv spawn(1,2) by (simp add: phase_inv_def f)
next
  case (drain xs pq')
  then have "pq_shut pq' = pq_shut (s_pq s)" "pq_sz pq' = 0"
    using pq_drain_frame [of "s_pq s"] pq_drain_pops [of "s_pq s"] by simp_all
  moreover have "cancelled s' = cancelled s" using drain by (simp add: log_defs)
  ultimately show ?thesis
    using inv drain by (auto simp: phase_inv_def courier_phase_def)
next
  case spawn_fail
  then show ?thesis using inv by (simp add: phase_inv_shutdown)
next
  case shut
  then show ?thesis using inv phase_inv_full [OF inv] by (simp add: phase_inv_shutdown)
next
  case no_cancel
  then have "cancelled s' = []" using phase_inv_sig [OF inv] by (auto simp: log_defs)
  then show ?thesis
    using phase_inv_full [OF inv] no_cancel by (intro phase_inv_same [OF inv]) simp_all
qed (rule phase_inv_same [OF inv]; use phase_inv_sig [OF inv] phase_inv_full [OF inv] in \<open>auto simp: log_defs\<close>)+

lemma phase_inv_sigint: "phase_inv s \<Longrightarrow> phase_inv (s\<lparr>s_sig := True\<rparr>)"
  by (rule phase_inv_same [of s]) (simp_all add: phase_inv_def)

lemma phase_inv_step: "phase_inv s \<Longrightarrow> sys_step s s' \<Longrightarrow> phase_inv s'"
  by (erule sys_step.cases) (auto intro: phase_inv_courier phase_inv_main phase_inv_sigint)

lemma phase_inv_spurious: "phase_inv s \<Longrightarrow> spurious_step s s' \<Longrightarrow> phase_inv s'"
proof (erule spurious_step.cases)
  fix i t
  assume inv: "phase_inv s" and t: "s = t" "s' = t\<lparr>s_couriers := (s_couriers t)[i := wake (s_couriers t ! i)]\<rparr>"
    "i < length (s_couriers t)" "c_pc (s_couriers t ! i) = Asleep"
  have "courier_phase s' c = courier_phase s c" for c
    using t by (intro courier_phase_same) simp_all
  moreover have "courier_phase s (wake (s_couriers s ! i))"
    by (simp add: courier_phase_def wake_def t)
  moreover have "s_main s \<noteq> Ended" "s_main s \<noteq> Failed"
    using inv t by (auto simp: phase_inv_def list_all_length)
  moreover have "cancelled s' = cancelled s" using t by (simp add: log_defs)
  ultimately show "phase_inv s'"
    using inv t by (auto simp: phase_inv_def dest: set_update_subset_insert [THEN subsetD])
qed

section \<open>All orders are completed before an undisturbed shift ends\<close>

definition counted :: "sys \<Rightarrow> int" where
  "counted s = int (length (completions s)) - (\<Sum>c\<leftarrow>s_couriers s. owed_count (c_pc c))"

definition done_inv :: "sys \<Rightarrow> bool" where
  "done_inv s \<longleftrightarrow> 0 \<le> counted s \<and>
     (int (s_n s) \<le> int_max \<and> after_polling (s_main s) \<longrightarrow> s_sig s \<or> int (s_n s) \<le> counted s)"

lemma owed_count_nonneg [simp]: "0 \<le> owed_count p"
  by (cases p) auto

lemma counted_le:
  assumes "flow_inv orders s"
  shows "counted s \<le> int (length (completions s))" "length (completions s) \<le> length orders"
proof -
  show "counted s \<le> int (length (completions s))"
    by (auto simp: counted_def intro!: sum_list_nonneg)
  have "size (mset (delivered s)) \<le> size (mset (s_taken s))"
    "size (mset (s_taken s)) \<le> size (mset orders)"
    using assms by (auto simp: flow_inv_def)
  then show "length (completions s) \<le> length orders"
    by (simp add: delivered_def)
qed

lemma counted_courier:
  assumes i: "i < length (s_couriers s)" and step: "courier_step s i = Some s'"
  shows "counted s \<le> counted s' \<and> s_main s' = s_main s \<and> s_sig s' = s_sig s \<and> s_n s' = s_n s"
  using step i by (cases rule: courier_step_cases) (simp_all add: counted_def owed_upd log_defs)

lemma counted_main:
  assumes step: "main_step ok s = Some s'"
  shows "counted s' = counted s \<and> s_sig s' = s_sig s \<and> s_n s' = s_n s"
  using step by (cases rule: main_step_cases)
    (simp_all add: counted_def log_defs courier_stats_init_def shutdown_queue_def comp_def)

lemma after_polling_step:
  assumes "main_step ok s = Some s'" "after_polling (s_main s')"
  shows "after_polling (s_main s) \<or> s_sig s \<or> wrap32 (int (s_n s)) \<le> s_completed s"
  using assms by (cases rule: main_step_cases) (auto simp: shutdown_queue_def)

text \<open>The counter is a counter: below \<open>INT_MAX\<close> orders it does not wrap.\<close>

lemma completed_exact:
  assumes "flow_inv orders s" "count_inv s" "int (length orders) \<le> int_max"
    and "0 \<le> counted s"
  shows "s_completed s = counted s"
  using counted_le [OF assms(1)] assms(2-4)
  by (auto simp: count_inv_def counted_def [symmetric] limits_defs intro!: wrap32_id)


section \<open>The invariant of the program\<close>

definition sys_inv :: "order list \<Rightarrow> sys \<Rightarrow> bool" where
  "sys_inv orders s \<longleftrightarrow> flow_inv orders s \<and> count_inv s \<and> phase_inv s \<and> done_inv s"

lemma sys_invD:
  assumes "sys_inv orders s"
  shows "flow_inv orders s" "count_inv s" "phase_inv s" "done_inv s" "s_n s = length orders"
  using assms by (simp_all add: sys_inv_def flow_inv_def)

lemma done_inv_step:
  assumes inv: "sys_inv orders s" and step: "sys_step s s'"
  shows "done_inv s'"
  using step
proof cases
  case (step_courier i)
  then show ?thesis
    using counted_courier [OF step_courier] sys_invD(4) [OF inv] by (auto simp: done_inv_def)
next
  case (step_main ok)
  note c = counted_main [OF step_main]
  have "s_sig s \<or> int (s_n s) \<le> counted s" if n: "int (s_n s) \<le> int_max" and a: "after_polling (s_main s')"
  proof -
    have "s_completed s = counted s"
      using completed_exact sys_invD [OF inv] n by (auto simp: done_inv_def)
    moreover have "wrap32 (int (s_n s)) = int (s_n s)"
      using n by (intro wrap32_id) (simp_all add: limits_defs)
    ultimately show ?thesis
      using after_polling_step [OF step_main a] sys_invD(4) [OF inv] n by (auto simp: done_inv_def)
  qed
  then show ?thesis
    using c sys_invD(4) [OF inv] by (auto simp: done_inv_def)
next
  case step_sigint
  then show ?thesis
    using sys_invD(4) [OF inv] by (simp add: done_inv_def counted_def log_defs)
qed

lemma sys_inv_step: "sys_inv orders s \<Longrightarrow> sys_step s s' \<Longrightarrow> sys_inv orders s'"
  using done_inv_step by (auto simp: sys_inv_def intro: flow_inv_step count_inv_step phase_inv_step)

lemma sys_inv_spurious:
  assumes inv: "sys_inv orders s" and step: "spurious_step s s'"
  shows "sys_inv orders s'"
proof -
  have "counted s' = counted s \<and> s_main s' = s_main s \<and> s_sig s' = s_sig s \<and> s_n s' = s_n s"
    using step by cases (simp add: counted_def owed_upd log_defs)
  then have "done_inv s'" using sys_invD(4) [OF inv] by (simp add: done_inv_def)
  then show ?thesis
    using inv step by (auto simp: sys_inv_def intro: flow_inv_spurious count_inv_spurious phase_inv_spurious)
qed

interpretation shift_sys: invariant_system reach "\<lambda>s t. sys_step s t \<or> spurious_step s t" "sys_inv orders"
  for orders
proof
  show "reach s t \<Longrightarrow> (\<lambda>s t. sys_step s t \<or> spurious_step s t)\<^sup>*\<^sup>* s t" for s t
    by (induction rule: reach.induct) (auto intro: rtranclp.rtrancl_into_rtrancl)
qed (auto intro: sys_inv_step sys_inv_spurious)

lemmas sys_inv_reach = shift_sys.reach_keeps

lemma start_shift_cases:
  assumes "start_shift args env = Some s0"
  obtains c orders pq where "parse_cli_args args = Some c"
    "parse_orders_file (e_file env) (e_malloc env) (e_grow env) = Some orders"
    "pq_create (e_pq env) (e_cells env) (if length orders > 0 then length orders else 1) = Some pq"
    "s0 = initial_sys pq orders (nat (num_couriers c))"
  using assms by (auto simp: start_shift_def split: option.splits if_splits)

lemma sys_inv_initial:
  assumes "pq_create env cells cap = Some pq" "length orders \<le> cap"
  shows "sys_inv orders (initial_sys pq orders num)"
proof -
  have "pq_shut (s_pq (initial_sys pq orders num)) = False"
    using enqueue_all_orders_correct [of pq orders] pq_create_Some [OF assms(1)] assms(2)
    by (simp add: initial_sys_def)
  then have "phase_inv (initial_sys pq orders num)"
    by (simp add: phase_inv_def initial_sys_def log_defs)
  moreover have "done_inv (initial_sys pq orders num)"
    by (simp add: done_inv_def initial_sys_def counted_def log_defs)
  ultimately show ?thesis
    using flow_inv_initial [OF assms] by (simp add: sys_inv_def count_inv_initial)
qed

lemma start_shift_inv:
  assumes "start_shift args env = Some s0"
  obtains orders where "parse_orders_file (e_file env) (e_malloc env) (e_grow env) = Some orders"
    "sys_inv orders s0" "s_n s0 = length orders"
proof (cases rule: start_shift_cases [OF assms])
  case (1 c orders pq)
  then have "sys_inv orders s0"
    by (auto intro!: sys_inv_initial [of "e_pq env" "e_cells env" "if length orders > 0 then length orders else 1"])
  then show ?thesis using 1(2) by (intro that [of orders] sys_invD(5)) auto
qed

section \<open>Every step costs\<close>

fun courier_work :: "courier_pc \<Rightarrow> nat" where
  "courier_work Over = 0"
| "courier_work Leaving = 1"
| "courier_work Asleep = 1"
| "courier_work At_Pop = 2"
| "courier_work At_Top = 3"
| "courier_work (Count_Own x) = 4"
| "courier_work (Count_Time x) = 5"
| "courier_work (Count_Global x) = 6"
| "courier_work (Delivering x) = 7"
| "courier_work (Popped x) = 8"

fun main_rank :: "main_pc \<Rightarrow> nat" where
  "main_rank Spawning = 7"
| "main_rank Polling = 6"
| "main_rank Cancelling = 5"
| "main_rank (Drained xs) = 4"
| "main_rank (Reporting xs) = 3"
| "main_rank (Count_Cancel xs) = 3"
| "main_rank Shutting = 2"
| "main_rank Joining = 1"
| "main_rank Fail_Joining = 1"
| "main_rank Ended = 0"
| "main_rank Failed = 0"

fun report_work :: "main_pc \<Rightarrow> nat" where
  "report_work (Drained xs) = 2 * length xs"
| "report_work (Reporting xs) = 2 * length xs"
| "report_work (Count_Cancel xs) = 2 * length xs + 1"
| "report_work _ = 0"

definition work :: "sys \<Rightarrow> nat" where
  "work s = main_rank (s_main s) * (s_num s + 1) + report_work (s_main s) + 4 * (s_num s - length (s_couriers s)) +
     7 * pq_sz (s_pq s) + (\<Sum>c\<leftarrow>s_couriers s. courier_work (c_pc c)) + (if s_sig s then 0 else 1)"

lemma wake_work: "(\<Sum>c\<leftarrow>map wake cs. courier_work (c_pc c)) \<le> (\<Sum>c\<leftarrow>cs. courier_work (c_pc c)) + length cs"
  by (induction cs) (auto simp: wake_def)

lemma work_courier:
  assumes i: "i < length (s_couriers s)" and step: "courier_step s i = Some s'"
  shows "work s' < work s"
proof -
  have eq: "(\<Sum>c\<leftarrow>(s_couriers s)[i := c']. courier_work (c_pc c)) + courier_work (c_pc (s_couriers s ! i)) =
      (\<Sum>c\<leftarrow>s_couriers s. courier_work (c_pc c)) + courier_work (c_pc c')" for c'
    by (rule sum_list_upd [OF i])
  have up: "(\<Sum>c\<leftarrow>(s_couriers s)[i := c']. courier_work (c_pc c)) =
      (\<Sum>c\<leftarrow>s_couriers s. courier_work (c_pc c)) + courier_work (c_pc c') - courier_work (c_pc (s_couriers s ! i))"
    and low: "courier_work (c_pc (s_couriers s ! i)) \<le> (\<Sum>c\<leftarrow>s_couriers s. courier_work (c_pc c))" for c'
    using eq [of c'] member_le_sum_list [of "courier_work (c_pc (s_couriers s ! i))"
      "map (\<lambda>c. courier_work (c_pc c)) (s_couriers s)"] i by auto
  show ?thesis
    using step
  proof (cases rule: courier_step_cases)
    case (take x pq')
    then have "Suc (pq_sz pq') = pq_sz (s_pq s)" using take_root_size [OF take(3)] by simp
    then show ?thesis using take low by (simp add: work_def up)
  qed (use low in \<open>simp_all add: work_def up\<close>)
qed

lemma work_main:
  assumes inv: "phase_inv s" and step: "main_step ok s = Some s'"
  shows "work s' < work s"
  using step
proof (cases rule: main_step_cases)
  case spawn
  then have "length (s_couriers s) < s_num s" using inv by (simp add: phase_inv_def)
  then show ?thesis using spawn by (simp add: work_def courier_stats_init_def)
next
  case spawn_fail
  then show ?thesis
    using inv wake_work [of "s_couriers s"] by (simp add: work_def shutdown_queue_def phase_inv_def)
next
  case shut
  then show ?thesis
    using inv wake_work [of "s_couriers s"] by (simp add: work_def shutdown_queue_def phase_inv_def)
next
  case (drain xs pq')
  have "pq_sz pq' + length xs = pq_sz (s_pq s)"
    using pq_drain_length [of "s_pq s"] drain(4) by simp
  then show ?thesis using drain by (simp add: work_def)
qed (simp_all add: work_def)

lemma work_step: "phase_inv s \<Longrightarrow> sys_step s s' \<Longrightarrow> work s' < work s"
proof (erule sys_step.cases)
  fix t assume "s = t" "s' = t\<lparr>s_sig := True\<rparr>" "\<not> s_sig t"
  then show "work s' < work s" by (simp add: work_def)
qed (auto intro: work_courier work_main)

lemma work_spurious: "spurious_step s s' \<Longrightarrow> work s' \<le> work s + 1"
proof (erule spurious_step.cases)
  fix i t
  assume t: "s = t" "s' = t\<lparr>s_couriers := (s_couriers t)[i := wake (s_couriers t ! i)]\<rparr>"
    "i < length (s_couriers t)" "c_pc (s_couriers t ! i) = Asleep"
  show "work s' \<le> work s + 1"
    using t sum_list_upd [OF t(3), of "\<lambda>c. courier_work (c_pc c)" "wake (s_couriers t ! i)"]
    by (simp add: work_def wake_def)
qed

text \<open>\<open>run s0 k j s\<close>: from \<open>s0\<close> to \<open>s\<close> in \<open>k\<close> steps and \<open>j\<close> spurious wake-ups.\<close>

inductive run :: "sys \<Rightarrow> nat \<Rightarrow> nat \<Rightarrow> sys \<Rightarrow> bool" for s0 where
  run_init: "run s0 0 0 s0"
| run_step: "run s0 k j s \<Longrightarrow> sys_step s s' \<Longrightarrow> run s0 (Suc k) j s'"
| run_spurious: "run s0 k j s \<Longrightarrow> spurious_step s s' \<Longrightarrow> run s0 k (Suc j) s'"

lemma run_reach: "run s0 k j s \<Longrightarrow> reach s0 s"
  by (induction rule: run.induct) (auto intro: reach.intros)

lemma run_work: "run s0 k j s \<Longrightarrow> sys_inv orders s0 \<Longrightarrow> k + work s \<le> work s0 + j"
proof (induction rule: run.induct)
  case (run_step k j s s')
  then have "phase_inv s" by (meson run_reach sys_inv_reach sys_invD(3))
  then show ?case using work_step [OF _ run_step.hyps(2)] run_step.IH run_step.prems by fastforce
next
  case (run_spurious k j s s')
  then show ?case using work_spurious [OF run_spurious.hyps(2)] by fastforce
qed simp

section \<open>Nobody waits for ever\<close>

lemma frame_step: "sys_step s s' \<Longrightarrow> s_num s' = s_num s"
  by (erule sys_step.cases, erule courier_step_cases)
     (auto elim!: main_step_cases simp: shutdown_queue_def)

lemma frame_reach: "reach s0 s \<Longrightarrow> s_num s = s_num s0"
  by (induction rule: reach.induct) (auto simp: frame_step elim: spurious_step.cases)

lemma start_shift_num: "start_shift args env = Some s0 \<Longrightarrow> 0 < s_num s0"
  by (auto elim!: start_shift_cases simp: initial_sys_def dest: parse_cli_args_positive)

lemma courier_moves: "c_pc (s_couriers s ! i) \<noteq> Asleep \<Longrightarrow> c_pc (s_couriers s ! i) \<noteq> Over \<Longrightarrow>
   \<exists>s'. courier_step s i = Some s'"
  by (cases "c_pc (s_couriers s ! i)")
     (auto simp: courier_step_def Let_def split: prod.splits pop_result.splits)

lemma nothing_owed:
  assumes "\<And>c. c \<in> set cs \<Longrightarrow> c_pc c = Asleep \<or> c_pc c = Over"
  shows "(\<Sum>c\<leftarrow>cs. carried (c_pc c)) = {#}" "(\<Sum>c\<leftarrow>cs. unlogged (c_pc c)) = {#}"
    "(\<Sum>c\<leftarrow>cs. owed_count (c_pc c)) = 0" "(\<Sum>c\<leftarrow>cs. owed_time (c_pc c)) = 0"
  using assms by (induction cs) force+

lemma idle_totals:
  assumes inv: "sys_inv orders s" and idle: "\<And>c. c \<in> set (s_couriers s) \<Longrightarrow> c_pc c = Asleep \<or> c_pc c = Over"
  shows "mset (s_taken s) = mset (delivered s)" "mset (started s) = mset (delivered s)"
    "s_completed s = wrap32 (int (length (delivered s)))" "s_time s = wrap64 (total_ms (delivered s))"
  using nothing_owed [OF idle] sys_invD(1,2) [OF inv]
  by (auto simp: flow_inv_def count_inv_def delivered_def)

lemma queue_empty_idle:
  assumes inv: "sys_inv orders s" and full: "0 < length (s_couriers s)"
    and idle: "\<And>c. c \<in> set (s_couriers s) \<Longrightarrow> c_pc c = Asleep \<or> c_pc c = Over"
  shows "pq_sz (s_pq s) = 0"
proof -
  have m: "s_couriers s ! 0 \<in> set (s_couriers s)" using full by simp
  then have "courier_phase s (s_couriers s ! 0)" using sys_invD(3) [OF inv] by (simp add: phase_inv_def)
  then show ?thesis using idle [OF m] by (auto simp: courier_phase_def)
qed

lemma polling_ends:
  assumes inv: "sys_inv orders s" and main: "s_main s = Polling" and num: "0 < s_num s"
    and idle: "\<And>c. c \<in> set (s_couriers s) \<Longrightarrow> c_pc c = Asleep \<or> c_pc c = Over"
  shows "wrap32 (int (s_n s)) \<le> s_completed s"
proof -
  have "0 < length (s_couriers s)" using phase_inv_full [OF sys_invD(3) [OF inv]] main num by simp
  then have "pq_sz (s_pq s) = 0" by (rule queue_empty_idle [OF inv _ idle])
  then have "mset orders = mset (s_taken s)"
    using sys_invD(1) [OF inv] main by (simp add: flow_inv_def pq_elems_empty_iff pq_elems_def)
  then have "length orders = length (delivered s)"
    using idle_totals(1) [OF inv idle] by (metis size_mset)
  then show ?thesis
    using idle_totals(3) [OF inv idle] sys_invD(5) [OF inv] by simp
qed

lemma somebody_moves:
  assumes inv: "sys_inv orders s" and num: "0 < s_num s" and live: "s_main s \<noteq> Ended" "s_main s \<noteq> Failed"
  shows "(\<exists>i s'. i < length (s_couriers s) \<and> courier_step s i = Some s') \<or> (\<exists>ok s'. main_step ok s = Some s')"
proof (cases "\<exists>i < length (s_couriers s). c_pc (s_couriers s ! i) \<noteq> Asleep \<and> c_pc (s_couriers s ! i) \<noteq> Over")
  case True
  then show ?thesis using courier_moves by blast
next
  case False
  then have idle: "c \<in> set (s_couriers s) \<Longrightarrow> c_pc c = Asleep \<or> c_pc c = Over" for c
    by (auto simp: in_set_conv_nth)
  have over: "list_all (\<lambda>c. c_pc c = Over) (s_couriers s)" if "after_shutdown (s_main s)"
    using idle that sys_invD(3) [OF inv] by (force simp: phase_inv_def courier_phase_def list_all_iff)
  have poll: "wrap32 (int (s_n s)) \<le> s_completed s" if "s_main s = Polling"
    by (rule polling_ends [OF inv that num idle])
  have "\<exists>ok s'. main_step ok s = Some s'"
    using live over poll by (cases "s_main s") (auto simp: main_step_def split: list.splits)
  then show ?thesis ..
qed

text \<open>Without spurious wake-ups the shift uses up its work, and it can go on until the main thread ends.\<close>

definition main_over :: "sys \<Rightarrow> bool" where
  "main_over s \<longleftrightarrow> s_main s = Ended \<or> s_main s = Failed"

interpretation shift_lives: live_system "sys_step\<^sup>*\<^sup>*" sys_step "\<lambda>s. sys_inv orders s \<and> 0 < s_num s" work main_over
  for orders
proof
  show "sys_inv orders t \<and> 0 < s_num t" if "sys_inv orders s \<and> 0 < s_num s" "sys_step s t" for s t
    using that sys_inv_step frame_step by metis
  show "work t < work s" if "sys_inv orders s \<and> 0 < s_num s" "sys_step s t" for s t
    using that work_step sys_invD(3) by blast
  show "\<exists>t. sys_step s t"
    if "sys_inv orders s \<and> 0 < s_num s" "\<not> main_over s" for s
  proof -
    have "(\<exists>i s'. i < length (s_couriers s) \<and> courier_step s i = Some s') \<or> (\<exists>ok s'. main_step ok s = Some s')"
      using that by (intro somebody_moves [of orders]) (auto simp: main_over_def)
    then show ?thesis by (blast intro: step_courier step_main)
  qed
qed

section \<open>The end of a shift\<close>

lemma ended_over:
  assumes "sys_inv orders s" "s_main s = Ended" "c \<in> set (s_couriers s)"
  shows "c_pc c = Over"
  using sys_invD(3) [OF assms(1)] assms(2,3) by (auto simp: phase_inv_def list_all_iff)

lemma ended_flow:
  assumes inv: "sys_inv orders s" and main: "s_main s = Ended" and num: "0 < s_num s"
  shows "mset orders = mset (delivered s) + mset (cancelled s)" "pq_sz (s_pq s) = 0"
    "mset (s_taken s) = mset (delivered s)" "mset (started s) = mset (delivered s)"
    "sorted (map order_key (s_taken s @ cancelled s))" "cancelled s \<noteq> [] \<longrightarrow> s_sig s"
proof -
  have idle: "c \<in> set (s_couriers s) \<Longrightarrow> c_pc c = Asleep \<or> c_pc c = Over" for c
    using ended_over [OF inv main] by blast
  have "0 < length (s_couriers s)" using phase_inv_full [OF sys_invD(3) [OF inv]] main num by simp
  then show z: "pq_sz (s_pq s) = 0" by (rule queue_empty_idle [OF inv _ idle])
  show t: "mset (s_taken s) = mset (delivered s)" and "mset (started s) = mset (delivered s)"
    using idle_totals [OF inv idle] by blast+
  show "mset orders = mset (delivered s) + mset (cancelled s)"
    "sorted (map order_key (s_taken s @ cancelled s))"
    using sys_invD(1) [OF inv] main z t by (simp_all add: flow_inv_def pq_elems_def)
  show "cancelled s \<noteq> [] \<longrightarrow> s_sig s"
    using phase_inv_sig [OF sys_invD(3) [OF inv]] by simp
qed

lemma ended_counts:
  assumes inv: "sys_inv orders s" and main: "s_main s = Ended"
  shows "s_completed s = wrap32 (int (length (delivered s)))"
    "s_cancelled s = wrap32 (int (length (cancelled s)))"
    "s_time s = wrap64 (total_ms (delivered s))"
    "i < length (s_couriers s) \<Longrightarrow> c_id (s_couriers s ! i) = int i + 1 \<and>
       c_completed (s_couriers s ! i) = wrap32 (int (length (by_courier s (int i + 1)))) \<and>
       c_time (s_couriers s ! i) = wrap64 (total_ms (by_courier s (int i + 1)))"
proof -
  have idle: "c \<in> set (s_couriers s) \<Longrightarrow> c_pc c = Asleep \<or> c_pc c = Over" for c
    using ended_over [OF inv main] by blast
  show "s_completed s = wrap32 (int (length (delivered s)))" "s_time s = wrap64 (total_ms (delivered s))"
    by (rule idle_totals [OF inv idle], assumption)+
  show "s_cancelled s = wrap32 (int (length (cancelled s)))"
    using sys_invD(2) [OF inv] main by (simp add: count_inv_def)
  assume i: "i < length (s_couriers s)"
  then have "c_pc (s_couriers s ! i) = Over" by (intro ended_over [OF inv main]) simp
  then show "c_id (s_couriers s ! i) = int i + 1 \<and>
       c_completed (s_couriers s ! i) = wrap32 (int (length (by_courier s (int i + 1)))) \<and>
       c_time (s_couriers s ! i) = wrap64 (total_ms (by_courier s (int i + 1)))"
    using sys_invD(2) [OF inv] i by (auto simp: count_inv_def courier_counts_def)
qed

lemma start_shift_reach:
  assumes "start_shift args env = Some s0" "reach s0 s"
    "parse_orders_file (e_file env) (e_malloc env) (e_grow env) = Some orders"
  shows "sys_inv orders s" "0 < s_num s"
  using start_shift_inv [OF assms(1)] sys_inv_reach [OF assms(2)] assms(3)
    start_shift_num [OF assms(1)] frame_reach [OF assms(2)]
  by force+

section \<open>Running a schedule\<close>

datatype move = Courier nat | Main bool | Sigint

fun move_step :: "move \<Rightarrow> sys \<Rightarrow> sys option" where
  "move_step (Courier i) s = (if i < length (s_couriers s) then courier_step s i else None)"
| "move_step (Main ok) s = main_step ok s"
| "move_step Sigint s = (if s_sig s then None else Some (s\<lparr>s_sig := True\<rparr>))"

fun run_schedule :: "move list \<Rightarrow> sys \<Rightarrow> sys option" where
  "run_schedule [] s = Some s"
| "run_schedule (m # ms) s = (case move_step m s of None \<Rightarrow> None | Some s' \<Rightarrow> run_schedule ms s')"

lemma move_step_sys: "move_step m s = Some s' \<Longrightarrow> sys_step s s'"
  by (cases m) (auto intro: sys_step.intros split: if_splits)

lemma run_schedule_run: "run_schedule ms s = Some s' \<Longrightarrow> run s0 k j s \<Longrightarrow> run s0 (k + length ms) j s'"
proof (induction ms arbitrary: s k)
  case (Cons m ms)
  then obtain s1 where "move_step m s = Some s1" "run_schedule ms s1 = Some s'"
    by (auto split: option.splits)
  then show ?case
    using Cons.IH [of s1 "Suc k"] Cons.prems(2) run_step [OF Cons.prems(2) move_step_sys] by simp
qed simp

lemma run_schedule_reach: "run_schedule ms s0 = Some s \<Longrightarrow> reach s0 s"
  using run_schedule_run [OF _ run_init] run_reach by blast

text \<open>A shift of one courier and two orders, once undisturbed and once interrupted.\<close>

definition demo_env :: main_env where
  "demo_env = \<lparr>e_file = Some (''7 Ada ECONOMY 2'' @ [LF] @ ''3 Bob EXPRESS 1'' @ [LF]), e_malloc = True,
     e_grow = (\<lambda>_. True), e_sigaction = True,
     e_pq = \<lparr>malloc_pq_ok = True, malloc_heap_ok = True, mutex_init_ok = True, cond_init_ok = True\<rparr>,
     e_cells = (\<lambda>_. \<lparr>oid = 0, oname = [], oprio = PRIO_EXPRESS, odur = 0\<rparr>), e_calloc = True\<rparr>"

definition demo_args :: "string list" where
  "demo_args = [''-n'', ''1'', ''-i'', ''orders.txt'', ''-s'', ''stats.txt'']"

definition demo_orders :: "order list" where
  "demo_orders = [\<lparr>oid = 7, oname = ''Ada'', oprio = PRIO_ECONOMY, odur = 2\<rparr>,
                  \<lparr>oid = 3, oname = ''Bob'', oprio = PRIO_EXPRESS, odur = 1\<rparr>]"

definition demo_queue :: pqueue where
  "demo_queue = \<lparr>pq_heap = rev demo_orders, pq_sz = 2, pq_cap = 2, pq_shut = False\<rparr>"

definition demo_start :: sys where
  "demo_start =
     \<lparr>s_pq = demo_queue, s_completed = 0, s_cancelled = 0, s_time = 0,
      s_sig = False, s_couriers = [], s_main = Spawning, s_num = 1, s_n = 2,
      s_log = Ev_Shift_Start 1 2 # map Ev_Queued demo_orders, s_taken = []\<rparr>"

definition demo_moves :: "move list" where
  "demo_moves = replicate 2 (Main True) @ replicate 16 (Courier 0) @ replicate 3 (Main True) @
     replicate 2 (Courier 0) @ [Main True]"

definition demo_interrupt :: "move list" where
  "demo_interrupt = replicate 2 (Main True) @ replicate 2 (Courier 0) @ [Sigint] @ replicate 7 (Main True) @
     replicate 8 (Courier 0) @ [Main True]"

lemma demo_parsed: "parse_orders_file (e_file demo_env) (e_malloc demo_env) (e_grow demo_env) = Some demo_orders"
  by code_simp

lemma demo_started: "start_shift demo_args demo_env = Some demo_start"
  by code_simp

lemma demo_run: "map_option (\<lambda>s. (s_main s, map oid (s_taken s), s_completed s, s_cancelled s, s_time s, s_sig s))
    (run_schedule demo_moves demo_start) = Some (Ended, [3, 7], 2, 0, 1500, False)"
  by code_simp

lemma demo_run_interrupt: "map_option (\<lambda>s. (s_main s, map oid (s_taken s), s_completed s, s_cancelled s, s_time s, s_sig s))
    (run_schedule demo_interrupt demo_start) = Some (Ended, [3], 1, 1, 500, True)"
  by code_simp

end
