(* ===== verification/Cargo_Properties.thy ===== *)
theory Cargo_Properties
  imports Cargo_Shift
begin

text \<open>The properties of the CargoGTU simulator (\<open>HW5\<close>).\<close>

section \<open>The shift\<close>

lemma demo_end:
  obtains s where "reach demo_start s" "s_main s = Ended" "map oid (s_taken s) = [3, 7]" "s_completed s = 2"
    "\<not> s_sig s" "run demo_start (length demo_moves) 0 s" "s_time s = 1500"
proof -
  obtain s where "run_schedule demo_moves demo_start = Some s" "s_main s = Ended" "map oid (s_taken s) = [3, 7]"
    "s_completed s = 2" "\<not> s_sig s" "s_time s = 1500"
    using demo_run by auto
  then show ?thesis
    using run_schedule_reach run_schedule_run [OF _ run_init] that by force
qed

text \<open>C1: when the program ends regularly, every order of the file was either delivered or
  cancelled, exactly once; the orders went out and were cancelled in the sequence of their
  (priority, id); nothing is left in the queue, every start has its completion, and nothing is
  cancelled without SIGINT.\<close>

theorem shift_conserves_orders:
  assumes "start_shift args env = Some s0"
    and "parse_orders_file (e_file env) (e_malloc env) (e_grow env) = Some orders"
    and "reach s0 s" and "s_main s = Ended"
  shows "mset orders = mset (delivered s) + mset (cancelled s) \<and>
    map order_key (s_taken s @ cancelled s) = sort (map order_key orders) \<and>
    mset (started s) = mset (delivered s) \<and> pq_sz (s_pq s) = 0 \<and>
    (cancelled s \<noteq> [] \<longrightarrow> s_sig s)"
proof -
  note f = ended_flow [OF start_shift_reach(1) [OF assms(1,3,2)] assms(4) start_shift_reach(2) [OF assms(1,3,2)]]
  have "mset (map order_key orders) = mset (map order_key (s_taken s @ cancelled s))"
    using f(1,3) by simp
  then have "sort (map order_key orders) = map order_key (s_taken s @ cancelled s)"
    using f(5) by (metis properties_for_sort)
  then show ?thesis using f by simp
qed

lemma shift_conserves_orders_witness:
  "\<exists>s. reach demo_start s \<and> s_main s = Ended \<and> cancelled s = [] \<and> mset (delivered s) = mset demo_orders"
proof -
  obtain s where s: "reach demo_start s" "s_main s = Ended" "\<not> s_sig s" by (rule demo_end)
  show ?thesis
    using shift_conserves_orders [OF demo_started demo_parsed s(1,2)] s by auto
qed

text \<open>C3: the counters the program prints and writes at the end are those of its log: completed and
  cancelled orders, total time, and for every courier its own deliveries, all modulo the width of
  the C integer that holds them.\<close>

theorem shift_counts:
  assumes "start_shift args env = Some s0"
    and "parse_orders_file (e_file env) (e_malloc env) (e_grow env) = Some orders"
    and "reach s0 s" and "s_main s = Ended"
  shows "s_completed s = wrap32 (int (length (delivered s))) \<and>
    s_cancelled s = wrap32 (int (length (cancelled s))) \<and>
    s_time s = wrap64 (total_ms (delivered s)) \<and>
    map c_id (s_couriers s) = map (\<lambda>i. int i + 1) [0..<s_num s0] \<and>
    map c_completed (s_couriers s) =
      map (\<lambda>i. wrap32 (int (length (by_courier s (int i + 1))))) [0..<s_num s0] \<and>
    map c_time (s_couriers s) = map (\<lambda>i. wrap64 (total_ms (by_courier s (int i + 1)))) [0..<s_num s0]"
proof -
  note inv = start_shift_reach(1) [OF assms(1,3,2)]
  have "length (s_couriers s) = s_num s0"
    using phase_inv_full [OF sys_invD(3) [OF inv]] assms(4) frame_reach [OF assms(3)] by simp
  then show ?thesis
    using ended_counts [OF inv assms(4)] by (auto intro!: nth_equalityI)
qed

lemma shift_counts_witness:
  "\<exists>s. reach demo_start s \<and> s_main s = Ended \<and> s_completed s = 2 \<and> wrap32 (int (length (delivered s))) = 2 \<and>
     map c_completed (s_couriers s) = [wrap32 (int (length (by_courier s 1)))]"
proof -
  obtain s where s: "reach demo_start s" "s_main s = Ended" "s_completed s = 2" by (rule demo_end)
  have "s_num demo_start = 1" by (simp add: demo_start_def)
  then show ?thesis
    using shift_counts [OF demo_started demo_parsed s(1,2)] s by (intro exI [of _ s]) auto
qed

text \<open>C2: no deadlock and no lost wake-up: as long as the main thread has not returned, some
  thread can make a step, whatever has happened before (SIGINT and spurious wake-ups included), and
  the shift can be brought to its end.\<close>

theorem shift_progress:
  assumes "start_shift args env = Some s0" and "reach s0 s"
    and "s_main s \<noteq> Ended" and "s_main s \<noteq> Failed"
  shows "((\<exists>i s'. i < length (s_couriers s) \<and> courier_step s i = Some s') \<or> (\<exists>ok s'. main_step ok s = Some s')) \<and>
    (\<exists>t. sys_step\<^sup>*\<^sup>* s t \<and> (s_main t = Ended \<or> s_main t = Failed))"
proof -
  obtain orders where o: "parse_orders_file (e_file env) (e_malloc env) (e_grow env) = Some orders"
    using start_shift_inv [OF assms(1)] by blast
  note inv = start_shift_reach [OF assms(1,2) o]
  show ?thesis
    using somebody_moves [OF inv assms(3,4)] shift_lives.gets_over [of orders s] inv by (simp add: main_over_def)
qed

lemma shift_progress_witness: "\<exists>s'. main_step True demo_start = Some s'"
proof -
  have "s_main demo_start = Spawning" "s_couriers demo_start = []" by (simp_all add: demo_start_def)
  then have "\<exists>ok s'. main_step ok demo_start = Some s'"
    using shift_progress [OF demo_started reach_init] by simp
  then show ?thesis by (auto simp: main_step_def demo_start_def)
qed

text \<open>C4: the program ends: from the start of a shift with \<open>n\<close> orders and \<open>num\<close> couriers at
  most \<open>11 num + 7 n + 8\<close> steps are made, plus one for every spurious wake-up.\<close>

theorem shift_terminates:
  assumes "start_shift args env = Some s0" and "run s0 k j s"
  shows "k \<le> 11 * s_num s0 + 7 * s_n s0 + 8 + j"
proof -
  obtain orders where inv: "sys_inv orders s0" by (rule start_shift_inv [OF assms(1)])
  have "pq_sz (s_pq s0) \<le> s_n s0"
    using sys_invD(1,5) [OF inv] by (metis (no_types) flow_inv_def size_mset size_pq_elems mset_subset_eq_add_left size_mset_mono subset_mset.dual_order.trans)
  moreover have "s_main s0 = Spawning" "s_couriers s0 = []" "\<not> s_sig s0"
    using assms(1) by (auto elim!: start_shift_cases simp: initial_sys_def)
  ultimately show ?thesis
    using run_work [OF assms(2) inv] by (simp add: work_def)
qed

lemma shift_terminates_witness: "\<exists>s. run demo_start 24 0 s \<and> (24::nat) \<le> 11 * s_num demo_start + 7 * s_n demo_start + 8"
proof -
  obtain s where "run demo_start (length demo_moves) 0 s" by (rule demo_end)
  then have "run demo_start 24 0 s" by (simp add: demo_moves_def)
  then show ?thesis using shift_terminates [OF demo_started] by fastforce
qed

section \<open>The queue\<close>

text \<open>C5: pushing all orders of a file and emptying the queue yields them sorted by priority and,
  within a priority, by id, none lost or doubled.\<close>

theorem queue_sorts_orders:
  assumes "pq_create env cells cap = Some pq" and "length orders \<le> cap"
  shows "mset (fst (pq_drain (enqueue_all_orders pq orders))) = mset orders \<and>
    map order_key (fst (pq_drain (enqueue_all_orders pq orders))) = sort (map order_key orders) \<and>
    pq_sz (snd (pq_drain (enqueue_all_orders pq orders))) = 0"
proof -
  let ?q = "enqueue_all_orders pq orders"
  have q: "pq_inv ?q" "pq_elems ?q = mset orders"
    using enqueue_all_orders_correct [of pq orders] pq_create_Some [OF assms(1)] assms(2) by auto
  have p: "cargo_pq.pops ?q (fst (pq_drain ?q)) (snd (pq_drain ?q))" and e: "pq_sz (snd (pq_drain ?q)) = 0"
    using pq_drain_pops [of ?q] by auto
  have m: "mset (fst (pq_drain ?q)) = mset orders" "sorted (map order_key (fst (pq_drain ?q)))"
    using cargo_pq.pops_correct [OF p q(1)] q e by (auto simp: pq_elems_def)
  then have "sort (map order_key orders) = map order_key (fst (pq_drain ?q))"
    by (metis properties_for_sort mset_map)
  then show ?thesis using m e by simp
qed

lemma queue_sorts_orders_witness:
  "\<exists>pq. pq_create (e_pq demo_env) (e_cells demo_env) 2 = Some pq \<and>
     mset (fst (pq_drain (enqueue_all_orders pq demo_orders))) = mset demo_orders"
  using queue_sorts_orders [of "e_pq demo_env" "e_cells demo_env" 2 _ demo_orders]
  by (simp add: pq_create_def demo_env_def demo_orders_def)

section \<open>The orders file\<close>

text \<open>Whatever the file holds, the orders the parser returns have non-negative ids, valid
  names, positive durations, and no id twice; lines that say otherwise are skipped.\<close>

theorem parsed_orders_valid:
  assumes "parse_orders_file file malloc_ok grow = Some orders"
  shows "list_all order_wf orders \<and> distinct (map oid orders)"
  using assms orders_loop_inv [of "[]" grow _ INITIAL_CAPACITY]
  by (auto simp: parse_orders_file_def split: option.splits if_splits)

lemma parsed_orders_valid_witness:
  "list_all order_wf demo_orders \<and> distinct (map oid demo_orders)"
  by (rule parsed_orders_valid [OF demo_parsed])

text \<open>C6: a file that holds valid orders with distinct ids, one line each, is read back exactly.\<close>

theorem orders_file_roundtrip:
  assumes "list_all order_wf orders" and "distinct (map oid orders)"
  shows "parse_orders_file (Some (concat (map (\<lambda>x. order_line x @ [LF]) orders))) True (\<lambda>_. True) = Some orders"
  using orders_loop_lines [of "[]" orders "\<lambda>_. True" INITIAL_CAPACITY] assms
  by (simp add: parse_orders_file_def INITIAL_CAPACITY_def)

lemma orders_file_roundtrip_witness:
  "parse_orders_file (Some (concat (map (\<lambda>x. order_line x @ [LF]) demo_orders))) True (\<lambda>_. True) = Some demo_orders"
proof (rule orders_file_roundtrip)
  show "list_all order_wf demo_orders" "distinct (map oid demo_orders)" by code_simp+
qed

end
