(* ===== verification/Log_Ring.thy ===== *)
theory Log_Ring
  imports Prelude
begin

text \<open>
  The circular buffers of the log analyzer (\<open>HW4\<close>): \<open>buffer.c\<close>, the four shared regions of
  \<open>shm_queue.c\<close> and the internal buffer of a reader have the same five fields and the same code.
  The interface they offer is the locale \<open>bounded_fifo\<close>, refined to a list.
\<close>

section \<open>The buffer\<close>

record 'a ring =
  rg_data :: "'a list"
  rg_capacity :: nat
  rg_head :: nat
  rg_tail :: nat
  rg_count :: nat

text \<open>\<open>buffer_init\<close>: the cells hold whatever \<open>malloc\<close> returned; \<open>None\<close> when it fails.\<close>

definition ring_init :: "bool \<Rightarrow> (nat \<Rightarrow> 'a) \<Rightarrow> nat \<Rightarrow> 'a ring option" where
  "ring_init malloc_ok cells capacity =
     (if \<not> malloc_ok then None
      else Some \<lparr>rg_data = map cells [0..<capacity], rg_capacity = capacity,
                 rg_head = 0, rg_tail = 0, rg_count = 0\<rparr>)"

definition ring_push :: "('a, 'z) ring_scheme \<Rightarrow> 'a \<Rightarrow> ('a, 'z) ring_scheme option" where
  "ring_push b x =
     (if rg_count b = rg_capacity b then None
      else Some (b\<lparr>rg_data := (rg_data b)[rg_tail b := x],
                   rg_tail := (rg_tail b + 1) mod rg_capacity b,
                   rg_count := rg_count b + 1\<rparr>))"

definition ring_pop :: "('a, 'z) ring_scheme \<Rightarrow> ('a \<times> ('a, 'z) ring_scheme) option" where
  "ring_pop b =
     (if rg_count b = 0 then None
      else Some (rg_data b ! rg_head b,
                 b\<lparr>rg_head := (rg_head b + 1) mod rg_capacity b, rg_count := rg_count b - 1\<rparr>))"

section \<open>The interface\<close>

datatype 'a fifo_op = Push 'a | Pop

datatype 'a fifo_out = Pushed bool | Popped "'a option"

text \<open>The specification: a list and a bound.\<close>

fun list_run :: "nat \<Rightarrow> 'a list \<Rightarrow> 'a fifo_op list \<Rightarrow> 'a list \<times> 'a fifo_out list" where
  "list_run cap xs [] = (xs, [])"
| "list_run cap xs (Push x # ops) =
     (if length xs = cap then (case list_run cap xs ops of (ys, out) \<Rightarrow> (ys, Pushed False # out))
      else (case list_run cap (xs @ [x]) ops of (ys, out) \<Rightarrow> (ys, Pushed True # out)))"
| "list_run cap xs (Pop # ops) =
     (case xs of
        [] \<Rightarrow> (case list_run cap [] ops of (ys, out) \<Rightarrow> (ys, Popped None # out))
      | x # xs' \<Rightarrow> (case list_run cap xs' ops of (ys, out) \<Rightarrow> (ys, Popped (Some x) # out)))"

text \<open>What the clients rely on: a refused push changes nothing, a taken push appends, a pop
  takes the first element.\<close>

locale bounded_fifo =
  fixes inv :: "'q \<Rightarrow> bool"
    and contents :: "'q \<Rightarrow> 'a list"
    and capacity :: "'q \<Rightarrow> nat"
    and push :: "'q \<Rightarrow> 'a \<Rightarrow> 'q option"
    and pop :: "'q \<Rightarrow> ('a \<times> 'q) option"
  assumes bounded: "inv q \<Longrightarrow> length (contents q) \<le> capacity q"
    and push_full: "inv q \<Longrightarrow> push q x = None \<longleftrightarrow> length (contents q) = capacity q"
    and push_appends: "inv q \<Longrightarrow> push q x = Some q' \<Longrightarrow>
      inv q' \<and> contents q' = contents q @ [x] \<and> capacity q' = capacity q"
    and pop_empty: "inv q \<Longrightarrow> pop q = None \<longleftrightarrow> contents q = []"
    and pop_first: "inv q \<Longrightarrow> pop q = Some (x, q') \<Longrightarrow>
      inv q' \<and> contents q = x # contents q' \<and> capacity q' = capacity q"
begin

fun run :: "'q \<Rightarrow> 'a fifo_op list \<Rightarrow> 'q \<times> 'a fifo_out list" where
  "run q [] = (q, [])"
| "run q (Push x # ops) =
     (case push q x of
        None \<Rightarrow> (case run q ops of (r, out) \<Rightarrow> (r, Pushed False # out))
      | Some q' \<Rightarrow> (case run q' ops of (r, out) \<Rightarrow> (r, Pushed True # out)))"
| "run q (Pop # ops) =
     (case pop q of
        None \<Rightarrow> (case run q ops of (r, out) \<Rightarrow> (r, Popped None # out))
      | Some (x, q') \<Rightarrow> (case run q' ops of (r, out) \<Rightarrow> (r, Popped (Some x) # out)))"

lemma run_refines:
  "inv q \<Longrightarrow> inv (fst (run q ops)) \<and> capacity (fst (run q ops)) = capacity q \<and>
     contents (fst (run q ops)) = fst (list_run (capacity q) (contents q) ops) \<and>
     snd (run q ops) = snd (list_run (capacity q) (contents q) ops)"
proof (induction q ops rule: run.induct)
  case (2 q x ops)
  show ?case
  proof (cases "push q x")
    case None
    then show ?thesis using 2 push_full [of q x] by (simp add: case_prod_beta)
  next
    case (Some q')
    then have n: "length (contents q) \<noteq> capacity q" using push_full [of q x] "2.prems" by force
    show ?thesis
      using "2.IH"(2) [OF Some] push_appends [OF "2.prems" Some] Some n by (simp add: case_prod_beta)
  qed
next
  case (3 q ops)
  show ?case
  proof (cases "pop q")
    case None
    then show ?thesis using 3 pop_empty [of q] by (simp add: case_prod_beta)
  next
    case (Some p)
    obtain x q' where p: "p = (x, q')" by (cases p)
    show ?thesis
      using "3.IH"(2) [OF Some p [symmetric]] pop_first [OF "3.prems" Some [unfolded p]] Some p
      by (simp add: case_prod_beta)
  qed
qed simp

text \<open>First in, first out: what was accepted is what came out followed by what is still held.\<close>

fun accepted :: "'a fifo_op list \<Rightarrow> 'a fifo_out list \<Rightarrow> 'a list" where
  "accepted (Push x # ops) (Pushed True # outs) = x # accepted ops outs"
| "accepted (op # ops) (out # outs) = accepted ops outs"
| "accepted _ _ = []"

fun delivered :: "'a fifo_out list \<Rightarrow> 'a list" where
  "delivered (Popped (Some x) # outs) = x # delivered outs"
| "delivered (out # outs) = delivered outs"
| "delivered [] = []"

lemma list_run_fifo:
  "xs @ accepted ops (snd (list_run cap xs ops)) =
   delivered (snd (list_run cap xs ops)) @ fst (list_run cap xs ops)"
proof (induction cap xs ops rule: list_run.induct)
  case (2 cap xs x ops)
  then show ?case by (auto simp: case_prod_beta)
next
  case (3 cap xs ops)
  then show ?case by (cases xs) (auto simp: case_prod_beta)
qed simp

lemma fifo:
  "inv q \<Longrightarrow> contents q @ accepted ops (snd (run q ops)) =
     delivered (snd (run q ops)) @ contents (fst (run q ops))"
  using run_refines [of q ops] list_run_fifo [of "contents q" ops "capacity q"]
  by simp

end

section \<open>The buffer provides it\<close>

definition ring_inv :: "('a, 'z) ring_scheme \<Rightarrow> bool" where
  "ring_inv b \<longleftrightarrow> length (rg_data b) = rg_capacity b \<and> rg_head b < rg_capacity b \<and>
     rg_count b \<le> rg_capacity b \<and> rg_tail b = (rg_head b + rg_count b) mod rg_capacity b"

definition ring_list :: "('a, 'z) ring_scheme \<Rightarrow> 'a list" where
  "ring_list b = map (\<lambda>i. rg_data b ! ((rg_head b + i) mod rg_capacity b)) [0..<rg_count b]"

lemma length_ring_list [ring_simps, simp]: "length (ring_list b) = rg_count b"
  by (simp add: ring_list_def)

lemma ring_list_Nil [ring_simps]: "ring_list b = [] \<longleftrightarrow> rg_count b = 0"
  by (simp add: ring_list_def)

lemma ring_init_inv:
  "ring_init ok cells n = Some b \<Longrightarrow> 0 < n \<Longrightarrow> ring_inv b \<and> ring_list b = [] \<and> rg_capacity b = n"
  by (auto simp: ring_init_def ring_inv_def ring_list_def split: if_splits)

lemma ring_slots_differ:
  assumes "i < (n::nat)" "n < c"
  shows "(h + i) mod c \<noteq> (h + n) mod c"
proof
  assume "(h + i) mod c = (h + n) mod c"
  then have "c dvd (h + n) - (h + i)" using assms mod_eq_dvd_iff_nat [of "h + i" "h + n" c] by simp
  then show False using assms by (auto dest: dvd_imp_le)
qed

lemma ring_push_Some:
  assumes inv: "ring_inv b" and push: "ring_push b x = Some b'"
  shows "ring_inv b' \<and> ring_list b' = ring_list b @ [x] \<and> rg_capacity b' = rg_capacity b"
proof -
  let ?c = "rg_capacity b" and ?h = "rg_head b" and ?n = "rg_count b"
  have n: "?n < ?c" and len: "length (rg_data b) = ?c" and tail: "rg_tail b = (?h + ?n) mod ?c"
    using inv push by (auto simp: ring_inv_def ring_push_def split: if_splits)
  have b': "b' = b\<lparr>rg_data := (rg_data b)[rg_tail b := x], rg_tail := (rg_tail b + 1) mod ?c, rg_count := ?n + 1\<rparr>"
    using push n by (simp add: ring_push_def)
  have "(rg_data b)[(?h + ?n) mod ?c := x] ! ((?h + i) mod ?c) = rg_data b ! ((?h + i) mod ?c)" if "i < ?n" for i
    using ring_slots_differ [OF that n, of ?h] by simp
  then have "ring_list b' = ring_list b @ [x]"
    using n len by (simp add: ring_list_def b' tail)
  moreover have "ring_inv b'"
    using inv n by (simp add: ring_inv_def b' mod_Suc_eq)
  ultimately show ?thesis by (simp add: b')
qed

lemma ring_pop_Some:
  assumes inv: "ring_inv b" and pop: "ring_pop b = Some (x, b')"
  shows "ring_inv b' \<and> ring_list b = x # ring_list b' \<and> rg_capacity b' = rg_capacity b"
proof -
  let ?c = "rg_capacity b" and ?h = "rg_head b" and ?n = "rg_count b"
  have n: "0 < ?n" and x: "x = rg_data b ! ?h"
    and b': "b' = b\<lparr>rg_head := (?h + 1) mod ?c, rg_count := ?n - 1\<rparr>"
    using pop by (auto simp: ring_pop_def split: if_splits)
  have h: "?h < ?c" using inv by (simp add: ring_inv_def)
  have "ring_list b = rg_data b ! (?h mod ?c) # map (\<lambda>i. rg_data b ! ((?h + i) mod ?c)) [1..<?n]"
    using n by (simp add: ring_list_def upt_conv_Cons)
  also have "map (\<lambda>i. rg_data b ! ((?h + i) mod ?c)) [1..<?n] =
      map (\<lambda>i. rg_data b ! ((?h + Suc i) mod ?c)) [0..<?n - 1]"
    using n by (intro nth_equalityI) auto
  also have "\<dots> = ring_list b'"
    by (simp add: ring_list_def b' mod_add_left_eq)
  finally have "ring_list b = x # ring_list b'" using h x by simp
  moreover have "(?h + ?n) mod ?c = ((?h + 1) mod ?c + (?n - 1)) mod ?c"
  proof -
    have "((?h + 1) mod ?c + (?n - 1)) mod ?c = (?h + 1 + (?n - 1)) mod ?c" by (rule mod_add_left_eq)
    then show ?thesis using n by simp
  qed
  moreover have "?n - 1 \<le> ?c" using inv by (auto simp: ring_inv_def)
  ultimately have "ring_inv b'" "ring_list b = x # ring_list b'"
    using inv n by (simp_all add: ring_inv_def b')
  then show ?thesis by (simp add: b')
qed

interpretation ring_fifo: bounded_fifo ring_inv ring_list rg_capacity ring_push ring_pop
proof
  show "ring_inv q \<Longrightarrow> length (ring_list q) \<le> rg_capacity q" for q :: "('a, 'z) ring_scheme"
    by (simp add: ring_inv_def)
  show "(ring_push q x = None) = (length (ring_list q) = rg_capacity q)" for q :: "('a, 'z) ring_scheme" and x
    by (simp add: ring_push_def)
  show "(ring_pop q = None) = (ring_list q = [])" for q :: "('a, 'z) ring_scheme"
    by (simp add: ring_pop_def ring_list_Nil)
qed (fact ring_push_Some ring_pop_Some)+

end
