(* ===== verification/Log_Entry.thy ===== *)
theory Log_Entry
  imports C_Library
begin

text \<open>
  \<open>HW4/src/parser/log_entry.c\<close>: one line of a log file becomes a log entry.  The line is a C
  string; \<open>None\<close> is the answer 0 of the C function (a malformed line).
\<close>

section \<open>Entries\<close>

definition MAX_SOURCE_LEN :: nat where "MAX_SOURCE_LEN = 64"
definition MAX_MESSAGE_LEN :: nat where "MAX_MESSAGE_LEN = 512"
definition TMP_BUF_SIZE :: nat where "TMP_BUF_SIZE = 128"

lemmas entry_limits = MAX_SOURCE_LEN_def MAX_MESSAGE_LEN_def TMP_BUF_SIZE_def

datatype t_level = LV_ERROR | LV_WARN | LV_INFO | LV_DEBUG | LV_INVALID

text \<open>The numbers of the enumeration.\<close>

fun level_index :: "t_level \<Rightarrow> nat" where
  "level_index LV_ERROR = 0"
| "level_index LV_WARN = 1"
| "level_index LV_INFO = 2"
| "level_index LV_DEBUG = 3"
| "level_index LV_INVALID = 4"

definition level_of :: "nat \<Rightarrow> t_level" where
  "level_of i = (if i = 0 then LV_ERROR else if i = 1 then LV_WARN else if i = 2 then LV_INFO
     else if i = 3 then LV_DEBUG else LV_INVALID)"

lemma level_index_inverse [simp]: "level_of (level_index l) = l"
  by (cases l) (simp_all add: level_of_def)

lemma level_of_inverse [simp]: "i \<le> 4 \<Longrightarrow> level_index (level_of i) = i"
  by (auto simp: level_of_def)

lemma level_index_le [simp]: "level_index l \<le> 4"
  by (cases l) auto

lemma level_index_less: "level_index l < 4 \<longleftrightarrow> l \<noteq> LV_INVALID"
  by (cases l) auto

record log_entry =
  le_timestamp :: string
  le_level :: t_level
  le_source :: string
  le_message :: string
  le_is_eof :: bool

section \<open>The parser\<close>

definition parse_level_str :: "string \<Rightarrow> t_level option" where
  "parse_level_str s =
     (if s = ''ERROR'' then Some LV_ERROR
      else if s = ''WARN'' then Some LV_WARN
      else if s = ''INFO'' then Some LV_INFO
      else if s = ''DEBUG'' then Some LV_DEBUG
      else None)"

definition skip_spaces :: "string \<Rightarrow> string" where
  "skip_spaces p = dropWhile (\<lambda>c. c = CHR '' '') p"

text \<open>The lines the three handlers of bracketed fields share: the text between the brackets and
  what follows the closing one.\<close>

definition bracket_field :: "string \<Rightarrow> (string \<times> string) option" where
  "bracket_field p =
     (case p of
        [] \<Rightarrow> None
      | c # start \<Rightarrow>
          if c \<noteq> CHR ''['' then None
          else (case dropWhile (\<lambda>c. c \<noteq> CHR '']'') start of
                  [] \<Rightarrow> None
                | _ # rest \<Rightarrow> Some (takeWhile (\<lambda>c. c \<noteq> CHR '']'') start, rest)))"

definition handle_timestamp :: "string \<Rightarrow> (string \<times> string) option" where
  "handle_timestamp p =
     (case bracket_field p of
        None \<Rightarrow> None
      | Some (t, rest) \<Rightarrow> if length t \<noteq> 19 then None else Some (strncpy 19 t, skip_spaces rest))"

definition handle_level :: "string \<Rightarrow> (t_level \<times> string) option" where
  "handle_level p =
     (case bracket_field p of
        None \<Rightarrow> None
      | Some (t, rest) \<Rightarrow>
          if length t \<le> 0 \<or> length t \<ge> TMP_BUF_SIZE then None
          else (case parse_level_str (strncpy (length t) t) of
                  None \<Rightarrow> None
                | Some lv \<Rightarrow> Some (lv, skip_spaces rest)))"

definition handle_source :: "string \<Rightarrow> (string \<times> string) option" where
  "handle_source p =
     (case bracket_field p of
        None \<Rightarrow> None
      | Some (t, rest) \<Rightarrow>
          if length t \<le> 0 \<or> length t \<ge> MAX_SOURCE_LEN then None
          else Some (strncpy (length t) t, skip_spaces rest))"

definition handle_message :: "string \<Rightarrow> string option" where
  "handle_message p = (if p = [] then None else Some (strncpy (MAX_MESSAGE_LEN - 1) p))"

definition parse_log_line :: "string \<Rightarrow> log_entry option" where
  "parse_log_line line =
     (case handle_timestamp line of
        None \<Rightarrow> None
      | Some (ts, p1) \<Rightarrow>
          (case handle_level p1 of
             None \<Rightarrow> None
           | Some (lv, p2) \<Rightarrow>
               (case handle_source p2 of
                  None \<Rightarrow> None
                | Some (src, p3) \<Rightarrow>
                    (case handle_message p3 of
                       None \<Rightarrow> None
                     | Some msg \<Rightarrow> Some \<lparr>le_timestamp = ts, le_level = lv, le_source = src,
                                         le_message = msg, le_is_eof = False\<rparr>))))"

section \<open>What is accepted\<close>

text \<open>An entry that fits the fixed arrays of the structure.\<close>

definition entry_wf :: "log_entry \<Rightarrow> bool" where
  "entry_wf e \<longleftrightarrow>
     length (le_timestamp e) = 19 \<and> CHR '']'' \<notin> set (le_timestamp e) \<and>
     le_level e \<noteq> LV_INVALID \<and>
     0 < length (le_source e) \<and> length (le_source e) < MAX_SOURCE_LEN \<and> CHR '']'' \<notin> set (le_source e) \<and>
     0 < length (le_message e) \<and> length (le_message e) < MAX_MESSAGE_LEN \<and> hd (le_message e) \<noteq> CHR '' '' \<and>
     \<not> le_is_eof e"

lemma bracket_split:
  "s = t @ CHR '']'' # r \<and> CHR '']'' \<notin> set t \<longleftrightarrow>
   takeWhile (\<lambda>c. c \<noteq> CHR '']'') s = t \<and> (\<exists>x. dropWhile (\<lambda>c. c \<noteq> CHR '']'') s = x # r)"
proof (induction s arbitrary: t)
  case (Cons a s)
  then show ?case by (cases t) auto
qed simp

lemma bracket_field_Some:
  "bracket_field p = Some (t, r) \<longleftrightarrow> p = CHR ''['' # t @ CHR '']'' # r \<and> CHR '']'' \<notin> set t"
proof (cases p)
  case (Cons c start)
  show ?thesis
  proof (cases "c = CHR ''[''")
    case True
    have "bracket_field p = Some (t, r) \<longleftrightarrow>
        takeWhile (\<lambda>c. c \<noteq> CHR '']'') start = t \<and> (\<exists>x. dropWhile (\<lambda>c. c \<noteq> CHR '']'') start = x # r)"
      unfolding bracket_field_def Cons True
      by (simp split: list.split del: dropWhile_eq_Nil_conv)
    then show ?thesis
      unfolding bracket_split [symmetric] Cons True by simp
  next
    case False
    then show ?thesis by (simp add: bracket_field_def Cons)
  qed
qed (simp add: bracket_field_def)

lemma skip_spaces_hd: "hd (skip_spaces p) = CHR '' '' \<Longrightarrow> skip_spaces p = []"
  using hd_dropWhile [of "\<lambda>c. c = CHR '' ''" p] by (auto simp: skip_spaces_def)

lemma parse_log_line_wf:
  assumes "parse_log_line line = Some e"
  shows "entry_wf e"
proof -
  obtain ts p1 lv p2 src p3 where p: "handle_timestamp line = Some (ts, p1)" "handle_level p1 = Some (lv, p2)"
      "handle_source p2 = Some (src, p3)" "p3 \<noteq> []"
    and e: "e = \<lparr>le_timestamp = ts, le_level = lv, le_source = src, le_message = take 511 p3, le_is_eof = False\<rparr>"
    using assms by (auto simp: parse_log_line_def handle_message_def strncpy_def entry_limits
        split: option.splits if_splits)
  have "length ts = 19 \<and> CHR '']'' \<notin> set ts"
    using p(1) by (auto simp: handle_timestamp_def bracket_field_Some split: option.splits if_splits)
  moreover have "lv \<noteq> LV_INVALID"
    using p(2) by (auto simp: handle_level_def parse_level_str_def split: option.splits if_splits)
  moreover have "0 < length src \<and> length src < MAX_SOURCE_LEN \<and> CHR '']'' \<notin> set src" "hd p3 \<noteq> CHR '' ''"
    using p(3,4) by (auto simp: handle_source_def bracket_field_Some split: option.splits if_splits
        dest: skip_spaces_hd)
  moreover have "hd (take 511 p3) = hd p3" using p(4) by (cases p3) auto
  ultimately show ?thesis using p(4) by (simp add: entry_wf_def e MAX_MESSAGE_LEN_def)
qed

section \<open>Printing an entry and reading it back\<close>

fun level_name :: "t_level \<Rightarrow> string" where
  "level_name LV_ERROR = ''ERROR''"
| "level_name LV_WARN = ''WARN''"
| "level_name LV_INFO = ''INFO''"
| "level_name LV_DEBUG = ''DEBUG''"
| "level_name LV_INVALID = []"

definition log_line :: "log_entry \<Rightarrow> string" where
  "log_line e = ''['' @ le_timestamp e @ ''] ['' @ level_name (le_level e) @ ''] ['' @ le_source e @ ''] '' @ le_message e"

lemma bracket_field_text: "CHR '']'' \<notin> set t \<Longrightarrow> bracket_field (CHR ''['' # t @ CHR '']'' # r) = Some (t, r)"
  by (simp add: bracket_field_Some)

lemma skip_spaces_one: "p \<noteq> [] \<Longrightarrow> hd p \<noteq> CHR '' '' \<Longrightarrow> skip_spaces (CHR '' '' # p) = p"
  by (cases p) (simp_all add: skip_spaces_def)

lemma level_name_props: "l \<noteq> LV_INVALID \<Longrightarrow> parse_level_str (level_name l) = Some l \<and> level_name l \<noteq> [] \<and>
    length (level_name l) < TMP_BUF_SIZE \<and> CHR '']'' \<notin> set (level_name l)"
  by (cases l) (simp_all add: parse_level_str_def TMP_BUF_SIZE_def)

lemma parse_log_line_roundtrip:
  assumes wf: "entry_wf e"
  shows "parse_log_line (log_line e) = Some e"
proof -
  let ?msg = "le_message e"
  let ?r2 = "CHR ''['' # le_source e @ CHR '']'' # CHR '' '' # ?msg"
  let ?r1 = "CHR ''['' # level_name (le_level e) @ CHR '']'' # CHR '' '' # ?r2"
  have "handle_timestamp (log_line e) = Some (le_timestamp e, ?r1)"
    using wf by (simp add: handle_timestamp_def log_line_def bracket_field_text entry_wf_def skip_spaces_one)
  moreover have "handle_level ?r1 = Some (le_level e, ?r2)"
    using wf level_name_props [of "le_level e"]
    by (simp add: handle_level_def bracket_field_text entry_wf_def skip_spaces_one)
  moreover have "handle_source ?r2 = Some (le_source e, ?msg)"
    using wf by (simp add: handle_source_def bracket_field_text entry_wf_def skip_spaces_one)
  moreover have "handle_message ?msg = Some ?msg"
    using wf by (simp add: handle_message_def entry_wf_def MAX_MESSAGE_LEN_def)
  ultimately show ?thesis using wf by (simp add: parse_log_line_def entry_wf_def)
qed

end
