(* ===== verification/Log_Args.thy ===== *)
theory Log_Args
  imports C_Library
begin

text \<open>
  \<open>HW4/src/parser/parser.c\<close> and \<open>parser_files.c\<close>: the command line, the keywords, the file of
  log files and the file of priority sources.  The system's answers are arguments: which paths are
  readable, what \<open>fopen\<close> finds, which \<open>strdup\<close> succeeds.
\<close>

section \<open>Data\<close>

definition MAX_KEYWORDS :: nat where "MAX_KEYWORDS = 8"
definition MAX_FILES :: nat where "MAX_FILES = 128"
definition MAX_SOURCES :: nat where "MAX_SOURCES = 128"
definition MAX_WORKERS :: nat where "MAX_WORKERS = 64"

lemmas args_limits = MAX_KEYWORDS_def MAX_FILES_def MAX_SOURCES_def MAX_WORKERS_def

text \<open>The counts of the structure are the lengths of the lists.\<close>

record t_args =
  config_file :: "string option"
  filter_file :: "string option"
  output_txt :: "string option"
  output_bin :: "string option"
  keywords_raw :: "string option"
  keyword_list :: "string list"
  log_files :: "string list"
  priority_sources :: "string list"
  reader_threads :: int
  worker_threads :: int
  cap_a :: int
  cap_b :: int
  cap_d :: int
  timeout :: int

record parse_env =
  pe_readable :: "string \<Rightarrow> bool"
  pe_fopen :: "string \<Rightarrow> string option"
  pe_strdup :: "string \<Rightarrow> nat \<Rightarrow> bool"

section \<open>The command line\<close>

definition init_args :: t_args where
  "init_args = \<lparr>config_file = None, filter_file = None, output_txt = None, output_bin = None,
     keywords_raw = None, keyword_list = [], log_files = [], priority_sources = [],
     reader_threads = 0, worker_threads = 0, cap_a = 0, cap_b = 0, cap_d = 0, timeout = 10\<rparr>"

fun set_options :: "opt_event list \<Rightarrow> t_args \<Rightarrow> t_args option" where
  "set_options [] a = Some a"
| "set_options (Opt f v # es) a =
     (if f = CHR ''c'' then set_options es (a\<lparr>config_file := Some v\<rparr>)
      else if f = CHR ''f'' then set_options es (a\<lparr>filter_file := Some v\<rparr>)
      else if f = CHR ''k'' then set_options es (a\<lparr>keywords_raw := Some v\<rparr>)
      else if f = CHR ''t'' then set_options es (a\<lparr>reader_threads := atoi v\<rparr>)
      else if f = CHR ''w'' then set_options es (a\<lparr>worker_threads := atoi v\<rparr>)
      else if f = CHR ''a'' then set_options es (a\<lparr>cap_a := atoi v\<rparr>)
      else if f = CHR ''b'' then set_options es (a\<lparr>cap_b := atoi v\<rparr>)
      else if f = CHR ''d'' then set_options es (a\<lparr>cap_d := atoi v\<rparr>)
      else if f = CHR ''T'' then set_options es (a\<lparr>timeout := atoi v\<rparr>)
      else if f = CHR ''o'' then set_options es (a\<lparr>output_txt := Some v\<rparr>)
      else if f = CHR ''O'' then set_options es (a\<lparr>output_bin := Some v\<rparr>)
      else None)"
| "set_options (Opt_Missing f # es) a = None"
| "set_options (Opt_Unknown f # es) a = None"

definition parse_args :: "string list \<Rightarrow> t_args \<Rightarrow> t_args option" where
  "parse_args argv a = set_options (fst (getopt ''cfktwabdToO'' [] argv)) a"

definition validate_args :: "parse_env \<Rightarrow> t_args \<Rightarrow> bool" where
  "validate_args env a =
     (if config_file a = None \<or> filter_file a = None \<or> keywords_raw a = None \<or>
         output_txt a = None \<or> output_bin a = None then False
      else if reader_threads a < 1 then False
      else if worker_threads a < 1 \<or> worker_threads a > 64 then False
      else if cap_a a < 4 then False
      else if cap_b a < 4 then False
      else if cap_d a < 2 then False
      else if timeout a < 1 then False
      else if \<not> pe_readable env (the (config_file a)) then False
      else if \<not> pe_readable env (the (filter_file a)) then False
      else True)"

section \<open>Keywords\<close>

function keywords_loop :: "(nat \<Rightarrow> bool) \<Rightarrow> string \<Rightarrow> string list \<Rightarrow> string list option" where
  "keywords_loop dup s acc =
     (case strtok '','' s of
        (None, _) \<Rightarrow> Some acc
      | (Some token, rest) \<Rightarrow>
          if length acc \<ge> MAX_KEYWORDS then None
          else if token = [] then None
          else if \<not> dup (length acc) then None
          else keywords_loop dup rest (acc @ [token]))"
  by pat_completeness auto
termination
  by (relation "measure (\<lambda>(dup, s, acc). length s)") (auto dest: strtok_rest_shorter [OF sym])

declare keywords_loop.simps [simp del]

definition parse_keywords :: "parse_env \<Rightarrow> bool \<Rightarrow> t_args \<Rightarrow> t_args option" where
  "parse_keywords env copy_ok a =
     (if \<not> copy_ok then None
      else (case keywords_loop (pe_strdup env ''keyword'') (the (keywords_raw a)) [] of
              None \<Rightarrow> None
            | Some ks \<Rightarrow> if length ks = 0 then None else Some (a\<lparr>keyword_list := ks\<rparr>)))"

section \<open>The two files of names\<close>

definition cut_eol :: "string \<Rightarrow> string" where
  "cut_eol buf = takeWhile (\<lambda>c. c \<noteq> CR \<and> c \<noteq> LF) (cstr buf)"

text \<open>The reading loop of \<open>parse_config_file\<close> and \<open>priority_parser\<close>, with their limit.\<close>

fun name_lines :: "nat \<Rightarrow> (nat \<Rightarrow> bool) \<Rightarrow> string list \<Rightarrow> string list \<Rightarrow> string list option" where
  "name_lines limit dup [] acc = Some acc"
| "name_lines limit dup (buf # bufs) acc =
     (let line = cut_eol buf in
      if line = [] then name_lines limit dup bufs acc
      else if length acc \<ge> limit then None
      else if \<not> dup (length acc) then None
      else name_lines limit dup bufs (acc @ [line]))"

definition parse_config_file :: "parse_env \<Rightarrow> t_args \<Rightarrow> t_args option" where
  "parse_config_file env a =
     (case pe_fopen env (the (config_file a)) of
        None \<Rightarrow> None
      | Some content \<Rightarrow>
          (case name_lines MAX_FILES (pe_strdup env ''file'') (fgets_lines 1024 content) [] of
             None \<Rightarrow> None
           | Some fs \<Rightarrow> if length fs = 0 then None else Some (a\<lparr>log_files := fs\<rparr>)))"

definition priority_parser :: "parse_env \<Rightarrow> t_args \<Rightarrow> t_args option" where
  "priority_parser env a =
     (case pe_fopen env (the (filter_file a)) of
        None \<Rightarrow> None
      | Some content \<Rightarrow>
          (case name_lines MAX_SOURCES (pe_strdup env ''source'') (fgets_lines 1024 content) [] of
             None \<Rightarrow> None
           | Some ss \<Rightarrow> Some (a\<lparr>priority_sources := ss\<rparr>)))"

definition start_parsing :: "parse_env \<Rightarrow> string list \<Rightarrow> t_args option" where
  "start_parsing env argv =
     (case parse_args argv init_args of
        None \<Rightarrow> None
      | Some a \<Rightarrow>
          if \<not> validate_args env a then None
          else (case parse_keywords env True a of
                  None \<Rightarrow> None
                | Some a1 \<Rightarrow>
                    (case parse_config_file env a1 of
                       None \<Rightarrow> None
                     | Some a2 \<Rightarrow> priority_parser env a2)))"

section \<open>What a successful parse guarantees\<close>

definition keyword_ok :: "string \<Rightarrow> bool" where
  "keyword_ok k \<longleftrightarrow> k \<noteq> [] \<and> CHR '','' \<notin> set k"

definition name_ok :: "string \<Rightarrow> bool" where
  "name_ok f \<longleftrightarrow> f \<noteq> [] \<and> set f \<inter> {CR, LF, NUL} = {} \<and> length f < 1024"

definition args_wf :: "t_args \<Rightarrow> bool" where
  "args_wf a \<longleftrightarrow>
     1 \<le> reader_threads a \<and> 1 \<le> worker_threads a \<and> worker_threads a \<le> int MAX_WORKERS \<and>
     4 \<le> cap_a a \<and> 4 \<le> cap_b a \<and> 2 \<le> cap_d a \<and> 1 \<le> timeout a \<and>
     1 \<le> length (keyword_list a) \<and> length (keyword_list a) \<le> MAX_KEYWORDS \<and> list_all keyword_ok (keyword_list a) \<and>
     1 \<le> length (log_files a) \<and> length (log_files a) \<le> MAX_FILES \<and> list_all name_ok (log_files a) \<and>
     length (priority_sources a) \<le> MAX_SOURCES \<and> list_all name_ok (priority_sources a)"

lemma keywords_loop_ok:
  "keywords_loop dup s acc = Some ks \<Longrightarrow> list_all keyword_ok acc \<Longrightarrow> length acc \<le> MAX_KEYWORDS \<Longrightarrow>
   list_all keyword_ok ks \<and> length ks \<le> MAX_KEYWORDS"
proof (induction dup s acc rule: keywords_loop.induct)
  case (1 dup s acc)
  show ?case
  proof (cases "fst (strtok '','' s)")
    case None
    then show ?thesis using "1.prems" by (subst (asm) keywords_loop.simps) (auto split: prod.splits)
  next
    case (Some t)
    then obtain r where t: "strtok '','' s = (Some t, r)" by (metis prod.collapse)
    then have "keyword_ok t" using strtok_token [OF t] by (auto simp: keyword_ok_def)
    moreover have "keywords_loop dup r (acc @ [t]) = Some ks" "length acc < MAX_KEYWORDS" "dup (length acc)" "t \<noteq> []"
      using "1.prems"(1) by (subst (asm) keywords_loop.simps; simp add: t split: if_splits)+
    ultimately show ?thesis
      using "1.IH" [OF t [symmetric]] "1.prems" by simp
  qed
qed

lemma keywords_loop_join:
  "list_all keyword_ok ks \<Longrightarrow> length acc + length ks \<le> MAX_KEYWORDS \<Longrightarrow> dup = (\<lambda>_. True) \<Longrightarrow>
   keywords_loop dup (concat (map (\<lambda>k. k @ '','') ks)) acc = Some (acc @ ks)"
proof (induction ks arbitrary: acc)
  case Nil
  then show ?case by (subst keywords_loop.simps) simp
next
  case (Cons k ks)
  have "strtok '','' (k @ CHR '','' # concat (map (\<lambda>k. k @ '','') ks)) = (Some k, concat (map (\<lambda>k. k @ '','') ks))"
    using Cons.prems(1) by (intro strtok_step) (auto simp: keyword_ok_def)
  then show ?case
    using Cons by (subst keywords_loop.simps) (simp add: keyword_ok_def)
qed

lemma name_lines_ok:
  "name_lines limit dup bufs acc = Some fs \<Longrightarrow> (\<And>b. b \<in> set bufs \<Longrightarrow> length b < 1024) \<Longrightarrow>
   list_all name_ok acc \<Longrightarrow> length acc \<le> limit \<Longrightarrow> list_all name_ok fs \<and> length fs \<le> limit"
proof (induction limit dup bufs acc rule: name_lines.induct)
  case (2 limit dup buf bufs acc)
  have n: "name_ok (cut_eol buf)" if "cut_eol buf \<noteq> []"
  proof -
    have "length (cut_eol buf) < 1024"
      using "2.prems"(2) [of buf] length_takeWhile_le [of "\<lambda>c. c \<noteq> CR \<and> c \<noteq> LF" "cstr buf"] length_cstr [of buf]
      by (simp add: cut_eol_def)
    then show ?thesis
      using that by (auto simp: name_ok_def cut_eol_def dest!: set_takeWhileD)
  qed
  show ?case
  proof (cases "cut_eol buf = []")
    case True
    then show ?thesis using "2.IH"(1) [OF refl] "2.prems" by simp
  next
    case False
    then show ?thesis
      using "2.IH"(2) [OF refl False] "2.prems" n by (auto simp: Let_def split: if_splits)
  qed
qed simp

lemma fgets_lines_length: "b \<in> set (fgets_lines n s) \<Longrightarrow> length b < n"
proof (induction n s rule: fgets_lines.induct)
  case (1 n s)
  show ?case
  proof (cases "s = [] \<or> n < 2")
    case True
    then show ?thesis using 1 by (subst (asm) fgets_lines.simps) simp
  next
    case False
    then have "b = fgets_chunk (n - 1) s \<or> b \<in> set (fgets_lines n (drop (length (fgets_chunk (n - 1) s)) s))"
      using "1.prems" by (subst (asm) fgets_lines.simps) (auto simp: Let_def)
    then show ?thesis
      using "1.IH" [OF False refl] length_fgets_chunk [of "n - 1" s] False by auto
  qed
qed

lemma start_parsing_wf:
  assumes "start_parsing env argv = Some a"
  shows "args_wf a"
proof -
  obtain a0 ks fs c1 ss c2 where v: "validate_args env a0"
    and k: "keywords_loop (pe_strdup env ''keyword'') (the (keywords_raw a0)) [] = Some ks" "ks \<noteq> []"
    and f: "name_lines MAX_FILES (pe_strdup env ''file'') (fgets_lines 1024 c1) [] = Some fs" "fs \<noteq> []"
    and s: "name_lines MAX_SOURCES (pe_strdup env ''source'') (fgets_lines 1024 c2) [] = Some ss"
    and a: "a = a0\<lparr>keyword_list := ks, log_files := fs, priority_sources := ss\<rparr>"
    using assms by (auto simp: start_parsing_def parse_keywords_def parse_config_file_def priority_parser_def
        split: option.splits if_splits)
  have "list_all keyword_ok ks \<and> length ks \<le> MAX_KEYWORDS"
    using keywords_loop_ok [OF k(1)] by simp
  moreover have "list_all name_ok fs \<and> length fs \<le> MAX_FILES"
    using name_lines_ok [OF f(1)] fgets_lines_length by simp
  moreover have "list_all name_ok ss \<and> length ss \<le> MAX_SOURCES"
    using name_lines_ok [OF s] fgets_lines_length by simp
  ultimately show ?thesis
    using v k(2) f(2) by (auto simp: args_wf_def a validate_args_def MAX_WORKERS_def Suc_le_eq split: if_splits)
qed

end
