(* ===== verification/Log_Reader.thy ===== *)
theory Log_Reader
  imports Log_Entry Log_Args
begin

text \<open>
  \<open>HW4/src/processes/reader.c\<close> and \<open>reader_thread_func\<close> of \<open>reader_thread_fun.c\<close>: a log file
  is cut into one byte range for each reader thread, and every thread reads the lines that start
  in its range.  File positions are natural numbers; the file is its list of bytes.
\<close>

section \<open>The ranges\<close>

definition chunk_size :: "nat \<Rightarrow> nat \<Rightarrow> nat" where
  "chunk_size T file_size = (file_size + T - 1) div T"

definition thread_range :: "nat \<Rightarrow> nat \<Rightarrow> nat \<Rightarrow> nat \<times> nat" where
  "thread_range T file_size i =
     (let chunk = chunk_size T file_size in
      (i * chunk,
       if (i + 1) * chunk > file_size \<or> i = T - 1 then file_size else (i + 1) * chunk))"

text \<open>\<open>find_line_start\<close>: a position that does not follow a newline moves behind the next one.\<close>

definition find_line_start :: "string \<Rightarrow> nat \<Rightarrow> nat" where
  "find_line_start content pos =
     (if pos = 0 then 0
      else if length content \<le> pos - 1 \<or> content ! (pos - 1) = LF then pos
      else (let skipped = length (takeWhile (\<lambda>c. c \<noteq> LF) (drop pos content)) in
            if pos + skipped < length content then pos + skipped + 1 else pos + skipped))"

section \<open>A reader thread\<close>

definition LINE_LEN :: nat where "LINE_LEN = 1024"

text \<open>The buffers \<open>fgets\<close> fills while \<open>ftell\<close> is below the end of the range.\<close>

function read_range :: "string \<Rightarrow> nat \<Rightarrow> nat \<Rightarrow> string list" where
  "read_range content end_byte pos =
     (if pos < end_byte \<and> pos < length content
      then (let l = fgets_chunk (LINE_LEN - 1) (drop pos content) in
            l # read_range content end_byte (pos + length l))
      else [])"
  by pat_completeness auto
termination
proof (relation "measure (\<lambda>(content, end_byte, pos). length content - pos)")
  fix content end_byte pos l
  assume "pos < end_byte \<and> pos < length (content::string)" "l = fgets_chunk (LINE_LEN - 1) (drop pos content)"
  then have "l \<noteq> []" "pos < length content"
    using fgets_chunk_pos [of "drop pos content" "LINE_LEN - 1"] by (simp_all add: LINE_LEN_def)
  then show "((content, end_byte, pos + length l), content, end_byte, pos) \<in> measure (\<lambda>(content, end_byte, pos). length content - pos)"
    by (cases l) auto
qed simp

declare read_range.simps [simp del]

record reader_state =
  rs_pushed :: "log_entry list"
  rs_lines_read :: nat
  rs_malformed :: nat
  rs_heartbeats :: "nat list"

fun reader_loop :: "string list \<Rightarrow> reader_state \<Rightarrow> reader_state" where
  "reader_loop [] s = s"
| "reader_loop (buf # bufs) s =
     (let line = cut_eol buf in
      if line = [] then reader_loop bufs s
      else (case parse_log_line line of
              Some entry \<Rightarrow>
                (let n = rs_lines_read s + 1 in
                 reader_loop bufs (s\<lparr>rs_pushed := rs_pushed s @ [entry], rs_lines_read := n,
                   rs_heartbeats := (if n mod 50 = 0 then rs_heartbeats s @ [n] else rs_heartbeats s)\<rparr>))
            | None \<Rightarrow> reader_loop bufs (s\<lparr>rs_malformed := rs_malformed s + 1\<rparr>)))"

definition reader_thread_func :: "string option \<Rightarrow> nat \<times> nat \<Rightarrow> reader_state" where
  "reader_thread_func fopen rng =
     (let s0 = \<lparr>rs_pushed = [], rs_lines_read = 0, rs_malformed = 0, rs_heartbeats = []\<rparr> in
      case fopen of
        None \<Rightarrow> s0
      | Some content \<Rightarrow>
          (let s = reader_loop (read_range content (snd rng) (find_line_start content (fst rng))) s0 in
           if rs_lines_read s mod 50 \<noteq> 0
           then s\<lparr>rs_heartbeats := rs_heartbeats s @ [rs_lines_read s]\<rparr> else s))"

text \<open>What the whole file holds, read from the beginning to the end.\<close>

definition line_entry :: "string \<Rightarrow> log_entry option" where
  "line_entry buf = (let line = cut_eol buf in if line = [] then None else parse_log_line line)"

definition file_entries :: "string \<Rightarrow> log_entry list" where
  "file_entries content = List.map_filter line_entry (fgets_lines LINE_LEN content)"

text \<open>No line is too long for the buffer: every buffer but the last ends with a newline.\<close>

definition lines_fit :: "string \<Rightarrow> bool" where
  "lines_fit content \<longleftrightarrow> list_all (\<lambda>l. last l = LF) (butlast (fgets_lines LINE_LEN content))"

section \<open>Every line is read by exactly one thread\<close>

fun good_lines :: "string list \<Rightarrow> bool" where
  "good_lines [] = True"
| "good_lines (l # ls) \<longleftrightarrow> l \<noteq> [] \<and> length l < LINE_LEN \<and> LF \<notin> set (butlast l) \<and>
     (ls \<noteq> [] \<longrightarrow> last l = LF) \<and> good_lines ls"

fun take_lines :: "string list \<Rightarrow> nat \<Rightarrow> string list" where
  "take_lines [] k = []"
| "take_lines (l # ls) k = (if 0 < k then l # take_lines ls (k - length l) else [])"

fun drop_lines :: "string list \<Rightarrow> nat \<Rightarrow> string list" where
  "drop_lines [] k = []"
| "drop_lines (l # ls) k = (if 0 < k then drop_lines ls (k - length l) else l # ls)"

lemma drop_lines_0 [simp]: "drop_lines ls 0 = ls"
  by (cases ls) auto

lemma drop_lines_all: "length (concat ls) \<le> k \<Longrightarrow> [] \<notin> set ls \<Longrightarrow> drop_lines ls k = []"
proof (induction ls arbitrary: k)
  case (Cons l ls)
  then have "0 < k" by (cases l) auto
  then show ?case using Cons by simp
qed simp

lemma good_lines_nonempty: "good_lines ls \<Longrightarrow> [] \<notin> set ls"
  by (induction ls) auto

lemma fgets_chunk_good:
  assumes "good_lines (l # ls)"
  shows "fgets_chunk (LINE_LEN - 1) (concat (l # ls)) = l"
proof (cases "last l = LF")
  case True
  then have l: "l = butlast l @ [LF]" using assms by (metis append_butlast_last_id good_lines.simps(2))
  have "length (butlast l) < LINE_LEN - 1" using assms by (auto simp: LINE_LEN_def)
  then show ?thesis
    using fgets_chunk_line [of "butlast l" "LINE_LEN - 1" "concat ls"] assms l by (metis append.assoc append_Cons append_Nil concat.simps(2) good_lines.simps(2))
next
  case False
  then have "ls = []" "LF \<notin> set l"
    using assms by (auto simp: in_set_butlastD) (metis append_butlast_last_id insert_iff list.set(2) set_append Un_iff empty_iff list.set(1))
  moreover have "LF \<notin> set x \<Longrightarrow> length x \<le> k \<Longrightarrow> fgets_chunk k x = x" for x k
    by (induction k x rule: fgets_chunk.induct) auto
  ultimately show ?thesis using assms by (simp add: LINE_LEN_def)
qed

lemma read_range_lines:
  "good_lines ls \<Longrightarrow> read_range (pre @ concat ls) e (length pre) = take_lines ls (e - length pre)"
proof (induction ls arbitrary: pre)
  case Nil
  then show ?case by (simp add: read_range.simps)
next
  case (Cons l ls)
  have l: "fgets_chunk (LINE_LEN - 1) (l @ concat ls) = l" and ne: "l \<noteq> []"
    using fgets_chunk_good [OF Cons.prems] Cons.prems by auto
  show ?case
  proof (cases "length pre < e")
    case True
    then have "read_range (pre @ concat (l # ls)) e (length pre) =
        l # read_range ((pre @ l) @ concat ls) e (length (pre @ l))"
      using l ne by (subst read_range.simps) (simp add: Let_def)
    then show ?thesis
      using Cons.IH [of "pre @ l"] Cons.prems True by (simp only: good_lines.simps) simp
  next
    case False
    then show ?thesis by (simp add: read_range.simps)
  qed
qed

lemma good_lines_hd:
  "good_lines (l # ls) \<Longrightarrow> \<exists>w. LF \<notin> set w \<and> (l = w @ [LF] \<or> (l = w \<and> ls = []))"
proof (cases "last l = LF")
  case True
  moreover assume "good_lines (l # ls)"
  ultimately show ?thesis by (intro exI [of _ "butlast l"]) (simp, metis append_butlast_last_id)
next
  case False
  assume g: "good_lines (l # ls)"
  then have "l = butlast l @ [last l]" by simp
  then have "LF \<notin> set l" using g False
    by (metis (no_types) Un_iff empty_iff good_lines.simps(2) insert_iff list.set set_append)
  then show ?thesis using g False by auto
qed

lemma find_line_start_append:
  assumes "0 < q"
  shows "find_line_start (l @ s) (length l + q) = length l + find_line_start s q"
proof -
  obtain k where "q = Suc k" using assms by (cases q) auto
  then show ?thesis by (simp add: find_line_start_def Let_def)
qed

lemma find_line_start_lines:
  "good_lines ls \<Longrightarrow> p \<le> length (concat ls) \<Longrightarrow>
   find_line_start (concat ls) p + length (concat (drop_lines ls p)) = length (concat ls)"
proof (induction ls arbitrary: p)
  case Nil
  then show ?case by (simp add: find_line_start_def)
next
  case (Cons l ls)
  obtain w where w: "LF \<notin> set w" "l = w @ [LF] \<or> (l = w \<and> ls = [])" "l \<noteq> []"
    using good_lines_hd [OF Cons.prems(1)] Cons.prems(1) by auto
  show ?case
  proof (cases "p = 0 \<or> length l < p")
    case True
    show ?thesis
    proof (cases "p = 0")
      case False
      then have p: "length l < p" "p - length l \<le> length (concat ls)" using True Cons.prems(2) by auto
      have "find_line_start (l @ concat ls) p = length l + find_line_start (concat ls) (p - length l)"
        using find_line_start_append [of "p - length l" l "concat ls"] p by simp
      then show ?thesis using Cons.IH [OF _ p(2)] Cons.prems p by simp
    qed (simp add: find_line_start_def)
  next
    case False
    then have p: "0 < p" "p \<le> length l" by auto
    have "find_line_start (l @ concat ls) p = length l"
    proof (cases "l = w @ [LF]")
      case lf: True
      show ?thesis
      proof (cases "p = length l")
        case True
        then show ?thesis using lf by (simp add: find_line_start_def nth_append)
      next
        case False
        then have "p \<le> length w" "(w @ LF # concat ls) ! (p - 1) \<noteq> LF" using p lf w(1)
          by (auto simp: nth_append dest: nth_mem)
        moreover have "takeWhile (\<lambda>c. c \<noteq> LF) (drop p w @ LF # concat ls) = drop p w"
          using w(1) by (intro takeWhile_append_stop) (auto dest: in_set_dropD)
        ultimately show ?thesis using p lf by (simp add: find_line_start_def Let_def)
      qed
    next
      case False
      then have l: "l = w" "ls = []" using w by auto
      have "takeWhile (\<lambda>c. c \<noteq> LF) (drop p w) = drop p w"
        using w(1) by (intro takeWhile_all) (auto dest: in_set_dropD)
      moreover have "p - 1 < length w" using p unfolding l(1) by linarith
      moreover from this have "w ! (p - 1) \<noteq> LF" using w(1) nth_mem [of "p - 1" w] by metis
      ultimately show ?thesis
        using p unfolding l find_line_start_def Let_def by (simp del: takeWhile_eq_all_conv)
    qed
    then show ?thesis using p by simp
  qed
qed

lemma drop_lines_suffix: "\<exists>pre. ls = pre @ drop_lines ls p \<and> concat ls = concat pre @ concat (drop_lines ls p)"
proof (induction ls arbitrary: p)
  case (Cons l ls)
  show ?case
  proof (cases "p = 0")
    case False
    then show ?thesis using Cons.IH [of "p - length l"] by (auto intro: exI [of _ "l # _"])
  qed simp
qed simp

lemma good_lines_append: "good_lines (xs @ ys) \<Longrightarrow> good_lines ys"
  by (induction xs) auto

text \<open>What one range reads: the lines that start in it.\<close>

lemma read_range_from:
  assumes good: "good_lines ls" and p: "p \<le> length (concat ls)"
  shows "read_range (concat ls) e (find_line_start (concat ls) p) =
    take_lines (drop_lines ls p) (e - (length (concat ls) - length (concat (drop_lines ls p))))"
proof -
  obtain pre where pre: "ls = pre @ drop_lines ls p" "concat ls = concat pre @ concat (drop_lines ls p)"
    using drop_lines_suffix by blast
  have "find_line_start (concat ls) p = length (concat pre)"
    using find_line_start_lines [OF good p] pre(2) by (metis add_right_cancel length_append)
  moreover have "good_lines (drop_lines ls p)" using good pre(1) good_lines_append by metis
  ultimately show ?thesis
    using read_range_lines [of "drop_lines ls p" "concat pre" e] pre(2) by (metis add_diff_cancel_right' length_append)
qed

lemma take_drop_lines:
  assumes "good_lines ls" "p \<le> e" "e \<le> length (concat ls)"
  shows "drop_lines ls p = take_lines (drop_lines ls p) (e - (length (concat ls) - length (concat (drop_lines ls p)))) @
    drop_lines ls e"
  using assms
proof (induction ls arbitrary: p e)
  case (Cons l ls)
  have all: "ls' = take_lines ls' k @ drop_lines ls' k" for ls' k
    by (induction ls' arbitrary: k) auto
  show ?case
  proof (cases "p = 0")
    case True
    then show ?thesis using all [of "l # ls" e] by simp
  next
    case False
    obtain pre where "concat ls = concat pre @ concat (drop_lines ls (p - length l))"
      using drop_lines_suffix [of ls "p - length l"] by blast
    then have le: "length (concat (drop_lines ls (p - length l))) \<le> length (concat ls)" by simp
    have "drop_lines ls (p - length l) =
        take_lines (drop_lines ls (p - length l))
          (e - length l - (length (concat ls) - length (concat (drop_lines ls (p - length l))))) @
        drop_lines ls (e - length l)"
      using Cons.prems by (intro Cons.IH) auto
    moreover have "e - (length l + length (concat ls) - length (concat (drop_lines ls (p - length l)))) =
        e - length l - (length (concat ls) - length (concat (drop_lines ls (p - length l))))"
      using le by simp
    ultimately show ?thesis using False Cons.prems(2) by simp
  qed
qed simp

lemma range_lines:
  assumes "good_lines ls" "p \<le> e" "e \<le> length (concat ls)"
  shows "drop_lines ls p = read_range (concat ls) e (find_line_start (concat ls) p) @ drop_lines ls e"
  using take_drop_lines [OF assms] read_range_from [OF assms(1), of p e] assms(2,3) by simp

text \<open>The ranges follow one another and cover the file.\<close>

lemma chunk_covers: "0 < T \<Longrightarrow> n \<le> T * chunk_size T n"
proof -
  assume "0 < T"
  then have "n + T - 1 < T * ((n + T - 1) div T) + T"
    using mod_less_divisor [of T "n + T - 1"] mult_div_mod_eq [of T "n + T - 1"] by linarith
  then show ?thesis unfolding chunk_size_def using \<open>0 < T\<close> by linarith
qed

lemma thread_range_end:
  assumes "i < T"
  shows "snd (thread_range T n i) = min n (if i = T - 1 then n else (i + 1) * chunk_size T n)"
  by (simp add: thread_range_def Let_def min_def)

lemma read_range_past: "length content \<le> pos \<or> e \<le> pos \<Longrightarrow> read_range content e pos = []"
  by (subst read_range.simps) auto

lemma find_line_start_past: "length content \<le> p \<Longrightarrow> length content \<le> find_line_start content p"
  by (auto simp: find_line_start_def Let_def)

lemma ranges_upto:
  assumes good: "good_lines ls" and n: "n < T"
  shows "concat (map (\<lambda>i. read_range (concat ls) (snd (thread_range T (length (concat ls)) i))
        (find_line_start (concat ls) (fst (thread_range T (length (concat ls)) i)))) [0..<n]) @
      drop_lines ls (n * chunk_size T (length (concat ls))) = ls"
  using n
proof (induction n)
  case (Suc n)
  let ?f = "concat ls" and ?c = "chunk_size T (length (concat ls))"
  have e: "snd (thread_range T (length ?f) n) = min (length ?f) (Suc n * ?c)" and
    s: "fst (thread_range T (length ?f) n) = n * ?c"
    using Suc.prems thread_range_end [of n T "length ?f"] by (auto simp: thread_range_def Let_def)
  have "drop_lines ls (n * ?c) = read_range ?f (min (length ?f) (Suc n * ?c)) (find_line_start ?f (n * ?c)) @
      drop_lines ls (Suc n * ?c)"
  proof (cases "length ?f \<le> Suc n * ?c")
    case True
    then have d: "drop_lines ls (Suc n * ?c) = []" "drop_lines ls (length ?f) = []"
      using drop_lines_all good_lines_nonempty [OF good] by blast+
    show ?thesis
    proof (cases "n * ?c \<le> length ?f")
      case le: True
      then show ?thesis using range_lines [OF good le le_refl] d True by simp
    next
      case False
      then show ?thesis
        using drop_lines_all [of ls "n * ?c"] good_lines_nonempty [OF good] d
          read_range_past find_line_start_past [of ?f "n * ?c"] by simp
    qed
  next
    case False
    then show ?thesis using range_lines [OF good, of "n * ?c" "Suc n * ?c"] by simp
  qed
  then show ?case using Suc by (simp add: e s)
qed simp

lemma ranges_all:
  assumes good: "good_lines ls" and T: "0 < T"
  shows "concat (map (\<lambda>i. read_range (concat ls) (snd (thread_range T (length (concat ls)) i))
        (find_line_start (concat ls) (fst (thread_range T (length (concat ls)) i)))) [0..<T]) = ls"
proof -
  let ?f = "concat ls" and ?c = "chunk_size T (length (concat ls))"
  obtain n where n: "T = Suc n" using T by (cases T) auto
  have d: "drop_lines ls (length ?f) = []" using drop_lines_all good_lines_nonempty [OF good] by blast
  have e: "snd (thread_range T (length ?f) n) = length ?f" "fst (thread_range T (length ?f) n) = n * ?c"
    using n by (simp_all add: thread_range_def Let_def)
  have "drop_lines ls (n * ?c) = read_range ?f (length ?f) (find_line_start ?f (n * ?c))"
  proof (cases "n * ?c \<le> length ?f")
    case le: True
    then show ?thesis using range_lines [OF good le le_refl] d by simp
  next
    case False
    then show ?thesis
      using drop_lines_all [of ls "n * ?c"] good_lines_nonempty [OF good]
        read_range_past find_line_start_past [of ?f "n * ?c"] by simp
  qed
  then show ?thesis using ranges_upto [OF good, of n T] e n by simp
qed

lemma fgets_lines_good:
  "list_all (\<lambda>l. last l = LF) (butlast (fgets_lines LINE_LEN content)) \<Longrightarrow>
   good_lines (fgets_lines LINE_LEN content) \<and> concat (fgets_lines LINE_LEN content) = content"
proof (induction LINE_LEN content rule: fgets_lines.induct)
  case (1 s)
  show ?case
  proof (cases "s = [] \<or> LINE_LEN < 2")
    case True
    then show ?thesis by (auto simp: LINE_LEN_def fgets_lines.simps)
  next
    case False
    let ?l = "fgets_chunk (LINE_LEN - 1) s" and ?r = "fgets_lines LINE_LEN (drop (length (fgets_chunk (LINE_LEN - 1) s)) s)"
    have eq: "fgets_lines LINE_LEN s = ?l # ?r" using False by (subst fgets_lines.simps) (simp add: Let_def)
    have l: "?l \<noteq> []" "length ?l < LINE_LEN"
      using False fgets_chunk_pos [of s "LINE_LEN - 1"] length_fgets_chunk [of "LINE_LEN - 1" s] by (auto simp: LINE_LEN_def)
    have "LF \<notin> set (butlast (fgets_chunk k x))" for k x
      by (induction k x rule: fgets_chunk.induct) auto
    moreover have "good_lines ?r \<and> concat ?r = drop (length ?l) s"
      using "1.prems" by (intro "1.hyps" [OF False refl]) (auto simp: eq split: if_splits)
    moreover have "?r \<noteq> [] \<longrightarrow> last ?l = LF" using "1.prems" by (auto simp: eq)
    ultimately show ?thesis using l fgets_chunk_prefix [of "LINE_LEN - 1" s] by (simp add: eq)
  qed
qed

section \<open>What the threads read\<close>

lemma reader_loop_state:
  "rs_pushed (reader_loop bufs s) = rs_pushed s @ List.map_filter line_entry bufs \<and>
   rs_lines_read (reader_loop bufs s) = rs_lines_read s + length (List.map_filter line_entry bufs) \<and>
   rs_malformed (reader_loop bufs s) + length (List.map_filter line_entry bufs) =
     rs_malformed s + length (filter (\<lambda>b. cut_eol b \<noteq> []) bufs)"
  by (induction bufs s rule: reader_loop.induct)
     (auto simp: line_entry_def Let_def map_filter_simps split: option.splits)

lemma reader_thread_pushed:
  "rs_pushed (reader_thread_func (Some content) rng) =
     List.map_filter line_entry (read_range content (snd rng) (find_line_start content (fst rng)))"
  using reader_loop_state by (simp add: reader_thread_func_def Let_def)

lemma map_filter_concat: "List.map_filter f (concat xss) = concat (map (List.map_filter f) xss)"
  by (induction xss) (simp_all add: List.map_filter_def)

lemma readers_partition:
  assumes "lines_fit content" "0 < T"
  shows "concat (map (\<lambda>i. rs_pushed (reader_thread_func (Some content) (thread_range T (length content) i))) [0..<T]) =
    file_entries content"
proof -
  have good: "good_lines (fgets_lines LINE_LEN content)" "concat (fgets_lines LINE_LEN content) = content"
    using fgets_lines_good assms(1) by (auto simp: lines_fit_def)
  let ?ls = "fgets_lines LINE_LEN content" and ?r = "\<lambda>i. thread_range T (length content) i"
  have "map (\<lambda>i. rs_pushed (reader_thread_func (Some content) (?r i))) [0..<T] =
      map (List.map_filter line_entry) (map (\<lambda>i. read_range content (snd (?r i)) (find_line_start content (fst (?r i)))) [0..<T])"
    by (simp add: reader_thread_pushed)
  then show ?thesis
    using ranges_all [OF good(1) assms(2), unfolded good(2)]
    by (simp add: map_filter_concat [symmetric] file_entries_def del: map_map)
qed

end
