(* ===== verification/Log_Scoring.thy ===== *)
theory Log_Scoring
  imports Log_Entry Log_Args
begin

text \<open>
  The scoring of \<open>HW4/src/processes/analyzer.c\<close> and \<open>aggregator.c\<close>: keyword counts, what a
  worker accumulates in its thread-local data, how the destructor of that data merges it into the
  result of the level, and how the results are sorted and printed.  The scores are C doubles that
  only ever hold integers (products and sums of ints, exact up to \<open>2^53\<close>); they are integers here.
\<close>

section \<open>Keyword counts\<close>

definition get_level_weight :: "t_level \<Rightarrow> int" where
  "get_level_weight level =
     (if level = LV_ERROR then 4
      else if level = LV_WARN then 3
      else if level = LV_INFO then 2
      else if level = LV_DEBUG then 1
      else 0)"

text \<open>The scan for one word: at every position, \<open>strncmp(text, word, strlen(word)) == 0\<close>.\<close>

fun count_at :: "string \<Rightarrow> string \<Rightarrow> int" where
  "count_at [] word = 0"
| "count_at (c # text) word = (if take (length word) (c # text) = word then 1 else 0) + count_at text word"

definition count_keyword :: "string \<Rightarrow> string \<Rightarrow> int" where
  "count_keyword text word = (if length word = 0 then 0 else count_at text word)"

section \<open>Thread-local data of a worker\<close>

definition MAX_TRACKED_SOURCES :: nat where "MAX_TRACKED_SOURCES = 256"

record tls_data =
  keyword_scores :: "int list"
  entry_count :: int
  total_score :: int
  sources :: "(string \<times> int) list"
  thread_slot :: nat

definition tls_init :: "nat \<Rightarrow> tls_data" where
  "tls_init slot = \<lparr>keyword_scores = replicate MAX_KEYWORDS 0, entry_count = 0, total_score = 0,
     sources = [], thread_slot = slot\<rparr>"

fun bump_source :: "string \<Rightarrow> int \<Rightarrow> (string \<times> int) list \<Rightarrow> (string \<times> int) list option" where
  "bump_source source hits [] = None"
| "bump_source source hits ((s, h) # rest) =
     (if s = source then Some ((s, h + hits) # rest)
      else map_option (\<lambda>r. (s, h) # r) (bump_source source hits rest))"

definition add_source_hit :: "tls_data \<Rightarrow> string \<Rightarrow> int \<Rightarrow> tls_data" where
  "add_source_hit tls source hits =
     (case bump_source source hits (sources tls) of
        Some srcs \<Rightarrow> tls\<lparr>sources := srcs\<rparr>
      | None \<Rightarrow>
          if length (sources tls) \<ge> MAX_TRACKED_SOURCES then tls
          else tls\<lparr>sources := sources tls @ [(strncpy (MAX_SOURCE_LEN - 1) source, hits)]\<rparr>)"

text \<open>The loop over the keywords for one message, from keyword \<open>i\<close> on.\<close>

fun score_keywords :: "int \<Rightarrow> string \<Rightarrow> string list \<Rightarrow> nat \<Rightarrow> tls_data \<times> int \<Rightarrow> tls_data \<times> int" where
  "score_keywords weight message [] i (tls, total_hits) = (tls, total_hits)"
| "score_keywords weight message (k # ks) i (tls, total_hits) =
     (let hits = count_keyword message k; sc = hits * weight in
      score_keywords weight message ks (i + 1)
        (tls\<lparr>keyword_scores := (keyword_scores tls)[i := keyword_scores tls ! i + sc],
             total_score := total_score tls + sc\<rparr>, total_hits + hits))"

definition worker_entry :: "string list \<Rightarrow> t_level \<Rightarrow> tls_data \<Rightarrow> log_entry \<Rightarrow> tls_data" where
  "worker_entry ks level tls entry =
     (let weight = get_level_weight level;
          (tls1, total_hits) = score_keywords weight (le_message entry) ks 0 (tls, 0);
          tls2 = tls1\<lparr>entry_count := entry_count tls1 + 1\<rparr>
      in if total_hits > 0 then add_source_hit tls2 (le_source entry) (total_hits * weight) else tls2)"

section \<open>The result of a level\<close>

record level_result =
  lr_level :: string
  total_entries :: int
  total_weighted_score :: int
  per_keyword_score :: "int list"
  per_thread_score :: "int list"
  top_source :: "(string \<times> int) list"
  lr_ready :: bool

definition level_result_init :: "nat \<Rightarrow> level_result" where
  "level_result_init lv = \<lparr>lr_level = level_name (level_of lv), total_entries = 0, total_weighted_score = 0,
     per_keyword_score = replicate MAX_KEYWORDS 0, per_thread_score = replicate MAX_WORKERS 0,
     top_source = replicate 3 ([], 0), lr_ready = False\<rparr>"

text \<open>One source of a worker against the three best of the level.\<close>

definition min_idx :: "(string \<times> int) list \<Rightarrow> nat" where
  "min_idx tops =
     (let m1 = (if snd (tops ! 1) < snd (tops ! 0) then 1 else 0)
      in if snd (tops ! 2) < snd (tops ! m1) then 2 else m1)"

definition merge_source :: "(string \<times> int) list \<Rightarrow> string \<times> int \<Rightarrow> (string \<times> int) list" where
  "merge_source tops p =
     (case bump_source (fst p) (snd p) tops of
        Some tops' \<Rightarrow> tops'
      | None \<Rightarrow>
          if snd p > snd (tops ! min_idx tops)
          then tops[min_idx tops := (strncpy (MAX_SOURCE_LEN - 1) (fst p), snd p)]
          else tops)"

definition tls_destructor :: "nat \<Rightarrow> level_result \<Rightarrow> tls_data \<Rightarrow> level_result" where
  "tls_destructor keyword_count r tls =
     r\<lparr>per_thread_score := (if thread_slot tls < MAX_WORKERS
         then (per_thread_score r)[thread_slot tls := total_score tls] else per_thread_score r),
       per_keyword_score := map (\<lambda>i. if i < keyword_count
         then per_keyword_score r ! i + keyword_scores tls ! i else per_keyword_score r ! i)
         [0..<length (per_keyword_score r)],
       total_entries := total_entries r + entry_count tls,
       total_weighted_score := total_weighted_score r + total_score tls,
       top_source := foldl merge_source (top_source r) (sources tls)\<rparr>"

section \<open>The high-priority score\<close>

definition entry_weight :: "t_level \<Rightarrow> int" where
  "entry_weight level =
     (if level = LV_ERROR then 4 else if level = LV_WARN then 3
      else if level = LV_INFO then 2 else if level = LV_DEBUG then 1 else 0)"

text \<open>What \<open>calc_high_priority_score\<close> adds for one entry of region D; unlike \<open>count_keyword\<close>
  its scan has no test for an empty word.\<close>

definition high_priority_entry :: "string list \<Rightarrow> log_entry \<Rightarrow> int" where
  "high_priority_entry ks entry =
     (if le_is_eof entry then 0
      else (\<Sum>k\<leftarrow>ks. count_at (le_message entry) k * entry_weight (le_level entry)))"

section \<open>Sorting and printing\<close>

definition sort_pairs :: "(nat \<times> nat) list" where
  "sort_pairs = [(0, 1), (0, 2), (0, 3), (1, 2), (1, 3), (2, 3)]"

definition sort_step :: "(nat \<Rightarrow> int) \<Rightarrow> nat list \<Rightarrow> nat \<times> nat \<Rightarrow> nat list" where
  "sort_step score order p =
     (case p of (i, j) \<Rightarrow>
        if score (order ! j) > score (order ! i) then order[i := order ! j, j := order ! i] else order)"

definition sort_results :: "level_result list \<Rightarrow> nat list" where
  "sort_results results = foldl (sort_step (\<lambda>i. total_weighted_score (results ! i))) [0, 1, 2, 3] sort_pairs"

text \<open>\<open>%.1f\<close> of a double that holds an integer.\<close>

definition fixed1 :: "int \<Rightarrow> string" where
  "fixed1 x = int_dec x @ ''.0''"

fun join :: "string \<Rightarrow> string list \<Rightarrow> string" where
  "join sep [] = []"
| "join sep [x] = x"
| "join sep (x # xs) = x @ sep @ join sep xs"

definition level_row :: "nat \<Rightarrow> level_result \<Rightarrow> string" where
  "level_row keyword_count r = pad_right 5 (lr_level r) @ ''  '' @ pad_left 7 (int_dec (total_entries r)) @ ''  '' @
     pad_left 14 (fixed1 (total_weighted_score r)) @
     concat (map (\<lambda>k. ''  '' @ pad_left 10 (fixed1 (per_keyword_score r ! k))) [0..<keyword_count]) @ [LF]"

definition sources_row :: "level_result \<Rightarrow> string" where
  "sources_row r = pad_right 5 (lr_level r) @
     concat (map (\<lambda>p. if fst p \<noteq> [] then '' '' @ fst p @ '':'' @ int_dec (snd p) else []) (top_source r)) @ [LF]"

definition threads_row :: "nat \<Rightarrow> level_result \<Rightarrow> string" where
  "threads_row workers r = pad_right 5 (lr_level r) @
     concat (map (\<lambda>w. '' thread_'' @ nat_dec w @ '':'' @ fixed1 (per_thread_score r ! w)) [0..<workers]) @ [LF]"

definition total_weighted :: "level_result list \<Rightarrow> int" where
  "total_weighted results = (\<Sum>i\<leftarrow>[0, 1, 2, 3]. total_weighted_score (results ! i))"

definition write_txt_output :: "t_args \<Rightarrow> level_result list \<Rightarrow> nat list \<Rightarrow> int \<Rightarrow> string" where
  "write_txt_output a results order hp_score =
     ''KEYWORD_LIST: '' @ join '','' (keyword_list a) @ [LF] @
     ''FILES: '' @ nat_dec (length (log_files a)) @ [LF] @
     ''TOTAL_WEIGHTED_SCORE: '' @ fixed1 (total_weighted results) @ [LF] @
     ''HIGH_PRIORITY_SCORE: '' @ fixed1 hp_score @ [LF] @
     ''# Levels sorted by total_weighted_score DESC'' @ [LF] @
     ''LEVEL'' @ ''  '' @ ''ENTRIES'' @ ''  '' @ ''WEIGHTED_SCORE'' @
     concat (map (\<lambda>k. ''  '' @ pad_left 10 k) (keyword_list a)) @ [LF] @
     concat (map (\<lambda>i. level_row (length (keyword_list a)) (results ! i)) order) @
     ''# Top-3 sources per level'' @ [LF] @
     concat (map (\<lambda>i. sources_row (results ! i)) order) @
     ''# Per-thread contributions (weighted score)'' @ [LF] @
     concat (map (\<lambda>i. threads_row (nat (worker_threads a)) (results ! i)) order)"

section \<open>What a worker has computed\<close>

definition keyword_hits :: "string list \<Rightarrow> log_entry \<Rightarrow> int" where
  "keyword_hits ks e = (\<Sum>k\<leftarrow>ks. count_keyword (le_message e) k)"

definition entry_score :: "string list \<Rightarrow> t_level \<Rightarrow> log_entry \<Rightarrow> int" where
  "entry_score ks level e = keyword_hits ks e * get_level_weight level"

lemma count_at_nonneg [simp]: "0 \<le> count_at s word"
  by (induction s) auto

lemma count_keyword_nonneg [simp]: "0 \<le> count_keyword text word"
  by (simp add: count_keyword_def)

lemma keyword_hits_nonneg [simp]: "0 \<le> keyword_hits ks e"
  by (auto simp: keyword_hits_def intro!: sum_list_nonneg)

text \<open>The count is the number of positions at which the word occurs, overlaps included.\<close>

lemma count_at_positions:
  "count_at s word = int (card {i. i < length s \<and> take (length word) (drop i s) = word})"
proof (induction s)
  case (Cons c s)
  let ?S = "{i. i < length s \<and> take (length word) (drop i s) = word}"
  have "{i. i < length (c # s) \<and> take (length word) (drop i (c # s)) = word} =
      (if take (length word) (c # s) = word then {0} else {}) \<union> Suc ` ?S"
    by (auto simp: image_iff less_Suc_eq_0_disj)
  moreover have "card ((if take (length word) (c # s) = word then {0} else {}) \<union> Suc ` ?S) =
      (if take (length word) (c # s) = word then 1 else 0) + card ?S"
    by (auto simp: card_image)
  ultimately show ?case using Cons by simp
qed simp

lemma score_keywords_result:
  assumes "i + length ks \<le> length (keyword_scores tls)"
  shows "score_keywords w m ks i (tls, h) =
    (tls\<lparr>keyword_scores := map (\<lambda>j. keyword_scores tls ! j +
           (if i \<le> j \<and> j < i + length ks then count_keyword m (ks ! (j - i)) * w else 0))
           [0..<length (keyword_scores tls)],
         total_score := total_score tls + (\<Sum>k\<leftarrow>ks. count_keyword m k) * w\<rparr>,
     h + (\<Sum>k\<leftarrow>ks. count_keyword m k))"
  using assms
proof (induction ks arbitrary: i tls h)
  case Nil
  have "map (\<lambda>j. keyword_scores tls ! j + (if i \<le> j \<and> j < i + length [] then count_keyword m ([] ! (j - i)) * w else 0))
      [0..<length (keyword_scores tls)] = keyword_scores tls"
    by (intro nth_equalityI) auto
  then show ?case by simp
next
  case (Cons k ks)
  let ?t = "tls\<lparr>keyword_scores := (keyword_scores tls)[i := keyword_scores tls ! i + count_keyword m k * w],
      total_score := total_score tls + count_keyword m k * w\<rparr>"
  have "score_keywords w m (k # ks) i (tls, h) = score_keywords w m ks (i + 1) (?t, h + count_keyword m k)"
    by (simp add: Let_def)
  also have "\<dots> = (?t\<lparr>keyword_scores := map (\<lambda>j. keyword_scores ?t ! j +
           (if i + 1 \<le> j \<and> j < i + 1 + length ks then count_keyword m (ks ! (j - (i + 1))) * w else 0))
           [0..<length (keyword_scores ?t)],
         total_score := total_score ?t + (\<Sum>k\<leftarrow>ks. count_keyword m k) * w\<rparr>,
     h + count_keyword m k + (\<Sum>k\<leftarrow>ks. count_keyword m k))"
    using Cons.prems by (intro Cons.IH) simp
  also have "map (\<lambda>j. keyword_scores ?t ! j +
           (if i + 1 \<le> j \<and> j < i + 1 + length ks then count_keyword m (ks ! (j - (i + 1))) * w else 0))
           [0..<length (keyword_scores ?t)] =
      map (\<lambda>j. keyword_scores tls ! j +
           (if i \<le> j \<and> j < i + length (k # ks) then count_keyword m ((k # ks) ! (j - i)) * w else 0))
           [0..<length (keyword_scores tls)]"
  proof (intro map_cong refl)
    fix j assume "j \<in> set [0..<length (keyword_scores tls)]"
    then show "keyword_scores ?t ! j + (if i + 1 \<le> j \<and> j < i + 1 + length ks then count_keyword m (ks ! (j - (i + 1))) * w else 0) =
        keyword_scores tls ! j + (if i \<le> j \<and> j < i + length (k # ks) then count_keyword m ((k # ks) ! (j - i)) * w else 0)"
      by (cases "j = i") (auto simp: nth_Cons')
  qed simp
  finally show ?case by (simp add: distrib_right add.assoc)
qed

lemma add_source_hit_frame [simp]:
  "keyword_scores (add_source_hit t s h) = keyword_scores t"
  "entry_count (add_source_hit t s h) = entry_count t"
  "total_score (add_source_hit t s h) = total_score t"
  "thread_slot (add_source_hit t s h) = thread_slot t"
  by (simp_all add: add_source_hit_def split: option.splits)

definition tls_exact :: "string list \<Rightarrow> t_level \<Rightarrow> log_entry list \<Rightarrow> tls_data \<Rightarrow> bool" where
  "tls_exact ks level es t \<longleftrightarrow>
     length (keyword_scores t) = MAX_KEYWORDS \<and>
     (\<forall>j < length ks. keyword_scores t ! j = (\<Sum>e\<leftarrow>es. count_keyword (le_message e) (ks ! j) * get_level_weight level)) \<and>
     entry_count t = int (length es) \<and>
     total_score t = (\<Sum>e\<leftarrow>es. entry_score ks level e)"

lemma tls_exact_init: "tls_exact ks level [] (tls_init slot)" if "length ks \<le> MAX_KEYWORDS"
  using that by (simp add: tls_exact_def tls_init_def)

lemma tls_exact_entry:
  assumes "tls_exact ks level es t" "length ks \<le> MAX_KEYWORDS"
  shows "tls_exact ks level (es @ [e]) (worker_entry ks level t e)"
  using assms
  by (auto simp: tls_exact_def worker_entry_def Let_def score_keywords_result entry_score_def keyword_hits_def)

section \<open>What the level result holds\<close>

definition merged :: "string list \<Rightarrow> t_level \<Rightarrow> log_entry list \<Rightarrow> level_result \<Rightarrow> bool" where
  "merged ks level es r \<longleftrightarrow>
     length (per_keyword_score r) = MAX_KEYWORDS \<and>
     (\<forall>j < length ks. per_keyword_score r ! j = (\<Sum>e\<leftarrow>es. count_keyword (le_message e) (ks ! j) * get_level_weight level)) \<and>
     total_entries r = int (length es) \<and>
     total_weighted_score r = (\<Sum>e\<leftarrow>es. entry_score ks level e)"

lemma merged_init: "length ks \<le> MAX_KEYWORDS \<Longrightarrow> merged ks level [] (level_result_init lv)"
  by (simp add: merged_def level_result_init_def)

lemma merged_tls:
  assumes "merged ks level es r" "tls_exact ks level fs t" "length ks \<le> MAX_KEYWORDS"
  shows "merged ks level (es @ fs) (tls_destructor (length ks) r t)"
  using assms by (auto simp: merged_def tls_exact_def tls_destructor_def)

lemma merged_perm: "merged ks level es r \<Longrightarrow> mset es = mset fs \<Longrightarrow> merged ks level fs r"
proof -
  assume m: "merged ks level es r" and p: "mset es = mset fs"
  have "(\<Sum>e\<leftarrow>es. f e) = (\<Sum>e\<leftarrow>fs. f e)" for f :: "log_entry \<Rightarrow> int"
    using p by (metis mset_map sum_mset_sum_list)
  then show ?thesis using m p by (simp add: merged_def mset_eq_length [OF p])
qed

section \<open>The sources of a worker\<close>

definition hits_of :: "(string \<times> int) list \<Rightarrow> string \<Rightarrow> int" where
  "hits_of xs s = (case map_of xs s of None \<Rightarrow> 0 | Some h \<Rightarrow> h)"

lemma bump_source_None: "bump_source s h xs = None \<longleftrightarrow> s \<notin> fst ` set xs"
proof (induction xs)
  case (Cons p xs)
  then show ?case by (cases p) auto
qed simp

lemma bump_source_Some:
  "bump_source s h xs = Some ys \<Longrightarrow> map fst ys = map fst xs \<and> hits_of ys = (hits_of xs)(s := hits_of xs s + h)"
proof (induction xs arbitrary: ys)
  case (Cons p xs)
  obtain a b where p: "p = (a, b)" by (cases p)
  show ?case
  proof (cases "a = s")
    case True
    then show ?thesis using Cons.prems by (auto simp: p hits_of_def)
  next
    case False
    then obtain zs where "bump_source s h xs = Some zs" "ys = (a, b) # zs" using Cons.prems by (auto simp: p)
    then show ?thesis using Cons.IH False by (auto simp: p hits_of_def fun_eq_iff)
  qed
qed simp

definition source_hits :: "string list \<Rightarrow> t_level \<Rightarrow> log_entry list \<Rightarrow> string \<Rightarrow> int" where
  "source_hits ks level es s = (\<Sum>e\<leftarrow>filter (\<lambda>e. le_source e = s) es. entry_score ks level e)"

lemma worker_entry_sources:
  "sources (worker_entry ks level t e) =
    (if 0 < keyword_hits ks e then sources (add_source_hit t (le_source e) (entry_score ks level e)) else sources t)"
  if "length ks \<le> length (keyword_scores t)"
  using that by (auto simp: worker_entry_def Let_def score_keywords_result keyword_hits_def entry_score_def
      add_source_hit_def split: option.splits)

lemma sources_exact_entry:
  assumes ex: "distinct (map fst (sources t))" "hits_of (sources t) = source_hits ks level es"
    and len: "length (keyword_scores t) = MAX_KEYWORDS" "length ks \<le> MAX_KEYWORDS"
    and src: "length (le_source e) < MAX_SOURCE_LEN"
    and room: "length (sources (worker_entry ks level t e)) < MAX_TRACKED_SOURCES"
  shows "distinct (map fst (sources (worker_entry ks level t e))) \<and>
    hits_of (sources (worker_entry ks level t e)) = source_hits ks level (es @ [e])"
proof (cases "0 < keyword_hits ks e")
  case False
  then have "keyword_hits ks e = 0" using keyword_hits_nonneg [of ks e] by linarith
  then show ?thesis
    using ex len by (auto simp: worker_entry_sources source_hits_def entry_score_def fun_eq_iff)
next
  case True
  let ?h = "entry_score ks level e" and ?s = "le_source e"
  have new: "source_hits ks level (es @ [e]) = (source_hits ks level es)(?s := source_hits ks level es ?s + ?h)"
    by (auto simp: source_hits_def fun_eq_iff)
  show ?thesis
  proof (cases "bump_source ?s ?h (sources t)")
    case (Some ys)
    then show ?thesis
      using bump_source_Some [OF Some] True ex len new by (simp add: worker_entry_sources add_source_hit_def)
  next
    case None
    then have n: "?s \<notin> fst ` set (sources t)" by (simp add: bump_source_None)
    then have z: "hits_of (sources t) ?s = 0" by (simp add: hits_of_def map_of_eq_None_iff [THEN iffD2])
    have "length (sources t) < MAX_TRACKED_SOURCES"
      using room None True len by (auto simp: worker_entry_sources add_source_hit_def split: if_splits)
    then have eq: "sources (worker_entry ks level t e) = sources t @ [(?s, ?h)]"
      using None True len src by (simp add: worker_entry_sources add_source_hit_def)
    have "hits_of (sources t @ [(?s, ?h)]) = (hits_of (sources t))(?s := ?h)"
    proof
      fix x show "hits_of (sources t @ [(?s, ?h)]) x = ((hits_of (sources t))(?s := ?h)) x"
        using map_of_eq_None_iff [THEN iffD2, OF n]
        by (cases "map_of (sources t) x") (auto simp: hits_of_def map_add_def)
    qed
    then show ?thesis using ex n z new by (simp add: eq)
  qed
qed

section \<open>The three best sources\<close>

text \<open>\<open>top_ok tops seen\<close>: the table holds three of the sources seen (or is still empty there), and
  no source left out has more hits than one in the table.\<close>

definition top_ok :: "(string \<times> int) list \<Rightarrow> (string \<times> int) list \<Rightarrow> bool" where
  "top_ok tops seen \<longleftrightarrow> length tops = 3 \<and>
     (\<forall>p \<in> set tops. p = ([], 0) \<or> p \<in> set seen) \<and>
     (\<forall>q \<in> set seen. q \<in> set tops \<or> (\<forall>p \<in> set tops. snd q \<le> snd p))"

lemma min_idx_least: "length tops = 3 \<Longrightarrow> min_idx tops < 3 \<and> (\<forall>p \<in> set tops. snd (tops ! min_idx tops) \<le> snd p)"
  by (auto simp: min_idx_def Let_def in_set_conv_nth less_Suc_eq numeral_3_eq_3 numeral_2_eq_2)

lemma set_list_update_distinct: "i < length xs \<Longrightarrow> set (xs[i := y]) \<subseteq> insert y (set xs)"
  by (rule set_update_subset_insert)

lemma merge_source_top:
  assumes ok: "top_ok tops seen" and new: "s \<notin> fst ` set seen" "s \<noteq> []" "length s < MAX_SOURCE_LEN"
  shows "top_ok (merge_source tops (s, h)) (seen @ [(s, h)])"
proof -
  have len: "length tops = 3" using ok by (simp add: top_ok_def)
  have fresh: "s \<notin> fst ` set tops"
    using ok new by (force simp: top_ok_def)
  let ?m = "min_idx tops"
  have m: "?m < 3" "\<forall>p \<in> set tops. snd (tops ! ?m) \<le> snd p" using min_idx_least [OF len] by auto
  show ?thesis
  proof (cases "h > snd (tops ! ?m)")
    case False
    then have "\<forall>p \<in> set tops. h \<le> snd p" using m(2) by fastforce
    then show ?thesis
      using ok False fresh by (auto simp: merge_source_def bump_source_None [THEN iffD2] top_ok_def)
  next
    case True
    then have eq: "merge_source tops (s, h) = tops[?m := (s, h)]"
      using fresh new(3) by (simp add: merge_source_def bump_source_None [THEN iffD2])
    have "p = ([], 0) \<or> p \<in> set (seen @ [(s, h)])" if "p \<in> set (tops[?m := (s, h)])" for p
    proof -
      have "p \<in> insert (s, h) (set tops)" using that set_update_subset_insert by fast
      then show ?thesis using ok by (auto simp: top_ok_def)
    qed
    moreover have "q \<in> set (tops[?m := (s, h)]) \<or> (\<forall>p \<in> set (tops[?m := (s, h)]). snd q \<le> snd p)"
      if q: "q \<in> set seen" for q
    proof (cases "\<forall>p \<in> set tops. snd q \<le> snd p")
      case le: True
      then have "snd q \<le> snd (tops ! ?m)" using m len by simp
      then have "\<forall>p \<in> insert (s, h) (set tops). snd q \<le> snd p" using le True by auto
      then show ?thesis using set_update_subset_insert by fast
    next
      case False
      then have "q \<in> set tops" using q ok by (auto simp: top_ok_def)
      then obtain j where j: "j < 3" "q = tops ! j" using len by (auto simp: in_set_conv_nth)
      show ?thesis
      proof (cases "j = ?m")
        case False
        then have "tops[?m := (s, h)] ! j = q" using j by simp
        then show ?thesis using j(1) len by (metis length_list_update nth_mem)
      next
        case jm: True
        have "\<forall>p \<in> insert (s, h) (set tops). snd q \<le> snd p" using m(2) True j jm by auto
        then show ?thesis using set_update_subset_insert by fast
      qed
    qed
    moreover have "(s, h) \<in> set (tops[?m := (s, h)])" using m(1) len by (simp add: set_update_memI)
    ultimately show ?thesis unfolding eq top_ok_def using len by (simp add: ball_Un)
  qed
qed

lemma merge_sources_top:
  assumes "distinct (map fst xs)" "[] \<notin> fst ` set xs" "\<forall>p \<in> set xs. length (fst p) < MAX_SOURCE_LEN"
  shows "top_ok (foldl merge_source (replicate 3 ([], 0)) xs) xs"
  using assms
proof (induction xs rule: rev_induct)
  case Nil
  then show ?case by (simp add: top_ok_def)
next
  case (snoc p xs)
  then show ?case
    using merge_source_top [of "foldl merge_source (replicate 3 ([], 0)) xs" xs "fst p" "snd p"]
    by (simp add: image_iff) (metis prod.collapse)
qed

section \<open>Sorting the levels\<close>

lemma sort_pass1:
  obtains w' x' y' z' where "foldl (sort_step f) [w, x, y, z] [(0, 1), (0, 2), (0, 3)] = [w', x', y', z']"
    "mset [w', x', y', z'] = mset [w, x, y, z]" "f x' \<le> f w'" "f y' \<le> f w'" "f z' \<le> f w'"
  by (cases "f x > f w"; cases "f y > max (f w) (f x)"; cases "f z > max (f w) (max (f x) (f y))")
     (force simp: sort_step_def split: if_splits)+

lemma sort_pass2:
  assumes "f x \<le> f w" "f y \<le> f w" "f z \<le> f w"
  obtains x' y' z' where "foldl (sort_step f) [w, x, y, z] [(1, 2), (1, 3)] = [w, x', y', z']"
    "mset [x', y', z'] = mset [x, y, z]" "f x' \<le> f w" "f y' \<le> f x'" "f z' \<le> f x'"
  using assms
  by (cases "f y > f x"; cases "f z > max (f x) (f y)")
     (force simp: sort_step_def split: if_splits)+

lemma sort_results_correct:
  "mset (sort_results results) = {#0, 1, 2, 3#} \<and>
   sorted_wrt (\<lambda>i j. total_weighted_score (results ! j) \<le> total_weighted_score (results ! i)) (sort_results results)"
proof -
  let ?f = "\<lambda>i. total_weighted_score (results ! i)"
  obtain w x y z where 1: "foldl (sort_step ?f) [0, 1, 2, 3] [(0, 1), (0, 2), (0, 3)] = [w, x, y, z]"
    "mset [w, x, y, z] = mset [0, 1, 2, 3]" "?f x \<le> ?f w" "?f y \<le> ?f w" "?f z \<le> ?f w"
    by (rule sort_pass1)
  obtain x' y' z' where 2: "foldl (sort_step ?f) [w, x, y, z] [(1, 2), (1, 3)] = [w, x', y', z']"
    "mset [x', y', z'] = mset [x, y, z]" "?f x' \<le> ?f w" "?f y' \<le> ?f x'" "?f z' \<le> ?f x'"
    by (rule sort_pass2 [OF 1(3-5)])
  have "sort_results results = sort_step ?f (foldl (sort_step ?f)
      (foldl (sort_step ?f) [0, 1, 2, 3] [(0, 1), (0, 2), (0, 3)]) [(1, 2), (1, 3)]) (2, 3)"
    by (simp add: sort_results_def sort_pairs_def)
  also have "\<dots> = (if ?f z' > ?f y' then [w, x', z', y'] else [w, x', y', z'])"
    by (simp only: 1(1) 2(1)) (simp add: sort_step_def)
  finally have eq: "sort_results results = (if ?f z' > ?f y' then [w, x', z', y'] else [w, x', y', z'])" .
  have "mset [w, x', y', z'] = {#0, 1, 2, 3#}" "mset [w, x', z', y'] = {#0, 1, 2, 3#}"
    using 1(2) 2(2) by (simp_all add: add_mset_commute)
  then show ?thesis using 2(3-5) by (simp add: eq)
qed

end
