(* ===== verification/Log_Pipeline.thy ===== *)
theory Log_Pipeline
  imports Log_Ring Log_Reader Log_Scoring
begin

text \<open>
  The processes and threads of the log analyzer as steps on one state: the reader threads and the
  parser thread of every reader process (\<open>reader_thread_fun.c\<close>, \<open>internal_buffer.c\<close>), the
  dispatcher (\<open>dispatcher.c\<close>), the workers of the four analyzers (\<open>analyzer.c\<close>) and the two threads
  of the aggregator (\<open>aggregator.c\<close>), joined by the regions A, B, C and D of \<open>shm.c\<close>.

  A step is what a thread does while it holds one mutex, or between two.  A step function is
  \<open>None\<close> while its thread waits for a condition.  Real time is not modelled: where the code waits
  with a time limit, the argument \<open>expired\<close> says whether the limit has passed.
\<close>

section \<open>Shared regions\<close>

record region_a = "log_entry ring" +
  eof_count_per_level :: "nat list"
  total_readers :: nat

record region_b = "log_entry ring" +
  eof_posted :: bool

record region_d = "log_entry ring" +
  dispatcher_done :: bool

definition no_entry :: log_entry where
  "no_entry = \<lparr>le_timestamp = [], le_level = LV_ERROR, le_source = [], le_message = [], le_is_eof = False\<rparr>"

text \<open>The regions are zeroed after \<open>mmap\<close>.\<close>

definition init_region_a :: "nat \<Rightarrow> nat \<Rightarrow> region_a" where
  "init_region_a capacity file_count =
     \<lparr>rg_data = replicate capacity no_entry, rg_capacity = capacity, rg_head = 0, rg_tail = 0, rg_count = 0,
      eof_count_per_level = [0, 0, 0, 0], total_readers = file_count\<rparr>"

definition init_region_b :: "nat \<Rightarrow> region_b" where
  "init_region_b capacity =
     \<lparr>rg_data = replicate capacity no_entry, rg_capacity = capacity, rg_head = 0, rg_tail = 0, rg_count = 0,
      eof_posted = False\<rparr>"

definition init_region_d :: "nat \<Rightarrow> region_d" where
  "init_region_d capacity =
     \<lparr>rg_data = replicate capacity no_entry, rg_capacity = capacity, rg_head = 0, rg_tail = 0, rg_count = 0,
      dispatcher_done = False\<rparr>"

definition region_a_push :: "region_a \<Rightarrow> log_entry \<Rightarrow> region_a option" where "region_a_push = ring_push"
definition region_a_pop :: "region_a \<Rightarrow> (log_entry \<times> region_a) option" where "region_a_pop = ring_pop"
definition region_b_push :: "region_b \<Rightarrow> log_entry \<Rightarrow> region_b option" where "region_b_push = ring_push"
definition region_b_pop :: "region_b \<Rightarrow> (log_entry \<times> region_b) option" where "region_b_pop = ring_pop"
definition region_d_push :: "region_d \<Rightarrow> log_entry \<Rightarrow> region_d option" where "region_d_push = ring_push"
definition region_d_pop :: "region_d \<Rightarrow> (log_entry \<times> region_d) option" where "region_d_pop = ring_pop"

lemmas region_defs = region_a_push_def region_a_pop_def region_b_push_def region_b_pop_def
  region_d_push_def region_d_pop_def

definition eof_entry :: "nat \<Rightarrow> log_entry" where
  "eof_entry lv = no_entry\<lparr>le_level := level_of lv, le_is_eof := True\<rparr>"

section \<open>A reader process\<close>

text \<open>\<open>P_Absent\<close> is a reader process that has returned without creating its threads.\<close>

datatype parser_pc = P_Pop | P_Push log_entry | P_Eof nat | P_Over | P_Absent

text \<open>Each reader thread has a list of entries still to push, \<open>None\<close> after \<open>ibuf_reader_done\<close>.\<close>

record reader_proc =
  rp_threads :: "log_entry list option list"
  rp_ibuf :: "log_entry ring"
  rp_active :: int
  rp_done :: bool
  rp_parser :: parser_pc

definition ibuf_push :: "log_entry ring \<Rightarrow> log_entry \<Rightarrow> log_entry ring option" where
  "ibuf_push b e = (if rg_count b = rg_capacity b then None else ring_push b e)"

text \<open>\<open>ibuf_pop\<close>: \<open>None\<close> while it waits, \<open>Some None\<close> when it returns 0.\<close>

definition ibuf_pop :: "reader_proc \<Rightarrow> (log_entry \<times> log_entry ring) option option" where
  "ibuf_pop rp =
     (if rg_count (rp_ibuf rp) = 0 \<and> \<not> rp_done rp then None
      else if rg_count (rp_ibuf rp) = 0 \<and> rp_done rp then Some None
      else Some (ring_pop (rp_ibuf rp)))"

definition ibuf_reader_done :: "reader_proc \<Rightarrow> reader_proc" where
  "ibuf_reader_done rp =
     (let n = rp_active rp - 1 in rp\<lparr>rp_active := n, rp_done := (if n = 0 then True else rp_done rp)\<rparr>)"

definition thread_step :: "reader_proc \<Rightarrow> nat \<Rightarrow> reader_proc option" where
  "thread_step rp t =
     (case rp_threads rp ! t of
        None \<Rightarrow> None
      | Some [] \<Rightarrow> Some (ibuf_reader_done (rp\<lparr>rp_threads := (rp_threads rp)[t := None]\<rparr>))
      | Some (e # es) \<Rightarrow>
          (case ibuf_push (rp_ibuf rp) e of
             None \<Rightarrow> None
           | Some b \<Rightarrow> Some (rp\<lparr>rp_ibuf := b, rp_threads := (rp_threads rp)[t := Some es]\<rparr>)))"

definition parser_step :: "reader_proc \<Rightarrow> region_a \<Rightarrow> (reader_proc \<times> region_a) option" where
  "parser_step rp a =
     (case rp_parser rp of
        P_Pop \<Rightarrow>
          (case ibuf_pop rp of
             None \<Rightarrow> None
           | Some None \<Rightarrow> Some (rp\<lparr>rp_parser := P_Eof 0\<rparr>, a)
           | Some (Some (entry, b)) \<Rightarrow>
               Some (rp\<lparr>rp_ibuf := b,
                        rp_parser := (if le_level entry = LV_INVALID then P_Pop else P_Push entry)\<rparr>, a))
      | P_Push entry \<Rightarrow>
          (case region_a_push a entry of
             None \<Rightarrow> None
           | Some a' \<Rightarrow> Some (rp\<lparr>rp_parser := P_Pop\<rparr>, a'))
      | P_Eof lv \<Rightarrow>
          if lv < 4 then
            (case region_a_push a (eof_entry lv) of
               None \<Rightarrow> None
             | Some a' \<Rightarrow>
                 Some (rp\<lparr>rp_parser := P_Eof (lv + 1)\<rparr>,
                       a'\<lparr>eof_count_per_level := (eof_count_per_level a')[lv := eof_count_per_level a' ! lv + 1]\<rparr>))
          else Some (rp\<lparr>rp_parser := P_Over\<rparr>, a)
      | P_Over \<Rightarrow> None
      | P_Absent \<Rightarrow> None)"

section \<open>The analyzers\<close>

datatype worker_pc = W_Pop | W_Barrier | W_Over

record worker =
  w_pc :: worker_pc
  w_tls :: tls_data

record level_state =
  lv_b :: region_b
  lv_workers :: "worker list"
  lv_result :: level_result
  lv_posted :: bool
  lv_analyzed :: "log_entry list"

text \<open>\<open>lv_analyzed\<close> is a history variable: the entries the workers have taken and scored.\<close>

definition worker_step :: "string list \<Rightarrow> t_level \<Rightarrow> level_state \<Rightarrow> nat \<Rightarrow> level_state option" where
  "worker_step ks level l w =
     (let wk = lv_workers l ! w; goto = (\<lambda>pc. (lv_workers l)[w := wk\<lparr>w_pc := pc\<rparr>]) in
      case w_pc wk of
        W_Pop \<Rightarrow>
          if rg_count (lv_b l) = 0 \<and> \<not> eof_posted (lv_b l) then None
          else if rg_count (lv_b l) = 0 \<and> eof_posted (lv_b l) then Some (l\<lparr>lv_workers := goto W_Barrier\<rparr>)
          else (case region_b_pop (lv_b l) of
                  None \<Rightarrow> None
                | Some (entry, b) \<Rightarrow>
                    if le_is_eof entry then Some (l\<lparr>lv_b := b, lv_workers := goto W_Barrier\<rparr>)
                    else Some (l\<lparr>lv_b := b,
                                 lv_workers := (lv_workers l)[w := wk\<lparr>w_tls := worker_entry ks level (w_tls wk) entry\<rparr>],
                                 lv_analyzed := lv_analyzed l @ [entry]\<rparr>))
      | W_Barrier \<Rightarrow>
          if list_all (\<lambda>x. w_pc x \<noteq> W_Pop) (lv_workers l)
          then Some (l\<lparr>lv_workers := goto W_Over, lv_result := tls_destructor (length ks) (lv_result l) (w_tls wk)\<rparr>)
          else None
      | W_Over \<Rightarrow> None)"

text \<open>The analyzer's main thread: after the joins it marks the result and posts the semaphore.\<close>

definition analyzer_step :: "level_state \<Rightarrow> level_state option" where
  "analyzer_step l =
     (if list_all (\<lambda>x. w_pc x = W_Over) (lv_workers l) \<and> \<not> lv_posted l
      then Some (l\<lparr>lv_result := (lv_result l)\<lparr>lr_ready := True\<rparr>, lv_posted := True\<rparr>) else None)"

section \<open>The dispatcher\<close>

datatype dispatcher_pc =
    D_Pop | D_Got log_entry | D_Send_Eof nat | D_Push_D log_entry | D_Push_B log_entry
  | D_Final | D_Over

record pipe =
  p_readers :: "reader_proc list"
  p_a :: region_a
  p_disp :: dispatcher_pc
  p_forwarded :: "bool list"
  p_finished :: nat
  p_levels :: "level_state list"
  p_d :: region_d
  p_hp_over :: bool
  p_hp_score :: int
  p_waiting :: nat
  p_dropped :: "log_entry list"

definition is_priority_source :: "t_args \<Rightarrow> string \<Rightarrow> bool" where
  "is_priority_source a source = list_ex (\<lambda>p. p = source) (priority_sources a)"

definition send_eof_to_region_b :: "region_b \<Rightarrow> region_b option" where
  "send_eof_to_region_b b =
     (case region_b_push b (eof_entry 0) of None \<Rightarrow> None | Some b' \<Rightarrow> Some (b'\<lparr>eof_posted := True\<rparr>))"

definition upd_b :: "pipe \<Rightarrow> nat \<Rightarrow> region_b \<Rightarrow> level_state list" where
  "upd_b s lv b = (p_levels s)[lv := (p_levels s ! lv)\<lparr>lv_b := b\<rparr>]"

definition dispatcher_step :: "t_args \<Rightarrow> bool \<Rightarrow> pipe \<Rightarrow> pipe option" where
  "dispatcher_step a expired s =
     (case p_disp s of
        D_Pop \<Rightarrow>
          if p_finished s < 4 then
            (case region_a_pop (p_a s) of
               None \<Rightarrow> if expired \<and> list_all id (p_forwarded s) then Some (s\<lparr>p_disp := D_Final\<rparr>) else None
             | Some (entry, ra) \<Rightarrow> Some (s\<lparr>p_a := ra, p_disp := D_Got entry\<rparr>))
          else Some (s\<lparr>p_disp := D_Final\<rparr>)
      | D_Got entry \<Rightarrow>
          (let lv = level_index (le_level entry) in
           if le_is_eof entry then
             (if lv \<ge> 4 then Some (s\<lparr>p_disp := D_Pop\<rparr>)
              else if \<not> p_forwarded s ! lv \<and> eof_count_per_level (p_a s) ! lv \<ge> total_readers (p_a s)
              then Some (s\<lparr>p_disp := D_Send_Eof lv\<rparr>)
              else Some (s\<lparr>p_disp := D_Pop\<rparr>))
           else if lv \<ge> 4 then Some (s\<lparr>p_disp := D_Pop\<rparr>)
           else if is_priority_source a (le_source entry) then Some (s\<lparr>p_disp := D_Push_D entry\<rparr>)
           else Some (s\<lparr>p_disp := D_Push_B entry\<rparr>))
      | D_Send_Eof lv \<Rightarrow>
          (case send_eof_to_region_b (lv_b (p_levels s ! lv)) of
             None \<Rightarrow> None
           | Some b \<Rightarrow> Some (s\<lparr>p_levels := upd_b s lv b, p_forwarded := (p_forwarded s)[lv := True],
                              p_finished := p_finished s + 1, p_disp := D_Pop\<rparr>))
      | D_Push_D entry \<Rightarrow>
          (case region_d_push (p_d s) entry of
             None \<Rightarrow> if expired then Some (s\<lparr>p_disp := D_Push_B entry\<rparr>) else None
           | Some d \<Rightarrow> Some (s\<lparr>p_d := d, p_disp := D_Push_B entry\<rparr>))
      | D_Push_B entry \<Rightarrow>
          (let lv = level_index (le_level entry) in
           case region_b_push (lv_b (p_levels s ! lv)) entry of
             None \<Rightarrow> if expired then Some (s\<lparr>p_dropped := p_dropped s @ [entry], p_disp := D_Pop\<rparr>) else None
           | Some b \<Rightarrow> Some (s\<lparr>p_levels := upd_b s lv b, p_disp := D_Pop\<rparr>))
      | D_Final \<Rightarrow>
          (case find (\<lambda>lv. \<not> p_forwarded s ! lv) [0..<4] of
             Some lv \<Rightarrow>
               (case send_eof_to_region_b (lv_b (p_levels s ! lv)) of
                  None \<Rightarrow> None
                | Some b \<Rightarrow> Some (s\<lparr>p_levels := upd_b s lv b, p_forwarded := (p_forwarded s)[lv := True]\<rparr>))
           | None \<Rightarrow> Some (s\<lparr>p_d := (p_d s)\<lparr>dispatcher_done := True\<rparr>, p_disp := D_Over\<rparr>))
      | D_Over \<Rightarrow> None)"

section \<open>The aggregator\<close>

text \<open>The thread that scores region D, from one test of its loop to the next.\<close>

definition hp_step :: "t_args \<Rightarrow> bool \<Rightarrow> pipe \<Rightarrow> pipe option" where
  "hp_step a expired s =
     (if p_hp_over s then None
      else (case region_d_pop (p_d s) of
              Some (entry, d) \<Rightarrow>
                Some (s\<lparr>p_d := d, p_hp_score := p_hp_score s + high_priority_entry (keyword_list a) entry\<rparr>)
            | None \<Rightarrow> if dispatcher_done (p_d s) \<or> expired then Some (s\<lparr>p_hp_over := True\<rparr>) else None))"

text \<open>The main thread waits for the semaphores of the levels in turn and then for the other thread:
  \<open>p_waiting\<close> is 4 when all levels are through, 5 when it goes on to write the output.\<close>

definition aggregator_step :: "bool \<Rightarrow> pipe \<Rightarrow> pipe option" where
  "aggregator_step expired s =
     (if p_waiting s < 4 then
        (if lv_posted (p_levels s ! p_waiting s) \<or> expired then Some (s\<lparr>p_waiting := p_waiting s + 1\<rparr>) else None)
      else if p_waiting s = 4 then (if p_hp_over s then Some (s\<lparr>p_waiting := 5\<rparr>) else None)
      else None)"

definition aggregator_output :: "t_args \<Rightarrow> pipe \<Rightarrow> string" where
  "aggregator_output a s =
     (let results = map lv_result (p_levels s) in write_txt_output a results (sort_results results) (p_hp_score s))"

section \<open>The program\<close>

text \<open>\<open>run_reader\<close> up to the creation of its threads; without the file the process returns at once.\<close>

definition init_reader :: "t_args \<Rightarrow> string option \<Rightarrow> reader_proc" where
  "init_reader a content =
     (let T = nat (reader_threads a);
          b = \<lparr>rg_data = replicate (nat (cap_b a)) no_entry, rg_capacity = nat (cap_b a), rg_head = 0, rg_tail = 0,
               rg_count = 0\<rparr>
      in case content of
           None \<Rightarrow> \<lparr>rp_threads = [], rp_ibuf = b, rp_active = int T, rp_done = False, rp_parser = P_Absent\<rparr>
         | Some c \<Rightarrow>
             \<lparr>rp_threads = map (\<lambda>i. Some (rs_pushed (reader_thread_func (Some c) (thread_range T (length c) i)))) [0..<T],
              rp_ibuf = b, rp_active = int T, rp_done = (length c = 0), rp_parser = P_Pop\<rparr>)"

definition init_level :: "t_args \<Rightarrow> nat \<Rightarrow> level_state" where
  "init_level a lv = \<lparr>lv_b = init_region_b (nat (cap_b a)),
     lv_workers = map (\<lambda>i. \<lparr>w_pc = W_Pop, w_tls = tls_init i\<rparr>) [0..<nat (worker_threads a)],
     lv_result = level_result_init lv, lv_posted = False, lv_analyzed = []\<rparr>"

definition init_pipe :: "t_args \<Rightarrow> string option list \<Rightarrow> pipe" where
  "init_pipe a contents =
     \<lparr>p_readers = map (init_reader a) contents, p_a = init_region_a (nat (cap_a a)) (length contents),
      p_disp = D_Pop, p_forwarded = [False, False, False, False], p_finished = 0,
      p_levels = map (init_level a) [0..<4], p_d = init_region_d (nat (cap_d a)),
      p_hp_over = False, p_hp_score = 0, p_waiting = 0, p_dropped = []\<rparr>"

text \<open>\<open>main\<close> and \<open>spawn_reader_processes\<close>: one reader process for every file named in the configuration.
  \<open>fopen\<close> gives the content of a file that can be opened.\<close>

definition log_start :: "parse_env \<Rightarrow> string list \<Rightarrow> (string \<Rightarrow> string option) \<Rightarrow> (t_args \<times> pipe) option" where
  "log_start env argv fopen =
     (case start_parsing env argv of
        None \<Rightarrow> None
      | Some a \<Rightarrow> Some (a, init_pipe a (map fopen (log_files a))))"

definition print_final_summary :: "t_args \<Rightarrow> pipe \<Rightarrow> string" where
  "print_final_summary a s =
     (let results = map lv_result (p_levels s); rule = replicate 50 CHR ''='' @ [LF] in
      rule @ ''SYSTEM SUMMARY'' @ [LF] @ ''Keywords   : '' @ join '', '' (keyword_list a) @ [LF] @
      ''Log files  : '' @ nat_dec (length (log_files a)) @ [LF] @
      ''Total entries : '' @ int_dec (\<Sum>i\<leftarrow>[0, 1, 2, 3]. total_entries (results ! i)) @ [LF] @
      ''Total weighted: '' @ fixed1 (total_weighted results) @ [LF] @
      ''High-priority : '' @ fixed1 (p_hp_score s) @ '' (source filter: '' @ (case filter_file a of None \<Rightarrow> [] | Some f \<Rightarrow> f) @ '')'' @ [LF] @
      concat (map (\<lambda>i. ''  '' @ pad_right 5 (level_name (level_of i)) @ '' : '' @ int_dec (total_entries (results ! i)) @
        '' entries, score: '' @ fixed1 (total_weighted_score (results ! i)) @ [LF]) [0, 1, 2, 3]) @
      rule @ ''Program terminated successfully.'' @ [LF])"

inductive pipe_step :: "t_args \<Rightarrow> pipe \<Rightarrow> pipe \<Rightarrow> bool" for a where
  pipe_thread: "r < length (p_readers s) \<Longrightarrow> t < length (rp_threads (p_readers s ! r)) \<Longrightarrow>
    thread_step (p_readers s ! r) t = Some rp \<Longrightarrow> pipe_step a s (s\<lparr>p_readers := (p_readers s)[r := rp]\<rparr>)"
| pipe_parser: "r < length (p_readers s) \<Longrightarrow> parser_step (p_readers s ! r) (p_a s) = Some (rp, ra) \<Longrightarrow>
    pipe_step a s (s\<lparr>p_readers := (p_readers s)[r := rp], p_a := ra\<rparr>)"
| pipe_dispatcher: "dispatcher_step a expired s = Some s' \<Longrightarrow> pipe_step a s s'"
| pipe_worker: "lv < 4 \<Longrightarrow> w < length (lv_workers (p_levels s ! lv)) \<Longrightarrow>
    worker_step (keyword_list a) (level_of lv) (p_levels s ! lv) w = Some l \<Longrightarrow>
    pipe_step a s (s\<lparr>p_levels := (p_levels s)[lv := l]\<rparr>)"
| pipe_analyzer: "lv < 4 \<Longrightarrow> analyzer_step (p_levels s ! lv) = Some l \<Longrightarrow>
    pipe_step a s (s\<lparr>p_levels := (p_levels s)[lv := l]\<rparr>)"
| pipe_hp: "hp_step a expired s = Some s' \<Longrightarrow> pipe_step a s s'"
| pipe_aggregator: "aggregator_step expired s = Some s' \<Longrightarrow> pipe_step a s s'"

inductive pipe_reach :: "t_args \<Rightarrow> pipe \<Rightarrow> pipe \<Rightarrow> bool" for a s0 where
  pipe_init: "pipe_reach a s0 s0"
| pipe_more: "pipe_reach a s0 s \<Longrightarrow> pipe_step a s s' \<Longrightarrow> pipe_reach a s0 s'"

end
