(* ===== verification/Log_Flow.thy ===== *)
theory Log_Flow
  imports Log_Pipeline Runs
begin

text \<open>
  Where every log entry is: between the reader threads and the workers no entry is lost, doubled
  or invented, whatever the interleaving; entries only reach the analyzer of their own level.
\<close>

section \<open>Entries in flight\<close>

definition good_entry :: "log_entry \<Rightarrow> bool" where
  "good_entry e \<longleftrightarrow> \<not> le_is_eof e \<and> le_level e \<noteq> LV_INVALID"

definition entries :: "log_entry list \<Rightarrow> log_entry multiset" where
  "entries xs = filter_mset (\<lambda>e. \<not> le_is_eof e) (mset xs)"

lemma entries_simps [simp]: "entries [] = {#}" "entries (x # xs) = (if le_is_eof x then {#} else {#x#}) + entries xs"
  "entries (xs @ ys) = entries xs + entries ys"
  by (simp_all add: entries_def)

lemma eof_entry_is_eof [simp]: "le_is_eof (eof_entry lv)" "le_level (eof_entry lv) = level_of lv"
  by (simp_all add: eof_entry_def)

fun thread_left :: "log_entry list option \<Rightarrow> log_entry multiset" where
  "thread_left None = {#}"
| "thread_left (Some es) = mset es"

fun parser_held :: "parser_pc \<Rightarrow> log_entry multiset" where
  "parser_held (P_Push e) = {#e#}"
| "parser_held _ = {#}"

fun disp_held :: "dispatcher_pc \<Rightarrow> log_entry multiset" where
  "disp_held (D_Got e) = entries [e]"
| "disp_held (D_Push_D e) = {#e#}"
| "disp_held (D_Push_B e) = {#e#}"
| "disp_held _ = {#}"

definition reader_flight :: "reader_proc \<Rightarrow> log_entry multiset" where
  "reader_flight rp = (\<Sum>t\<leftarrow>rp_threads rp. thread_left t) + mset (ring_list (rp_ibuf rp)) + parser_held (rp_parser rp)"

definition level_flight :: "level_state \<Rightarrow> log_entry multiset" where
  "level_flight l = entries (ring_list (lv_b l)) + mset (lv_analyzed l)"

definition upstream :: "pipe \<Rightarrow> log_entry multiset" where
  "upstream s = (\<Sum>rp\<leftarrow>p_readers s. reader_flight rp) + entries (ring_list (p_a s)) + disp_held (p_disp s)"

definition flight :: "pipe \<Rightarrow> log_entry multiset" where
  "flight s = upstream s + (\<Sum>l\<leftarrow>p_levels s. level_flight l) + mset (p_dropped s)"

section \<open>Well-formed states\<close>

definition reader_ok :: "reader_proc \<Rightarrow> bool" where
  "reader_ok rp \<longleftrightarrow> ring_inv (rp_ibuf rp) \<and> (\<forall>e \<in># reader_flight rp. good_entry e)"

definition level_ok :: "nat \<Rightarrow> level_state \<Rightarrow> bool" where
  "level_ok lv l \<longleftrightarrow> ring_inv (lv_b l) \<and> (\<forall>e \<in># level_flight l. level_index (le_level e) = lv)"

definition disp_ok :: "dispatcher_pc \<Rightarrow> bool" where
  "disp_ok pc = (case pc of D_Got e \<Rightarrow> le_level e \<noteq> LV_INVALID | D_Push_D e \<Rightarrow> good_entry e
     | D_Push_B e \<Rightarrow> good_entry e | D_Send_Eof lv \<Rightarrow> lv < 4 | _ \<Rightarrow> True)"

definition pipe_wf :: "pipe \<Rightarrow> bool" where
  "pipe_wf s \<longleftrightarrow>
     (\<forall>rp \<in> set (p_readers s). reader_ok rp) \<and> ring_inv (p_a s) \<and>
     (\<forall>e \<in> set (ring_list (p_a s)). le_level e \<noteq> LV_INVALID) \<and> disp_ok (p_disp s) \<and>
     length (p_forwarded s) = 4 \<and> length (p_levels s) = 4 \<and> length (eof_count_per_level (p_a s)) = 4 \<and>
     (\<forall>lv < 4. level_ok lv (p_levels s ! lv)) \<and> ring_inv (p_d s)"

text \<open>A reader process by itself.\<close>

lemma reader_flight_thread:
  assumes "t < length (rp_threads rp)"
  shows "(\<Sum>x\<leftarrow>(rp_threads rp)[t := y]. thread_left x) + thread_left (rp_threads rp ! t) =
    (\<Sum>x\<leftarrow>rp_threads rp. thread_left x) + thread_left y"
  by (rule sum_list_upd [OF assms])

lemma thread_step_flight:
  assumes ok: "reader_ok rp" and t: "t < length (rp_threads rp)" and step: "thread_step rp t = Some rp'"
  shows "reader_ok rp' \<and> reader_flight rp' = reader_flight rp"
proof (cases "rp_threads rp ! t")
  case None
  then show ?thesis using step by (simp add: thread_step_def)
next
  case (Some es)
  show ?thesis
  proof (cases es)
    case Nil
    then have "rp' = ibuf_reader_done (rp\<lparr>rp_threads := (rp_threads rp)[t := None]\<rparr>)"
      using step Some by (simp add: thread_step_def)
    moreover from this have "reader_flight rp' = reader_flight rp"
      using reader_flight_thread [OF t, of None] Some Nil by (simp add: reader_flight_def ibuf_reader_done_def Let_def)
    ultimately show ?thesis using ok by (simp add: reader_ok_def ibuf_reader_done_def Let_def)
  next
    case (Cons e es')
    then obtain b where b: "ring_push (rp_ibuf rp) e = Some b"
      and rp': "rp' = rp\<lparr>rp_ibuf := b, rp_threads := (rp_threads rp)[t := Some es']\<rparr>"
      using step Some by (auto simp: thread_step_def ibuf_push_def split: option.splits if_splits)
    have r: "ring_inv b" "ring_list b = ring_list (rp_ibuf rp) @ [e]"
      using ring_push_Some [OF _ b] ok by (auto simp: reader_ok_def)
    have "(\<Sum>x\<leftarrow>rp_threads rp. thread_left x) = add_mset e (\<Sum>x\<leftarrow>(rp_threads rp)[t := Some es']. thread_left x)"
      using reader_flight_thread [OF t, of "Some es'"] Some Cons by simp
    then have "reader_flight rp' = reader_flight rp"
      using r by (simp add: reader_flight_def rp')
    then show ?thesis using ok r by (simp add: reader_ok_def rp')
  qed
qed

lemma parser_step_flight:
  assumes ok: "reader_ok rp" "ring_inv a" "\<forall>e \<in> set (ring_list a). le_level e \<noteq> LV_INVALID"
      "length (eof_count_per_level a) = 4" and step: "parser_step rp a = Some (rp', a')"
  shows "reader_ok rp' \<and> ring_inv a' \<and> (\<forall>e \<in> set (ring_list a'). le_level e \<noteq> LV_INVALID) \<and>
    length (eof_count_per_level a') = 4 \<and>
    reader_flight rp' + entries (ring_list a') = reader_flight rp + entries (ring_list a)"
proof (cases "rp_parser rp")
  case P_Pop
  show ?thesis
  proof (cases "rg_count (rp_ibuf rp) = 0")
    case True
    then have "rp' = rp\<lparr>rp_parser := P_Eof 0\<rparr>" "a' = a"
      using step P_Pop by (auto simp: parser_step_def ibuf_pop_def split: if_splits)
    then show ?thesis using ok P_Pop by (simp add: reader_ok_def reader_flight_def)
  next
    case False
    then obtain e b where b: "ring_pop (rp_ibuf rp) = Some (e, b)" by (auto simp: ring_pop_def)
    have r: "ring_inv b" "ring_list (rp_ibuf rp) = e # ring_list b"
      using ring_pop_Some [OF _ b] ok by (auto simp: reader_ok_def)
    then have "good_entry e" using ok(1) by (simp add: reader_ok_def reader_flight_def)
    then have "rp' = rp\<lparr>rp_ibuf := b, rp_parser := P_Push e\<rparr>" "a' = a"
      using step P_Pop False b by (auto simp: parser_step_def ibuf_pop_def good_entry_def)
    then show ?thesis using ok r P_Pop by (simp add: reader_ok_def reader_flight_def)
  qed
next
  case (P_Push e)
  then obtain a1 where b: "ring_push a e = Some a1" and e: "rp' = rp\<lparr>rp_parser := P_Pop\<rparr>" "a' = a1"
    using step by (auto simp: parser_step_def region_defs split: option.splits)
  have r: "ring_inv a1" "ring_list a1 = ring_list a @ [e]" using ring_push_Some [OF ok(2) b] by auto
  have "eof_count_per_level a1 = eof_count_per_level a"
    using b by (auto simp: ring_push_def split: if_splits)
  moreover have "good_entry e" using ok(1) P_Push by (simp add: reader_ok_def reader_flight_def)
  ultimately show ?thesis
    using ok r P_Push by (auto simp: e reader_ok_def reader_flight_def good_entry_def)
next
  case (P_Eof lv)
  show ?thesis
  proof (cases "lv < 4")
    case True
    then obtain a1 where b: "ring_push a (eof_entry lv) = Some a1" and e: "rp' = rp\<lparr>rp_parser := P_Eof (lv + 1)\<rparr>"
        "a' = a1\<lparr>eof_count_per_level := (eof_count_per_level a1)[lv := eof_count_per_level a1 ! lv + 1]\<rparr>"
      using step P_Eof by (auto simp: parser_step_def region_defs split: option.splits)
    have r: "ring_inv a1" "ring_list a1 = ring_list a @ [eof_entry lv]" using ring_push_Some [OF ok(2) b] by auto
    moreover have "eof_count_per_level a1 = eof_count_per_level a"
      using b by (auto simp: ring_push_def split: if_splits)
    moreover have "level_of lv \<noteq> LV_INVALID" using True by (simp add: level_of_def)
    moreover have "ring_inv a' = ring_inv a1" "ring_list a' = ring_list a1"
      by (simp_all add: e ring_inv_def ring_list_def)
    ultimately show ?thesis using ok P_Eof by (simp add: e(1) reader_ok_def reader_flight_def) (simp add: e)
  next
    case False
    then have "rp' = rp\<lparr>rp_parser := P_Over\<rparr>" "a' = a"
      using step P_Eof by (auto simp: parser_step_def)
    then show ?thesis using ok P_Eof by (simp add: reader_ok_def reader_flight_def)
  qed
qed (use step in \<open>simp_all add: parser_step_def\<close>)

text \<open>A level by itself.\<close>

lemma worker_step_flight:
  assumes ok: "level_ok lv l" and step: "worker_step ks level l w = Some l'"
  shows "level_ok lv l' \<and> level_flight l' = level_flight l"
proof (cases "w_pc (lv_workers l ! w)")
  case W_Pop
  show ?thesis
  proof (cases "rg_count (lv_b l) = 0")
    case True
    then show ?thesis
      using step W_Pop ok by (auto simp: worker_step_def Let_def level_ok_def level_flight_def split: if_splits)
  next
    case False
    then obtain e b where b: "ring_pop (lv_b l) = Some (e, b)" by (auto simp: ring_pop_def)
    have r: "ring_inv b" "ring_list (lv_b l) = e # ring_list b"
      using ring_pop_Some [OF _ b] ok by (auto simp: level_ok_def)
    then have "ring_inv (lv_b l') \<and> level_flight l' = level_flight l"
      using step W_Pop False b
      by (auto simp: worker_step_def Let_def level_flight_def region_defs split: if_splits)
    then show ?thesis using ok by (simp add: level_ok_def)
  qed
next
  case W_Barrier
  then show ?thesis
    using step ok by (auto simp: worker_step_def Let_def level_ok_def level_flight_def split: if_splits)
next
  case W_Over
  then show ?thesis using step by (simp add: worker_step_def Let_def)
qed

lemma analyzer_step_flight:
  "level_ok lv l \<Longrightarrow> analyzer_step l = Some l' \<Longrightarrow> level_ok lv l' \<and> level_flight l' = level_flight l"
  by (auto simp: analyzer_step_def level_ok_def level_flight_def split: if_splits)

section \<open>Conservation\<close>

lemma readers_upd:
  assumes "r < length (p_readers s)"
  shows "(\<Sum>rp\<leftarrow>(p_readers s)[r := rp']. reader_flight rp) + reader_flight (p_readers s ! r) =
    (\<Sum>rp\<leftarrow>p_readers s. reader_flight rp) + reader_flight rp'"
  by (rule sum_list_upd [OF assms])

lemma levels_upd:
  assumes "lv < length (p_levels s)"
  shows "(\<Sum>l\<leftarrow>(p_levels s)[lv := l']. level_flight l) + level_flight (p_levels s ! lv) =
    (\<Sum>l\<leftarrow>p_levels s. level_flight l) + level_flight l'"
  by (rule sum_list_upd [OF assms])

lemma pipe_wf_readers:
  "pipe_wf s \<Longrightarrow> reader_ok rp \<Longrightarrow> pipe_wf (s\<lparr>p_readers := (p_readers s)[r := rp]\<rparr>)"
  using set_update_subset_insert by (fastforce simp: pipe_wf_def)

lemma pipe_wf_levels:
  "pipe_wf s \<Longrightarrow> level_ok lv l \<Longrightarrow> lv < 4 \<Longrightarrow> pipe_wf (s\<lparr>p_levels := (p_levels s)[lv := l]\<rparr>)"
  by (auto simp: pipe_wf_def nth_list_update)

lemma flight_level_step:
  assumes wf: "pipe_wf s" and lv: "lv < 4" and l: "level_ok lv l" "level_flight l = level_flight (p_levels s ! lv)"
  shows "pipe_wf (s\<lparr>p_levels := (p_levels s)[lv := l]\<rparr>) \<and> flight (s\<lparr>p_levels := (p_levels s)[lv := l]\<rparr>) = flight s"
proof -
  have "lv < length (p_levels s)" using wf lv by (simp add: pipe_wf_def)
  then have "(\<Sum>l\<leftarrow>(p_levels s)[lv := l]. level_flight l) = (\<Sum>l\<leftarrow>p_levels s. level_flight l)"
    using levels_upd [of lv s l] l(2) by simp
  then show ?thesis using pipe_wf_levels [OF wf l(1) lv] by (simp add: flight_def upstream_def)
qed

lemma level_ok_nth: "pipe_wf s \<Longrightarrow> lv < 4 \<Longrightarrow> level_ok lv (p_levels s ! lv) \<and> lv < length (p_levels s)"
  by (simp add: pipe_wf_def)

lemma upd_b_push:
  assumes wf: "pipe_wf s" and lv: "lv < 4"
    and b: "ring_inv b" "ring_list b = ring_list (lv_b (p_levels s ! lv)) @ [e]"
    and e: "le_is_eof e \<or> level_index (le_level e) = lv"
  shows "level_ok lv ((p_levels s ! lv)\<lparr>lv_b := b\<rparr>)"
    "(\<Sum>l\<leftarrow>upd_b s lv b. level_flight l) = (\<Sum>l\<leftarrow>p_levels s. level_flight l) + entries [e]"
proof -
  have l: "level_ok lv (p_levels s ! lv)" "lv < length (p_levels s)" using level_ok_nth [OF wf lv] by auto
  have f: "level_flight ((p_levels s ! lv)\<lparr>lv_b := b\<rparr>) = level_flight (p_levels s ! lv) + entries [e]"
    using b(2) by (simp add: level_flight_def)
  then show "(\<Sum>l\<leftarrow>upd_b s lv b. level_flight l) = (\<Sum>l\<leftarrow>p_levels s. level_flight l) + entries [e]"
    using levels_upd [OF l(2), of "(p_levels s ! lv)\<lparr>lv_b := b\<rparr>"] by (simp add: upd_b_def ac_simps)
  show "level_ok lv ((p_levels s ! lv)\<lparr>lv_b := b\<rparr>)"
    using l(1) b(1) e unfolding level_ok_def f by auto
qed

lemma ring_frame [simp]:
  "ring_inv (b\<lparr>eof_posted := p\<rparr>) = ring_inv b" "ring_list (b\<lparr>eof_posted := p\<rparr>) = ring_list b"
  "ring_inv (d\<lparr>dispatcher_done := p\<rparr>) = ring_inv d" "ring_list (d\<lparr>dispatcher_done := p\<rparr>) = ring_list d"
  "ring_inv (ra\<lparr>eof_count_per_level := c\<rparr>) = ring_inv ra" "ring_list (ra\<lparr>eof_count_per_level := c\<rparr>) = ring_list ra"
  by (simp_all add: ring_inv_def ring_list_def)

lemma send_eof_Some:
  assumes "send_eof_to_region_b b = Some b'" "ring_inv b"
  shows "ring_inv b' \<and> ring_list b' = ring_list b @ [eof_entry 0] \<and> eof_posted b' \<and> rg_capacity b' = rg_capacity b"
proof -
  obtain b1 where b1: "ring_push b (eof_entry 0) = Some b1" "b' = b1\<lparr>eof_posted := True\<rparr>"
    using assms(1) by (auto simp: send_eof_to_region_b_def region_defs split: option.splits)
  then show ?thesis
    using ring_push_Some [OF assms(2) b1(1)] by simp
qed

lemma dispatcher_cases:
  assumes "dispatcher_step a x s = Some s'"
  obtains (pop) e ra where "p_disp s = D_Pop" "p_finished s < 4" "ring_pop (p_a s) = Some (e, ra)"
      "s' = s\<lparr>p_a := ra, p_disp := D_Got e\<rparr>"
    | (finish) "p_disp s = D_Pop" "4 \<le> p_finished s \<or> list_all id (p_forwarded s)" "s' = s\<lparr>p_disp := D_Final\<rparr>"
    | (eof) e where "p_disp s = D_Got e" "le_is_eof e" "level_index (le_level e) < 4"
      "\<not> p_forwarded s ! level_index (le_level e)"
      "total_readers (p_a s) \<le> eof_count_per_level (p_a s) ! level_index (le_level e)"
      "s' = s\<lparr>p_disp := D_Send_Eof (level_index (le_level e))\<rparr>"
    | (skip) e where "p_disp s = D_Got e" "le_level e = LV_INVALID \<or> (le_is_eof e \<and> (p_forwarded s ! level_index (le_level e) \<or>
        eof_count_per_level (p_a s) ! level_index (le_level e) < total_readers (p_a s)))" "s' = s\<lparr>p_disp := D_Pop\<rparr>"
    | (route_d) e where "p_disp s = D_Got e" "\<not> le_is_eof e" "le_level e \<noteq> LV_INVALID" "s' = s\<lparr>p_disp := D_Push_D e\<rparr>"
    | (route_b) e where "p_disp s = D_Got e" "\<not> le_is_eof e" "le_level e \<noteq> LV_INVALID" "s' = s\<lparr>p_disp := D_Push_B e\<rparr>"
    | (send) lv b where "p_disp s = D_Send_Eof lv" "send_eof_to_region_b (lv_b (p_levels s ! lv)) = Some b"
      "s' = s\<lparr>p_levels := upd_b s lv b, p_forwarded := (p_forwarded s)[lv := True],
              p_finished := p_finished s + 1, p_disp := D_Pop\<rparr>"
    | (push_d) e d where "p_disp s = D_Push_D e" "ring_push (p_d s) e = Some d"
      "s' = s\<lparr>p_d := d, p_disp := D_Push_B e\<rparr>"
    | (full_d) e where "p_disp s = D_Push_D e" "ring_push (p_d s) e = None" "x" "s' = s\<lparr>p_disp := D_Push_B e\<rparr>"
    | (push_b) e b where "p_disp s = D_Push_B e"
      "ring_push (lv_b (p_levels s ! level_index (le_level e))) e = Some b"
      "s' = s\<lparr>p_levels := upd_b s (level_index (le_level e)) b, p_disp := D_Pop\<rparr>"
    | (drop_b) e where "p_disp s = D_Push_B e" "ring_push (lv_b (p_levels s ! level_index (le_level e))) e = None" "x"
      "s' = s\<lparr>p_dropped := p_dropped s @ [e], p_disp := D_Pop\<rparr>"
    | (force) lv b where "p_disp s = D_Final" "lv < 4" "\<not> p_forwarded s ! lv"
      "send_eof_to_region_b (lv_b (p_levels s ! lv)) = Some b"
      "s' = s\<lparr>p_levels := upd_b s lv b, p_forwarded := (p_forwarded s)[lv := True]\<rparr>"
    | (over) "p_disp s = D_Final" "\<forall>lv < 4. p_forwarded s ! lv"
      "s' = s\<lparr>p_d := (p_d s)\<lparr>dispatcher_done := True\<rparr>, p_disp := D_Over\<rparr>"
proof (cases "p_disp s")
  case D_Pop
  then show ?thesis
    using assms pop finish by (auto simp: dispatcher_step_def region_defs split: if_splits option.splits)
next
  case (D_Got e)
  then show ?thesis
    using assms eof [of e] skip [of e] route_d [of e] route_b [of e] level_index_less [of "le_level e"]
    by (auto simp: dispatcher_step_def Let_def not_le split: if_splits)
next
  case (D_Send_Eof lv)
  then show ?thesis using assms send by (auto simp: dispatcher_step_def split: option.splits)
next
  case (D_Push_D e)
  then show ?thesis
    using assms push_d full_d by (auto simp: dispatcher_step_def region_defs split: option.splits if_splits)
next
  case (D_Push_B e)
  then show ?thesis
    using assms push_b drop_b by (auto simp: dispatcher_step_def region_defs Let_def split: option.splits if_splits)
next
  case D_Final
  show ?thesis
  proof (cases "find (\<lambda>lv. \<not> p_forwarded s ! lv) [0..<4]")
    case None
    then have "\<forall>lv < 4. p_forwarded s ! lv" by (auto simp: find_None_iff)
    then show ?thesis using assms D_Final None over by (simp add: dispatcher_step_def)
  next
    case (Some lv)
    then have "lv < 4" "\<not> p_forwarded s ! lv" by (auto simp: find_Some_iff)
    then show ?thesis
      using assms D_Final Some force by (auto simp: dispatcher_step_def split: option.splits)
  qed
next
  case D_Over
  then show ?thesis using assms by (simp add: dispatcher_step_def)
qed

lemma flight_disp:
  assumes wf: "pipe_wf s" and ok: "disp_ok pc" and held: "disp_held pc = disp_held (p_disp s)"
  shows "pipe_wf (s\<lparr>p_disp := pc\<rparr>) \<and> flight (s\<lparr>p_disp := pc\<rparr>) = flight s"
  using wf ok held by (simp add: pipe_wf_def flight_def upstream_def)

lemma dispatcher_flight:
  assumes wf: "pipe_wf s" and step: "dispatcher_step a x s = Some s'"
  shows "pipe_wf s' \<and> flight s' = flight s"
  using step
proof (cases rule: dispatcher_cases)
  case (pop e ra)
  have r: "ring_inv ra" "ring_list (p_a s) = e # ring_list ra"
    using ring_pop_Some [OF _ pop(3)] wf by (auto simp: pipe_wf_def)
  moreover have "eof_count_per_level ra = eof_count_per_level (p_a s)"
    using pop(3) by (auto simp: ring_pop_def split: if_splits)
  moreover have "disp_ok (D_Got e)" using wf r by (simp add: pipe_wf_def disp_ok_def)
  ultimately show ?thesis
    using wf pop(1,4) by (simp add: pipe_wf_def flight_def upstream_def ac_simps)
next
  case finish
  then show ?thesis using flight_disp [OF wf, of D_Final] by (simp add: disp_ok_def)
next
  case (eof e)
  then show ?thesis using flight_disp [OF wf, of "D_Send_Eof (level_index (le_level e))"] by (simp add: disp_ok_def)
next
  case (skip e)
  moreover have "le_level e \<noteq> LV_INVALID" using wf skip(1) by (simp add: pipe_wf_def disp_ok_def)
  ultimately show ?thesis using flight_disp [OF wf, of D_Pop] by (auto simp: disp_ok_def)
next
  case (route_d e)
  then show ?thesis using flight_disp [OF wf, of "D_Push_D e"] by (simp add: disp_ok_def good_entry_def)
next
  case (route_b e)
  then show ?thesis using flight_disp [OF wf, of "D_Push_B e"] by (simp add: disp_ok_def good_entry_def)
next
  case (send lv b)
  have lv: "lv < 4" using wf send(1) by (simp add: pipe_wf_def disp_ok_def)
  have b: "ring_inv b" "ring_list b = ring_list (lv_b (p_levels s ! lv)) @ [eof_entry 0]"
    using send_eof_Some [OF send(2)] level_ok_nth [OF wf lv] by (auto simp: level_ok_def)
  note u = upd_b_push [OF wf lv b disjI1 [OF eof_entry_is_eof(1)]]
  show ?thesis
    using pipe_wf_levels [OF wf u(1) lv] u(2) send(1,3)
    by (simp add: pipe_wf_def disp_ok_def flight_def upstream_def upd_b_def)
next
  case (push_d e d)
  then have "ring_inv d" using ring_push_Some [OF _ push_d(2)] wf by (simp add: pipe_wf_def)
  moreover have "disp_ok (D_Push_B e)" using wf push_d(1) by (simp add: pipe_wf_def disp_ok_def)
  ultimately show ?thesis using wf push_d(1,3) by (simp add: pipe_wf_def flight_def upstream_def)
next
  case (full_d e)
  moreover have "disp_ok (D_Push_B e)" using wf full_d(1) by (simp add: pipe_wf_def disp_ok_def)
  ultimately show ?thesis using flight_disp [OF wf, of "D_Push_B e"] by simp
next
  case (push_b e b)
  let ?lv = "level_index (le_level e)"
  have g: "good_entry e" using wf push_b(1) by (simp add: pipe_wf_def disp_ok_def)
  then have lv: "?lv < 4" by (simp add: good_entry_def level_index_less)
  have b: "ring_inv b" "ring_list b = ring_list (lv_b (p_levels s ! ?lv)) @ [e]"
    using ring_push_Some [OF _ push_b(2)] level_ok_nth [OF wf lv] by (auto simp: level_ok_def)
  note u = upd_b_push [OF wf lv b disjI2 [OF refl]]
  show ?thesis
    using pipe_wf_levels [OF wf u(1) lv] u(2) push_b(1,3) g
    by (simp add: pipe_wf_def disp_ok_def flight_def upstream_def upd_b_def good_entry_def ac_simps)
next
  case (drop_b e)
  then show ?thesis using wf by (simp add: pipe_wf_def disp_ok_def flight_def upstream_def)
next
  case (force lv b)
  have b: "ring_inv b" "ring_list b = ring_list (lv_b (p_levels s ! lv)) @ [eof_entry 0]"
    using send_eof_Some [OF force(4)] level_ok_nth [OF wf force(2)] by (auto simp: level_ok_def)
  note u = upd_b_push [OF wf force(2) b disjI1 [OF eof_entry_is_eof(1)]]
  show ?thesis
    using pipe_wf_levels [OF wf u(1) force(2)] u(2) force(1,5)
    by (simp add: pipe_wf_def disp_ok_def flight_def upstream_def upd_b_def)
next
  case over
  then show ?thesis using wf by (simp add: pipe_wf_def disp_ok_def flight_def upstream_def)
qed

lemma hp_cases:
  assumes "hp_step a x s = Some s'"
  obtains e d where "ring_pop (p_d s) = Some (e, d)" "\<not> p_hp_over s"
      "s' = s\<lparr>p_d := d, p_hp_score := p_hp_score s + high_priority_entry (keyword_list a) e\<rparr>"
    | "s' = s\<lparr>p_hp_over := True\<rparr>" "\<not> p_hp_over s" "dispatcher_done (p_d s) \<or> x"
  using assms by (auto simp: hp_step_def region_defs split: if_splits option.splits)

lemma hp_flight:
  assumes wf: "pipe_wf s" and step: "hp_step a x s = Some s'"
  shows "pipe_wf s' \<and> flight s' = flight s"
  using step
proof (cases rule: hp_cases)
  case (1 e d)
  then have "ring_inv d" using ring_pop_Some [OF _ 1(1)] wf by (simp add: pipe_wf_def)
  then show ?thesis using wf 1 by (simp add: pipe_wf_def flight_def upstream_def)
next
  case 2
  then show ?thesis using wf by (simp add: pipe_wf_def flight_def upstream_def)
qed

lemma aggregator_cases:
  assumes "aggregator_step x s = Some s'"
  obtains n where "s' = s\<lparr>p_waiting := n\<rparr>" "p_waiting s < n" "n \<le> 5"
  using assms by (cases "p_waiting s < 4") (auto simp: aggregator_step_def split: if_splits intro: that [of 5])

lemma pipe_step_flight:
  assumes wf: "pipe_wf s" and step: "pipe_step a s s'"
  shows "pipe_wf s' \<and> flight s' = flight s"
  using step
proof cases
  case (pipe_thread r t rp)
  have "reader_ok (p_readers s ! r)" using wf pipe_thread(2) by (simp add: pipe_wf_def)
  then have "reader_ok rp \<and> reader_flight rp = reader_flight (p_readers s ! r)"
    using thread_step_flight [OF _ pipe_thread(3,4)] by blast
  then show ?thesis
    using pipe_wf_readers [OF wf, of rp r] readers_upd [OF pipe_thread(2), of rp]
    by (simp add: pipe_thread(1) flight_def upstream_def)
next
  case (pipe_parser r rp ra)
  have ok: "reader_ok (p_readers s ! r)" "ring_inv (p_a s)" "\<forall>e \<in> set (ring_list (p_a s)). le_level e \<noteq> LV_INVALID"
    "length (eof_count_per_level (p_a s)) = 4"
    using wf pipe_parser(2) by (simp_all add: pipe_wf_def)
  note f = parser_step_flight [OF ok pipe_parser(3)]
  have "(\<Sum>rp\<leftarrow>(p_readers s)[r := rp]. reader_flight rp) + entries (ring_list ra) + reader_flight (p_readers s ! r) =
      (\<Sum>rp\<leftarrow>p_readers s. reader_flight rp) + (reader_flight rp + entries (ring_list ra))"
    using readers_upd [OF pipe_parser(2), of rp] by (simp add: ac_simps)
  then have "(\<Sum>rp\<leftarrow>(p_readers s)[r := rp]. reader_flight rp) + entries (ring_list ra) =
      (\<Sum>rp\<leftarrow>p_readers s. reader_flight rp) + entries (ring_list (p_a s))"
    using f by (simp add: ac_simps)
  then show ?thesis
    using pipe_wf_readers [OF wf, of rp r] f by (simp add: pipe_parser(1) flight_def upstream_def pipe_wf_def)
next
  case (pipe_dispatcher x)
  then show ?thesis using dispatcher_flight [OF wf] by blast
next
  case (pipe_worker lv w l)
  note ok = level_ok_nth [OF wf pipe_worker(2)]
  then have "level_ok lv l \<and> level_flight l = level_flight (p_levels s ! lv)"
    using worker_step_flight [OF _ pipe_worker(4)] by blast
  then show ?thesis using flight_level_step [OF wf pipe_worker(2)] by (simp add: pipe_worker(1))
next
  case (pipe_analyzer lv l)
  note ok = level_ok_nth [OF wf pipe_analyzer(2)]
  then have "level_ok lv l \<and> level_flight l = level_flight (p_levels s ! lv)"
    using analyzer_step_flight [OF _ pipe_analyzer(3)] by blast
  then show ?thesis using flight_level_step [OF wf pipe_analyzer(2)] by (simp add: pipe_analyzer(1))
next
  case (pipe_hp x)
  then show ?thesis using hp_flight [OF wf] by blast
next
  case (pipe_aggregator x)
  then show ?thesis using wf by (auto elim!: aggregator_cases simp: pipe_wf_def flight_def upstream_def)
qed

lemma pipe_reach_steps: "pipe_reach a s0 s \<Longrightarrow> (pipe_step a)\<^sup>*\<^sup>* s0 s"
  by (induction rule: pipe_reach.induct) (auto intro: rtranclp.rtrancl_into_rtrancl)

interpretation flight_sys: invariant_system "pipe_reach a" "pipe_step a" "\<lambda>s. pipe_wf s \<and> flight s = es"
  for a es
  by unfold_locales (auto intro: pipe_reach_steps dest: pipe_step_flight)

lemma pipe_reach_flight: "pipe_reach a s0 s \<Longrightarrow> pipe_wf s0 \<Longrightarrow> pipe_wf s \<and> flight s = flight s0"
  using flight_sys.reach_keeps by blast

section \<open>The start\<close>

definition all_entries :: "string option list \<Rightarrow> log_entry multiset" where
  "all_entries contents = (\<Sum>c\<leftarrow>contents. case c of None \<Rightarrow> {#} | Some f \<Rightarrow> mset (file_entries f))"

lemma line_entry_good: "line_entry b = Some e \<Longrightarrow> good_entry e"
  by (auto simp: line_entry_def Let_def good_entry_def entry_wf_def split: if_splits dest: parse_log_line_wf)

lemma set_map_filter: "e \<in> set (List.map_filter f xs) \<longleftrightarrow> (\<exists>x \<in> set xs. f x = Some e)"
  by (force simp: List.map_filter_def)

lemma file_entries_good: "e \<in> set (file_entries f) \<Longrightarrow> good_entry e"
  by (auto simp: file_entries_def set_map_filter line_entry_good)

lemma mset_concat_map: "mset (concat (map f xs)) = (\<Sum>x\<leftarrow>xs. mset (f x))"
  by (induction xs) auto

lemma init_reader_flight:
  assumes "1 \<le> reader_threads a" "0 < cap_b a" "\<And>f. c = Some f \<Longrightarrow> lines_fit f"
  shows "reader_ok (init_reader a c) \<and>
    reader_flight (init_reader a c) = (case c of None \<Rightarrow> {#} | Some f \<Rightarrow> mset (file_entries f))"
proof (cases c)
  case None
  then show ?thesis
    using assms by (simp add: init_reader_def Let_def reader_ok_def reader_flight_def ring_inv_def ring_list_def)
next
  case (Some f)
  let ?T = "nat (reader_threads a)"
  have "(\<Sum>x\<leftarrow>[0..<?T]. mset (rs_pushed (reader_thread_func (Some f) (thread_range ?T (length f) x)))) = mset (file_entries f)"
    using readers_partition [of f ?T] assms(1,3) Some by (simp add: mset_concat_map [symmetric])
  then have "reader_flight (init_reader a c) = mset (file_entries f)"
    by (simp add: init_reader_def Let_def reader_flight_def ring_list_def Some comp_def)
  then show ?thesis
    using assms(2) file_entries_good by (simp add: Some reader_ok_def init_reader_def Let_def ring_inv_def)
qed

lemma init_pipe_wf:
  assumes wf: "args_wf a" and fit: "\<And>f. Some f \<in> set contents \<Longrightarrow> lines_fit f"
  shows "pipe_wf (init_pipe a contents)" "flight (init_pipe a contents) = all_entries contents"
proof -
  have r: "reader_ok (init_reader a c) \<and>
      reader_flight (init_reader a c) = (case c of None \<Rightarrow> {#} | Some f \<Rightarrow> mset (file_entries f))"
    if "c \<in> set contents" for c
    using that wf fit by (intro init_reader_flight) (auto simp: args_wf_def)
  have l: "level_ok lv (init_level a lv)" "level_flight (init_level a lv) = {#}" for lv
    using wf by (simp_all add: level_ok_def level_flight_def init_level_def init_region_b_def ring_inv_def ring_list_def args_wf_def)
  show "pipe_wf (init_pipe a contents)"
    using r l(1) wf by (auto simp: pipe_wf_def init_pipe_def init_region_a_def init_region_d_def ring_inv_def
        ring_list_def disp_ok_def args_wf_def)
  have "(\<Sum>c\<leftarrow>contents. reader_flight (init_reader a c)) = all_entries contents"
    unfolding all_entries_def using r by (intro arg_cong [of _ _ sum_list] map_cong) auto
  then show "flight (init_pipe a contents) = all_entries contents"
    using l(2) by (simp add: flight_def upstream_def init_pipe_def init_region_a_def ring_list_def comp_def)
qed

end
