(* ===== verification/Log_Results.thy ===== *)
theory Log_Results
  imports Log_Flow
begin

text \<open>
  What the analyzers compute, and how the pipeline ends: the result of a level is the score of the
  entries its workers took, some process can always move while every log file can be read, and a
  file that cannot be read keeps the dispatcher from ever ending.
\<close>

section \<open>Scores\<close>

definition over_entries :: "worker list \<Rightarrow> log_entry list list \<Rightarrow> log_entry multiset" where
  "over_entries ws parts = (\<Sum>w<length ws. if w_pc (ws ! w) = W_Over then mset (parts ! w) else {#})"

definition level_scores :: "string list \<Rightarrow> t_level \<Rightarrow> level_state \<Rightarrow> bool" where
  "level_scores ks level l \<longleftrightarrow>
     (\<exists>parts fs. length parts = length (lv_workers l) \<and>
        (\<forall>w < length parts. tls_exact ks level (parts ! w) (w_tls (lv_workers l ! w))) \<and>
        mset (concat parts) = mset (lv_analyzed l) \<and>
        merged ks level fs (lv_result l) \<and> mset fs = over_entries (lv_workers l) parts)"

lemma mset_concat_upd:
  "w < length parts \<Longrightarrow> mset (concat (parts[w := parts ! w @ [e]])) = add_mset e (mset (concat parts))"
proof (induction parts arbitrary: w)
  case (Cons p ps)
  then show ?case by (cases w) auto
qed simp

lemma over_entries_upd:
  assumes "w < length ws" "length parts = length ws" "w_pc (ws ! w) \<noteq> W_Over"
  shows "over_entries (ws[w := k]) parts =
    over_entries ws parts + (if w_pc k = W_Over then mset (parts ! w) else {#})"
proof -
  have "(\<Sum>i\<in>{..<length ws} - {w}. if w_pc (ws[w := k] ! i) = W_Over then mset (parts ! i) else {#}) =
      (\<Sum>i\<in>{..<length ws} - {w}. if w_pc (ws ! i) = W_Over then mset (parts ! i) else {#})"
    by (intro sum.cong) auto
  then show ?thesis
    using assms by (simp add: over_entries_def sum.remove [of "{..<length ws}" w])
qed

lemma worker_step_cases:
  assumes "worker_step ks level l w = Some l'"
  obtains (drained) "w_pc (lv_workers l ! w) = W_Pop" "rg_count (lv_b l) = 0" "eof_posted (lv_b l)"
      "l' = l\<lparr>lv_workers := (lv_workers l)[w := (lv_workers l ! w)\<lparr>w_pc := W_Barrier\<rparr>]\<rparr>"
    | (eof) e b where "w_pc (lv_workers l ! w) = W_Pop" "ring_pop (lv_b l) = Some (e, b)" "le_is_eof e"
      "l' = l\<lparr>lv_b := b, lv_workers := (lv_workers l)[w := (lv_workers l ! w)\<lparr>w_pc := W_Barrier\<rparr>]\<rparr>"
    | (entry) e b where "w_pc (lv_workers l ! w) = W_Pop" "ring_pop (lv_b l) = Some (e, b)" "\<not> le_is_eof e"
      "l' = l\<lparr>lv_b := b, lv_workers := (lv_workers l)[w := (lv_workers l ! w)\<lparr>w_tls :=
              worker_entry ks level (w_tls (lv_workers l ! w)) e\<rparr>], lv_analyzed := lv_analyzed l @ [e]\<rparr>"
    | (merge) "w_pc (lv_workers l ! w) = W_Barrier" "list_all (\<lambda>x. w_pc x \<noteq> W_Pop) (lv_workers l)"
      "l' = l\<lparr>lv_workers := (lv_workers l)[w := (lv_workers l ! w)\<lparr>w_pc := W_Over\<rparr>],
              lv_result := tls_destructor (length ks) (lv_result l) (w_tls (lv_workers l ! w))\<rparr>"
proof (cases "w_pc (lv_workers l ! w)")
  case W_Pop
  show ?thesis
  proof (cases "rg_count (lv_b l) = 0")
    case True
    then show ?thesis
      using assms W_Pop drained by (auto simp: worker_step_def Let_def split: if_splits)
  next
    case False
    then obtain e b where "ring_pop (lv_b l) = Some (e, b)" by (auto simp: ring_pop_def)
    then show ?thesis
      using assms W_Pop False eof [of e b] entry [of e b]
      by (cases "le_is_eof e") (auto simp: worker_step_def Let_def region_defs)
  qed
next
  case W_Barrier
  then show ?thesis using assms merge by (auto simp: worker_step_def Let_def split: if_splits)
next
  case W_Over
  then show ?thesis using assms by (simp add: worker_step_def Let_def)
qed

lemma level_scores_worker:
  assumes sc: "level_scores ks level l" and w: "w < length (lv_workers l)" and ks: "length ks \<le> MAX_KEYWORDS"
    and step: "worker_step ks level l w = Some l'"
  shows "level_scores ks level l'"
proof -
  obtain parts fs where p: "length parts = length (lv_workers l)"
      "\<forall>w < length parts. tls_exact ks level (parts ! w) (w_tls (lv_workers l ! w))"
      "mset (concat parts) = mset (lv_analyzed l)" "merged ks level fs (lv_result l)"
      "mset fs = over_entries (lv_workers l) parts"
    using sc by (auto simp: level_scores_def)
  show ?thesis
    using step
  proof (cases rule: worker_step_cases)
    case drained
    then show ?thesis
      using p w over_entries_upd [OF w p(1), of "(lv_workers l ! w)\<lparr>w_pc := W_Barrier\<rparr>"]
      by (auto simp: level_scores_def nth_list_update intro!: exI [of _ parts] exI [of _ fs])
  next
    case (eof e b)
    then show ?thesis
      using p w over_entries_upd [OF w p(1), of "(lv_workers l ! w)\<lparr>w_pc := W_Barrier\<rparr>"]
      by (auto simp: level_scores_def nth_list_update intro!: exI [of _ parts] exI [of _ fs])
  next
    case (entry e b)
    let ?k = "(lv_workers l ! w)\<lparr>w_tls := worker_entry ks level (w_tls (lv_workers l ! w)) e\<rparr>"
    let ?parts = "parts[w := parts ! w @ [e]]"
    have "tls_exact ks level (parts ! w @ [e]) (w_tls ?k)"
      using tls_exact_entry [OF _ ks, of level "parts ! w" "w_tls (lv_workers l ! w)" e] p(1,2) w by simp
    moreover have "over_entries ((lv_workers l)[w := ?k]) ?parts = over_entries (lv_workers l) parts"
      using entry(1) w by (auto simp: over_entries_def nth_list_update p(1) intro!: sum.cong)
    ultimately show ?thesis
      using p w mset_concat_upd [of w parts e] entry(4)
      by (auto simp: level_scores_def nth_list_update intro!: exI [of _ ?parts] exI [of _ fs])
  next
    case merge
    let ?k = "(lv_workers l ! w)\<lparr>w_pc := W_Over\<rparr>"
    have "merged ks level (fs @ parts ! w) (lv_result l')"
      using merged_tls [OF p(4) _ ks] p(1,2) w by (simp add: merge(3))
    moreover have "mset (fs @ parts ! w) = over_entries (lv_workers l') parts"
      using over_entries_upd [OF w p(1), of ?k] merge p(5) by simp
    ultimately show ?thesis
      using p w merge(3)
      by (auto simp: level_scores_def nth_list_update intro!: exI [of _ parts] exI [of _ "fs @ parts ! w"])
  qed
qed

lemma level_scores_result:
  assumes sc: "level_scores ks level l" and over: "list_all (\<lambda>x. w_pc x = W_Over) (lv_workers l)"
  shows "merged ks level (lv_analyzed l) (lv_result l)"
proof -
  obtain parts fs where p: "length parts = length (lv_workers l)" "mset (concat parts) = mset (lv_analyzed l)"
      "merged ks level fs (lv_result l)" "mset fs = over_entries (lv_workers l) parts"
    using sc by (auto simp: level_scores_def)
  have "over_entries (lv_workers l) parts = (\<Sum>w<length parts. mset (parts ! w))"
    using over p(1) by (auto simp: over_entries_def list_all_length intro!: sum.cong)
  also have "\<dots> = mset (concat parts)"
    by (induction parts rule: rev_induct) (auto simp: nth_append)
  finally show ?thesis using merged_perm [OF p(3)] p(2,4) by simp
qed

lemma level_scores_frame:
  assumes "level_scores ks level l" "lv_workers l' = lv_workers l" "lv_analyzed l' = lv_analyzed l"
    "\<And>es. merged ks level es (lv_result l') = merged ks level es (lv_result l)"
  shows "level_scores ks level l'"
  using assms by (simp add: level_scores_def)

lemma level_scores_init:
  assumes "length (keyword_list a) \<le> MAX_KEYWORDS"
  shows "level_scores (keyword_list a) level (init_level a lv)"
  unfolding level_scores_def
proof (intro exI conjI)
  let ?n = "nat (worker_threads a)"
  show "length (replicate ?n ([] :: log_entry list)) = length (lv_workers (init_level a lv))"
    by (simp add: init_level_def)
  show "merged (keyword_list a) level [] (lv_result (init_level a lv))"
    using merged_init [OF assms] by (simp add: init_level_def)
  show "mset [] = over_entries (lv_workers (init_level a lv)) (replicate ?n [])"
    by (auto simp: over_entries_def init_level_def intro!: sum.neutral [symmetric])
  show "mset (concat (replicate ?n [])) = mset (lv_analyzed (init_level a lv))"
    by (simp add: init_level_def)
qed (use tls_exact_init [OF assms] in \<open>simp add: init_level_def\<close>)

definition scores_inv :: "t_args \<Rightarrow> pipe \<Rightarrow> bool" where
  "scores_inv a s \<longleftrightarrow> length (p_levels s) = 4 \<and>
     (\<forall>lv < 4. level_scores (keyword_list a) (level_of lv) (p_levels s ! lv) \<and>
        (lv_posted (p_levels s ! lv) \<longrightarrow> list_all (\<lambda>x. w_pc x = W_Over) (lv_workers (p_levels s ! lv))))"

lemma scores_inv_levels:
  assumes "scores_inv a s" "lv < 4" "level_scores (keyword_list a) (level_of lv) l"
    "lv_posted l \<longrightarrow> list_all (\<lambda>x. w_pc x = W_Over) (lv_workers l)" "p_levels s' = (p_levels s)[lv := l]"
  shows "scores_inv a s'"
  using assms by (auto simp: scores_inv_def nth_list_update)

lemma scores_inv_b:
  assumes inv: "scores_inv a s" and lv: "lv < 4" and s': "p_levels s' = upd_b s lv b"
  shows "scores_inv a s'"
proof (rule scores_inv_levels [OF inv lv])
  have "level_scores (keyword_list a) (level_of lv) (p_levels s ! lv)" using inv lv by (simp add: scores_inv_def)
  then show "level_scores (keyword_list a) (level_of lv) ((p_levels s ! lv)\<lparr>lv_b := b\<rparr>)"
    by (rule level_scores_frame) simp_all
qed (use inv lv s' in \<open>simp_all add: upd_b_def scores_inv_def\<close>)

lemma scores_inv_same: "scores_inv a s \<Longrightarrow> p_levels s' = p_levels s \<Longrightarrow> scores_inv a s'"
  by (simp add: scores_inv_def)

lemma scores_inv_step:
  assumes inv: "scores_inv a s" and wf: "pipe_wf s" and ks: "length (keyword_list a) \<le> MAX_KEYWORDS"
    and step: "pipe_step a s s'"
  shows "scores_inv a s'"
  using step
proof cases
  case (pipe_dispatcher x)
  then show ?thesis
  proof (cases rule: dispatcher_cases)
    case (send lv b)
    then show ?thesis using scores_inv_b [OF inv, of lv s' b] wf by (simp add: pipe_wf_def disp_ok_def)
  next
    case (push_b e b)
    then have "level_index (le_level e) < 4" using wf by (simp add: pipe_wf_def disp_ok_def good_entry_def level_index_less)
    then show ?thesis using push_b(3) by (intro scores_inv_b [OF inv]) simp_all
  next
    case (force lv b)
    then show ?thesis using scores_inv_b [OF inv, of lv s' b] by simp
  qed (rule scores_inv_same [OF inv]; simp)+
next
  case (pipe_worker lv w l)
  have sc: "level_scores (keyword_list a) (level_of lv) (p_levels s ! lv)" using inv pipe_worker(2) by (simp add: scores_inv_def)
  have "lv_posted l = lv_posted (p_levels s ! lv)" "w_pc (lv_workers (p_levels s ! lv) ! w) \<noteq> W_Over"
    using pipe_worker(4) by (auto elim!: worker_step_cases)
  moreover from this have "\<not> lv_posted (p_levels s ! lv)"
    using inv pipe_worker(2,3) by (auto simp: scores_inv_def list_all_length)
  ultimately show ?thesis
    using scores_inv_levels [OF inv pipe_worker(2) level_scores_worker [OF sc pipe_worker(3) ks pipe_worker(4)]]
    by (simp add: pipe_worker(1))
next
  case (pipe_analyzer lv l)
  have sc: "level_scores (keyword_list a) (level_of lv) (p_levels s ! lv)" using inv pipe_analyzer(2) by (simp add: scores_inv_def)
  have l: "l = (p_levels s ! lv)\<lparr>lv_result := (lv_result (p_levels s ! lv))\<lparr>lr_ready := True\<rparr>, lv_posted := True\<rparr>"
    "list_all (\<lambda>x. w_pc x = W_Over) (lv_workers (p_levels s ! lv))"
    using pipe_analyzer(3) by (auto simp: analyzer_step_def split: if_splits)
  have "level_scores (keyword_list a) (level_of lv) l"
    by (rule level_scores_frame [OF sc]) (simp_all add: l(1) merged_def)
  then show ?thesis
    using scores_inv_levels [OF inv pipe_analyzer(2), of l s'] l pipe_analyzer(1) by simp
next
  case (pipe_hp x)
  then show ?thesis by (auto elim!: hp_cases intro: scores_inv_same [OF inv])
next
  case (pipe_aggregator x)
  then show ?thesis by (auto elim!: aggregator_cases intro: scores_inv_same [OF inv])
qed (auto intro: scores_inv_same [OF inv])

lemma scores_inv_init: "length (keyword_list a) \<le> MAX_KEYWORDS \<Longrightarrow> scores_inv a (init_pipe a contents)"
  using level_scores_init by (simp add: scores_inv_def init_pipe_def) (simp add: init_level_def)

section \<open>End-of-file markers\<close>

fun past :: "nat \<Rightarrow> parser_pc \<Rightarrow> nat" where
  "past lv (P_Eof k) = (if lv < k then 1 else 0)"
| "past lv P_Over = 1"
| "past lv _ = 0"

definition reader_sync :: "reader_proc \<Rightarrow> bool" where
  "reader_sync rp \<longleftrightarrow>
     (case rp_parser rp of
        P_Absent \<Rightarrow> rp_threads rp = [] \<and> rg_count (rp_ibuf rp) = 0
      | pc \<Rightarrow>
          rp_active rp = int (length (filter (\<lambda>t. t \<noteq> None) (rp_threads rp))) \<and>
          (rp_active rp = 0 \<longrightarrow> rp_done rp) \<and>
          (rp_done rp \<longrightarrow> (\<forall>t \<in> set (rp_threads rp). t = None \<or> t = Some [])) \<and>
          (\<forall>k. pc = P_Eof k \<longrightarrow> k \<le> 4) \<and>
          (pc = P_Over \<or> (\<exists>k. pc = P_Eof k) \<longrightarrow> rp_done rp \<and> rg_count (rp_ibuf rp) = 0))"

definition disp_eof :: "dispatcher_pc \<Rightarrow> nat \<Rightarrow> bool" where
  "disp_eof pc lv \<longleftrightarrow> (\<exists>e. pc = D_Got e \<and> le_is_eof e \<and> le_level e = level_of lv) \<or> pc = D_Send_Eof lv"

definition marker_in :: "region_a \<Rightarrow> nat \<Rightarrow> bool" where
  "marker_in ra lv \<longleftrightarrow> (\<exists>e \<in> set (ring_list ra). le_is_eof e \<and> le_level e = level_of lv)"

definition level_eof :: "pipe \<Rightarrow> nat \<Rightarrow> bool" where
  "level_eof s lv \<longleftrightarrow>
     (\<Sum>rp\<leftarrow>p_readers s. past lv (rp_parser rp)) = eof_count_per_level (p_a s) ! lv \<and>
     p_forwarded s ! lv = eof_posted (lv_b (p_levels s ! lv)) \<and>
     (p_forwarded s ! lv \<longrightarrow> total_readers (p_a s) \<le> eof_count_per_level (p_a s) ! lv) \<and>
     (total_readers (p_a s) \<le> eof_count_per_level (p_a s) ! lv \<longrightarrow>
        p_forwarded s ! lv \<or> marker_in (p_a s) lv \<or> disp_eof (p_disp s) lv) \<and>
     (p_disp s = D_Send_Eof lv \<longrightarrow> \<not> p_forwarded s ! lv \<and>
        total_readers (p_a s) \<le> eof_count_per_level (p_a s) ! lv) \<and>
     (\<forall>x \<in> set (lv_workers (p_levels s ! lv)). w_pc x \<noteq> W_Pop \<longrightarrow> eof_posted (lv_b (p_levels s ! lv))) \<and>
     (\<forall>e \<in> set (ring_list (lv_b (p_levels s ! lv))). le_is_eof e \<longrightarrow> eof_posted (lv_b (p_levels s ! lv)))"

definition eof_inv :: "pipe \<Rightarrow> bool" where
  "eof_inv s \<longleftrightarrow>
     (\<forall>rp \<in> set (p_readers s). reader_sync rp) \<and> total_readers (p_a s) = length (p_readers s) \<and>
     p_finished s = length (filter id (p_forwarded s)) \<and> (\<forall>lv < 4. level_eof s lv) \<and>
     (p_disp s = D_Final \<or> p_disp s = D_Over \<longrightarrow> list_all id (p_forwarded s)) \<and>
     (p_disp s = D_Over \<longrightarrow> dispatcher_done (p_d s))"

lemma count_threads_upd:
  "t < length xs \<Longrightarrow> xs ! t \<noteq> None \<Longrightarrow>
   int (length (filter (\<lambda>x. x \<noteq> None) (xs[t := y]))) = int (length (filter (\<lambda>x. x \<noteq> None) xs)) - (if y = None then 1 else 0)"
proof (induction xs arbitrary: t)
  case (Cons x xs)
  then show ?case by (cases t) auto
qed simp

lemma thread_step_sync:
  assumes sync: "reader_sync rp" and t: "t < length (rp_threads rp)" and step: "thread_step rp t = Some rp'"
  shows "reader_sync rp' \<and> rp_parser rp' = rp_parser rp"
proof -
  have live: "rp_parser rp \<noteq> P_Absent" using sync t by (auto simp: reader_sync_def)
  obtain es where es: "rp_threads rp ! t = Some es" using step by (auto simp: thread_step_def split: option.splits)
  have mem: "rp_threads rp ! t \<in> set (rp_threads rp)" using t by simp
  have upd: "x \<in> set ((rp_threads rp)[t := y]) \<Longrightarrow> x = y \<or> x \<in> set (rp_threads rp)" for x y
    using set_update_subset_insert by fast
  show ?thesis
  proof (cases es)
    case Nil
    have "rp' = ibuf_reader_done (rp\<lparr>rp_threads := (rp_threads rp)[t := None]\<rparr>)"
      using step es Nil by (simp add: thread_step_def)
    moreover have "int (length (filter (\<lambda>x. x \<noteq> None) ((rp_threads rp)[t := None]))) =
        int (length (filter (\<lambda>x. x \<noteq> None) (rp_threads rp))) - 1"
      using count_threads_upd [OF t, of None] es by simp
    moreover have "(\<forall>x \<in> set ((rp_threads rp)[t := None]). x = None \<or> x = Some [])"
      if "rp_done rp \<or> int (length (filter (\<lambda>x. x \<noteq> None) ((rp_threads rp)[t := None]))) = 0"
      using that upd sync live by (auto simp: reader_sync_def filter_empty_conv split: parser_pc.splits)
    ultimately show ?thesis
      using sync live by (simp add: reader_sync_def ibuf_reader_done_def Let_def split: parser_pc.splits)
  next
    case (Cons e es')
    have nd: "\<not> rp_done rp" using sync live mem es Cons by (auto simp: reader_sync_def split: parser_pc.splits)
    obtain b where rp': "rp' = rp\<lparr>rp_ibuf := b, rp_threads := (rp_threads rp)[t := Some es']\<rparr>"
      using step es Cons by (auto simp: thread_step_def split: option.splits)
    show ?thesis
      using sync live nd count_threads_upd [OF t, of "Some es'"] es
      by (auto simp add: reader_sync_def rp' split: parser_pc.splits)
  qed
qed

lemma parser_step_cases:
  assumes "parser_step rp ra = Some (rp', ra')"
  obtains (eofs) "rp_parser rp = P_Pop" "rg_count (rp_ibuf rp) = 0" "rp_done rp" "rp' = rp\<lparr>rp_parser := P_Eof 0\<rparr>" "ra' = ra"
    | (take) e b pc where "rp_parser rp = P_Pop" "ring_pop (rp_ibuf rp) = Some (e, b)"
      "rp' = rp\<lparr>rp_ibuf := b, rp_parser := pc\<rparr>" "ra' = ra" "pc = P_Pop \<or> pc = P_Push e"
    | (push) e where "rp_parser rp = P_Push e" "ring_push ra e = Some ra'" "rp' = rp\<lparr>rp_parser := P_Pop\<rparr>"
    | (mark) lv ra1 where "rp_parser rp = P_Eof lv" "lv < 4" "ring_push ra (eof_entry lv) = Some ra1"
      "rp' = rp\<lparr>rp_parser := P_Eof (lv + 1)\<rparr>"
      "ra' = ra1\<lparr>eof_count_per_level := (eof_count_per_level ra1)[lv := eof_count_per_level ra1 ! lv + 1]\<rparr>"
    | (over) lv where "rp_parser rp = P_Eof lv" "4 \<le> lv" "rp' = rp\<lparr>rp_parser := P_Over\<rparr>" "ra' = ra"
proof (cases "rp_parser rp")
  case P_Pop
  show ?thesis
  proof (cases "rg_count (rp_ibuf rp) = 0")
    case True
    then show ?thesis
      using assms P_Pop eofs by (auto simp: parser_step_def ibuf_pop_def split: if_splits)
  next
    case False
    then obtain e b where "ring_pop (rp_ibuf rp) = Some (e, b)" by (auto simp: ring_pop_def)
    then show ?thesis
      using assms P_Pop False take [of e b] by (auto simp: parser_step_def ibuf_pop_def)
  qed
next
  case (P_Push e)
  then show ?thesis using assms push by (auto simp: parser_step_def region_defs split: option.splits)
next
  case (P_Eof lv)
  then show ?thesis
    using assms mark over by (auto simp: parser_step_def region_defs not_less split: option.splits if_splits)
qed (use assms in \<open>simp_all add: parser_step_def\<close>)

lemma parser_step_sync: "reader_sync rp \<Longrightarrow> parser_step rp ra = Some (rp', ra') \<Longrightarrow> reader_sync rp'"
  by (erule parser_step_cases) (auto simp: reader_sync_def)

lemma past_upd:
  assumes "r < length (p_readers s)"
  shows "(\<Sum>rp\<leftarrow>(p_readers s)[r := rp']. past lv (rp_parser rp)) + past lv (rp_parser (p_readers s ! r)) =
    (\<Sum>rp\<leftarrow>p_readers s. past lv (rp_parser rp)) + past lv (rp_parser rp')"
  by (rule sum_list_upd [OF assms])

lemma level_eof_same:
  assumes "level_eof s lv" "p_a s' = p_a s"
    "(\<Sum>rp\<leftarrow>p_readers s'. past lv (rp_parser rp)) = (\<Sum>rp\<leftarrow>p_readers s. past lv (rp_parser rp))"
    "p_levels s' ! lv = p_levels s ! lv" "p_forwarded s' ! lv = p_forwarded s ! lv"
    "disp_eof (p_disp s) lv \<longrightarrow> disp_eof (p_disp s') lv \<or> p_forwarded s ! lv \<or>
       eof_count_per_level (p_a s) ! lv < total_readers (p_a s)"
    "p_disp s' = D_Send_Eof lv \<longrightarrow> \<not> p_forwarded s ! lv \<and> total_readers (p_a s) \<le> eof_count_per_level (p_a s) ! lv"
  shows "level_eof s' lv"
  using assms unfolding level_eof_def by auto

lemma level_of_inj: "lv < 4 \<Longrightarrow> lv' < 4 \<Longrightarrow> level_of lv = level_of lv' \<Longrightarrow> lv = lv'"
  by (metis level_of_inverse less_imp_le)

lemma level_eof_thread:
  assumes inv: "level_eof s lv" and r: "r < length (p_readers s)" and same: "rp_parser rp = rp_parser (p_readers s ! r)"
  shows "level_eof (s\<lparr>p_readers := (p_readers s)[r := rp]\<rparr>) lv"
  by (rule level_eof_same [OF inv]) (use past_upd [OF r, of lv rp] inv same in \<open>auto simp: level_eof_def\<close>)

lemma level_eof_parser:
  assumes inv: "level_eof s lv" and lv: "lv < 4" and r: "r < length (p_readers s)"
    and wf: "ring_inv (p_a s)" "length (eof_count_per_level (p_a s)) = 4"
    and step: "parser_step (p_readers s ! r) (p_a s) = Some (rp, ra)"
  shows "level_eof (s\<lparr>p_readers := (p_readers s)[r := rp], p_a := ra\<rparr>) lv"
  using step
proof (cases rule: parser_step_cases)
  case eofs
  then show ?thesis
    by (intro level_eof_same [OF inv]) (use past_upd [OF r, of lv rp] inv in \<open>auto simp: level_eof_def\<close>)
next
  case (take e b pc)
  have "past lv pc = 0" using take(5) by auto
  then show ?thesis
    using take by (intro level_eof_same [OF inv]) (use past_upd [OF r, of lv rp] inv in \<open>auto simp: level_eof_def\<close>)
next
  case (push e)
  have "ring_list ra = ring_list (p_a s) @ [e]" "eof_count_per_level ra = eof_count_per_level (p_a s)"
    "total_readers ra = total_readers (p_a s)"
    using ring_push_Some [OF wf(1) push(2)] push(2) by (auto simp: ring_push_def split: if_splits)
  then show ?thesis
    using inv past_upd [OF r, of lv rp] push by (auto simp: level_eof_def marker_in_def)
next
  case (mark k ra1)
  have p: "ring_list ra1 = ring_list (p_a s) @ [eof_entry k]" "eof_count_per_level ra1 = eof_count_per_level (p_a s)"
    "total_readers ra1 = total_readers (p_a s)"
    using ring_push_Some [OF wf(1) mark(3)] mark(3) by (auto simp: ring_push_def split: if_splits)
  have m: "marker_in ra lv \<longleftrightarrow> marker_in (p_a s) lv \<or> level_of k = level_of lv"
    using p(1) mark(5) by (auto simp: marker_in_def)
  show ?thesis
  proof (cases "k = lv")
    case True
    then show ?thesis
      using inv past_upd [OF r, of lv rp] mark p m wf(2) lv by (auto simp: level_eof_def)
  next
    case False
    then have "past lv (rp_parser rp) = past lv (rp_parser (p_readers s ! r))" using mark by auto
    moreover have "eof_count_per_level ra ! lv = eof_count_per_level (p_a s) ! lv" "total_readers ra = total_readers (p_a s)"
      using mark p False by simp_all
    ultimately show ?thesis
      using inv past_upd [OF r, of lv rp] m by (auto simp: level_eof_def)
  qed
next
  case (over k)
  have "past lv (rp_parser (p_readers s ! r)) = 1" using over lv by simp
  then show ?thesis
    using over by (intro level_eof_same [OF inv]) (use past_upd [OF r, of lv rp] inv in \<open>auto simp: level_eof_def\<close>)
qed

lemma level_eof_level:
  assumes inv: "level_eof s lv" and posted: "eof_posted (lv_b l) = eof_posted (lv_b (p_levels s ! lv))"
    and workers: "\<forall>x \<in> set (lv_workers l). w_pc x \<noteq> W_Pop \<longrightarrow> eof_posted (lv_b l)"
    and ring: "set (ring_list (lv_b l)) \<subseteq> set (ring_list (lv_b (p_levels s ! lv)))" and k: "k < length (p_levels s)"
    and eq: "lv = k"
  shows "level_eof (s\<lparr>p_levels := (p_levels s)[k := l]\<rparr>) lv"
  using assms by (auto simp: level_eof_def)

lemma level_eof_other: "level_eof s lv \<Longrightarrow> lv \<noteq> k \<Longrightarrow> level_eof (s\<lparr>p_levels := (p_levels s)[k := l]\<rparr>) lv"
  unfolding level_eof_def by auto

lemma count_forwarded:
  assumes "lv < length fs" "\<not> fs ! lv"
  shows "length (filter id (fs[lv := True])) = Suc (length (filter id fs))"
  using assms
proof (induction fs arbitrary: lv)
  case (Cons f fs)
  then show ?case by (cases lv) auto
qed simp

lemma all_forwarded:
  assumes "length fs = 4" "4 \<le> length (filter id fs)"
  shows "list_all id fs"
proof -
  have "filter id fs = fs" using assms length_filter_le [of id fs] by (metis filter_id_conv le_antisym length_filter_less linorder_not_less)
  then show ?thesis by (metis filter_id_conv list_all_iff)
qed

lemma level_eof_frame [simp]:
  "level_eof (s\<lparr>p_d := d\<rparr>) lv = level_eof s lv" "level_eof (s\<lparr>p_dropped := xs\<rparr>) lv = level_eof s lv"
  "level_eof (s\<lparr>p_waiting := n\<rparr>) lv = level_eof s lv" "level_eof (s\<lparr>p_hp_over := h\<rparr>) lv = level_eof s lv"
  "level_eof (s\<lparr>p_hp_score := x\<rparr>) lv = level_eof s lv"
  by (simp_all add: level_eof_def)

lemma level_eof_disp:
  assumes "level_eof s lv"
    "disp_eof (p_disp s) lv \<longrightarrow> disp_eof pc lv \<or> p_forwarded s ! lv \<or>
       eof_count_per_level (p_a s) ! lv < total_readers (p_a s)"
    "pc = D_Send_Eof lv \<longrightarrow> \<not> p_forwarded s ! lv \<and> total_readers (p_a s) \<le> eof_count_per_level (p_a s) ! lv"
  shows "level_eof (s\<lparr>p_disp := pc\<rparr>) lv"
  by (rule level_eof_same [OF assms(1)]) (use assms in \<open>simp_all add: level_eof_def\<close>)

lemma eof_inv_disp:
  assumes inv: "eof_inv s" and l: "\<And>lv. lv < 4 \<Longrightarrow> level_eof (s\<lparr>p_disp := pc\<rparr>) lv"
    and "pc = D_Final \<or> pc = D_Over \<longrightarrow> list_all id (p_forwarded s)" "pc \<noteq> D_Over"
  shows "eof_inv (s\<lparr>p_disp := pc\<rparr>)"
  using assms by (simp add: eof_inv_def)

lemma push_frame:
  assumes "ring_push b e = Some b'"
  shows "region_b.more b' = region_b.more b \<and> eof_posted b' = eof_posted b"
  using assms by (auto simp: ring_push_def split: if_splits)

lemma eof_posted_push: "ring_push b e = Some b' \<Longrightarrow> eof_posted b' = eof_posted b"
  and eof_posted_pop: "ring_pop b = Some (e, b') \<Longrightarrow> eof_posted b' = eof_posted b"
  and dispatcher_done_push: "ring_push d e = Some d' \<Longrightarrow> dispatcher_done d' = dispatcher_done d"
  and dispatcher_done_pop: "ring_pop d = Some (e, d') \<Longrightarrow> dispatcher_done d' = dispatcher_done d"
  and eof_count_pop: "ring_pop ra = Some (e, ra') \<Longrightarrow>
    eof_count_per_level ra' = eof_count_per_level ra \<and> total_readers ra' = total_readers ra"
  by (auto simp: ring_push_def ring_pop_def split: if_splits)

lemma eof_inv_dispatcher:
  assumes inv: "eof_inv s" and wf: "pipe_wf s" and step: "dispatcher_step a x s = Some s'"
  shows "eof_inv s'"
proof -
  have lev: "lv < 4 \<Longrightarrow> level_eof s lv" for lv using inv by (simp add: eof_inv_def)
  have len: "length (p_levels s) = 4" "length (p_forwarded s) = 4" using wf by (simp_all add: pipe_wf_def)
  show ?thesis
    using step
  proof (cases rule: dispatcher_cases)
    case (pop e ra)
    have r: "ring_list (p_a s) = e # ring_list ra" using ring_pop_Some [OF _ pop(3)] wf by (simp add: pipe_wf_def)
    note c = eof_count_pop [OF pop(3)]
    have "level_eof s' lv" if lv: "lv < 4" for lv
    proof -
      have "marker_in (p_a s) lv \<longrightarrow> marker_in ra lv \<or> disp_eof (D_Got e) lv"
        using r by (auto simp: marker_in_def disp_eof_def)
      then show ?thesis using lev [OF lv] pop(1) c by (auto simp: level_eof_def pop(4) disp_eof_def)
    qed
    then show ?thesis using inv pop(1) c by (simp add: eof_inv_def pop(4))
  next
    case finish
    then have "list_all id (p_forwarded s)"
      using all_forwarded [OF len(2)] inv by (auto simp: eof_inv_def)
    then show ?thesis
      using finish lev by (auto simp: disp_eof_def intro!: eof_inv_disp [OF inv] level_eof_disp)
  next
    case (eof e)
    have "level_eof (s\<lparr>p_disp := D_Send_Eof (level_index (le_level e))\<rparr>) lv" if lv: "lv < 4" for lv
      using eof lev [OF lv] lv by (intro level_eof_disp) (auto simp: disp_eof_def)
    then show ?thesis using eof by (auto intro!: eof_inv_disp [OF inv])
  next
    case (skip e)
    have ok: "le_level e \<noteq> LV_INVALID" using wf skip(1) by (simp add: pipe_wf_def disp_ok_def)
    have "level_eof (s\<lparr>p_disp := D_Pop\<rparr>) lv" if lv: "lv < 4" for lv
      using skip ok lev [OF lv] lv by (intro level_eof_disp) (auto simp: disp_eof_def)
    then show ?thesis using skip by (auto intro!: eof_inv_disp [OF inv])
  next
    case (route_d e)
    then show ?thesis using lev by (auto simp: disp_eof_def intro!: eof_inv_disp [OF inv] level_eof_disp)
  next
    case (route_b e)
    then show ?thesis using lev by (auto simp: disp_eof_def intro!: eof_inv_disp [OF inv] level_eof_disp)
  next
    case (push_d e d)
    have "level_eof s' lv" if "lv < 4" for lv
      using level_eof_disp [of "s\<lparr>p_d := d\<rparr>" lv "D_Push_B e"] lev [OF that] push_d(1,3) by (simp add: disp_eof_def)
    then show ?thesis using inv push_d by (simp add: eof_inv_def)
  next
    case (full_d e)
    then show ?thesis using lev by (auto simp: disp_eof_def intro!: eof_inv_disp [OF inv] level_eof_disp)
  next
    case (push_b e b)
    let ?k = "level_index (le_level e)"
    have g: "good_entry e" using wf push_b(1) by (simp add: pipe_wf_def disp_ok_def)
    then have k: "?k < 4" by (simp add: good_entry_def level_index_less)
    have r: "ring_list b = ring_list (lv_b (p_levels s ! ?k)) @ [e]"
      using ring_push_Some [OF _ push_b(2)] level_ok_nth [OF wf k] by (simp add: level_ok_def)
    have "level_eof s' lv" if "lv < 4" for lv
      using lev [OF that] push_b k len eof_posted_push [OF push_b(2)] g r
      by (cases "lv = ?k") (auto simp: level_eof_def disp_eof_def upd_b_def good_entry_def)
    then show ?thesis using inv push_b by (simp add: eof_inv_def)
  next
    case (drop_b e)
    have "level_eof s' lv" if "lv < 4" for lv
      using level_eof_disp [of "s\<lparr>p_dropped := p_dropped s @ [e]\<rparr>" lv D_Pop] lev [OF that] drop_b(1,4)
      by (simp add: disp_eof_def)
    then show ?thesis using inv drop_b by (simp add: eof_inv_def)
  next
    case (send k b)
    have k: "k < 4" "eof_posted b"
      using wf send(1) send_eof_Some [OF send(2)] by (auto simp: pipe_wf_def disp_ok_def level_ok_def)
    have nf: "\<not> p_forwarded s ! k" using lev [OF k(1)] send(1) by (auto simp: level_eof_def)
    have "level_eof s' lv" if "lv < 4" for lv
      using lev [OF that] send k len
      by (cases "lv = k") (auto simp: level_eof_def disp_eof_def upd_b_def)
    moreover have "length (filter id ((p_forwarded s)[k := True])) = Suc (length (filter id (p_forwarded s)))"
      using count_forwarded [of k "p_forwarded s"] k len nf by simp
    ultimately show ?thesis using inv send by (simp add: eof_inv_def)
  next
    case (force lv b)
    then show ?thesis using inv len by (auto simp: eof_inv_def list_all_length)
  next
    case over
    have "level_eof s' lv" if "lv < 4" for lv
      using level_eof_disp [of "s\<lparr>p_d := (p_d s)\<lparr>dispatcher_done := True\<rparr>\<rparr>" lv D_Over] lev [OF that] over(1,3)
      by (simp add: disp_eof_def)
    then show ?thesis using inv over by (simp add: eof_inv_def)
  qed
qed

lemma worker_step_eof:
  assumes step: "worker_step ks level l w = Some l'" and w: "w < length (lv_workers l)" and ring: "ring_inv (lv_b l)"
    and posted: "\<forall>x \<in> set (lv_workers l). w_pc x \<noteq> W_Pop \<longrightarrow> eof_posted (lv_b l)"
    and marks: "\<forall>e \<in> set (ring_list (lv_b l)). le_is_eof e \<longrightarrow> eof_posted (lv_b l)"
  shows "eof_posted (lv_b l') = eof_posted (lv_b l) \<and>
    (\<forall>x \<in> set (lv_workers l'). w_pc x \<noteq> W_Pop \<longrightarrow> eof_posted (lv_b l')) \<and>
    set (ring_list (lv_b l')) \<subseteq> set (ring_list (lv_b l))"
proof -
  have upd: "x \<in> set ((lv_workers l)[w := y]) \<Longrightarrow> x = y \<or> x \<in> set (lv_workers l)" for x y
    using set_update_subset_insert by fast
  show ?thesis
    using step
  proof (cases rule: worker_step_cases)
    case drained
    then show ?thesis using posted upd by auto
  next
    case (eof e b)
    then show ?thesis using marks ring_pop_Some [OF ring eof(2)] eof_posted_pop [OF eof(2)] by auto
  next
    case (entry e b)
    then show ?thesis
      using posted ring_pop_Some [OF ring entry(2)] eof_posted_pop [OF entry(2)] by (auto dest!: upd)
  next
    case merge
    then have "eof_posted (lv_b l)" using posted w by (metis nth_mem worker_pc.distinct(1))
    then show ?thesis using merge by simp
  qed
qed

lemma analyzer_step_eof:
  "analyzer_step l = Some l' \<Longrightarrow> lv_b l' = lv_b l \<and> lv_workers l' = lv_workers l"
  by (auto simp: analyzer_step_def split: if_splits)

lemma eof_inv_level:
  assumes inv: "eof_inv s" and len: "length (p_levels s) = 4" and k: "k < 4"
    and posted: "eof_posted (lv_b l) = eof_posted (lv_b (p_levels s ! k))"
    and workers: "\<forall>x \<in> set (lv_workers l). w_pc x \<noteq> W_Pop \<longrightarrow> eof_posted (lv_b l)"
    and ring: "set (ring_list (lv_b l)) \<subseteq> set (ring_list (lv_b (p_levels s ! k)))"
  shows "eof_inv (s\<lparr>p_levels := (p_levels s)[k := l]\<rparr>)"
proof -
  have "level_eof (s\<lparr>p_levels := (p_levels s)[k := l]\<rparr>) lv" if "lv < 4" for lv
  proof (cases "lv = k")
    case True
    have "level_eof s lv" using inv that by (simp add: eof_inv_def)
    then show ?thesis
      using level_eof_level [of s lv l k] posted workers ring k len True by simp
  next
    case False
    then show ?thesis using inv that by (intro level_eof_other) (auto simp: eof_inv_def)
  qed
  then show ?thesis using inv by (simp add: eof_inv_def)
qed

lemma eof_inv_step:
  assumes inv: "eof_inv s" and wf: "pipe_wf s" and step: "pipe_step a s s'"
  shows "eof_inv s'"
  using step
proof cases
  case (pipe_thread r t rp)
  have "reader_sync (p_readers s ! r)" using inv pipe_thread(2) by (simp add: eof_inv_def)
  then have "reader_sync rp" "rp_parser rp = rp_parser (p_readers s ! r)"
    using thread_step_sync [OF _ pipe_thread(3,4)] by auto
  then show ?thesis
    using inv level_eof_thread [OF _ pipe_thread(2)] set_update_subset_insert
    by (fastforce simp: eof_inv_def pipe_thread(1))
next
  case (pipe_parser r rp ra)
  have "reader_sync (p_readers s ! r)" using inv pipe_parser(2) by (simp add: eof_inv_def)
  then have "reader_sync rp" using parser_step_sync [OF _ pipe_parser(3)] by simp
  moreover have "total_readers ra = total_readers (p_a s)"
    using pipe_parser(3) by (auto elim!: parser_step_cases simp: ring_push_def split: if_splits)
  moreover have "level_eof s' lv" if "lv < 4" for lv
    using inv that level_eof_parser [OF _ that pipe_parser(2) _ _ pipe_parser(3)] wf
    by (simp add: eof_inv_def pipe_wf_def pipe_parser(1))
  ultimately show ?thesis
    using inv set_update_subset_insert by (fastforce simp: eof_inv_def pipe_parser(1))
next
  case (pipe_dispatcher x)
  then show ?thesis using eof_inv_dispatcher [OF inv wf] by blast
next
  case (pipe_worker lv w l)
  have e: "level_eof s lv" using inv pipe_worker(2) by (simp add: eof_inv_def)
  have ring: "ring_inv (lv_b (p_levels s ! lv))" using level_ok_nth [OF wf pipe_worker(2)] by (simp add: level_ok_def)
  have "\<forall>x \<in> set (lv_workers (p_levels s ! lv)). w_pc x \<noteq> W_Pop \<longrightarrow> eof_posted (lv_b (p_levels s ! lv))"
    "\<forall>x \<in> set (ring_list (lv_b (p_levels s ! lv))). le_is_eof x \<longrightarrow> eof_posted (lv_b (p_levels s ! lv))"
    using e unfolding level_eof_def by blast+
  note f = worker_step_eof [OF pipe_worker(4,3) ring this]
  have "length (p_levels s) = 4" using wf by (simp add: pipe_wf_def)
  from eof_inv_level [OF inv this pipe_worker(2) f [THEN conjunct1] f [THEN conjunct2, THEN conjunct1] f [THEN conjunct2, THEN conjunct2]]
  show ?thesis by (simp add: pipe_worker(1))
next
  case (pipe_analyzer lv l)
  have e: "level_eof s lv" using inv pipe_analyzer(2) by (simp add: eof_inv_def)
  have l: "lv_b l = lv_b (p_levels s ! lv)" "lv_workers l = lv_workers (p_levels s ! lv)"
    using analyzer_step_eof [OF pipe_analyzer(3)] by auto
  have "length (p_levels s) = 4" using wf by (simp add: pipe_wf_def)
  then have "eof_inv (s\<lparr>p_levels := (p_levels s)[lv := l]\<rparr>)"
    by (rule eof_inv_level [OF inv _ pipe_analyzer(2)]) (use e in \<open>simp_all add: l level_eof_def\<close>)
  then show ?thesis by (simp add: pipe_analyzer(1))
next
  case (pipe_hp x)
  then show ?thesis
  proof (cases rule: hp_cases)
    case (1 e d)
    then show ?thesis using inv dispatcher_done_pop [OF 1(1)] by (simp add: eof_inv_def)
  next
    case 2
    then show ?thesis using inv by (simp add: eof_inv_def)
  qed
next
  case (pipe_aggregator x)
  then obtain n where "s' = s\<lparr>p_waiting := n\<rparr>" by (auto elim!: aggregator_cases)
  then show ?thesis using inv by (simp add: eof_inv_def)
qed

lemma filter_threads: "filter (\<lambda>t. t \<noteq> None) (map (\<lambda>i. Some (f i)) xs) = map (\<lambda>i. Some (f i)) xs"
  by simp

lemma eof_inv_init:
  assumes "args_wf a" "contents \<noteq> []"
  shows "eof_inv (init_pipe a contents)"
proof -
  have sync: "reader_sync (init_reader a c)" for c
  proof (cases c)
    case None
    then show ?thesis by (simp add: reader_sync_def init_reader_def Let_def)
  next
    case (Some f)
    have "read_range [] e p = []" for e p by (simp add: read_range.simps)
    then have "f = [] \<Longrightarrow> rs_pushed (reader_thread_func (Some f) rng) = []" for rng
      unfolding reader_thread_pushed by simp
    then show ?thesis
      using assms by (auto simp: Some reader_sync_def init_reader_def Let_def args_wf_def filter_threads simp del: filter_map)
  qed
  have p: "past lv (rp_parser (init_reader a c)) = 0" for lv c
    by (cases c) (simp_all add: init_reader_def Let_def)
  have "level_eof (init_pipe a contents) lv" if lv: "lv < 4" for lv
  proof -
    have lv': "lv = 0 \<or> lv = 1 \<or> lv = 2 \<or> lv = 3" using lv by auto
    then have "eof_count_per_level (p_a (init_pipe a contents)) ! lv = 0" "p_forwarded (init_pipe a contents) ! lv = False"
      by (auto simp: init_pipe_def init_region_a_def)
    moreover have "(\<Sum>rp\<leftarrow>p_readers (init_pipe a contents). past lv (rp_parser rp)) = 0"
      using p by (simp add: init_pipe_def comp_def)
    moreover have "p_levels (init_pipe a contents) ! lv = init_level a lv"
      using lv by (simp add: init_pipe_def)
    moreover have "total_readers (p_a (init_pipe a contents)) = length contents" "p_disp (init_pipe a contents) = D_Pop"
      by (simp_all add: init_pipe_def init_region_a_def)
    ultimately show ?thesis
      using assms(2) by (auto simp: level_eof_def init_level_def init_region_b_def ring_list_def disp_eof_def)
  qed
  then show ?thesis
    using sync by (auto simp: eof_inv_def) (auto simp: init_pipe_def init_region_a_def)
qed

end
