(* ===== verification/Log_End.thy ===== *)
theory Log_End
  imports Log_Results
begin

text \<open>
  Runs of the pipeline: the invariants of all reachable states, progress, the effect of an
  unreadable file, and the completeness of a run with one log file.
\<close>

section \<open>The invariant of the pipeline\<close>

definition pipe_inv :: "t_args \<Rightarrow> string option list \<Rightarrow> pipe \<Rightarrow> bool" where
  "pipe_inv a contents s \<longleftrightarrow> pipe_wf s \<and> flight s = all_entries contents \<and> scores_inv a s \<and> eof_inv s \<and>
     length (p_readers s) = length contents \<and>
     (\<forall>lv < 4. length (lv_workers (p_levels s ! lv)) = nat (worker_threads a)) \<and>
     p_waiting s \<le> 5 \<and> map (\<lambda>rp. rp_parser rp = P_Absent) (p_readers s) = map (\<lambda>c. c = None) contents"

lemma pipe_invD:
  assumes "pipe_inv a contents s"
  shows "pipe_wf s" "flight s = all_entries contents" "scores_inv a s" "eof_inv s"
    "length (p_readers s) = length contents" "length (p_levels s) = 4" "length (p_forwarded s) = 4"
    "lv < 4 \<Longrightarrow> level_eof s lv" "lv < 4 \<Longrightarrow> level_ok lv (p_levels s ! lv)"
    "lv < 4 \<Longrightarrow> length (lv_workers (p_levels s ! lv)) = nat (worker_threads a)"
    "rp \<in> set (p_readers s) \<Longrightarrow> reader_sync rp" "rp \<in> set (p_readers s) \<Longrightarrow> reader_ok rp" "ring_inv (p_a s)"
  using assms by (auto simp: pipe_inv_def eof_inv_def pipe_wf_def)

lemma pipe_inv_init:
  assumes "args_wf a" "\<And>f. Some f \<in> set contents \<Longrightarrow> lines_fit f" "contents \<noteq> []"
  shows "pipe_inv a contents (init_pipe a contents)"
  using init_pipe_wf [OF assms(1,2)] scores_inv_init [of a contents] eof_inv_init [OF assms(1,3)] assms(1)
  by (auto simp: pipe_inv_def args_wf_def)
     (auto simp: init_pipe_def init_level_def init_reader_def Let_def split: option.splits)

lemma worker_step_length: "worker_step ks level l w = Some l' \<Longrightarrow> length (lv_workers l') = length (lv_workers l)"
  by (erule worker_step_cases) auto

lemma workers_upd_b: "lv_workers (upd_b s k b ! lv) = lv_workers (p_levels s ! lv)"
proof (cases "k = lv \<and> k < length (p_levels s)")
  case False
  then show ?thesis by (cases "k = lv") (simp_all add: upd_b_def list_update_beyond not_less)
qed (simp add: upd_b_def)

lemma pipe_step_sizes:
  assumes "pipe_step a s s'" "length (p_levels s) = 4" "lv < 4"
  shows "length (p_readers s') = length (p_readers s) \<and>
    length (lv_workers (p_levels s' ! lv)) = length (lv_workers (p_levels s ! lv))"
  using assms(1)
proof cases
  case (pipe_dispatcher x)
  then show ?thesis
    by (cases rule: dispatcher_cases) (simp_all add: workers_upd_b)
next
  case (pipe_worker k w l)
  then show ?thesis using assms(2,3) worker_step_length [OF pipe_worker(4)] by (cases "k = lv") auto
next
  case (pipe_analyzer k l)
  then show ?thesis using assms(2,3) analyzer_step_eof [OF pipe_analyzer(3)] by (cases "k = lv") auto
qed (auto elim!: hp_cases aggregator_cases)

lemma pipe_step_absent:
  assumes inv: "eof_inv s" "p_waiting s \<le> 5" and step: "pipe_step a s s'"
  shows "p_waiting s' \<le> 5 \<and> map (\<lambda>rp. rp_parser rp = P_Absent) (p_readers s') = map (\<lambda>rp. rp_parser rp = P_Absent) (p_readers s)"
proof -
  have upd: "r < length (p_readers s) \<Longrightarrow> (rp_parser rp = P_Absent) = (rp_parser (p_readers s ! r) = P_Absent) \<Longrightarrow>
      map (\<lambda>rp. rp_parser rp = P_Absent) ((p_readers s)[r := rp]) = map (\<lambda>rp. rp_parser rp = P_Absent) (p_readers s)" for r rp
    by (rule nth_equalityI) (auto simp: nth_list_update)
  show ?thesis
    using step
  proof cases
    case (pipe_thread r t rp)
    have "reader_sync (p_readers s ! r)" using inv(1) pipe_thread(2) by (simp add: eof_inv_def)
    then have "rp_parser rp = rp_parser (p_readers s ! r)" using thread_step_sync [OF _ pipe_thread(3,4)] by simp
    then show ?thesis using inv(2) upd [OF pipe_thread(2)] by (simp add: pipe_thread(1))
  next
    case (pipe_parser r rp ra)
    then show ?thesis using inv(2) by (auto elim!: parser_step_cases intro!: upd)
  next
    case (pipe_dispatcher x)
    then show ?thesis by (cases rule: dispatcher_cases) (use inv(2) in simp_all)
  qed (use inv(2) in \<open>auto elim!: hp_cases aggregator_cases\<close>)
qed

lemma pipe_inv_step:
  assumes inv: "pipe_inv a contents s" and ks: "length (keyword_list a) \<le> MAX_KEYWORDS" and step: "pipe_step a s s'"
  shows "pipe_inv a contents s'"
proof -
  note wf = pipe_invD(1) [OF inv]
  have "pipe_wf s' \<and> flight s' = flight s" using pipe_step_flight [OF wf step] .
  moreover have "scores_inv a s'" using scores_inv_step [OF pipe_invD(3) [OF inv] wf ks step] .
  moreover have "eof_inv s'" using eof_inv_step [OF pipe_invD(4) [OF inv] wf step] .
  moreover have "length (p_readers s') = length contents"
    using pipe_step_sizes [OF step pipe_invD(6) [OF inv], of 0] pipe_invD(5) [OF inv] by simp
  moreover have "\<forall>lv < 4. length (lv_workers (p_levels s' ! lv)) = nat (worker_threads a)"
    using pipe_step_sizes [OF step pipe_invD(6) [OF inv]] pipe_invD(10) [OF inv] by simp
  moreover have "p_waiting s' \<le> 5 \<and> map (\<lambda>rp. rp_parser rp = P_Absent) (p_readers s') = map (\<lambda>c. c = None) contents"
    using pipe_step_absent [OF pipe_invD(4) [OF inv] _ step] inv by (simp add: pipe_inv_def)
  ultimately show ?thesis using pipe_invD(2) [OF inv] by (simp add: pipe_inv_def)
qed

lemma readers_present:
  assumes inv: "pipe_inv a contents s" and "None \<notin> set contents"
  shows "\<forall>rp \<in> set (p_readers s). rp_parser rp \<noteq> P_Absent"
proof
  fix rp assume "rp \<in> set (p_readers s)"
  then have "(rp_parser rp = P_Absent) \<in> set (map (\<lambda>rp. rp_parser rp = P_Absent) (p_readers s))" by simp
  moreover have "map (\<lambda>rp. rp_parser rp = P_Absent) (p_readers s) = map (\<lambda>c. c = None) contents"
    using inv by (simp add: pipe_inv_def)
  ultimately have "(rp_parser rp = P_Absent) \<in> set (map (\<lambda>c. c = None) contents)" by metis
  then show "rp_parser rp \<noteq> P_Absent" using assms(2) by auto
qed

interpretation pipe_sys: invariant_system "pipe_reach a" "pipe_step a"
    "\<lambda>s. pipe_inv a contents s \<and> length (keyword_list a) \<le> MAX_KEYWORDS"
  for a contents
  by unfold_locales (auto intro: pipe_reach_steps pipe_inv_step)

lemma pipe_inv_reach: "pipe_reach a s0 s \<Longrightarrow> pipe_inv a contents s0 \<Longrightarrow> length (keyword_list a) \<le> MAX_KEYWORDS \<Longrightarrow>
    pipe_inv a contents s"
  using pipe_sys.reach_keeps by blast

lemma reach_inv:
  assumes "args_wf a" "\<And>f. Some f \<in> set contents \<Longrightarrow> lines_fit f" "contents \<noteq> []"
    "pipe_reach a (init_pipe a contents) s"
  shows "pipe_inv a contents s"
  using pipe_inv_reach [OF assms(4) pipe_inv_init [OF assms(1-3)]] assms(1) by (simp add: args_wf_def)

section \<open>Progress\<close>

definition pipe_over :: "pipe \<Rightarrow> bool" where
  "pipe_over s \<longleftrightarrow>
     list_all (\<lambda>rp. rp_parser rp = P_Over \<and> list_all (\<lambda>t. t = None) (rp_threads rp)) (p_readers s) \<and>
     p_disp s = D_Over \<and>
     list_all (\<lambda>l. lv_posted l \<and> list_all (\<lambda>x. w_pc x = W_Over) (lv_workers l)) (p_levels s) \<and>
     p_hp_over s \<and> p_waiting s = 5"

lemma ring_push_room: "ring_inv b \<Longrightarrow> rg_count b < rg_capacity b \<Longrightarrow> \<exists>b'. ring_push b e = Some b'"
  by (simp add: ring_push_def)

lemma ring_push_full: "ring_inv b \<Longrightarrow> ring_push b e = None \<Longrightarrow> 0 < rg_count b"
  by (auto simp: ring_push_def ring_inv_def split: if_splits)

lemma reader_moves:
  assumes inv: "pipe_inv a contents s" and r: "r < length (p_readers s)"
    and live: "rp_parser (p_readers s ! r) \<noteq> P_Absent"
    and not_over: "\<not> (rp_parser (p_readers s ! r) = P_Over \<and> list_all (\<lambda>t. t = None) (rp_threads (p_readers s ! r)))"
    and room: "rg_count (p_a s) < rg_capacity (p_a s) \<or> (\<exists>k\<ge>4. rp_parser (p_readers s ! r) = P_Eof k) \<or>
        rp_parser (p_readers s ! r) = P_Over"
  shows "\<exists>s'. pipe_step a s s'"
proof -
  let ?rp = "p_readers s ! r"
  have sync: "reader_sync ?rp" and ring: "ring_inv (rp_ibuf ?rp)"
    using pipe_invD(11,12) [OF inv nth_mem [OF r]] by (auto simp: reader_ok_def)
  have parser: "parser_step ?rp (p_a s) \<noteq> None \<Longrightarrow> ?thesis"
    using pipe_parser [OF r] by fast
  have thread: "t < length (rp_threads ?rp) \<Longrightarrow> thread_step ?rp t \<noteq> None \<Longrightarrow> ?thesis" for t
    using pipe_thread [OF r] by fast
  have take: "rp_parser ?rp = P_Pop \<Longrightarrow> 0 < rg_count (rp_ibuf ?rp) \<Longrightarrow> parser_step ?rp (p_a s) \<noteq> None"
    by (auto simp: parser_step_def ibuf_pop_def ring_pop_def)
  have push: "(\<exists>e. rp_parser ?rp = P_Push e) \<or> (\<exists>k. rp_parser ?rp = P_Eof k) \<Longrightarrow> parser_step ?rp (p_a s) \<noteq> None"
    using room by (auto simp: parser_step_def region_defs ring_push_def)
  show ?thesis
  proof (cases "\<exists>t < length (rp_threads ?rp). rp_threads ?rp ! t \<noteq> None")
    case True
    then obtain t es where t: "t < length (rp_threads ?rp)" "rp_threads ?rp ! t = Some es" by auto
    show ?thesis
    proof (cases "thread_step ?rp t")
      case (Some rp')
      then show ?thesis using thread t by blast
    next
      case None
      then have full: "ring_push (rp_ibuf ?rp) (hd es) = None" "es \<noteq> []"
        using t by (cases es; auto simp: thread_step_def ibuf_push_def ring_push_def split: option.splits if_splits)+
      then have n: "0 < rg_count (rp_ibuf ?rp)" using ring_push_full [OF ring] by blast
      have "\<not> rp_done ?rp"
        using sync live nth_mem [OF t(1)] t(2) full(2) by (auto simp: reader_sync_def split: parser_pc.splits)
      then have "rp_parser ?rp = P_Pop \<or> (\<exists>e. rp_parser ?rp = P_Push e)"
        using sync live by (auto simp: reader_sync_def split: parser_pc.splits)
      then show ?thesis using take [OF _ n] push parser by blast
    qed
  next
    case False
    then have none: "\<forall>t \<in> set (rp_threads ?rp). t = None" by (metis in_set_conv_nth)
    then have "filter (\<lambda>t. t \<noteq> None) (rp_threads ?rp) = []" by (simp add: filter_empty_conv)
    then have "rp_done ?rp" using sync live by (auto simp: reader_sync_def split: parser_pc.splits)
    then have "rp_parser ?rp = P_Pop \<Longrightarrow> parser_step ?rp (p_a s) \<noteq> None"
      by (auto simp: parser_step_def ibuf_pop_def ring_pop_def)
    moreover have "rp_parser ?rp \<noteq> P_Over" using none not_over by (auto simp: list_all_iff)
    ultimately show ?thesis using push parser live by (cases "rp_parser ?rp") blast+
  qed
qed

lemma level_moves:
  assumes inv: "pipe_inv a contents s" and lv: "lv < 4" and posted: "p_forwarded s ! lv"
    and not_over: "\<not> (lv_posted (p_levels s ! lv) \<and> list_all (\<lambda>x. w_pc x = W_Over) (lv_workers (p_levels s ! lv)))"
  shows "\<exists>s'. pipe_step a s s'"
proof -
  let ?l = "p_levels s ! lv"
  have eof: "eof_posted (lv_b ?l)" using pipe_invD(8) [OF inv lv] posted by (auto simp: level_eof_def)
  have step: "w < length (lv_workers ?l) \<Longrightarrow> worker_step (keyword_list a) (level_of lv) ?l w \<noteq> None \<Longrightarrow> ?thesis" for w
    using pipe_worker [OF lv] by fast
  show ?thesis
  proof (cases "list_all (\<lambda>x. w_pc x = W_Over) (lv_workers ?l)")
    case True
    then have "analyzer_step ?l \<noteq> None" using not_over by (simp add: analyzer_step_def)
    then show ?thesis using pipe_analyzer [OF lv] by fast
  next
    case False
    then obtain w where w: "w < length (lv_workers ?l)" "w_pc (lv_workers ?l ! w) \<noteq> W_Over" by (auto simp: list_all_length)
    show ?thesis
    proof (cases "\<exists>v < length (lv_workers ?l). w_pc (lv_workers ?l ! v) = W_Pop")
      case True
      then obtain v where v: "v < length (lv_workers ?l)" "w_pc (lv_workers ?l ! v) = W_Pop" by blast
      then have "worker_step (keyword_list a) (level_of lv) ?l v \<noteq> None"
        using eof by (auto simp: worker_step_def Let_def region_defs ring_pop_def)
      then show ?thesis using step v(1) by blast
    next
      case False
      then have "list_all (\<lambda>x. w_pc x \<noteq> W_Pop) (lv_workers ?l)" by (auto simp: list_all_length)
      moreover have "w_pc (lv_workers ?l ! w) = W_Barrier"
        using False w by (cases "w_pc (lv_workers ?l ! w)") auto
      ultimately have "worker_step (keyword_list a) (level_of lv) ?l w \<noteq> None"
        by (simp add: worker_step_def Let_def)
      then show ?thesis using step w(1) by blast
    qed
  qed
qed

lemma absent_only: "reader_sync rp \<Longrightarrow> past lv (rp_parser rp) \<le> 1"
  by (cases "rp_parser rp") auto

text \<open>Once a level is forwarded, every reader has posted its marker for it.\<close>

lemma sum_list_ones:
  fixes f :: "'a \<Rightarrow> nat"
  shows "(\<And>x. x \<in> set xs \<Longrightarrow> f x \<le> 1) \<Longrightarrow> length xs \<le> (\<Sum>x\<leftarrow>xs. f x) \<Longrightarrow> x \<in> set xs \<Longrightarrow> f x = 1"
proof (induction xs)
  case (Cons y ys)
  have "f y \<le> 1" using Cons.prems by simp
  moreover have "(\<Sum>x\<leftarrow>ys. f x) \<le> length ys"
    using sum_list_mono [of ys f "\<lambda>_. 1"] Cons.prems(1) by (simp add: sum_list_triv)
  ultimately show ?case using Cons.IH Cons.prems by (cases "x = y") fastforce+
qed simp

lemma forwarded_past:
  assumes inv: "pipe_inv a contents s" and lv: "lv < 4" and posted: "p_forwarded s ! lv"
    and rp: "rp \<in> set (p_readers s)"
  shows "past lv (rp_parser rp) = 1"
proof (rule sum_list_ones [of "p_readers s"])
  show "length (p_readers s) \<le> (\<Sum>rp\<leftarrow>p_readers s. past lv (rp_parser rp))"
    using pipe_invD(4) [OF inv] pipe_invD(8) [OF inv lv] posted by (auto simp: level_eof_def eof_inv_def)
qed (use absent_only pipe_invD(11) [OF inv] rp in blast)+

lemma dispatcher_moves:
  assumes inv: "pipe_inv a contents s" and w: "1 \<le> worker_threads a" and not_over: "p_disp s \<noteq> D_Over"
    and ready: "0 < rg_count (p_a s) \<or> (\<forall>rp \<in> set (p_readers s). rp_parser rp = P_Over)"
  shows "\<exists>s'. pipe_step a s s'"
proof -
  have step: "dispatcher_step a True s \<noteq> None \<Longrightarrow> ?thesis" using pipe_dispatcher by fast
  show ?thesis
  proof (cases "p_disp s")
    case D_Pop
    show ?thesis
    proof (cases "0 < rg_count (p_a s)")
      case True
      then have "dispatcher_step a True s \<noteq> None"
        using D_Pop by (simp add: dispatcher_step_def region_defs ring_pop_def)
      then show ?thesis by (rule step)
    next
      case False
      then have over: "\<forall>rp \<in> set (p_readers s). rp_parser rp = P_Over" and empty: "ring_list (p_a s) = []"
        using ready by (auto simp: ring_list_def)
      have "p_forwarded s ! lv" if lv: "lv < 4" for lv
      proof -
        have "(\<Sum>rp\<leftarrow>p_readers s. past lv (rp_parser rp)) = (\<Sum>rp\<leftarrow>p_readers s. 1)"
          using over by (intro arg_cong [of _ _ sum_list] map_cong) auto
        then have "total_readers (p_a s) \<le> eof_count_per_level (p_a s) ! lv"
          using pipe_invD(4) [OF inv] pipe_invD(8) [OF inv lv] by (simp add: level_eof_def eof_inv_def sum_list_triv)
        then show ?thesis
          using pipe_invD(8) [OF inv lv] D_Pop empty unfolding level_eof_def by (auto simp: marker_in_def disp_eof_def)
      qed
      then have "list_all id (p_forwarded s)" using pipe_invD(7) [OF inv] by (simp add: list_all_length)
      then have "dispatcher_step a True s \<noteq> None"
        using D_Pop False by (auto simp: dispatcher_step_def region_defs ring_pop_def)
      then show ?thesis by (rule step)
    qed
  next
    case (D_Got e)
    then show ?thesis by (intro step) (simp add: dispatcher_step_def Let_def)
  next
    case (D_Push_D e)
    then show ?thesis by (intro step) (auto simp: dispatcher_step_def split: option.splits)
  next
    case (D_Push_B e)
    then show ?thesis by (intro step) (auto simp: dispatcher_step_def Let_def split: option.splits)
  next
    case D_Final
    then have "list_all id (p_forwarded s)" using pipe_invD(4) [OF inv] by (simp add: eof_inv_def)
    then have "find (\<lambda>lv. \<not> p_forwarded s ! lv) [0..<4] = None"
      using pipe_invD(7) [OF inv] by (auto simp: find_None_iff list_all_length)
    then show ?thesis using D_Final by (intro step) (simp add: dispatcher_step_def)
  next
    case (D_Send_Eof lv)
    have lv: "lv < 4" using pipe_invD(1) [OF inv] D_Send_Eof by (simp add: pipe_wf_def disp_ok_def)
    let ?l = "p_levels s ! lv"
    have ring: "ring_inv (lv_b ?l)" using pipe_invD(9) [OF inv lv] by (simp add: level_ok_def)
    show ?thesis
    proof (cases "ring_push (lv_b ?l) (eof_entry 0)")
      case (Some b)
      then show ?thesis using D_Send_Eof by (intro step) (simp add: dispatcher_step_def send_eof_to_region_b_def region_defs)
    next
      case None
      have "\<not> eof_posted (lv_b ?l)" using pipe_invD(8) [OF inv lv] D_Send_Eof by (auto simp: level_eof_def)
      moreover have w0: "0 < length (lv_workers ?l)" using pipe_invD(10) [OF inv lv] w by simp
      ultimately have "w_pc (lv_workers ?l ! 0) = W_Pop"
        using pipe_invD(8) [OF inv lv] nth_mem [OF w0] unfolding level_eof_def by blast
      then have "worker_step (keyword_list a) (level_of lv) ?l 0 \<noteq> None"
        using ring_push_full [OF ring None] by (simp add: worker_step_def Let_def region_defs ring_pop_def)
      then show ?thesis using pipe_worker [OF lv w0] by fast
    qed
  next
    case D_Over
    then show ?thesis using not_over by simp
  qed
qed

lemma pipe_progress:
  assumes inv: "pipe_inv a contents s" and w: "1 \<le> worker_threads a"
    and present: "\<forall>rp \<in> set (p_readers s). rp_parser rp \<noteq> P_Absent" and not_over: "\<not> pipe_over s"
  shows "\<exists>s'. pipe_step a s s'"
proof (cases "p_disp s = D_Over")
  case False
  show ?thesis
  proof (cases "0 < rg_count (p_a s) \<or> (\<forall>rp \<in> set (p_readers s). rp_parser rp = P_Over)")
    case True
    then show ?thesis using dispatcher_moves [OF inv w False] by blast
  next
    case no: False
    then obtain r where r: "r < length (p_readers s)" "rp_parser (p_readers s ! r) \<noteq> P_Over" by (auto simp: in_set_conv_nth)
    have "rg_count (p_a s) < rg_capacity (p_a s)" using no pipe_invD(13) [OF inv] by (auto simp: ring_inv_def)
    then show ?thesis using reader_moves [OF inv r(1)] present nth_mem [OF r(1)] r(2) by blast
  qed
next
  case True
  then have all: "list_all id (p_forwarded s)" using pipe_invD(4) [OF inv] by (simp add: eof_inv_def)
  then have fwd: "p_forwarded s ! lv" if "lv < 4" for lv using that pipe_invD(7) [OF inv] by (simp add: list_all_length)
  show ?thesis
  proof (cases "list_all (\<lambda>rp. rp_parser rp = P_Over \<and> list_all (\<lambda>t. t = None) (rp_threads rp)) (p_readers s)")
    case False
    then obtain r where r: "r < length (p_readers s)"
        "\<not> (rp_parser (p_readers s ! r) = P_Over \<and> list_all (\<lambda>t. t = None) (rp_threads (p_readers s ! r)))"
      by (auto simp: list_all_length)
    have "past 3 (rp_parser (p_readers s ! r)) = 1" using forwarded_past [OF inv _ fwd nth_mem [OF r(1)]] by simp
    then have "(\<exists>k\<ge>4. rp_parser (p_readers s ! r) = P_Eof k) \<or> rp_parser (p_readers s ! r) = P_Over"
      by (cases "rp_parser (p_readers s ! r)") (auto split: if_splits)
    then show ?thesis using reader_moves [OF inv r(1) _ r(2)] present nth_mem [OF r(1)] by blast
  next
    case readers: True
    show ?thesis
    proof (cases "list_all (\<lambda>l. lv_posted l \<and> list_all (\<lambda>x. w_pc x = W_Over) (lv_workers l)) (p_levels s)")
      case False
      then obtain lv where "lv < 4" "\<not> (lv_posted (p_levels s ! lv) \<and> list_all (\<lambda>x. w_pc x = W_Over) (lv_workers (p_levels s ! lv)))"
        using pipe_invD(6) [OF inv] by (auto simp: list_all_length)
      then show ?thesis using level_moves [OF inv _ fwd] by blast
    next
      case levels: True
      show ?thesis
      proof (cases "p_hp_over s")
        case False
        then have "hp_step a True s \<noteq> None" by (auto simp: hp_step_def split: option.splits)
        then show ?thesis using pipe_hp by fast
      next
        case True
        then have "p_waiting s \<noteq> 5" using not_over readers levels \<open>p_disp s = D_Over\<close> by (simp add: pipe_over_def)
        moreover have "p_waiting s \<le> 5" using inv by (simp add: pipe_inv_def)
        ultimately have "aggregator_step True s \<noteq> None" using True by (auto simp: aggregator_step_def)
        then show ?thesis using pipe_aggregator by fast
      qed
    qed
  qed
qed

section \<open>A log file that cannot be read\<close>

lemma absent_stuck:
  assumes inv: "pipe_inv a contents s" and none: "None \<in> set contents" and lv: "lv < 4"
  shows "\<not> p_forwarded s ! lv"
proof
  assume posted: "p_forwarded s ! lv"
  have "True \<in> set (map (\<lambda>rp. rp_parser rp = P_Absent) (p_readers s))"
    using inv none by (force simp: pipe_inv_def)
  then obtain rp where rp: "rp \<in> set (p_readers s)" "rp_parser rp = P_Absent" by auto
  then show False using forwarded_past [OF inv lv posted rp(1)] by simp
qed

lemma absent_no_result:
  assumes inv: "pipe_inv a contents s" and none: "None \<in> set contents" and lv: "lv < 4" and w: "1 \<le> worker_threads a"
  shows "\<not> lv_posted (p_levels s ! lv)"
proof
  assume p: "lv_posted (p_levels s ! lv)"
  have w0: "0 < length (lv_workers (p_levels s ! lv))" using pipe_invD(10) [OF inv lv] w by simp
  then have "w_pc (lv_workers (p_levels s ! lv) ! 0) = W_Over"
    using pipe_invD(3) [OF inv] lv p by (auto simp: scores_inv_def list_all_length)
  then have "eof_posted (lv_b (p_levels s ! lv))"
    using pipe_invD(8) [OF inv lv] nth_mem [OF w0] unfolding level_eof_def by (metis worker_pc.distinct(3))
  then show False using pipe_invD(8) [OF inv lv] absent_stuck [OF inv none lv] by (auto simp: level_eof_def)
qed

section \<open>One log file\<close>

text \<open>With one reader the markers follow all entries in region A and in region B.\<close>

definition eof_pending :: "dispatcher_pc \<Rightarrow> bool" where
  "eof_pending pc \<longleftrightarrow> (\<exists>e. pc = D_Got e \<and> le_is_eof e) \<or> (\<exists>lv. pc = D_Send_Eof lv)"

definition single_level :: "level_state \<Rightarrow> bool" where
  "single_level l \<longleftrightarrow>
     (eof_posted (lv_b l) \<longrightarrow> ring_list (lv_b l) = [] \<or> le_is_eof (last (ring_list (lv_b l)))) \<and>
     (\<forall>e \<in> set (butlast (ring_list (lv_b l))). \<not> le_is_eof e) \<and>
     (\<forall>x \<in> set (lv_workers l). w_pc x \<noteq> W_Pop \<longrightarrow> eof_posted (lv_b l) \<and> ring_list (lv_b l) = [])"

definition single_inv :: "pipe \<Rightarrow> bool" where
  "single_inv s \<longleftrightarrow>
     (\<exists>es fs. ring_list (p_a s) = es @ fs \<and> (\<forall>e \<in> set es. \<not> le_is_eof e) \<and> (\<forall>e \<in> set fs. le_is_eof e) \<and>
        (fs \<noteq> [] \<or> eof_pending (p_disp s) \<or> (\<exists>lv < 4. p_forwarded s ! lv) \<longrightarrow>
           (\<Sum>rp\<leftarrow>p_readers s. reader_flight rp) = {#}) \<and>
        (eof_pending (p_disp s) \<or> (\<exists>lv < 4. p_forwarded s ! lv) \<longrightarrow> es = [] \<and> disp_held (p_disp s) = {#})) \<and>
     (\<forall>lv < 4. single_level (p_levels s ! lv))"

definition upstream_done :: "pipe \<Rightarrow> bool" where
  "upstream_done s \<longleftrightarrow> (\<exists>lv < 4. p_forwarded s ! lv)"

lemma single_inv_intro:
  assumes "ring_list (p_a s) = es @ fs" "\<forall>e \<in> set es. \<not> le_is_eof e" "\<forall>e \<in> set fs. le_is_eof e"
    "fs \<noteq> [] \<or> eof_pending (p_disp s) \<or> (\<exists>lv < 4. p_forwarded s ! lv) \<Longrightarrow> (\<Sum>rp\<leftarrow>p_readers s. reader_flight rp) = {#}"
    "eof_pending (p_disp s) \<or> (\<exists>lv < 4. p_forwarded s ! lv) \<Longrightarrow> es = [] \<and> disp_held (p_disp s) = {#}"
    "\<And>lv. lv < 4 \<Longrightarrow> single_level (p_levels s ! lv)"
  shows "single_inv s"
  using assms unfolding single_inv_def by blast

lemma single_inv_elim:
  assumes "single_inv s"
  obtains es fs where "ring_list (p_a s) = es @ fs" "\<forall>e \<in> set es. \<not> le_is_eof e" "\<forall>e \<in> set fs. le_is_eof e"
    "fs \<noteq> [] \<or> eof_pending (p_disp s) \<or> (\<exists>lv < 4. p_forwarded s ! lv) \<Longrightarrow> (\<Sum>rp\<leftarrow>p_readers s. reader_flight rp) = {#}"
    "eof_pending (p_disp s) \<or> (\<exists>lv < 4. p_forwarded s ! lv) \<Longrightarrow> es = [] \<and> disp_held (p_disp s) = {#}"
    "\<And>lv. lv < 4 \<Longrightarrow> single_level (p_levels s ! lv)"
  using assms unfolding single_inv_def by blast

lemma single_level_fresh:
  assumes "level_eof s lv" "\<not> p_forwarded s ! lv"
  shows "\<forall>e \<in> set (ring_list (lv_b (p_levels s ! lv))). \<not> le_is_eof e"
    "\<forall>x \<in> set (lv_workers (p_levels s ! lv)). w_pc x = W_Pop" "\<not> eof_posted (lv_b (p_levels s ! lv))"
  using assms by (auto simp: level_eof_def)

lemma single_level_worker:
  assumes l: "single_level l" and ring: "ring_inv (lv_b l)" and step: "worker_step ks level l w = Some l'"
    and w: "w < length (lv_workers l)" and marks: "\<forall>e \<in> set (ring_list (lv_b l)). le_is_eof e \<longrightarrow> eof_posted (lv_b l)"
  shows "single_level l'"
proof -
  have upd: "x \<in> set ((lv_workers l)[w := y]) \<Longrightarrow> x = y \<or> x \<in> set (lv_workers l)" for x y
    using set_update_subset_insert by fast
  show ?thesis
    using step
  proof (cases rule: worker_step_cases)
    case drained
    moreover from this have "ring_list (lv_b l) = []" by (simp add: ring_list_def)
    ultimately show ?thesis using l upd by (auto simp: single_level_def)
  next
    case (eof e b)
    have r: "ring_list (lv_b l) = e # ring_list b" using ring_pop_Some [OF ring eof(2)] by simp
    have "ring_list b = []"
      using l eof(3) r by (cases "ring_list b") (auto simp: single_level_def)
    moreover have "eof_posted b" using marks r eof(3) eof_posted_pop [OF eof(2)] by simp
    ultimately show ?thesis by (simp add: single_level_def eof(4))
  next
    case (entry e b)
    have r: "ring_list (lv_b l) = e # ring_list b" using ring_pop_Some [OF ring entry(2)] by simp
    then have pop: "\<forall>x \<in> set (lv_workers l). w_pc x = W_Pop" using l by (auto simp: single_level_def)
    have "w_pc x = W_Pop" if "x \<in> set (lv_workers l')" for x using that pop entry(1,4) by (auto dest!: upd)
    moreover have "\<forall>x \<in> set (butlast (ring_list b)). \<not> le_is_eof x"
      using l r by (cases "ring_list b") (auto simp: single_level_def)
    moreover have "eof_posted b \<longrightarrow> ring_list b = [] \<or> le_is_eof (last (ring_list b))"
      using l r eof_posted_pop [OF entry(2)] by (cases "ring_list b") (auto simp: single_level_def)
    ultimately show ?thesis by (simp add: single_level_def entry(4))
  next
    case merge
    then have "eof_posted (lv_b l) \<and> ring_list (lv_b l) = []"
      using l nth_mem [OF w] by (auto simp: single_level_def)
    then show ?thesis by (simp add: single_level_def merge(3))
  qed
qed

lemma single_upd_b:
  assumes "\<And>k. k < 4 \<Longrightarrow> single_level (p_levels s ! k)" "length (p_levels s) = 4" "lv < 4"
    "single_level ((p_levels s ! lv)\<lparr>lv_b := b\<rparr>)" "k < 4"
  shows "single_level (upd_b s lv b ! k)"
  using assms by (cases "k = lv") (simp_all add: upd_b_def)

lemma single_inv_dispatcher:
  assumes inv: "pipe_inv a contents s" and single: "single_inv s" and step: "dispatcher_step a x s = Some s'"
  shows "single_inv s'"
proof (rule single_inv_elim [OF single])
  fix es fs
  assume A: "ring_list (p_a s) = es @ fs" "\<forall>e \<in> set es. \<not> le_is_eof e" "\<forall>e \<in> set fs. le_is_eof e"
    and up: "fs \<noteq> [] \<or> eof_pending (p_disp s) \<or> (\<exists>lv < 4. p_forwarded s ! lv) \<Longrightarrow> (\<Sum>rp\<leftarrow>p_readers s. reader_flight rp) = {#}"
    and held: "eof_pending (p_disp s) \<or> (\<exists>lv < 4. p_forwarded s ! lv) \<Longrightarrow> es = [] \<and> disp_held (p_disp s) = {#}"
    and lev: "\<And>lv. lv < 4 \<Longrightarrow> single_level (p_levels s ! lv)"
  have len: "length (p_levels s) = 4" "length (p_forwarded s) = 4" using pipe_invD(6,7) [OF inv] by auto
  have disp: "single_inv (s\<lparr>p_disp := pc\<rparr>)"
    if "eof_pending pc \<longrightarrow> eof_pending (p_disp s)" "disp_held pc = disp_held (p_disp s)" for pc
    by (rule single_inv_intro [of _ es fs]) (use A up held lev that in auto)
  show ?thesis
    using step
  proof (cases rule: dispatcher_cases)
    case (pop e ra)
    have r: "ring_list (p_a s) = e # ring_list ra" using ring_pop_Some [OF pipe_invD(13) [OF inv] pop(3)] by simp
    show ?thesis
    proof (cases es)
      case Nil
      then have "fs = e # ring_list ra" using A(1) r by simp
      then show ?thesis
        using A up lev by (intro single_inv_intro [of _ "[]" "ring_list ra"]) (auto simp: pop(4) eof_pending_def)
    next
      case (Cons e' es')
      then have "e' = e" "ring_list ra = es' @ fs" using A(1) r by auto
      moreover have "\<not> (\<exists>lv < 4. p_forwarded s ! lv)" using held Cons by auto
      ultimately show ?thesis
        using A up lev Cons by (intro single_inv_intro [of _ es' fs]) (auto simp: pop(4) eof_pending_def)
    qed
  next
    case finish
    then show ?thesis using disp [of D_Final] by (simp add: eof_pending_def)
  next
    case (eof e)
    then show ?thesis using disp [of "D_Send_Eof (level_index (le_level e))"] by (simp add: eof_pending_def)
  next
    case (skip e)
    moreover have "le_level e \<noteq> LV_INVALID" using pipe_invD(1) [OF inv] skip(1) by (simp add: pipe_wf_def disp_ok_def)
    ultimately show ?thesis using disp [of D_Pop] by (auto simp: eof_pending_def)
  next
    case (route_d e)
    then show ?thesis using disp [of "D_Push_D e"] by (simp add: eof_pending_def)
  next
    case (route_b e)
    then show ?thesis using disp [of "D_Push_B e"] by (simp add: eof_pending_def)
  next
    case (full_d e)
    then show ?thesis using disp [of "D_Push_B e"] by (simp add: eof_pending_def)
  next
    case (push_d e d)
    then show ?thesis using A up held lev by (intro single_inv_intro [of _ es fs]) (auto simp: eof_pending_def)
  next
    case (drop_b e)
    then show ?thesis using A up held lev by (intro single_inv_intro [of _ es fs]) (auto simp: eof_pending_def)
  next
    case (send lv b)
    have lv: "lv < 4" using pipe_invD(1) [OF inv] send(1) by (simp add: pipe_wf_def disp_ok_def)
    have nf: "\<not> p_forwarded s ! lv" using pipe_invD(8) [OF inv lv] send(1) by (auto simp: level_eof_def)
    note f = single_level_fresh [OF pipe_invD(8) [OF inv lv] nf]
    have "ring_list b = ring_list (lv_b (p_levels s ! lv)) @ [eof_entry 0]" "eof_posted b"
      using send_eof_Some [OF send(2)] pipe_invD(9) [OF inv lv] by (auto simp: level_ok_def)
    then have "single_level ((p_levels s ! lv)\<lparr>lv_b := b\<rparr>)" using f by (simp add: single_level_def)
    then have "\<And>k. k < 4 \<Longrightarrow> single_level (upd_b s lv b ! k)" using single_upd_b [OF lev len(1) lv] by blast
    moreover have "eof_pending (p_disp s)" using send(1) by (simp add: eof_pending_def)
    ultimately show ?thesis
      using A up held send(3) by (intro single_inv_intro [of _ es fs]) auto
  next
    case (push_b e b)
    let ?k = "level_index (le_level e)"
    have g: "good_entry e" using pipe_invD(1) [OF inv] push_b(1) by (simp add: pipe_wf_def disp_ok_def)
    then have k: "?k < 4" by (simp add: good_entry_def level_index_less)
    have nf: "\<not> (\<exists>lv < 4. p_forwarded s ! lv)" using held push_b(1) by auto
    then have nfk: "\<not> p_forwarded s ! ?k" using k by blast
    note f = single_level_fresh [OF pipe_invD(8) [OF inv k] nfk]
    have "ring_list b = ring_list (lv_b (p_levels s ! ?k)) @ [e]"
      using ring_push_Some [OF _ push_b(2)] pipe_invD(9) [OF inv k] by (simp add: level_ok_def)
    then have "single_level ((p_levels s ! ?k)\<lparr>lv_b := b\<rparr>)"
      using f eof_posted_push [OF push_b(2)] g by (auto simp: single_level_def good_entry_def)
    then have "\<And>k'. k' < 4 \<Longrightarrow> single_level (upd_b s ?k b ! k')" using single_upd_b [OF lev len(1) k] by blast
    then show ?thesis
      using A up nf push_b(1,3) by (intro single_inv_intro [of _ es fs]) (auto simp: eof_pending_def)
  next
    case (force lv b)
    then show ?thesis using pipe_invD(4) [OF inv] len by (simp add: eof_inv_def list_all_length)
  next
    case over
    then show ?thesis using A up held lev by (intro single_inv_intro [of _ es fs]) (auto simp: eof_pending_def)
  qed
qed

lemma single_inv_level:
  assumes single: "single_inv s" and lv: "lv < 4" and l: "single_level l" and len: "length (p_levels s) = 4"
  shows "single_inv (s\<lparr>p_levels := (p_levels s)[lv := l]\<rparr>)"
proof (rule single_inv_elim [OF single])
  fix es fs
  assume A: "ring_list (p_a s) = es @ fs" "\<forall>e \<in> set es. \<not> le_is_eof e" "\<forall>e \<in> set fs. le_is_eof e"
    and up: "fs \<noteq> [] \<or> eof_pending (p_disp s) \<or> (\<exists>lv < 4. p_forwarded s ! lv) \<Longrightarrow> (\<Sum>rp\<leftarrow>p_readers s. reader_flight rp) = {#}"
    and held: "eof_pending (p_disp s) \<or> (\<exists>lv < 4. p_forwarded s ! lv) \<Longrightarrow> es = [] \<and> disp_held (p_disp s) = {#}"
    and lev: "\<And>lv. lv < 4 \<Longrightarrow> single_level (p_levels s ! lv)"
  have "single_level ((p_levels s)[lv := l] ! k)" if "k < 4" for k
    using lev [OF that] l lv len by (cases "k = lv") auto
  then show ?thesis using A up held by (intro single_inv_intro [of _ es fs]) auto
qed

lemma single_inv_readers:
  assumes single: "single_inv s" and same: "(\<Sum>rp\<leftarrow>rps. reader_flight rp) = (\<Sum>rp\<leftarrow>p_readers s. reader_flight rp)"
    and ra: "ring_list ra = ring_list (p_a s)"
  shows "single_inv (s\<lparr>p_readers := rps, p_a := ra\<rparr>)"
  by (rule single_inv_elim [OF single], rule single_inv_intro) (use same ra in auto)

lemma single_inv_parser:
  assumes inv: "pipe_inv a contents s" and single: "single_inv s" and one: "p_readers s = [rp]"
    and step: "parser_step rp (p_a s) = Some (rp', ra)"
  shows "single_inv (s\<lparr>p_readers := [rp'], p_a := ra\<rparr>)"
proof -
  have rp: "reader_ok rp" "reader_sync rp" using pipe_invD(11,12) [OF inv] one by auto
  have "reader_flight rp' + entries (ring_list ra) = reader_flight rp + entries (ring_list (p_a s))"
    using parser_step_flight [OF rp(1) pipe_invD(13) [OF inv] _ _ step] pipe_invD(1) [OF inv] by (simp add: pipe_wf_def)
  then have same: "ring_list ra = ring_list (p_a s) \<Longrightarrow> reader_flight rp' = reader_flight rp" by simp
  show ?thesis
  proof (rule single_inv_elim [OF single])
    fix es fs
    assume A: "ring_list (p_a s) = es @ fs" "\<forall>e \<in> set es. \<not> le_is_eof e" "\<forall>e \<in> set fs. le_is_eof e"
      and up: "fs \<noteq> [] \<or> eof_pending (p_disp s) \<or> (\<exists>lv < 4. p_forwarded s ! lv) \<Longrightarrow> (\<Sum>rp\<leftarrow>p_readers s. reader_flight rp) = {#}"
      and held: "eof_pending (p_disp s) \<or> (\<exists>lv < 4. p_forwarded s ! lv) \<Longrightarrow> es = [] \<and> disp_held (p_disp s) = {#}"
      and lev: "\<And>lv. lv < 4 \<Longrightarrow> single_level (p_levels s ! lv)"
    show ?thesis
      using step
    proof (cases rule: parser_step_cases)
      case (push e)
      have r: "ring_list ra = ring_list (p_a s) @ [e]" using ring_push_Some [OF pipe_invD(13) [OF inv] push(2)] by simp
      have e: "reader_flight rp \<noteq> {#}" "\<not> le_is_eof e"
        using push(1) rp(1) by (auto simp: reader_flight_def reader_ok_def good_entry_def)
      then have "\<not> (fs \<noteq> [] \<or> eof_pending (p_disp s) \<or> (\<exists>lv < 4. p_forwarded s ! lv))" using up one by auto
      then show ?thesis
        using A e(2) r lev by (intro single_inv_intro [of _ "es @ [e]" "[]"]) auto
    next
      case (mark lv ra1)
      have r: "ring_list ra = ring_list (p_a s) @ [eof_entry lv]"
        using ring_push_Some [OF pipe_invD(13) [OF inv] mark(3)] mark(5) by simp
      have d: "rp_done rp" "rg_count (rp_ibuf rp) = 0" "\<forall>t \<in> set (rp_threads rp). t = None \<or> t = Some []"
        using rp(2) mark(1) by (auto simp: reader_sync_def)
      have "(\<Sum>t\<leftarrow>rp_threads rp. thread_left t) = (\<Sum>t\<leftarrow>rp_threads rp. {#})"
        using d(3) by (intro arg_cong [of _ _ sum_list] map_cong) auto
      then have "reader_flight rp' = {#}"
        using d(2) by (simp add: reader_flight_def mark(4) ring_list_def)
      then show ?thesis
        using A up held lev r by (intro single_inv_intro [of _ es "fs @ [eof_entry lv]"]) auto
    qed (use single_inv_readers [OF single, of "[rp']" ra] same one in simp)+
  qed
qed

lemma single_inv_frame [simp]:
  "single_inv (s\<lparr>p_d := d\<rparr>) = single_inv s" "single_inv (s\<lparr>p_hp_score := x\<rparr>) = single_inv s"
  "single_inv (s\<lparr>p_hp_over := h\<rparr>) = single_inv s" "single_inv (s\<lparr>p_waiting := n\<rparr>) = single_inv s"
  unfolding single_inv_def by simp_all

lemma single_inv_step:
  assumes inv: "pipe_inv a [c] s" and single: "single_inv s" and step: "pipe_step a s s'"
  shows "single_inv s'"
proof -
  obtain rp0 where one: "p_readers s = [rp0]"
    using pipe_invD(5) [OF inv] by (cases "p_readers s") auto
  show ?thesis
    using step
  proof cases
    case (pipe_thread r t rp)
    have "reader_flight rp = reader_flight rp0"
      using thread_step_flight [OF _ pipe_thread(3,4)] pipe_invD(12) [OF inv] one pipe_thread(2) by auto
    then show ?thesis
      using single_inv_readers [OF single, of "[rp]" "p_a s"] one pipe_thread(1,2) by simp
  next
    case (pipe_parser r rp ra)
    then show ?thesis using single_inv_parser [OF inv single one] one by auto
  next
    case (pipe_dispatcher x)
    then show ?thesis using single_inv_dispatcher [OF inv single] by blast
  next
    case (pipe_worker lv w l)
    have "single_level (p_levels s ! lv)" using single pipe_worker(2) by (simp add: single_inv_def)
    moreover have "ring_inv (lv_b (p_levels s ! lv))" using pipe_invD(9) [OF inv pipe_worker(2)] by (simp add: level_ok_def)
    moreover have "\<forall>e \<in> set (ring_list (lv_b (p_levels s ! lv))). le_is_eof e \<longrightarrow> eof_posted (lv_b (p_levels s ! lv))"
      using pipe_invD(8) [OF inv pipe_worker(2)] unfolding level_eof_def by blast
    ultimately have "single_level l" using single_level_worker [OF _ _ pipe_worker(4,3)] by blast
    then show ?thesis
      using single_inv_level [OF single pipe_worker(2) _ pipe_invD(6) [OF inv]] by (simp add: pipe_worker(1))
  next
    case (pipe_analyzer lv l)
    have "single_level (p_levels s ! lv)" using single pipe_analyzer(2) by (simp add: single_inv_def)
    then have "single_level l" using analyzer_step_eof [OF pipe_analyzer(3)] by (simp add: single_level_def)
    then show ?thesis
      using single_inv_level [OF single pipe_analyzer(2) _ pipe_invD(6) [OF inv]] by (simp add: pipe_analyzer(1))
  next
    case (pipe_hp x)
    then show ?thesis using single by (auto elim!: hp_cases)
  next
    case (pipe_aggregator x)
    then show ?thesis using single by (auto elim!: aggregator_cases)
  qed
qed

lemma single_inv_init: "single_inv (init_pipe a [c])"
proof (rule single_inv_intro [of _ "[]" "[]"])
  fix lv :: nat assume "lv < 4"
  then show "single_level (p_levels (init_pipe a [c]) ! lv)"
    by (auto simp: init_pipe_def single_level_def init_level_def init_region_b_def ring_list_def)
next
  have f: "\<not> p_forwarded (init_pipe a [c]) ! lv" if "lv < 4" for lv
    using that by (auto simp: init_pipe_def less_Suc_eq numeral_eq_Suc)
  have d: "p_disp (init_pipe a [c]) = D_Pop" by (simp add: init_pipe_def)
  show "[] \<noteq> [] \<or> eof_pending (p_disp (init_pipe a [c])) \<or> (\<exists>lv < 4. p_forwarded (init_pipe a [c]) ! lv) \<Longrightarrow>
      (\<Sum>rp\<leftarrow>p_readers (init_pipe a [c]). reader_flight rp) = {#}"
    using f d by (auto simp: eof_pending_def)
  show "eof_pending (p_disp (init_pipe a [c])) \<or> (\<exists>lv < 4. p_forwarded (init_pipe a [c]) ! lv) \<Longrightarrow>
      [] = [] \<and> disp_held (p_disp (init_pipe a [c])) = {#}"
    using f d by (auto simp: eof_pending_def)
qed (simp_all add: init_pipe_def init_region_a_def ring_list_def)

interpretation single_sys: invariant_system "pipe_reach a" "pipe_step a"
    "\<lambda>s. single_inv s \<and> pipe_inv a [Some f] s \<and> length (keyword_list a) \<le> MAX_KEYWORDS"
  for a f
  by unfold_locales (use single_inv_step in \<open>blast intro: pipe_reach_steps pipe_inv_step\<close>)+

lemma single_inv_reach:
  assumes "args_wf a" "lines_fit f" "pipe_reach a (init_pipe a [Some f]) s"
  shows "single_inv s \<and> pipe_inv a [Some f] s"
proof -
  have "length (keyword_list a) \<le> MAX_KEYWORDS" using assms(1) by (simp add: args_wf_def)
  then show ?thesis using single_sys.reach_keeps [OF assms(3)] single_inv_init pipe_inv_init [of a "[Some f]"] assms(1,2) by auto
qed

lemma single_complete:
  assumes inv: "pipe_inv a [Some f] s" and single: "single_inv s" and w: "1 \<le> worker_threads a"
    and posted: "\<And>lv. lv < 4 \<Longrightarrow> lv_posted (p_levels s ! lv)"
  shows "(\<Sum>l\<leftarrow>p_levels s. mset (lv_analyzed l)) + mset (p_dropped s) = mset (file_entries f)"
proof -
  have w0: "0 < length (lv_workers (p_levels s ! lv))" if "lv < 4" for lv
    using pipe_invD(10) [OF inv that] w by simp
  have "eof_posted (lv_b (p_levels s ! lv)) \<and> ring_list (lv_b (p_levels s ! lv)) = []" if lv: "lv < 4" for lv
  proof -
    have "w_pc (lv_workers (p_levels s ! lv) ! 0) = W_Over"
      using pipe_invD(3) [OF inv] posted [OF lv] lv w0 [OF lv] by (auto simp: scores_inv_def list_all_length)
    then show ?thesis
      using single nth_mem [OF w0 [OF lv]] lv unfolding single_inv_def single_level_def by (metis worker_pc.distinct(3))
  qed
  note drained = this
  have "p_forwarded s ! 0" using drained [of 0] pipe_invD(8) [OF inv, of 0] by (simp add: level_eof_def)
  then have fwd: "\<exists>lv < 4. p_forwarded s ! lv" by (intro exI [of _ 0]) simp
  obtain es fs where A: "ring_list (p_a s) = es @ fs" "\<forall>e \<in> set fs. le_is_eof e" "es = []" "disp_held (p_disp s) = {#}"
    "(\<Sum>rp\<leftarrow>p_readers s. reader_flight rp) = {#}"
    using single fwd unfolding single_inv_def by blast
  have "entries fs = {#}" using A(2) by (induction fs) auto
  then have "upstream s = {#}" using A by (simp add: upstream_def)
  moreover have "(\<Sum>l\<leftarrow>p_levels s. level_flight l) = (\<Sum>l\<leftarrow>p_levels s. mset (lv_analyzed l))"
    using drained pipe_invD(6) [OF inv]
    by (intro arg_cong [of _ _ sum_list] map_cong) (auto simp: level_flight_def in_set_conv_nth)
  ultimately show ?thesis
    using pipe_invD(2) [OF inv] by (simp add: flight_def all_entries_def)
qed

end
