(* ===== verification/Log_Demo.thy ===== *)
theory Log_Demo
  imports Log_End
begin

text \<open>
  Running the pipeline on a schedule, and the runs the properties are shown on: one file with two
  entries read by two threads, and two files whose markers overtake an entry.
\<close>

section \<open>Schedules\<close>

datatype pipe_move = M_Thread nat nat | M_Parser nat | M_Disp bool | M_Worker nat nat | M_Analyzer nat
  | M_Hp bool | M_Agg bool

fun do_move :: "t_args \<Rightarrow> pipe_move \<Rightarrow> pipe \<Rightarrow> pipe option" where
  "do_move a (M_Thread r t) s =
     (if r < length (p_readers s) \<and> t < length (rp_threads (p_readers s ! r))
      then map_option (\<lambda>rp. s\<lparr>p_readers := (p_readers s)[r := rp]\<rparr>) (thread_step (p_readers s ! r) t) else None)"
| "do_move a (M_Parser r) s =
     (if r < length (p_readers s)
      then map_option (\<lambda>(rp, ra). s\<lparr>p_readers := (p_readers s)[r := rp], p_a := ra\<rparr>) (parser_step (p_readers s ! r) (p_a s))
      else None)"
| "do_move a (M_Disp x) s = dispatcher_step a x s"
| "do_move a (M_Worker lv w) s =
     (if lv < 4 \<and> w < length (lv_workers (p_levels s ! lv))
      then map_option (\<lambda>l. s\<lparr>p_levels := (p_levels s)[lv := l]\<rparr>)
             (worker_step (keyword_list a) (level_of lv) (p_levels s ! lv) w) else None)"
| "do_move a (M_Analyzer lv) s =
     (if lv < 4 then map_option (\<lambda>l. s\<lparr>p_levels := (p_levels s)[lv := l]\<rparr>) (analyzer_step (p_levels s ! lv)) else None)"
| "do_move a (M_Hp x) s = hp_step a x s"
| "do_move a (M_Agg x) s = aggregator_step x s"

lemma do_move_step: "do_move a m s = Some s' \<Longrightarrow> pipe_step a s s'"
  by (cases m) (auto split: if_splits intro: pipe_step.intros)

text \<open>A schedule; a thread that has to wait is passed over.\<close>

fun run_moves :: "t_args \<Rightarrow> pipe_move list \<Rightarrow> pipe \<Rightarrow> pipe" where
  "run_moves a [] s = s"
| "run_moves a (m # ms) s = run_moves a ms (case do_move a m s of None \<Rightarrow> s | Some s' \<Rightarrow> s')"

lemma run_moves_reach: "pipe_reach a s0 s \<Longrightarrow> pipe_reach a s0 (run_moves a ms s)"
proof (induction ms arbitrary: s)
  case (Cons m ms)
  then show ?case using pipe_more [OF Cons.prems do_move_step] by (cases "do_move a m s") simp_all
qed simp

section \<open>The arguments\<close>

definition demo_argv :: "string list" where
  "demo_argv = [''-c'', ''c'', ''-f'', ''f'', ''-k'', ''fail,disk'', ''-t'', ''2'', ''-w'', ''1'', ''-a'', ''12'', ''-b'', ''4'',
     ''-d'', ''2'', ''-T'', ''1'', ''-o'', ''o'', ''-O'', ''b'']"

definition demo_parse_env :: "string \<Rightarrow> parse_env" where
  "demo_parse_env config = \<lparr>pe_readable = (\<lambda>_. True),
     pe_fopen = (\<lambda>p. if p = ''c'' then Some config else Some (''db'' @ [LF])),
     pe_strdup = (\<lambda>_ _. True)\<rparr>"

definition demo_log_args :: "string list \<Rightarrow> t_args" where
  "demo_log_args files = \<lparr>config_file = Some ''c'', filter_file = Some ''f'', output_txt = Some ''o'', output_bin = Some ''b'',
     keywords_raw = Some ''fail,disk'', keyword_list = [''fail'', ''disk''], log_files = files,
     priority_sources = [''db''], reader_threads = 2, worker_threads = 1, cap_a = 12, cap_b = 4, cap_d = 2, timeout = 1\<rparr>"

definition demo_env_one :: parse_env where "demo_env_one = demo_parse_env (''a.log'' @ [LF])"

definition demo_env_two :: parse_env where "demo_env_two = demo_parse_env (''a.log'' @ [LF] @ ''b.log'' @ [LF])"

definition demo_args_one :: t_args where "demo_args_one = demo_log_args [''a.log'']"

definition demo_args_two :: t_args where "demo_args_two = demo_log_args [''a.log'', ''b.log'']"

lemma demo_log_parsed: "start_parsing demo_env_one demo_argv = Some demo_args_one"
  by code_simp

lemma demo_two_parsed: "start_parsing demo_env_two demo_argv = Some demo_args_two"
  by code_simp

definition demo_log :: string where
  "demo_log = ''[2024-01-01 00:00:00] [ERROR] [db] disk fail'' @ [LF] @ ''[2024-01-01 00:00:01] [INFO] [web] fail'' @ [LF]"

definition demo_log_entries :: "log_entry list" where
  "demo_log_entries =
     [\<lparr>le_timestamp = ''2024-01-01 00:00:00'', le_level = LV_ERROR, le_source = ''db'', le_message = ''disk fail'', le_is_eof = False\<rparr>,
      \<lparr>le_timestamp = ''2024-01-01 00:00:01'', le_level = LV_INFO, le_source = ''web'', le_message = ''fail'', le_is_eof = False\<rparr>]"

lemma demo_log_fits: "lines_fit demo_log"
  by code_simp

lemma demo_log_file: "file_entries demo_log = demo_log_entries"
  by code_simp

section \<open>One file\<close>

definition all_workers :: "pipe_move list" where
  "all_workers = concat (map (\<lambda>lv. replicate 4 (M_Worker lv 0) @ [M_Analyzer lv]) [0, 1, 2, 3])"

definition demo_log_moves :: "pipe_move list" where
  "demo_log_moves = replicate 2 (M_Thread 0 0) @ replicate 2 (M_Thread 0 1) @ replicate 10 (M_Parser 0) @
     replicate 24 (M_Disp False) @ all_workers @ replicate 2 (M_Hp False) @ replicate 5 (M_Agg False)"

definition demo_log_end :: pipe where
  "demo_log_end = run_moves demo_args_one demo_log_moves (init_pipe demo_args_one [Some demo_log])"

lemma demo_log_end_levels:
  "map (\<lambda>l. (lv_posted l, total_entries (lv_result l), total_weighted_score (lv_result l))) (p_levels demo_log_end) =
     [(True, 1, 8), (True, 0, 0), (True, 1, 2), (True, 0, 0)]"
  by code_simp

definition demo_fopen_one :: "string \<Rightarrow> string option" where
  "demo_fopen_one name = (if name = ''a.log'' then Some demo_log else None)"

definition demo_start_one :: pipe where "demo_start_one = init_pipe demo_args_one [Some demo_log]"

lemma demo_one_started: "log_start demo_env_one demo_argv demo_fopen_one = Some (demo_args_one, demo_start_one)"
  by (simp add: log_start_def demo_log_parsed demo_start_one_def) (simp add: demo_args_one_def demo_log_args_def demo_fopen_one_def)

lemma demo_one_files: "log_files demo_args_one = [''a.log'']"
  by (simp add: demo_args_one_def demo_log_args_def)

lemma demo_log_end_reach: "pipe_reach demo_args_one demo_start_one demo_log_end"
  unfolding demo_log_end_def demo_start_one_def by (rule run_moves_reach [OF pipe_init])

lemma demo_log_end_posted: "lv < 4 \<Longrightarrow> lv_posted (p_levels demo_log_end ! lv)" "p_dropped demo_log_end = []"
proof -
  have "list_all (\<lambda>lv. lv_posted (p_levels demo_log_end ! lv)) [0, 1, 2, 3]" by code_simp
  then show "lv < 4 \<Longrightarrow> lv_posted (p_levels demo_log_end ! lv)"
    by (auto simp: less_Suc_eq numeral_eq_Suc)
  show "p_dropped demo_log_end = []" by code_simp
qed

section \<open>Two files\<close>

text \<open>
  Reader 0 puts its entry and its four markers into region A, then reader 1 does.  The dispatcher
  only runs afterwards: when it takes the first marker of a level, both readers have already
  counted theirs.
\<close>

definition demo_first :: string where
  "demo_first = ''[2024-01-01 00:00:01] [INFO] [web] fail'' @ [LF]"

definition demo_second :: string where
  "demo_second = ''[2024-01-01 00:00:00] [ERROR] [db] disk fail'' @ [LF]"

definition demo_fopen_two :: "string \<Rightarrow> string option" where
  "demo_fopen_two name = (if name = ''a.log'' then Some demo_first else Some demo_second)"

definition demo_start_two :: pipe where
  "demo_start_two = init_pipe demo_args_two [Some demo_first, Some demo_second]"

lemma demo_two_started: "log_start demo_env_two demo_argv demo_fopen_two = Some (demo_args_two, demo_start_two)"
  by (simp add: log_start_def demo_two_parsed demo_start_two_def) (simp add: demo_args_two_def demo_log_args_def demo_fopen_two_def)

lemma demo_two_files: "log_files demo_args_two = [''a.log'', ''b.log'']"
  by (simp add: demo_args_two_def demo_log_args_def)

definition demo_reader_moves :: "nat \<Rightarrow> pipe_move list" where
  "demo_reader_moves r = replicate 2 (M_Thread r 0) @ replicate 2 (M_Thread r 1) @ replicate 8 (M_Parser r)"

definition demo_two_moves :: "pipe_move list" where
  "demo_two_moves = demo_reader_moves 0 @ demo_reader_moves 1 @ replicate 24 (M_Disp False) @ all_workers @
     replicate 2 (M_Hp False) @ replicate 5 (M_Agg False)"

definition demo_two_end :: pipe where
  "demo_two_end = run_moves demo_args_two demo_two_moves demo_start_two"

lemma demo_two_end_reach: "pipe_reach demo_args_two demo_start_two demo_two_end"
  unfolding demo_two_end_def by (rule run_moves_reach [OF pipe_init])

lemma demo_two_fits: "lines_fit demo_first" "lines_fit demo_second"
  by code_simp+

lemma demo_two_entries: "file_entries demo_first = [demo_log_entries ! 1]" "file_entries demo_second = [demo_log_entries ! 0]"
  by code_simp+

lemma demo_two_over: "pipe_over demo_two_end"
  by code_simp

lemma demo_two_analyzed:
  "map lv_analyzed (p_levels demo_two_end) = [[], [], [demo_log_entries ! 1], []] \<and> p_dropped demo_two_end = []"
  by code_simp

end
