(* ===== verification/Log_Properties.thy ===== *)
theory Log_Properties
  imports Log_Demo
begin

text \<open>The properties of the log analyzer (\<open>HW4\<close>).\<close>

section \<open>From the start\<close>

lemma log_start_inv:
  assumes "log_start env argv fopen = Some (a, s0)" "pipe_reach a s0 s"
    and "\<And>n f. n \<in> set (log_files a) \<Longrightarrow> fopen n = Some f \<Longrightarrow> lines_fit f"
  shows "pipe_inv a (map fopen (log_files a)) s" "args_wf a" "s0 = init_pipe a (map fopen (log_files a))"
proof -
  have a: "start_parsing env argv = Some a" and s0: "s0 = init_pipe a (map fopen (log_files a))"
    using assms(1) by (auto simp: log_start_def split: option.splits)
  show wf: "args_wf a" by (rule start_parsing_wf [OF a])
  show "s0 = init_pipe a (map fopen (log_files a))" by (fact s0)
  have "map fopen (log_files a) \<noteq> []" using wf by (auto simp: args_wf_def)
  then show "pipe_inv a (map fopen (log_files a)) s"
    using reach_inv [OF wf _ _ assms(2) [unfolded s0]] assms(3) by fastforce
qed


lemma analyzed_level:
  assumes inv: "pipe_inv a contents s" and lv: "lv < 4"
  shows "\<forall>e \<in> set (lv_analyzed (p_levels s ! lv)). le_level e = level_of lv"
proof
  fix e assume "e \<in> set (lv_analyzed (p_levels s ! lv))"
  then have "level_index (le_level e) = lv"
    using pipe_invD(9) [OF inv lv] by (auto simp: level_ok_def level_flight_def)
  then show "le_level e = level_of lv" using level_index_inverse [of "le_level e"] by simp
qed

lemma sum_levels:
  fixes f :: "level_state \<Rightarrow> 'a::comm_monoid_add"
  assumes "length (p_levels s) = 4"
  shows "(\<Sum>l\<leftarrow>p_levels s. f l) = f (p_levels s ! 0) + f (p_levels s ! 1) + f (p_levels s ! 2) + f (p_levels s ! 3)"
proof -
  obtain w x y z where "p_levels s = [w, x, y, z]"
    using assms by (auto simp: numeral_eq_Suc length_Suc_conv)
  then show ?thesis by (simp add: add.assoc)
qed

lemma analyzed_filter:
  assumes inv: "pipe_inv a contents s" and lv: "lv < 4"
  shows "filter_mset (\<lambda>e. le_level e = level_of lv) (\<Sum>l\<leftarrow>p_levels s. mset (lv_analyzed l)) =
    mset (lv_analyzed (p_levels s ! lv))"
proof -
  have other: "filter_mset (\<lambda>e. le_level e = level_of lv) (mset (lv_analyzed (p_levels s ! k))) = {#}"
    if "k < 4" "k \<noteq> lv" for k
  proof -
    have "level_of k \<noteq> level_of lv" using that lv level_of_inverse [of k] level_of_inverse [of lv] by (metis less_imp_le)
    then show ?thesis using analyzed_level [OF inv that(1)] by (auto simp: filter_mset_eq_mempty_iff)
  qed
  have own: "filter_mset (\<lambda>e. le_level e = level_of lv) (mset (lv_analyzed (p_levels s ! lv))) =
      mset (lv_analyzed (p_levels s ! lv))"
    using analyzed_level [OF inv lv] by (simp add: filter_mset_eq_conv)
  show ?thesis
    unfolding sum_levels [OF pipe_invD(6) [OF inv]] filter_union_mset
    using lv own other [of 0] other [of 1] other [of 2] other [of 3]
    by (auto simp: less_Suc_eq numeral_eq_Suc)
qed

section \<open>The pipeline\<close>



text \<open>C8: for any number of files, in every state: no level analyzes an entry that is not one of the
  files' entries of that level, or the same entry twice; entries that are not yet analyzed are still
  in one place on the way or were dropped; and a posted result is that of the entries analyzed.\<close>

theorem log_results_sound:
  assumes "log_start env argv fopen = Some (a, s0)" and "pipe_reach a s0 s"
    and "\<And>n f. n \<in> set (log_files a) \<Longrightarrow> fopen n = Some f \<Longrightarrow> lines_fit f"
  shows "upstream s + (\<Sum>l\<leftarrow>p_levels s. entries (ring_list (lv_b l)) + mset (lv_analyzed l)) + mset (p_dropped s) =
      all_entries (map fopen (log_files a)) \<and>
    (\<forall>lv < 4. mset (lv_analyzed (p_levels s ! lv)) \<subseteq>#
        filter_mset (\<lambda>e. le_level e = level_of lv) (all_entries (map fopen (log_files a))) \<and>
      (lv_posted (p_levels s ! lv) \<longrightarrow>
         merged (keyword_list a) (level_of lv) (lv_analyzed (p_levels s ! lv)) (lv_result (p_levels s ! lv))))"
proof -
  note inv = log_start_inv(1) [OF assms]
  have fl: "upstream s + (\<Sum>l\<leftarrow>p_levels s. entries (ring_list (lv_b l)) + mset (lv_analyzed l)) + mset (p_dropped s) =
      all_entries (map fopen (log_files a))"
    using pipe_invD(2) [OF inv] by (simp add: flight_def level_flight_def)
  have "mset (lv_analyzed (p_levels s ! lv)) \<subseteq># filter_mset (\<lambda>e. le_level e = level_of lv) (all_entries (map fopen (log_files a)))"
    if lv: "lv < 4" for lv
    unfolding fl [symmetric] using analyzed_filter [OF inv lv] by (simp add: sum_list_addf)
  moreover have "merged (keyword_list a) (level_of lv) (lv_analyzed (p_levels s ! lv)) (lv_result (p_levels s ! lv))"
    if "lv < 4" "lv_posted (p_levels s ! lv)" for lv
    using pipe_invD(3) [OF inv] that level_scores_result by (simp add: scores_inv_def)
  ultimately show ?thesis using fl by blast
qed

lemma log_results_sound_witness:
  "mset (lv_analyzed (p_levels demo_two_end ! 2)) \<subseteq># filter_mset (\<lambda>e. le_level e = LV_INFO) {#demo_log_entries ! 0, demo_log_entries ! 1#}"
proof -
  have "all_entries (map demo_fopen_two (log_files demo_args_two)) = {#demo_log_entries ! 0, demo_log_entries ! 1#}"
    by (simp add: all_entries_def demo_two_files demo_fopen_two_def demo_two_entries add_mset_commute)
  moreover have "\<And>n f. demo_fopen_two n = Some f \<Longrightarrow> lines_fit f"
    using demo_two_fits by (auto simp: demo_fopen_two_def split: if_splits)
  ultimately have "\<forall>lv < 4. mset (lv_analyzed (p_levels demo_two_end ! lv)) \<subseteq>#
      filter_mset (\<lambda>e. le_level e = level_of lv) {#demo_log_entries ! 0, demo_log_entries ! 1#}"
    using log_results_sound [OF demo_two_started demo_two_end_reach] by metis
  then have "mset (lv_analyzed (p_levels demo_two_end ! 2)) \<subseteq>#
      filter_mset (\<lambda>e. le_level e = level_of 2) {#demo_log_entries ! 0, demo_log_entries ! 1#}"
    by (elim allE [where x = 2]) simp
  then show ?thesis by (simp add: level_of_def)
qed



text \<open>C9: a log file that cannot be opened stops the whole program: its reader process returns
  without posting its end-of-file markers, so no level ever gets its marker, no analyzer ever posts
  its result and the dispatcher never ends.\<close>

theorem log_missing_file_hangs:
  assumes "log_start env argv fopen = Some (a, s0)" and "pipe_reach a s0 s"
    and "\<And>n f. n \<in> set (log_files a) \<Longrightarrow> fopen n = Some f \<Longrightarrow> lines_fit f"
    and "n \<in> set (log_files a)" and "fopen n = None"
  shows "(\<forall>lv < 4. \<not> p_forwarded s ! lv \<and> \<not> lv_posted (p_levels s ! lv)) \<and>
    p_disp s \<noteq> D_Over \<and> \<not> pipe_over s"
proof -
  have inv: "pipe_inv a (map fopen (log_files a)) s" using log_start_inv(1) assms(1-3) by blast
  have "args_wf a" using log_start_inv(2) assms(1-3) by blast
  then have w: "1 \<le> worker_threads a" by (simp add: args_wf_def)
  have none: "None \<in> set (map fopen (log_files a))" using assms(4,5) by force
  have "\<not> p_forwarded s ! 0" by (rule absent_stuck [OF inv none]) simp
  then have "p_disp s \<noteq> D_Over"
    using pipe_invD(4,7) [OF inv] by (auto simp: eof_inv_def list_all_length)
  moreover have "\<not> p_forwarded s ! lv" "\<not> lv_posted (p_levels s ! lv)" if "lv < 4" for lv
    using absent_stuck [OF inv none that] absent_no_result [OF inv none that w] by auto
  ultimately show ?thesis by (simp add: pipe_over_def)
qed

lemma log_missing_file_hangs_witness:
  "\<exists>s0. log_start demo_env_one demo_argv (\<lambda>_. None) = Some (demo_args_one, s0) \<and>
     (\<forall>s. pipe_reach demo_args_one s0 s \<longrightarrow> \<not> pipe_over s)"
proof -
  let ?s = "init_pipe demo_args_one [None]"
  have s: "log_start demo_env_one demo_argv (\<lambda>_. None) = Some (demo_args_one, ?s)"
    by (simp add: log_start_def demo_log_parsed demo_one_files)
  then show ?thesis
    using log_missing_file_hangs [OF s, of _ "''a.log''"] by (auto simp: demo_one_files)
qed

text \<open>C11: with two files entries can get lost although nothing was dropped: the dispatcher forwards
  the end of a level at the first marker it takes once every reader has counted its marker, and not
  at the last one, so entries queued between the two are never routed.  In this run all processes
  end regularly and the one entry of level ERROR is missing from the result.\<close>

theorem log_two_files_lose:
  "\<exists>env argv fopen a s0 s. log_start env argv fopen = Some (a, s0) \<and> pipe_reach a s0 s \<and> pipe_over s \<and>
     p_dropped s = [] \<and> filter_mset (\<lambda>e. le_level e = LV_ERROR) (all_entries (map fopen (log_files a))) \<noteq> {#} \<and>
     lv_analyzed (p_levels s ! 0) = [] \<and> total_entries (lv_result (p_levels s ! 0)) = 0"
proof (intro exI conjI)
  show "log_start demo_env_two demo_argv demo_fopen_two = Some (demo_args_two, demo_start_two)" by (rule demo_two_started)
  show "pipe_reach demo_args_two demo_start_two demo_two_end" by (rule demo_two_end_reach)
  show "pipe_over demo_two_end" by (rule demo_two_over)
  show "p_dropped demo_two_end = []" "lv_analyzed (p_levels demo_two_end ! 0) = []"
    using demo_two_analyzed by (auto simp: map_eq_Cons_conv)
  show "total_entries (lv_result (p_levels demo_two_end ! 0)) = 0" by code_simp
  have "le_level (demo_log_entries ! 0) = LV_ERROR" by (simp add: demo_log_entries_def)
  then show "filter_mset (\<lambda>e. le_level e = LV_ERROR) (all_entries (map demo_fopen_two (log_files demo_args_two))) \<noteq> {#}"
    by (simp add: all_entries_def demo_two_files demo_fopen_two_def demo_two_entries)
qed

section \<open>The components\<close>

text \<open>C14: the reader threads of a process split the file between them: whatever their number, what
  they push is together exactly the entries of the file's lines, each line read by one thread only,
  in the order of the file.\<close>

theorem threads_read_file:
  assumes "lines_fit content" "0 < T"
  shows "concat (map (\<lambda>i. rs_pushed (reader_thread_func (Some content) (thread_range T (length content) i))) [0..<T]) =
    file_entries content"
  by (rule readers_partition [OF assms])

lemma threads_read_file_witness:
  "concat (map (\<lambda>i. rs_pushed (reader_thread_func (Some demo_log) (thread_range 3 (length demo_log) i))) [0..<3]) =
    demo_log_entries"
  using threads_read_file [OF demo_log_fits, of 3] by (simp add: demo_log_file)

text \<open>C15: the line parser and its inverse: what it accepts is a well-formed entry with a known level,
  and every such entry, printed in the log format, is read back unchanged.\<close>

theorem log_line_roundtrip:
  assumes "parse_log_line line = Some e \<or> entry_wf e"
  shows "entry_wf e \<and> parse_log_line (log_line e) = Some e"
  using assms parse_log_line_wf parse_log_line_roundtrip by blast

lemma log_line_roundtrip_witness:
  "parse_log_line (log_line (demo_log_entries ! 0)) = Some (demo_log_entries ! 0)"
proof -
  have "parse_log_line ''[2024-01-01 00:00:00]   [ERROR]  [db] disk fail'' = Some (demo_log_entries ! 0)" by code_simp
  then show ?thesis using log_line_roundtrip by blast
qed

text \<open>C16: a command line is accepted only with all its parameters in range, one to eight keywords and
  at least one log file; the arrays of the program are never overrun.\<close>

theorem accepted_arguments:
  assumes "start_parsing env argv = Some a"
  shows "args_wf a"
  by (rule start_parsing_wf [OF assms])

lemma accepted_arguments_witness: "args_wf demo_args_two"
  using accepted_arguments [OF demo_two_parsed] .

text \<open>C17: any sequence of pushes and pops on a fresh buffer answers as on a list with the same bound,
  and what was accepted comes out in the same order, what is still held following it.\<close>

theorem buffer_is_bounded_fifo:
  assumes "ring_init ok cells n = Some b" "0 < n"
  shows "snd (ring_fifo.run b ops) = snd (list_run n [] ops) \<and>
    ring_list (fst (ring_fifo.run b ops)) = fst (list_run n [] ops) \<and>
    ring_fifo.accepted ops (snd (ring_fifo.run b ops)) =
      ring_fifo.delivered (snd (ring_fifo.run b ops)) @ ring_list (fst (ring_fifo.run b ops))"
proof -
  have b: "ring_inv b" "ring_list b = []" "rg_capacity b = n" using ring_init_inv [OF assms] by auto
  show ?thesis
    using ring_fifo.run_refines [OF b(1), of ops] ring_fifo.fifo [OF b(1), of ops] b(2,3) by simp
qed

lemma buffer_is_bounded_fifo_witness:
  "\<exists>b. ring_init True (\<lambda>_. 0) 2 = Some b \<and>
     snd (ring_fifo.run b [Push 1, Push 2, Push (3::nat), Pop, Push 4, Pop]) =
       [Pushed True, Pushed True, Pushed False, Popped (Some 1), Pushed True, Popped (Some 2)]"
proof -
  obtain b where b: "ring_init True (\<lambda>_. 0 :: nat) 2 = Some b" by (simp add: ring_init_def)
  let ?ops = "[Push 1, Push 2, Push 3, Pop, Push 4, Pop] :: nat fifo_op list"
  have "snd (ring_fifo.run b ?ops) = snd (list_run 2 [] ?ops)"
    by (rule buffer_is_bounded_fifo [OF b, THEN conjunct1], simp)
  also have "\<dots> = [Pushed True, Pushed True, Pushed False, Popped (Some 1), Pushed True, Popped (Some 2)]"
    by code_simp
  finally show ?thesis using b by blast
qed

section \<open>Scores\<close>

lemma entry_score_nonneg [simp]: "0 \<le> entry_score ks level e"
  by (simp add: entry_score_def get_level_weight_def)

lemma source_hits_nonneg [simp]: "0 \<le> source_hits ks level es s"
  by (auto simp: source_hits_def intro!: sum_list_nonneg)

lemma worker_entry_names:
  "length ks \<le> length (keyword_scores t) \<Longrightarrow> length (le_source e) < MAX_SOURCE_LEN \<Longrightarrow>
   fst ` set (sources (worker_entry ks level t e)) \<subseteq> insert (le_source e) (fst ` set (sources t))"
proof -
  assume ks: "length ks \<le> length (keyword_scores t)" and src: "length (le_source e) < MAX_SOURCE_LEN"
  have "fst ` set ys = fst ` set (sources t)" if "bump_source (le_source e) h (sources t) = Some ys" for h ys
    using bump_source_Some [OF that] by (metis set_map)
  then show ?thesis
    using src by (auto simp: worker_entry_sources [OF ks] add_source_hit_def split: option.splits)
qed

lemma sources_distinct:
  assumes "distinct (map fst (sources t))" and ks: "length ks \<le> length (keyword_scores t)"
    and "length (le_source e) < MAX_SOURCE_LEN"
  shows "distinct (map fst (sources (worker_entry ks level t e)))"
proof (cases "bump_source (le_source e) (entry_score ks level e) (sources t)")
  case None
  then show ?thesis
    using assms bump_source_None [THEN iffD1, OF None] by (auto simp: worker_entry_sources [OF ks] add_source_hit_def None)
next
  case (Some ys)
  then show ?thesis
    using assms bump_source_Some [OF Some] by (simp add: worker_entry_sources [OF ks] add_source_hit_def)
qed

lemma worker_sources:
  assumes "\<forall>e \<in> set es. entry_wf e" "card (le_source ` set es) < MAX_TRACKED_SOURCES" "length ks \<le> MAX_KEYWORDS"
  shows "let t = foldl (worker_entry ks level) (tls_init w) es in
    distinct (map fst (sources t)) \<and> hits_of (sources t) = source_hits ks level es \<and>
    fst ` set (sources t) \<subseteq> le_source ` set es \<and> length (keyword_scores t) = MAX_KEYWORDS"
  using assms
proof (induction es rule: rev_induct)
  case Nil
  then show ?case by (simp add: tls_init_def hits_of_def source_hits_def fun_eq_iff)
next
  case (snoc e es)
  let ?t = "foldl (worker_entry ks level) (tls_init w) es" and ?t' = "foldl (worker_entry ks level) (tls_init w) (es @ [e])"
  have "card (le_source ` set es) \<le> card (le_source ` set (es @ [e]))" by (intro card_mono) auto
  then have IH: "distinct (map fst (sources ?t))" "hits_of (sources ?t) = source_hits ks level es"
      "fst ` set (sources ?t) \<subseteq> le_source ` set es" "length (keyword_scores ?t) = MAX_KEYWORDS"
    using snoc by (auto simp: Let_def)
  have src: "length (le_source e) < MAX_SOURCE_LEN" using snoc.prems(1) by (simp add: entry_wf_def)
  have names: "fst ` set (sources ?t') \<subseteq> le_source ` set (es @ [e])"
    using worker_entry_names [of ks ?t e level] IH src snoc.prems(3) by auto
  have kw: "length (keyword_scores ?t') = MAX_KEYWORDS"
    using IH(4) snoc.prems(3) by (simp add: worker_entry_def score_keywords_result Let_def)
  have "distinct (map fst (sources ?t'))"
    using sources_distinct [OF IH(1), of ks e level] IH(4) snoc.prems(3) src by simp
  then have "length (sources ?t') = card (fst ` set (sources ?t'))"
    by (metis distinct_card length_map set_map)
  also have "\<dots> \<le> card (le_source ` set (es @ [e]))" using names by (intro card_mono) auto
  finally have "length (sources ?t') < MAX_TRACKED_SOURCES" using snoc.prems(2) by simp
  then show ?case
    using sources_exact_entry [OF IH(1,2,4) snoc.prems(3) src] names kw by (simp add: Let_def)
qed

text \<open>With one worker the three sources kept for a level are right: each is a source of the
  analyzed entries with its exact number of weighted hits, and no source left out has more.\<close>

theorem one_worker_top_sources:
  assumes "\<forall>e \<in> set es. entry_wf e" and "card (le_source ` set es) < MAX_TRACKED_SOURCES"
    and "length ks \<le> MAX_KEYWORDS"
    and "tops = top_source (tls_destructor (length ks) (level_result_init lv)
           (foldl (worker_entry ks (level_of lv)) (tls_init 0) es))"
  shows "length tops = 3 \<and>
    (\<forall>(s, h) \<in> set tops. s = [] \<and> h = 0 \<or> s \<in> le_source ` set es \<and> h = source_hits ks (level_of lv) es s) \<and>
    (\<forall>s. s \<notin> fst ` set tops \<longrightarrow> (\<forall>p \<in> set tops. source_hits ks (level_of lv) es s \<le> snd p))"
proof -
  let ?xs = "sources (foldl (worker_entry ks (level_of lv)) (tls_init 0) es)" and ?h = "source_hits ks (level_of lv) es"
  have x: "distinct (map fst ?xs)" "hits_of ?xs = ?h" "fst ` set ?xs \<subseteq> le_source ` set es"
    using worker_sources [OF assms(1-3), of "level_of lv" 0] by (simp_all add: Let_def)
  have "[] \<notin> fst ` set ?xs" "\<forall>p \<in> set ?xs. length (fst p) < MAX_SOURCE_LEN"
    using x(3) assms(1) by (force simp: entry_wf_def)+
  then have top: "top_ok tops ?xs"
    using merge_sources_top [OF x(1)] assms(4) by (simp add: tls_destructor_def level_result_init_def)
  have mem: "h = ?h s" if "(s, h) \<in> set ?xs" for s h
    using map_of_is_SomeI [OF x(1) that] fun_cong [OF x(2), of s] by (simp add: hits_of_def)
  have nonneg: "0 \<le> snd p" if "p \<in> set tops" for p
  proof -
    have "p = ([], 0) \<or> p \<in> set ?xs" using top that by (simp add: top_ok_def)
    then show ?thesis using mem [of "fst p" "snd p"] by auto
  qed
  have "?h s \<le> snd p" if "s \<notin> fst ` set tops" "p \<in> set tops" for s p
  proof (cases "s \<in> fst ` set ?xs")
    case True
    then have "(s, ?h s) \<in> set ?xs" using mem by force
    moreover have "(s, ?h s) \<notin> set tops" using that(1) by force
    ultimately show ?thesis using top that(2) by (auto simp: top_ok_def)
  next
    case False
    then have "?h s = 0" using fun_cong [OF x(2), of s] map_of_eq_None_iff [THEN iffD2, OF False] by (simp add: hits_of_def)
    then show ?thesis using nonneg [OF that(2)] by simp
  qed
  moreover have "s = [] \<and> h = 0 \<or> s \<in> le_source ` set es \<and> h = ?h s" if "(s, h) \<in> set tops" for s h
  proof -
    have "(s, h) = ([], 0) \<or> (s, h) \<in> set ?xs" using top that by (auto simp: top_ok_def)
    then show ?thesis using mem x(3) by force
  qed
  moreover have "length tops = 3" using top by (simp add: top_ok_def)
  ultimately show ?thesis by blast
qed

lemma one_worker_top_sources_witness:
  "length (top_source (tls_destructor (length [''fail'', ''disk'']) (level_result_init 0)
      (foldl (worker_entry [''fail'', ''disk''] (level_of 0)) (tls_init 0) [demo_log_entries ! 0]))) = 3"
proof (rule one_worker_top_sources [OF _ _ _ refl, THEN conjunct1])
  show "\<forall>e \<in> set [demo_log_entries ! 0]. entry_wf e" by code_simp
qed (simp_all add: MAX_TRACKED_SOURCES_def MAX_KEYWORDS_def)

end
