(* ===== verification/Hogwarts_Server.thy ===== *)
theory Hogwarts_Server
  imports C_Library
begin

text \<open>
  The server of the Hogwarts project: \<open>HW6/hogwarts.c\<close> with the functions it shares with its
  clients in \<open>common.c\<close>.  The tables of ingredients and clients, the lines sent and the log are
  one state; every function of the server is a function on it.  A quantity is a C int and wraps.
\<close>

section \<open>Data\<close>

definition MAX_LINE_LEN :: nat where "MAX_LINE_LEN = 512"
definition MAX_USERNAME_LEN :: nat where "MAX_USERNAME_LEN = 32"
definition MAX_INGREDIENT_LEN :: nat where "MAX_INGREDIENT_LEN = 17"
definition MAX_TYPE_LEN :: nat where "MAX_TYPE_LEN = 16"
definition MAX_INGREDIENTS :: nat where "MAX_INGREDIENTS = 256"
definition MAX_SPELLBOOK_ENTRIES :: nat where "MAX_SPELLBOOK_ENTRIES = 64"

lemmas hog_limits = MAX_LINE_LEN_def MAX_USERNAME_LEN_def MAX_INGREDIENT_LEN_def MAX_TYPE_LEN_def
  MAX_INGREDIENTS_def MAX_SPELLBOOK_ENTRIES_def

text \<open>An entry of the stock or of a spellbook: \<open>ingredient_t\<close> and \<open>spell_entry_t\<close>.\<close>

type_synonym stock_entry = "string \<times> int"

record client =
  c_fd :: int
  c_username :: string
  c_type :: string
  c_enrolled :: bool
  c_line_buf :: string
  c_last_active :: int
  c_ip :: string
  c_spellbook :: "stock_entry list"

text \<open>The lines of the log, by the format they are printed with.\<close>

datatype hog_event =
    Client_Connected int string
  | Client_Disconnected string string
  | Client_Rejected int string
  | Client_Timeout string int int
  | Client_Enrolled string string int
  | Brewed string string int int int
  | Consumed string string int int int
  | Inspected string string int
  | Scrolled string nat
  | Roster_Sent string nat
  | Server_Started int int int nat
  | Server_Shutdown
  | Cleanup_Done

text \<open>\<open>log_event\<close> without its time stamp: \<open>vsnprintf\<close> into a buffer of 1024 bytes.\<close>

definition event_text :: "hog_event \<Rightarrow> string" where
  "event_text ev = snprintf 1024
     (case ev of
        Client_Connected fd ip \<Rightarrow> ''CLIENT_CONNECTED fd='' @ int_dec fd @ '' ip='' @ ip
      | Client_Disconnected u r \<Rightarrow> ''CLIENT_DISCONNECTED username='' @ u @ '' reason='' @ r
      | Client_Rejected fd ip \<Rightarrow> ''REJECTED fd='' @ int_dec fd @ '' ip='' @ ip @ '' reason=HOGWARTS_FULL''
      | Client_Timeout u fd t \<Rightarrow> ''TIMEOUT username='' @ u @ '' fd='' @ int_dec fd @ '' elapsed='' @ int_dec t @ ''s''
      | Client_Enrolled u t fd \<Rightarrow> ''ENROLL username='' @ u @ '' type='' @ t @ '' fd='' @ int_dec fd
      | Brewed u i q q0 q1 \<Rightarrow> ''BREW wizard='' @ u @ '' ingredient='' @ i @ '' qty='' @ int_dec q @
          '' old_qty='' @ int_dec q0 @ '' new_qty='' @ int_dec q1
      | Consumed u i q q0 q1 \<Rightarrow> ''CONSUME wizard='' @ u @ '' ingredient='' @ i @ '' qty='' @ int_dec q @
          '' old_qty='' @ int_dec q0 @ '' new_qty='' @ int_dec q1
      | Inspected u i q \<Rightarrow> ''INSPECT professor='' @ u @ '' ingredient='' @ i @ '' qty='' @ int_dec q
      | Scrolled u n \<Rightarrow> ''SCROLL professor='' @ u @ '' ingredients='' @ nat_dec n
      | Roster_Sent u n \<Rightarrow> ''ROSTER professor='' @ u @ '' clients='' @ nat_dec n
      | Server_Started p m t n \<Rightarrow> ''SERVER_STARTED port='' @ int_dec p @ '' max_clients='' @ int_dec m @
          '' timeout='' @ int_dec t @ '' ingredients='' @ nat_dec n
      | Server_Shutdown \<Rightarrow> ''SHUTDOWN signal=SIGINT''
      | Cleanup_Done \<Rightarrow> ''CLEANUP_DONE clients=0'')"

text \<open>
  \<open>g_accepted\<close> and \<open>g_closed\<close> are history variables: the descriptors \<open>accept\<close> returned and
  those \<open>close\<close> was called on.
\<close>

record server =
  g_ingredients :: "stock_entry list"
  g_clients :: "client list"
  g_timeout_sec :: int
  g_sent :: "(int \<times> string) list"
  g_log :: "hog_event list"
  g_accepted :: "int list"
  g_closed :: "int list"

section \<open>Sending and logging\<close>

text \<open>The results of \<open>write\<close>: interrupted, failed, or a number of bytes.\<close>

datatype write_result = W_Eintr | W_Error | W_Bytes nat

text \<open>\<open>write_all\<close> on the answers of successive calls of \<open>write\<close>: the bytes handed over and
  whether the function succeeds.  When the answers end the call is still waiting.\<close>

fun write_all :: "write_result list \<Rightarrow> string \<Rightarrow> string \<Rightarrow> (string \<times> bool) option" where
  "write_all ws buf done =
     (if length done < length buf then
        (case ws of
           [] \<Rightarrow> None
         | W_Eintr # ws' \<Rightarrow> write_all ws' buf done
         | W_Error # ws' \<Rightarrow> Some (done, False)
         | W_Bytes n # ws' \<Rightarrow>
             if n = 0 then Some (done, False)
             else write_all ws' buf (done @ take n (drop (length done) buf)))
      else Some (done, True))"

declare write_all.simps [simp del]

text \<open>\<open>send_line\<close>; none of its callers looks at the result.\<close>

definition line_out :: "string \<Rightarrow> string" where
  "line_out line = (if line = [] \<or> last line \<noteq> LF then line @ [LF] else line)"

definition send_line :: "int \<Rightarrow> string \<Rightarrow> server \<Rightarrow> server" where
  "send_line fd line s = s\<lparr>g_sent := g_sent s @ [(fd, line_out line)]\<rparr>"

definition log_event :: "hog_event \<Rightarrow> server \<Rightarrow> server" where
  "log_event ev s = s\<lparr>g_log := g_log s @ [ev]\<rparr>"

section \<open>Arguments and ingredients\<close>

record config =
  cfg_port :: int
  ingredients_path :: "string option"
  logfile_path :: "string option"
  cfg_max_clients :: int
  cfg_timeout_sec :: int

fun config_options :: "opt_event list \<Rightarrow> config \<Rightarrow> config option" where
  "config_options [] c = Some c"
| "config_options (Opt f v # es) c =
     (if f = CHR ''p'' then config_options es (c\<lparr>cfg_port := atoi v\<rparr>)
      else if f = CHR ''s'' then config_options es (c\<lparr>ingredients_path := Some v\<rparr>)
      else if f = CHR ''l'' then config_options es (c\<lparr>logfile_path := Some v\<rparr>)
      else if f = CHR ''n'' then config_options es (c\<lparr>cfg_max_clients := atoi v\<rparr>)
      else if f = CHR ''t'' then config_options es (c\<lparr>cfg_timeout_sec := atoi v\<rparr>)
      else None)"
| "config_options (Opt_Missing f # es) c = None"
| "config_options (Opt_Unknown f # es) c = None"

definition parse_args :: "string list \<Rightarrow> config option" where
  "parse_args argv =
     (case config_options (fst (getopt ''pslnt'' [] argv))
             \<lparr>cfg_port = -1, ingredients_path = None, logfile_path = None, cfg_max_clients = -1, cfg_timeout_sec = -1\<rparr> of
        None \<Rightarrow> None
      | Some c \<Rightarrow>
          if cfg_port c < 0 \<or> ingredients_path c = None \<or> logfile_path c = None \<or> cfg_max_clients c < 0 \<or> cfg_timeout_sec c < 0
          then None
          else if cfg_port c < 1024 \<or> cfg_port c > 65535 then None
          else if cfg_max_clients c < 1 then None
          else if cfg_timeout_sec c < 1 then None
          else Some c)"

definition is_valid_ingredient_name :: "string \<Rightarrow> bool" where
  "is_valid_ingredient_name s \<longleftrightarrow>
     \<not> (length s = 0 \<or> length s > 16) \<and> list_all (\<lambda>c. is_upper c \<or> is_digit c \<or> c = CHR ''_'') s"

text \<open>One line of the file: \<open>sscanf(line, "%63s %d", name, &qty)\<close> and the tests after it.\<close>

definition ingredient_line :: "stock_entry list \<Rightarrow> string \<Rightarrow> stock_entry option" where
  "ingredient_line known line =
     (case scan_word 63 (cstr line) of
        None \<Rightarrow> None
      | Some (name, rest) \<Rightarrow>
          (case scan_int rest of
             None \<Rightarrow> None
           | Some (qty, r) \<Rightarrow>
               if \<not> is_valid_ingredient_name name then None
               else if qty \<le> 0 then None
               else if list_ex (\<lambda>p. fst p = name) known then None
               else Some (strncpy (MAX_INGREDIENT_LEN - 1) name, qty)))"

fun load_loop :: "string list \<Rightarrow> stock_entry list \<Rightarrow> stock_entry list" where
  "load_loop [] known = known"
| "load_loop (line # lines) known =
     (if length known \<ge> MAX_INGREDIENTS then known
      else (case ingredient_line known line of
              None \<Rightarrow> load_loop lines known
            | Some e \<Rightarrow> load_loop lines (known @ [e])))"

definition load_ingredients :: "string option \<Rightarrow> stock_entry list option" where
  "load_ingredients file = map_option (\<lambda>content. load_loop (fgets_lines 256 content) []) file"

section \<open>The tables\<close>

fun index_of :: "string \<Rightarrow> stock_entry list \<Rightarrow> nat option" where
  "index_of name [] = None"
| "index_of name (e # es) = (if fst e = name then Some 0 else map_option Suc (index_of name es))"

text \<open>\<open>xs[i].qty = f (xs[i].qty)\<close>\<close>

definition upd_qty :: "nat \<Rightarrow> (int \<Rightarrow> int) \<Rightarrow> stock_entry list \<Rightarrow> stock_entry list" where
  "upd_qty i f xs = xs[i := (fst (xs ! i), f (snd (xs ! i)))]"

definition find_ingredient :: "server \<Rightarrow> string \<Rightarrow> nat option" where
  "find_ingredient s name = index_of name (g_ingredients s)"

definition free_client :: client where
  "free_client = \<lparr>c_fd = -1, c_username = [], c_type = [], c_enrolled = False, c_line_buf = [],
     c_last_active = 0, c_ip = [], c_spellbook = []\<rparr>"

definition reset_client_slot :: "nat \<Rightarrow> server \<Rightarrow> server" where
  "reset_client_slot idx s = s\<lparr>g_clients := (g_clients s)[idx := free_client]\<rparr>"

definition find_free_slot :: "server \<Rightarrow> nat option" where
  "find_free_slot s = find (\<lambda>i. c_fd (g_clients s ! i) < 0) [0..<length (g_clients s)]"

definition username_taken :: "server \<Rightarrow> string \<Rightarrow> nat \<Rightarrow> bool" where
  "username_taken s uname except_idx =
     list_ex (\<lambda>i. i \<noteq> except_idx \<and> \<not> c_fd (g_clients s ! i) < 0 \<and> c_enrolled (g_clients s ! i) \<and>
                c_username (g_clients s ! i) = uname) [0..<length (g_clients s)]"

definition shown_name :: "client \<Rightarrow> string" where
  "shown_name c = (if c_enrolled c then c_username c else ''-'')"

definition close_fd :: "int \<Rightarrow> server \<Rightarrow> server" where
  "close_fd fd s = s\<lparr>g_closed := g_closed s @ [fd]\<rparr>"

definition remove_client :: "nat \<Rightarrow> string \<Rightarrow> server \<Rightarrow> server" where
  "remove_client idx reason s =
     (let c = g_clients s ! idx in
      if c_fd c < 0 then s
      else reset_client_slot idx (close_fd (c_fd c) (log_event (Client_Disconnected (shown_name c) reason) s)))"

section \<open>The spellbook\<close>

definition spell_find :: "client \<Rightarrow> string \<Rightarrow> nat option" where
  "spell_find c name = index_of name (c_spellbook c)"

definition spell_add :: "string \<Rightarrow> int \<Rightarrow> client \<Rightarrow> client" where
  "spell_add name qty c =
     (case spell_find c name of
        Some idx \<Rightarrow> c\<lparr>c_spellbook := upd_qty idx (\<lambda>q. wrap32 (q + qty)) (c_spellbook c)\<rparr>
      | None \<Rightarrow>
          if length (c_spellbook c) \<ge> MAX_SPELLBOOK_ENTRIES then c
          else c\<lparr>c_spellbook := c_spellbook c @ [(strncpy (MAX_INGREDIENT_LEN - 1) name, qty)]\<rparr>)"

text \<open>The entry that has become empty is replaced by the last one.\<close>

definition spell_sub :: "string \<Rightarrow> int \<Rightarrow> client \<Rightarrow> client" where
  "spell_sub name qty c =
     (case spell_find c name of
        None \<Rightarrow> c
      | Some idx \<Rightarrow>
          (let book = upd_qty idx (\<lambda>q. let q' = wrap32 (q - qty) in if q' < 0 then 0 else q') (c_spellbook c) in
           if snd (book ! idx) = 0 then c\<lparr>c_spellbook := butlast (book[idx := last book])\<rparr>
           else c\<lparr>c_spellbook := book\<rparr>))"

definition parse_positive_int :: "string \<Rightarrow> int option" where
  "parse_positive_int t =
     (if t = [] then None
      else (case strtol t of
              (v, rest, e) \<Rightarrow> if rest \<noteq> [] then None else if v \<le> 0 \<or> v > 1000000 then None else Some v))"

end
