(* ===== verification/Hogwarts_Commands.thy ===== *)
theory Hogwarts_Commands
  imports Hogwarts_Server
begin

text \<open>
  The commands of \<open>HW6/hogwarts.c\<close>, the input of a client, the idle timeouts and the loop of the
  server around \<open>select\<close>.  \<open>cl s idx\<close> is \<open>g_clients[idx]\<close>.
\<close>

section \<open>Commands\<close>

abbreviation cl :: "server \<Rightarrow> nat \<Rightarrow> client" where "cl s idx \<equiv> g_clients s ! idx"

definition upd_client :: "nat \<Rightarrow> (client \<Rightarrow> client) \<Rightarrow> server \<Rightarrow> server" where
  "upd_client idx f s = s\<lparr>g_clients := (g_clients s)[idx := f (cl s idx)]\<rparr>"

definition reply :: "nat \<Rightarrow> string \<Rightarrow> server \<Rightarrow> server" where
  "reply idx line s = send_line (c_fd (cl s idx)) line s"

definition blanks :: "char list" where "blanks = [CHR '' '', CHR 0x09]"

text \<open>The two arguments of \<open>BREW\<close> and \<open>CONSUME\<close>.\<close>

definition name_and_qty :: "string \<Rightarrow> (string \<times> int) option" where
  "name_and_qty rest =
     (case strtok blanks rest of (ing, rest1) \<Rightarrow>
      case strtok blanks rest1 of (qs, rest2) \<Rightarrow>
        (case (ing, qs) of
           (Some i, Some q) \<Rightarrow> map_option (\<lambda>n. (i, n)) (parse_positive_int q)
         | _ \<Rightarrow> None))"

definition stock_of :: "server \<Rightarrow> nat \<Rightarrow> int" where
  "stock_of s i = snd (g_ingredients s ! i)"

definition cmd_brew :: "nat \<Rightarrow> string \<Rightarrow> server \<Rightarrow> server" where
  "cmd_brew idx rest s =
     (case name_and_qty rest of
        None \<Rightarrow> reply idx ''ERR BREW bad_format'' s
      | Some (ing, qty) \<Rightarrow>
          (case find_ingredient s ing of
             None \<Rightarrow> reply idx ''ERR UNKNOWN_INGREDIENT'' s
           | Some i \<Rightarrow>
               (let old_qty = stock_of s i;
                    s1 = s\<lparr>g_ingredients := upd_qty i (\<lambda>q. wrap32 (q + qty)) (g_ingredients s)\<rparr>;
                    s2 = upd_client idx (spell_add ing qty) s1;
                    new_qty = stock_of s2 i
                in log_event (Brewed (c_username (cl s2 idx)) ing qty old_qty new_qty)
                     (reply idx (snprintf 128 (''OK BREW '' @ ing @ '' '' @ int_dec qty @ '' '' @ int_dec new_qty)) s2))))"

definition cmd_consume :: "nat \<Rightarrow> string \<Rightarrow> server \<Rightarrow> server" where
  "cmd_consume idx rest s =
     (case name_and_qty rest of
        None \<Rightarrow> reply idx ''ERR CONSUME bad_format'' s
      | Some (ing, qty) \<Rightarrow>
          (case find_ingredient s ing of
             None \<Rightarrow> reply idx ''ERR UNKNOWN_INGREDIENT'' s
           | Some i \<Rightarrow>
               (let spell_qty = (case spell_find (cl s idx) ing of
                                   Some j \<Rightarrow> snd (c_spellbook (cl s idx) ! j) | None \<Rightarrow> 0)
                in if spell_qty < qty then reply idx ''ERR INSUFFICIENT_INGREDIENTS'' s
                   else (let old_qty = stock_of s i;
                             s1 = s\<lparr>g_ingredients := upd_qty i (\<lambda>q. wrap32 (q - qty)) (g_ingredients s)\<rparr>;
                             s2 = upd_client idx (spell_sub ing qty) s1;
                             new_qty = stock_of s2 i
                         in log_event (Consumed (c_username (cl s2 idx)) ing qty old_qty new_qty)
                              (reply idx (snprintf 128 (''OK CONSUME '' @ ing @ '' '' @ int_dec qty @ '' '' @ int_dec new_qty)) s2)))))"

text \<open>A reply put together piece by piece in a buffer of \<open>cap\<close> bytes: the piece that does not fit
  is cut and ends the loop.\<close>

fun fill :: "nat \<Rightarrow> string \<Rightarrow> string list \<Rightarrow> string" where
  "fill cap buf [] = buf"
| "fill cap buf (p # ps) =
     (if length p \<ge> cap - length buf then buf @ snprintf (cap - length buf) p
      else fill cap (buf @ p) ps)"

definition pieces :: "string list \<Rightarrow> string list" where
  "pieces xs = (case xs of [] \<Rightarrow> [] | y # ys \<Rightarrow> y # map (\<lambda>x. CHR '','' # x) ys)"

definition entry_text :: "stock_entry \<Rightarrow> string" where
  "entry_text e = fst e @ '':'' @ int_dec (snd e)"

definition cmd_spellbook :: "nat \<Rightarrow> server \<Rightarrow> server" where
  "cmd_spellbook idx s =
     (if c_spellbook (cl s idx) = [] then reply idx ''OK SPELLBOOK EMPTY'' s
      else reply idx (fill MAX_LINE_LEN ''OK SPELLBOOK '' (pieces (map entry_text (c_spellbook (cl s idx))))) s)"

definition cmd_inspect :: "nat \<Rightarrow> string \<Rightarrow> server \<Rightarrow> server" where
  "cmd_inspect idx rest s =
     (case fst (strtok blanks rest) of
        None \<Rightarrow> reply idx ''ERR INSPECT bad_format'' s
      | Some ing \<Rightarrow>
          (case find_ingredient s ing of
             None \<Rightarrow> reply idx ''ERR UNKNOWN_INGREDIENT'' s
           | Some i \<Rightarrow>
               log_event (Inspected (c_username (cl s idx)) ing (stock_of s i))
                 (reply idx (snprintf 128 (''OK INSPECT '' @ ing @ '' '' @ int_dec (stock_of s i))) s)))"

definition cmd_scroll :: "nat \<Rightarrow> server \<Rightarrow> server" where
  "cmd_scroll idx s =
     log_event (Scrolled (c_username (cl s idx)) (length (g_ingredients s)))
       (reply idx (fill MAX_LINE_LEN ''OK SCROLL '' (pieces (map entry_text (g_ingredients s)))) s)"

definition enrolled_names :: "server \<Rightarrow> string list" where
  "enrolled_names s = map c_username (filter (\<lambda>c. \<not> c_fd c < 0 \<and> c_enrolled c) (g_clients s))"

text \<open>The count that is logged includes the name that did not fit.\<close>

fun fill_count :: "nat \<Rightarrow> string \<Rightarrow> string list \<Rightarrow> nat" where
  "fill_count cap buf [] = 0"
| "fill_count cap buf (p # ps) =
     (if length p \<ge> cap - length buf then 1 else 1 + fill_count cap (buf @ p) ps)"

definition cmd_roster :: "nat \<Rightarrow> server \<Rightarrow> server" where
  "cmd_roster idx s =
     (let names = pieces (enrolled_names s) in
      log_event (Roster_Sent (c_username (cl s idx)) (fill_count MAX_LINE_LEN ''OK ROSTER '' names))
        (reply idx (fill MAX_LINE_LEN ''OK ROSTER '' names) s))"

definition cmd_enroll :: "nat \<Rightarrow> string \<Rightarrow> server \<Rightarrow> server" where
  "cmd_enroll idx rest s =
     (if c_enrolled (cl s idx) then reply idx ''ERR ENROLL already_enrolled'' s
      else (case strtok blanks rest of (role, rest1) \<Rightarrow>
            case strtok blanks rest1 of (uname, rest2) \<Rightarrow>
              (case (role, uname) of
                 (Some r, Some u) \<Rightarrow>
                   if r \<noteq> ''WIZARD'' \<and> r \<noteq> ''PROFESSOR'' then reply idx ''ERR ENROLL bad_role'' s
                   else if length u = 0 \<or> length u \<ge> MAX_USERNAME_LEN then reply idx ''ERR ENROLL bad_format'' s
                   else if username_taken s u idx then reply idx ''ERR ENROLL name_taken'' s
                   else (let s1 = upd_client idx (\<lambda>c. c\<lparr>c_type := strncpy (MAX_TYPE_LEN - 1) r,
                                     c_username := strncpy (MAX_USERNAME_LEN - 1) u, c_enrolled := True\<rparr>) s;
                             c = cl s1 idx
                         in log_event (Client_Enrolled (c_username c) (c_type c) (c_fd c))
                              (reply idx (snprintf 128 (''OK ENROLL '' @ c_username c)) s1))
               | _ \<Rightarrow> reply idx ''ERR ENROLL bad_format'' s)))"

text \<open>\<open>handle_command\<close>: the new state and the reason to close the connection.\<close>

definition handle_command :: "nat \<Rightarrow> string \<Rightarrow> server \<Rightarrow> server \<times> string option" where
  "handle_command idx line s =
     (if line = [] then (s, None)
      else (case strtok blanks line of
              (None, _) \<Rightarrow> (s, None)
            | (Some cmd, rest) \<Rightarrow>
                if cmd = ''APPARATE'' then (reply idx ''OK APPARATE'' s, Some ''APPARATE'')
                else if cmd = ''ENROLL'' then (cmd_enroll idx rest s, None)
                else if \<not> c_enrolled (cl s idx) then (reply idx ''ERR NOT_ENROLLED'' s, None)
                else (let is_wizard = (c_type (cl s idx) = ''WIZARD'');
                          is_prof = (c_type (cl s idx) = ''PROFESSOR'');
                          unauthorized = reply idx ''ERR UNAUTHORIZED'' s
                      in (if cmd = ''BREW'' then (if is_wizard then cmd_brew idx rest s else unauthorized)
                          else if cmd = ''CONSUME'' then (if is_wizard then cmd_consume idx rest s else unauthorized)
                          else if cmd = ''SPELLBOOK'' then (if is_wizard then cmd_spellbook idx s else unauthorized)
                          else if cmd = ''INSPECT'' then (if is_prof then cmd_inspect idx rest s else unauthorized)
                          else if cmd = ''SCROLL'' then (if is_prof then cmd_scroll idx s else unauthorized)
                          else if cmd = ''ROSTER'' then (if is_prof then cmd_roster idx s else unauthorized)
                          else reply idx (snprintf 128 (''ERR UNKNOWN '' @ cmd)) s, None))))"

section \<open>The input of a client\<close>

text \<open>A line without its newline and a carriage return before it, up to a NUL byte.\<close>

definition input_line :: "string \<Rightarrow> string" where
  "input_line raw = cstr (if raw \<noteq> [] \<and> last raw = CR then butlast raw else raw)"

text \<open>The loop over the lines of the buffer; the buffer of a client that is removed is gone.\<close>

function serve_lines :: "nat \<Rightarrow> string \<Rightarrow> server \<Rightarrow> server" where
  "serve_lines idx buf s =
     (if LF \<notin> set buf then
        (if length buf = MAX_LINE_LEN then remove_client idx ''line_too_long'' (reply idx ''ERR TOOLONG'' s)
         else upd_client idx (\<lambda>c. c\<lparr>c_line_buf := buf\<rparr>) s)
      else (let raw = takeWhile (\<lambda>c. c \<noteq> LF) buf; buf' = drop (length raw + 1) buf in
            case handle_command idx (input_line raw) (upd_client idx (\<lambda>c. c\<lparr>c_line_buf := buf'\<rparr>) s) of
              (s', None) \<Rightarrow> serve_lines idx buf' s'
            | (s', Some reason) \<Rightarrow> remove_client idx reason s'))"
  by pat_completeness auto
termination
  by (relation "measure (\<lambda>(idx, buf, s). length buf)") (auto intro!: diff_less)

declare serve_lines.simps [simp del]

datatype read_result = Read_Eintr | Read_Error | Read_Bytes string

definition handle_client_input :: "nat \<Rightarrow> int \<Rightarrow> read_result \<Rightarrow> server \<Rightarrow> server" where
  "handle_client_input idx now r s =
     (let space = MAX_LINE_LEN - length (c_line_buf (cl s idx)) in
      if space = 0 then remove_client idx ''line_too_long'' (reply idx ''ERR TOOLONG'' s)
      else (case r of
              Read_Eintr \<Rightarrow> s
            | Read_Error \<Rightarrow> remove_client idx ''read_error'' s
            | Read_Bytes bs \<Rightarrow>
                (let got = take space bs in
                 if got = [] then remove_client idx ''hangup'' s
                 else serve_lines idx (c_line_buf (cl s idx) @ got)
                        (upd_client idx (\<lambda>c. c\<lparr>c_last_active := now\<rparr>) s))))"

section \<open>Timeouts and connections\<close>

fun idle_loop :: "int \<Rightarrow> nat list \<Rightarrow> server \<times> int \<Rightarrow> server \<times> int" where
  "idle_loop now [] sm = sm"
| "idle_loop now (i # is) (s, min_r) =
     (let c = cl s i in
      if c_fd c < 0 then idle_loop now is (s, min_r)
      else (let elapsed = (if now - c_last_active c < 0 then 0 else now - c_last_active c) in
            if elapsed \<ge> g_timeout_sec s then
              idle_loop now is
                (remove_client i ''timeout''
                   (send_line (c_fd c) ''TIMEOUT DISCONNECT''
                      (log_event (Client_Timeout (shown_name c) (c_fd c) elapsed) s)), min_r)
            else (let r = g_timeout_sec s - elapsed in idle_loop now is (s, if r < min_r then r else min_r))))"

definition check_idle_timeouts :: "int \<Rightarrow> server \<Rightarrow> server \<times> int" where
  "check_idle_timeouts now s =
     (case idle_loop now [0..<length (g_clients s)] (s, g_timeout_sec s) of
        (s', min_r) \<Rightarrow> (s', if min_r < 1 then 1 else min_r))"

text \<open>\<open>accept\<close> gives a descriptor and the address of the peer, or fails.\<close>

definition accept_new_connection :: "int \<Rightarrow> (int \<times> string) option \<Rightarrow> server \<Rightarrow> server" where
  "accept_new_connection now peer s =
     (case peer of
        None \<Rightarrow> s
      | Some (cfd, ip_str) \<Rightarrow>
          (let s0 = s\<lparr>g_accepted := g_accepted s @ [cfd]\<rparr> in
           case find_free_slot s0 of
             None \<Rightarrow> close_fd cfd (log_event (Client_Rejected cfd ip_str) (send_line cfd ''ERR HOGWARTS_FULL'' s0))
           | Some slot \<Rightarrow>
               log_event (Client_Connected cfd ip_str)
                 (upd_client slot (\<lambda>c. c\<lparr>c_fd := cfd, c_last_active := now, c_ip := strncpy 15 ip_str\<rparr>)
                    (reset_client_slot slot s0))))"

text \<open>What \<open>select\<close> returns: interrupted, failed, timed out, or descriptors that can be read.  The
  third component gives for a descriptor that is ready what \<open>read\<close> will return.\<close>

datatype select_result =
  Sel_Eintr | Sel_Error | Sel_Timeout | Sel_Ready bool "(int \<times> string) option" "int \<Rightarrow> read_result option"

fun serve_clients :: "int \<Rightarrow> int list \<Rightarrow> (int \<Rightarrow> read_result option) \<Rightarrow> nat list \<Rightarrow> server \<Rightarrow> server" where
  "serve_clients now rfds ready [] s = s"
| "serve_clients now rfds ready (i # is) s =
     (let fd = c_fd (cl s i) in
      if fd < 0 then serve_clients now rfds ready is s
      else if fd \<notin> set rfds then serve_clients now rfds ready is s
      else (case ready fd of
              None \<Rightarrow> serve_clients now rfds ready is s
            | Some r \<Rightarrow> serve_clients now rfds ready is (handle_client_input i now r s)))"

definition open_fds :: "server \<Rightarrow> int list" where
  "open_fds s = filter (\<lambda>fd. fd \<ge> 0) (map c_fd (g_clients s))"

text \<open>One pass of the loop of \<open>run_server\<close> and whether the loop goes on.\<close>

definition server_round :: "int \<Rightarrow> int \<Rightarrow> select_result \<Rightarrow> server \<Rightarrow> server \<times> bool" where
  "server_round t1 t2 sel s =
     (case check_idle_timeouts t1 s of
        (s1, remain) \<Rightarrow>
          (case sel of
             Sel_Eintr \<Rightarrow> (s1, True)
           | Sel_Error \<Rightarrow> (s1, False)
           | Sel_Timeout \<Rightarrow> (s1, True)
           | Sel_Ready listening peer ready \<Rightarrow>
               (let rfds = open_fds s1;
                    s2 = (if listening then accept_new_connection t2 peer s1 else s1)
                in (serve_clients t2 rfds ready [0..<length (g_clients s2)] s2, True))))"

definition shutdown_clients :: "server \<Rightarrow> server" where
  "shutdown_clients s =
     log_event Cleanup_Done (log_event Server_Shutdown
       (foldl (\<lambda>s i. if c_fd (cl s i) \<ge> 0
                     then reset_client_slot i (close_fd (c_fd (cl s i)) (send_line (c_fd (cl s i)) ''SERVER SHUTDOWN'' s))
                     else s)
          s [0..<length (g_clients s)]))"

text \<open>The whole of \<open>run_server\<close> on the answers of the system, one for each pass: the loop ends when
  \<open>select\<close> fails or when the answers end because SIGINT has set the flag.\<close>

fun run_server :: "(int \<times> int \<times> select_result) list \<Rightarrow> server \<Rightarrow> server" where
  "run_server [] s = shutdown_clients s"
| "run_server ((t1, t2, sel) # rest) s =
     (case server_round t1 t2 sel s of
        (s', True) \<Rightarrow> run_server rest s'
      | (s', False) \<Rightarrow> shutdown_clients s')"

text \<open>\<open>main\<close> up to the loop: \<open>fopen\<close> gives the content of a readable file, \<open>ok\<close> is false when the
  log file, the memory, the signal handlers or the socket are not to be had.\<close>

definition start_server :: "(string \<Rightarrow> string option) \<Rightarrow> bool \<Rightarrow> string list \<Rightarrow> server option" where
  "start_server fopen ok argv =
     (case parse_args argv of
        None \<Rightarrow> None
      | Some c \<Rightarrow>
          (case load_ingredients (fopen (the (ingredients_path c))) of
             None \<Rightarrow> None
           | Some stock \<Rightarrow>
               if \<not> ok then None
               else Some (log_event (Server_Started (cfg_port c) (cfg_max_clients c) (cfg_timeout_sec c) (length stock))
                      \<lparr>g_ingredients = stock, g_clients = replicate (nat (cfg_max_clients c)) free_client,
                       g_timeout_sec = cfg_timeout_sec c, g_sent = [], g_log = [], g_accepted = [], g_closed = []\<rparr>)))"

text \<open>The states of the server between the passes of its loop.  \<open>accept\<close> returns a descriptor that is not open.\<close>

definition peer_ok :: "server \<Rightarrow> select_result \<Rightarrow> bool" where
  "peer_ok s sel =
     (case sel of
        Sel_Ready True (Some (fd, ip)) ready \<Rightarrow> fd \<ge> 0 \<and> fd \<notin> set (open_fds s)
      | _ \<Rightarrow> True)"

inductive hog_reach :: "server \<Rightarrow> server \<Rightarrow> bool" for s0 where
  hog_init: "hog_reach s0 s0"
| hog_round: "hog_reach s0 s \<Longrightarrow> peer_ok (fst (check_idle_timeouts t1 s)) sel \<Longrightarrow>
    hog_reach s0 (fst (server_round t1 t2 sel s))"

end
