(* ===== verification/Hogwarts_Stock.thy ===== *)
theory Hogwarts_Stock
  imports Hogwarts_Commands
begin

text \<open>
  The accounts of the server: what the log says was brewed and consumed of an ingredient, what the
  spellbooks hold, and how the two table operations change them.
\<close>

section \<open>Frames\<close>

lemma send_line_frame [simp]:
  "g_ingredients (send_line fd l s) = g_ingredients s" "g_clients (send_line fd l s) = g_clients s"
  "g_timeout_sec (send_line fd l s) = g_timeout_sec s" "g_log (send_line fd l s) = g_log s"
  "g_accepted (send_line fd l s) = g_accepted s" "g_closed (send_line fd l s) = g_closed s"
  "g_sent (send_line fd l s) = g_sent s @ [(fd, line_out l)]"
  by (simp_all add: send_line_def)

lemma reply_frame [simp]:
  "g_ingredients (reply i l s) = g_ingredients s" "g_clients (reply i l s) = g_clients s"
  "g_timeout_sec (reply i l s) = g_timeout_sec s" "g_log (reply i l s) = g_log s"
  "g_accepted (reply i l s) = g_accepted s" "g_closed (reply i l s) = g_closed s"
  "g_sent (reply i l s) = g_sent s @ [(c_fd (cl s i), line_out l)]"
  by (simp_all add: reply_def)

lemma log_event_frame [simp]:
  "g_ingredients (log_event e s) = g_ingredients s" "g_clients (log_event e s) = g_clients s"
  "g_timeout_sec (log_event e s) = g_timeout_sec s" "g_sent (log_event e s) = g_sent s"
  "g_accepted (log_event e s) = g_accepted s" "g_closed (log_event e s) = g_closed s"
  "g_log (log_event e s) = g_log s @ [e]"
  by (simp_all add: log_event_def)

lemma close_fd_frame [simp]:
  "g_ingredients (close_fd fd s) = g_ingredients s" "g_clients (close_fd fd s) = g_clients s"
  "g_timeout_sec (close_fd fd s) = g_timeout_sec s" "g_sent (close_fd fd s) = g_sent s"
  "g_accepted (close_fd fd s) = g_accepted s" "g_log (close_fd fd s) = g_log s"
  "g_closed (close_fd fd s) = g_closed s @ [fd]"
  by (simp_all add: close_fd_def)

lemma upd_client_frame [simp]:
  "g_ingredients (upd_client i f s) = g_ingredients s" "g_timeout_sec (upd_client i f s) = g_timeout_sec s"
  "g_sent (upd_client i f s) = g_sent s" "g_log (upd_client i f s) = g_log s"
  "g_accepted (upd_client i f s) = g_accepted s" "g_closed (upd_client i f s) = g_closed s"
  "g_clients (upd_client i f s) = (g_clients s)[i := f (cl s i)]"
  by (simp_all add: upd_client_def)

lemma reset_slot_frame [simp]:
  "g_ingredients (reset_client_slot i s) = g_ingredients s" "g_timeout_sec (reset_client_slot i s) = g_timeout_sec s"
  "g_sent (reset_client_slot i s) = g_sent s" "g_log (reset_client_slot i s) = g_log s"
  "g_accepted (reset_client_slot i s) = g_accepted s" "g_closed (reset_client_slot i s) = g_closed s"
  "g_clients (reset_client_slot i s) = (g_clients s)[i := free_client]"
  by (simp_all add: reset_client_slot_def)

section \<open>Tables\<close>

lemma index_of_None: "index_of n es = None \<longleftrightarrow> n \<notin> fst ` set es"
  by (induction es) auto

lemma index_of_Some: "index_of n es = Some i \<Longrightarrow> i < length es \<and> fst (es ! i) = n \<and> n \<in> fst ` set es"
  by (induction es arbitrary: i) (auto split: if_splits simp: nth_Cons')

definition qty_of :: "stock_entry list \<Rightarrow> string \<Rightarrow> int" where
  "qty_of es n = (case map_of es n of None \<Rightarrow> 0 | Some q \<Rightarrow> q)"

lemma qty_of_Nil [simp]: "qty_of [] n = 0"
  by (simp add: qty_of_def)

lemma map_of_nth: "distinct (map fst es) \<Longrightarrow> i < length es \<Longrightarrow> map_of es (fst (es ! i)) = Some (snd (es ! i))"
  by (metis map_of_is_SomeI nth_mem prod.collapse)

lemma qty_of_nth: "distinct (map fst es) \<Longrightarrow> i < length es \<Longrightarrow> qty_of es (fst (es ! i)) = snd (es ! i)"
  by (simp add: qty_of_def map_of_nth)

lemma qty_of_index: "distinct (map fst es) \<Longrightarrow> index_of n es = Some i \<Longrightarrow> qty_of es n = snd (es ! i)"
  using index_of_Some [of n es i] qty_of_nth [of es i] by simp

lemma upd_qty_names [simp]: "map fst (upd_qty i f es) = map fst es" "length (upd_qty i f es) = length es"
proof -
  show "map fst (upd_qty i f es) = map fst es"
    by (cases "i < length es") (auto simp: upd_qty_def map_update list_update_beyond intro!: nth_equalityI simp: nth_list_update)
qed (simp add: upd_qty_def)

lemma upd_qty_nth: "i < length es \<Longrightarrow> upd_qty i f es ! j = (if j = i then (fst (es ! i), f (snd (es ! i))) else es ! j)"
  by (simp add: upd_qty_def)

lemma map_of_upd:
  assumes "distinct (map fst es)" "i < length es"
  shows "map_of (es[i := (fst (es ! i), q)]) = (map_of es)(fst (es ! i) \<mapsto> q)"
  using assms
proof (induction es arbitrary: i)
  case (Cons e es)
  show ?case
  proof (cases i)
    case 0
    then show ?thesis by (cases e) auto
  next
    case (Suc j)
    then have "fst e \<noteq> fst (es ! j)" using Cons.prems imageI [OF nth_mem [of j es], of fst] by (simp del: nth_mem) metis
    then show ?thesis using Cons Suc by (cases e) (auto simp: fun_eq_iff)
  qed
qed simp

lemma qty_of_upd:
  assumes "distinct (map fst es)" "index_of n es = Some i"
  shows "qty_of (upd_qty i f es) = (qty_of es)(n := f (qty_of es n))"
proof -
  have i: "i < length es" "fst (es ! i) = n" using index_of_Some [OF assms(2)] by auto
  then show ?thesis
    using map_of_upd [OF assms(1) i(1), of "f (snd (es ! i))"] qty_of_index [OF assms]
    by (simp add: qty_of_def upd_qty_def fun_eq_iff)
qed

text \<open>Removing entry \<open>i\<close> by moving the last one into its place.\<close>

lemma mset_move_last:
  assumes "i < length es"
  shows "mset (butlast (es[i := last es])) + {#es ! i#} = mset es"
proof (cases es rule: rev_cases)
  case (snoc ys y)
  show ?thesis
  proof (cases "i = length ys")
    case True
    then show ?thesis by (simp add: snoc butlast_snoc list_update_append)
  next
    case False
    then have "i < length ys" using assms snoc by simp
    then show ?thesis by (simp add: snoc list_update_append butlast_append nth_append mset_update)
  qed
qed (use assms in simp)

lemma move_last_table:
  assumes "distinct (map fst es)" "i < length es"
  shows "distinct (map fst (butlast (es[i := last es])))"
    "set (butlast (es[i := last es])) = set es - {es ! i}"
proof -
  have m: "mset (butlast (es[i := last es])) + {#es ! i#} = mset es" by (rule mset_move_last [OF assms(2)])
  have "mset (fst (es ! i) # map fst (butlast (es[i := last es]))) = mset (map fst es)"
    using arg_cong [OF m, of "image_mset fst"] by simp
  then have d: "distinct (fst (es ! i) # map fst (butlast (es[i := last es])))"
    using assms(1) by (metis mset_eq_imp_distinct_iff)
  then show "distinct (map fst (butlast (es[i := last es])))" by simp
  have "set es = insert (es ! i) (set (butlast (es[i := last es])))"
    using arg_cong [OF m, of set_mset] by simp
  moreover have "es ! i \<notin> set (butlast (es[i := last es]))" using d by auto
  ultimately show "set (butlast (es[i := last es])) = set es - {es ! i}" by auto
qed

lemma qty_of_move_last:
  assumes "distinct (map fst es)" "i < length es"
  shows "qty_of (butlast (es[i := last es])) = (qty_of es)(fst (es ! i) := 0)"
proof
  fix n
  note t = move_last_table [OF assms]
  show "qty_of (butlast (es[i := last es])) n = ((qty_of es)(fst (es ! i) := 0)) n"
  proof (cases "n = fst (es ! i)")
    case True
    have "map_of (butlast (es[i := last es])) n = None"
      using t(2) assms True by (auto simp: map_of_eq_None_iff distinct_map inj_on_def)
    then show ?thesis using True by (simp add: qty_of_def)
  next
    case False
    have "map_of (butlast (es[i := last es])) n = map_of es n"
    proof (rule option.expand)
      show "(map_of (butlast (es[i := last es])) n = None) = (map_of es n = None)"
        using t(2) False by (force simp: map_of_eq_None_iff)
    next
      assume "map_of (butlast (es[i := last es])) n \<noteq> None" "map_of es n \<noteq> None"
      then obtain a b where "map_of (butlast (es[i := last es])) n = Some a" "map_of es n = Some b" by auto
      then have "(n, a) \<in> set es" "map_of es n = Some b" using t map_of_SomeD by fastforce+
      then have "a = b" using assms(1) by simp
      then show "the (map_of (butlast (es[i := last es])) n) = the (map_of es n)"
        using \<open>map_of (butlast (es[i := last es])) n = Some a\<close> \<open>map_of es n = Some b\<close> by simp
    qed
    then show ?thesis using False by (simp add: qty_of_def)
  qed
qed

section \<open>Spellbooks\<close>

definition book_ok :: "string set \<Rightarrow> client \<Rightarrow> bool" where
  "book_ok names c \<longleftrightarrow> distinct (map fst (c_spellbook c)) \<and> fst ` set (c_spellbook c) \<subseteq> names \<and>
     length (c_spellbook c) \<le> MAX_SPELLBOOK_ENTRIES"

lemma spell_add_frame [simp]:
  "c_fd (spell_add n q c) = c_fd c" "c_username (spell_add n q c) = c_username c" "c_type (spell_add n q c) = c_type c"
  "c_enrolled (spell_add n q c) = c_enrolled c" "c_line_buf (spell_add n q c) = c_line_buf c"
  "c_last_active (spell_add n q c) = c_last_active c"
  by (simp_all add: spell_add_def split: option.splits)

lemma spell_sub_frame [simp]:
  "c_fd (spell_sub n q c) = c_fd c" "c_username (spell_sub n q c) = c_username c" "c_type (spell_sub n q c) = c_type c"
  "c_enrolled (spell_sub n q c) = c_enrolled c" "c_line_buf (spell_sub n q c) = c_line_buf c"
  "c_last_active (spell_sub n q c) = c_last_active c"
  by (simp_all add: spell_sub_def Let_def split: option.splits)

lemma spell_add_book:
  assumes ok: "book_ok names c" and n: "n \<in> names" "length n < MAX_INGREDIENT_LEN" and q: "int_min \<le> q" "q \<le> int_max"
  shows "book_ok names (spell_add n q c)"
    "qty_of (c_spellbook (spell_add n q c)) =
       (if n \<notin> fst ` set (c_spellbook c) \<and> MAX_SPELLBOOK_ENTRIES \<le> length (c_spellbook c) then qty_of (c_spellbook c)
        else (qty_of (c_spellbook c))(n := wrap32 (qty_of (c_spellbook c) n + q)))"
proof -
  have d: "distinct (map fst (c_spellbook c))" using ok by (simp add: book_ok_def)
  have "book_ok names (spell_add n q c) \<and> qty_of (c_spellbook (spell_add n q c)) =
       (if n \<notin> fst ` set (c_spellbook c) \<and> MAX_SPELLBOOK_ENTRIES \<le> length (c_spellbook c) then qty_of (c_spellbook c)
        else (qty_of (c_spellbook c))(n := wrap32 (qty_of (c_spellbook c) n + q)))"
  proof (cases "index_of n (c_spellbook c)")
    case (Some i)
    then have "n \<in> fst ` set (c_spellbook c)" using index_of_Some by blast
    moreover have "fst ` set (upd_qty i f (c_spellbook c)) = fst ` set (c_spellbook c)" for f
      using upd_qty_names(1) [of i f "c_spellbook c"] by (metis set_map)
    ultimately show ?thesis
      using ok qty_of_upd [OF d Some] by (simp add: spell_add_def spell_find_def Some book_ok_def)
  next
    case None
    then have new: "n \<notin> fst ` set (c_spellbook c)" by (simp add: index_of_None)
    show ?thesis
    proof (cases "MAX_SPELLBOOK_ENTRIES \<le> length (c_spellbook c)")
      case True
      then show ?thesis using ok new by (simp add: spell_add_def spell_find_def None)
    next
      case False
      have z: "map_of (c_spellbook c) n = None" using new by (simp add: map_of_eq_None_iff)
      have "qty_of (c_spellbook c @ [(n, q)]) = (qty_of (c_spellbook c))(n := q)"
      proof
        fix x show "qty_of (c_spellbook c @ [(n, q)]) x = ((qty_of (c_spellbook c))(n := q)) x"
          using z by (cases "map_of (c_spellbook c) x") (auto simp: qty_of_def map_add_def)
      qed
      moreover have "qty_of (c_spellbook c) n = 0" using z by (simp add: qty_of_def)
      ultimately show ?thesis
        using ok new n False q wrap32_id [of q]
        by (simp add: spell_add_def spell_find_def None book_ok_def MAX_INGREDIENT_LEN_def)
    qed
  qed
  then show "book_ok names (spell_add n q c)" "qty_of (c_spellbook (spell_add n q c)) =
       (if n \<notin> fst ` set (c_spellbook c) \<and> MAX_SPELLBOOK_ENTRIES \<le> length (c_spellbook c) then qty_of (c_spellbook c)
        else (qty_of (c_spellbook c))(n := wrap32 (qty_of (c_spellbook c) n + q)))" by auto
qed

lemma spell_sub_book:
  assumes ok: "book_ok names c" and n: "index_of n (c_spellbook c) = Some i"
  shows "book_ok names (spell_sub n q c)"
    "qty_of (c_spellbook (spell_sub n q c)) = (qty_of (c_spellbook c))(n := max 0 (wrap32 (qty_of (c_spellbook c) n - q)))"
proof -
  have d: "distinct (map fst (c_spellbook c))" using ok by (simp add: book_ok_def)
  let ?f = "\<lambda>x. let q' = wrap32 (x - q) in if q' < 0 then 0 else q'"
  let ?b = "upd_qty i ?f (c_spellbook c)"
  have f: "?f x = max 0 (wrap32 (x - q))" for x by (simp add: Let_def max_def)
  have i: "i < length (c_spellbook c)" "fst (c_spellbook c ! i) = n" using index_of_Some [OF n] by auto
  have db: "distinct (map fst ?b)" "i < length ?b" using d i by simp_all
  have qb: "qty_of ?b = (qty_of (c_spellbook c))(n := max 0 (wrap32 (qty_of (c_spellbook c) n - q)))"
    unfolding f [symmetric] by (rule qty_of_upd [OF d n])
  have names: "fst ` set ?b = fst ` set (c_spellbook c)" using upd_qty_names(1) [of i ?f "c_spellbook c"] by (metis set_map)
  have bi: "fst (?b ! i) = n" using i by (simp add: upd_qty_nth)
  have v: "snd (?b ! i) = qty_of ?b n" using qty_of_nth [OF db] bi by simp
  have eq: "spell_sub n q c = (if snd (?b ! i) = 0 then c\<lparr>c_spellbook := butlast (?b[i := last ?b])\<rparr> else c\<lparr>c_spellbook := ?b\<rparr>)"
    by (simp only: spell_sub_def spell_find_def n option.case Let_def)
  have "book_ok names (spell_sub n q c) \<and>
    qty_of (c_spellbook (spell_sub n q c)) = (qty_of (c_spellbook c))(n := max 0 (wrap32 (qty_of (c_spellbook c) n - q)))"
  proof (cases "snd (?b ! i) = 0")
    case False
    then show ?thesis using ok qb names d by (simp add: eq book_ok_def)
  next
    case True
    have "qty_of (butlast (?b[i := last ?b])) = (qty_of ?b)(n := 0)" using qty_of_move_last [OF db] bi by simp
    also have "\<dots> = qty_of ?b" using v True by auto
    finally have "qty_of (butlast (?b[i := last ?b])) = (qty_of (c_spellbook c))(n := max 0 (wrap32 (qty_of (c_spellbook c) n - q)))"
      using qb by simp
    moreover have "fst ` set (butlast (?b[i := last ?b])) \<subseteq> fst ` set (c_spellbook c)"
      using move_last_table(2) [OF db] names by auto
    moreover have "length (butlast (?b[i := last ?b])) \<le> length (c_spellbook c)" by simp
    moreover have "spell_sub n q c = c\<lparr>c_spellbook := butlast (?b[i := last ?b])\<rparr>" by (simp only: eq True simp_thms if_True)
    ultimately show ?thesis
      using ok move_last_table(1) [OF db] unfolding book_ok_def by force
  qed
  then show "book_ok names (spell_sub n q c)" "qty_of (c_spellbook (spell_sub n q c)) =
    (qty_of (c_spellbook c))(n := max 0 (wrap32 (qty_of (c_spellbook c) n - q)))" by auto
qed

end
