(* ===== verification/Hogwarts_Invariants.thy ===== *)
theory Hogwarts_Invariants
  imports Hogwarts_Stock Runs
begin

text \<open>
  The invariant of the Hogwarts server: which clients a table can hold, no name twice among those
  enrolled, every descriptor closed once, and the stock in accordance with the log and the
  spellbooks.
\<close>

section \<open>The invariant\<close>

fun brewed_in :: "string \<Rightarrow> hog_event \<Rightarrow> int" where
  "brewed_in n (Brewed u i q q0 q1) = (if i = n then q else 0)"
| "brewed_in n _ = 0"

fun consumed_in :: "string \<Rightarrow> hog_event \<Rightarrow> int" where
  "consumed_in n (Consumed u i q q0 q1) = (if i = n then q else 0)"
| "consumed_in n _ = 0"

definition brewed :: "server \<Rightarrow> string \<Rightarrow> int" where
  "brewed s n = (\<Sum>ev\<leftarrow>g_log s. brewed_in n ev)"

definition consumed :: "server \<Rightarrow> string \<Rightarrow> int" where
  "consumed s n = (\<Sum>ev\<leftarrow>g_log s. consumed_in n ev)"

definition spell_total :: "server \<Rightarrow> string \<Rightarrow> int" where
  "spell_total s n = (\<Sum>c\<leftarrow>g_clients s. qty_of (c_spellbook c) n)"

definition quiet :: "hog_event \<Rightarrow> bool" where
  "quiet ev \<longleftrightarrow> (\<forall>n. brewed_in n ev = 0 \<and> consumed_in n ev = 0)"

lemma quiet_events [simp]:
  "quiet (Client_Connected fd ip)" "quiet (Client_Disconnected u r)" "quiet (Client_Rejected fd ip)"
  "quiet (Client_Timeout u fd t)" "quiet (Client_Enrolled u ty fd)" "quiet (Inspected u i q)" "quiet (Scrolled u k)"
  "quiet (Roster_Sent u k)" "quiet (Server_Started p m t k)" "quiet Server_Shutdown" "quiet Cleanup_Done"
  by (simp_all add: quiet_def)

definition client_ok :: "string set \<Rightarrow> client \<Rightarrow> bool" where
  "client_ok names c \<longleftrightarrow> (c_fd c < 0 \<longrightarrow> c = free_client) \<and> book_ok names c \<and>
     (c_enrolled c \<longrightarrow> (c_type c = ''WIZARD'' \<or> c_type c = ''PROFESSOR'') \<and>
        0 < length (c_username c) \<and> length (c_username c) < MAX_USERNAME_LEN) \<and>
     (c_spellbook c \<noteq> [] \<longrightarrow> c_enrolled c \<and> c_type c = ''WIZARD'')"

definition users_ok :: "client list \<Rightarrow> bool" where
  "users_ok cs \<longleftrightarrow> (\<forall>i < length cs. \<forall>j < length cs. i \<noteq> j \<and> 0 \<le> c_fd (cs ! i) \<and> 0 \<le> c_fd (cs ! j) \<and>
     c_enrolled (cs ! i) \<and> c_enrolled (cs ! j) \<longrightarrow> c_username (cs ! i) \<noteq> c_username (cs ! j))"

definition names_of :: "server \<Rightarrow> string set" where
  "names_of s0 = fst ` set (g_ingredients s0)"

text \<open>The account of ingredient \<open>i\<close>; what the spellbooks hold is covered as long as the stock has not
  left the range of an int.\<close>

definition account :: "server \<Rightarrow> server \<Rightarrow> nat \<Rightarrow> bool" where
  "account s0 s i \<longleftrightarrow>
     (let n = fst (g_ingredients s0 ! i); q0 = snd (g_ingredients s0 ! i) in
      stock_of s i = wrap32 (q0 + brewed s n - consumed s n) \<and> 0 \<le> brewed s n \<and> 0 \<le> consumed s n \<and>
      (q0 + brewed s n \<le> int_max \<longrightarrow>
         (\<forall>c \<in> set (g_clients s). 0 \<le> qty_of (c_spellbook c) n) \<and> spell_total s n \<le> brewed s n - consumed s n))"

definition hog_inv :: "server \<Rightarrow> server \<Rightarrow> bool" where
  "hog_inv s0 s \<longleftrightarrow>
     map fst (g_ingredients s) = map fst (g_ingredients s0) \<and> length (g_clients s) = length (g_clients s0) \<and>
     g_timeout_sec s = g_timeout_sec s0 \<and> (\<forall>c \<in> set (g_clients s). client_ok (names_of s0) c) \<and>
     users_ok (g_clients s) \<and> distinct (open_fds s) \<and>
     mset (g_accepted s) = mset (g_closed s) + mset (open_fds s) \<and>
     (\<forall>i < length (g_ingredients s0). account s0 s i)"

definition start_ok :: "server \<Rightarrow> bool" where
  "start_ok s0 \<longleftrightarrow> distinct (map fst (g_ingredients s0)) \<and>
     (\<forall>e \<in> set (g_ingredients s0). length (fst e) < MAX_INGREDIENT_LEN \<and> 0 < snd e \<and> snd e \<le> int_max) \<and>
     (\<forall>c \<in> set (g_clients s0). c = free_client) \<and> list_all quiet (g_log s0) \<and> g_accepted s0 = [] \<and> g_closed s0 = []"

lemma hog_invD:
  assumes "hog_inv s0 s"
  shows "map fst (g_ingredients s) = map fst (g_ingredients s0)" "length (g_clients s) = length (g_clients s0)"
    "g_timeout_sec s = g_timeout_sec s0" "c \<in> set (g_clients s) \<Longrightarrow> client_ok (names_of s0) c"
    "users_ok (g_clients s)" "distinct (open_fds s)" "mset (g_accepted s) = mset (g_closed s) + mset (open_fds s)"
    "i < length (g_ingredients s0) \<Longrightarrow> account s0 s i" "length (g_ingredients s) = length (g_ingredients s0)"
  using assms by (auto simp: hog_inv_def dest: map_eq_imp_length_eq)

lemma quiet_sums: "list_all quiet evs \<Longrightarrow> (\<Sum>ev\<leftarrow>evs. brewed_in n ev) = 0 \<and> (\<Sum>ev\<leftarrow>evs. consumed_in n ev) = 0"
  by (induction evs) (auto simp: quiet_def)

section \<open>One client changes\<close>

lemma open_fds_clients: "open_fds s = filter (\<lambda>fd. 0 \<le> fd) (map c_fd (g_clients s))"
  by (simp add: open_fds_def)

lemma open_fds_same: "map c_fd (g_clients s') = map c_fd (g_clients s) \<Longrightarrow> open_fds s' = open_fds s"
  by (simp add: open_fds_def)

lemma mset_open_upd:
  assumes "i < length cs"
  shows "mset (filter (\<lambda>fd. 0 \<le> fd) (map c_fd (cs[i := c]))) + (if 0 \<le> c_fd (cs ! i) then {#c_fd (cs ! i)#} else {#}) =
    mset (filter (\<lambda>fd. 0 \<le> fd) (map c_fd cs)) + (if 0 \<le> c_fd c then {#c_fd c#} else {#})"
  using assms
proof (induction cs arbitrary: i)
  case (Cons a cs)
  show ?case
  proof (cases i)
    case (Suc j)
    then show ?thesis using Cons.IH [of j] Cons.prems by auto
  qed (use Cons in auto)
qed simp

text \<open>\<open>same_book\<close> compares the quantities of two spellbooks.\<close>

lemma account_quiet:
  assumes acc: "account s0 s i" and ing: "g_ingredients s' = g_ingredients s"
    and lg: "g_log s' = g_log s @ evs" "list_all quiet evs"
    and cs: "g_clients s' = (g_clients s)[k := c]" and k: "k < length (g_clients s)"
    and book: "\<And>n. qty_of (c_spellbook c) n = qty_of (c_spellbook (cl s k)) n \<or> qty_of (c_spellbook c) n = 0"
  shows "account s0 s' i"
proof -
  let ?n = "fst (g_ingredients s0 ! i)"
  have b: "brewed s' ?n = brewed s ?n" "consumed s' ?n = consumed s ?n"
    using lg quiet_sums [OF lg(2)] by (simp_all add: brewed_def consumed_def)
  have "0 \<le> qty_of (c_spellbook x) ?n" if "\<forall>x \<in> set (g_clients s). 0 \<le> qty_of (c_spellbook x) ?n" "x \<in> set (g_clients s')" for x
  proof -
    have "x = c \<or> x \<in> set (g_clients s)" using that(2) cs set_update_subset_insert by fastforce
    then show ?thesis using that(1) book [of ?n] nth_mem [OF k] by auto
  qed
  moreover have "spell_total s' ?n \<le> spell_total s ?n" if "0 \<le> qty_of (c_spellbook (cl s k)) ?n"
    using sum_list_upd [OF k, of "\<lambda>c. qty_of (c_spellbook c) ?n" c] book [of ?n] that by (auto simp: spell_total_def cs)
  ultimately show ?thesis
    using acc b k ing nth_mem [OF k] unfolding account_def Let_def stock_of_def by fastforce
qed

lemma users_upd:
  assumes "users_ok cs"
    and "c_fd c < 0 \<or> \<not> c_enrolled c \<or>
      (\<forall>j < length cs. j \<noteq> i \<longrightarrow> 0 \<le> c_fd (cs ! j) \<longrightarrow> c_enrolled (cs ! j) \<longrightarrow> c_username (cs ! j) \<noteq> c_username c)"
  shows "users_ok (cs[i := c])"
  unfolding users_ok_def
proof (intro allI impI, elim conjE)
  fix k j assume kj: "k < length (cs[i := c])" "j < length (cs[i := c])" "k \<noteq> j" "0 \<le> c_fd (cs[i := c] ! k)"
    "0 \<le> c_fd (cs[i := c] ! j)" "c_enrolled (cs[i := c] ! k)" "c_enrolled (cs[i := c] ! j)"
  show "c_username (cs[i := c] ! k) \<noteq> c_username (cs[i := c] ! j)"
    using assms kj unfolding users_ok_def by (cases "k = i"; cases "j = i") auto
qed

lemma inv_client:
  assumes inv: "hog_inv s0 s" and k: "k < length (g_clients s)"
    and s': "g_ingredients s' = g_ingredients s" "g_timeout_sec s' = g_timeout_sec s"
      "g_clients s' = (g_clients s)[k := c]" "g_log s' = g_log s @ evs" "list_all quiet evs"
    and ok: "client_ok (names_of s0) c"
    and book: "\<And>n. qty_of (c_spellbook c) n = qty_of (c_spellbook (cl s k)) n \<or> qty_of (c_spellbook c) n = 0"
    and user: "users_ok ((g_clients s)[k := c])"
    and fds: "distinct (open_fds s')" "mset (g_accepted s') = mset (g_closed s') + mset (open_fds s')"
  shows "hog_inv s0 s'"
proof -
  have "client_ok (names_of s0) x" if "x \<in> set (g_clients s')" for x
    using that set_update_subset_insert hog_invD(4) [OF inv] ok s'(3) by fastforce
  moreover have "account s0 s' i" if "i < length (g_ingredients s0)" for i
    using account_quiet [OF hog_invD(8) [OF inv that] s'(1,4,5,3) k book] .
  ultimately show ?thesis
    using inv s' user fds by (simp add: hog_inv_def)
qed

text \<open>The client keeps its connection.\<close>

lemma inv_keep:
  assumes inv: "hog_inv s0 s" and k: "k < length (g_clients s)"
    and s': "g_ingredients s' = g_ingredients s" "g_timeout_sec s' = g_timeout_sec s"
      "g_clients s' = (g_clients s)[k := c]" "g_log s' = g_log s @ evs" "list_all quiet evs"
      "g_accepted s' = g_accepted s" "g_closed s' = g_closed s"
    and ok: "client_ok (names_of s0) c" "c_fd c = c_fd (cl s k)" "c_spellbook c = c_spellbook (cl s k)"
    and user: "users_ok ((g_clients s)[k := c])"
  shows "hog_inv s0 s'"
proof (rule inv_client [OF inv k s'(1-5) ok(1) _ user])
  have "map c_fd (g_clients s') = map c_fd (g_clients s)"
    using s'(3) ok(2) k by (auto intro!: nth_equalityI simp: nth_list_update)
  then have "open_fds s' = open_fds s" by (rule open_fds_same)
  then show "distinct (open_fds s')" "mset (g_accepted s') = mset (g_closed s') + mset (open_fds s')"
    using hog_invD(6,7) [OF inv] s'(6,7) by simp_all
  show "qty_of (c_spellbook c) n = qty_of (c_spellbook (cl s k)) n \<or> qty_of (c_spellbook c) n = 0" for n
    using ok(3) by simp
qed

lemma inv_say:
  assumes "hog_inv s0 s" "g_ingredients s' = g_ingredients s" "g_timeout_sec s' = g_timeout_sec s"
      "g_clients s' = g_clients s" "g_log s' = g_log s @ evs" "list_all quiet evs"
      "g_accepted s' = g_accepted s" "g_closed s' = g_closed s"
  shows "hog_inv s0 s'"
proof -
  have "brewed s' n = brewed s n" "consumed s' n = consumed s n" "spell_total s' n = spell_total s n" for n
    using assms(4,5) quiet_sums [OF assms(6)] by (simp_all add: brewed_def consumed_def spell_total_def)
  then have "account s0 s' i = account s0 s i" for i
    using assms(2,4) by (simp add: account_def stock_of_def)
  then show ?thesis using assms by (simp add: hog_inv_def open_fds_def)
qed

lemma inv_reply [simp]: "hog_inv s0 s \<Longrightarrow> hog_inv s0 (reply i l s)" "hog_inv s0 s \<Longrightarrow> hog_inv s0 (send_line fd l s)"
  by (auto elim!: inv_say [where evs = "[]"])

lemma inv_log [simp]: "hog_inv s0 s \<Longrightarrow> quiet ev \<Longrightarrow> hog_inv s0 (log_event ev s)"
  by (erule inv_say [where evs = "[ev]"]) auto

lemma inv_remove:
  assumes inv: "hog_inv s0 s" and k: "k < length (g_clients s)"
  shows "hog_inv s0 (remove_client k reason s)"
proof (cases "c_fd (cl s k) < 0")
  case True
  then show ?thesis using inv by (simp add: remove_client_def)
next
  case False
  let ?s = "remove_client k reason s"
  have s': "g_ingredients ?s = g_ingredients s" "g_timeout_sec ?s = g_timeout_sec s"
    "g_clients ?s = (g_clients s)[k := free_client]"
    "g_log ?s = g_log s @ [Client_Disconnected (shown_name (cl s k)) reason]"
    "g_accepted ?s = g_accepted s" "g_closed ?s = g_closed s @ [c_fd (cl s k)]"
    using False by (simp_all add: remove_client_def Let_def)
  have free: "client_ok (names_of s0) free_client" by (simp add: client_ok_def free_client_def book_ok_def)
  have m: "mset (open_fds ?s) + {#c_fd (cl s k)#} = mset (open_fds s)"
    using mset_open_upd [OF k, of free_client] False s'(3) by (simp add: open_fds_def free_client_def)
  show ?thesis
  proof (rule inv_client [OF inv k s'(1-4) _ free])
    show "users_ok ((g_clients s)[k := free_client])"
      using users_upd [OF hog_invD(5) [OF inv], of free_client k] by (simp add: free_client_def)
    show "mset (g_accepted ?s) = mset (g_closed ?s) + mset (open_fds ?s)"
      using hog_invD(7) [OF inv] m s'(5,6) by simp
    have "distinct (c_fd (cl s k) # open_fds ?s)"
      using hog_invD(6) [OF inv] m by (metis add.commute mset.simps(2) mset_eq_imp_distinct_iff union_mset_add_mset_right
          add_mset_add_single)
    then show "distinct (open_fds ?s)" by simp
  qed (simp_all add: free_client_def)
qed

section \<open>Commands\<close>

lemma account_entry:
  assumes inv: "hog_inv s0 s" and i: "i < length (g_ingredients s0)"
  shows "fst (g_ingredients s ! i) = fst (g_ingredients s0 ! i)"
  using hog_invD(1,9) [OF inv] i by (metis nth_map)

lemma find_ingredient_Some:
  assumes inv: "hog_inv s0 s" and "find_ingredient s n = Some i"
  shows "i < length (g_ingredients s0)" "fst (g_ingredients s0 ! i) = n" "n \<in> names_of s0"
proof -
  have "i < length (g_ingredients s)" "fst (g_ingredients s ! i) = n"
    using index_of_Some assms(2) by (auto simp: find_ingredient_def)
  then show "i < length (g_ingredients s0)" "fst (g_ingredients s0 ! i) = n"
    using hog_invD(9) [OF inv] account_entry [OF inv] by auto
  then show "n \<in> names_of s0" unfolding names_of_def using nth_mem by force
qed

text \<open>The account of the ingredient that is brewed or consumed, and of the others.\<close>

lemma account_trade:
  assumes inv: "hog_inv s0 s" and start: "start_ok s0" and k: "k < length (g_clients s)"
    and i: "find_ingredient s n = Some i" and d: "d = 1 \<or> d = -1" and q: "0 < q"
    and s': "g_ingredients s' = upd_qty i (\<lambda>x. wrap32 (x + d * q)) (g_ingredients s)"
      "g_clients s' = (g_clients s)[k := c]" "g_log s' = g_log s @ [ev]"
    and ev: "d = 1 \<Longrightarrow> ev = Brewed u n q a b" "d = -1 \<Longrightarrow> ev = Consumed u n q a b"
    and book: "qty_of (c_spellbook c) = (qty_of (c_spellbook (cl s k)))(n := x)"
    and x: "snd (g_ingredients s0 ! i) + brewed s' n \<le> int_max \<Longrightarrow>
      0 \<le> qty_of (c_spellbook (cl s k)) n \<Longrightarrow> qty_of (c_spellbook (cl s k)) n \<le> brewed s n - consumed s n \<Longrightarrow> 0 \<le> brewed s n \<Longrightarrow>
      0 \<le> x \<and> x \<le> qty_of (c_spellbook (cl s k)) n + d * q"
    and j: "j < length (g_ingredients s0)"
  shows "account s0 s' j"
proof -
  let ?m = "fst (g_ingredients s0 ! j)"
  note fi = find_ingredient_Some [OF inv i]
  have len: "i < length (g_ingredients s)" using fi(1) hog_invD(9) [OF inv] by simp
  have acc: "account s0 s j" using hog_invD(8) [OF inv j] .
  have mem: "y = c \<or> y \<in> set (g_clients s)" if "y \<in> set (g_clients s')" for y
    using that s'(2) set_update_subset_insert by fastforce
  have tot: "spell_total s' m + qty_of (c_spellbook (cl s k)) m = spell_total s m + qty_of (c_spellbook c) m" for m
    using sum_list_upd [OF k, of "\<lambda>c. qty_of (c_spellbook c) m" c] by (simp add: spell_total_def s'(2))
  show ?thesis
  proof (cases "j = i")
    case False
    have dn: "distinct (map fst (g_ingredients s0))" using start by (simp add: start_ok_def)
    have other: "?m \<noteq> n" using nth_eq_iff_index_eq [OF dn, of j i] fi(1,2) j False by simp
    have b: "brewed s' ?m = brewed s ?m" "consumed s' ?m = consumed s ?m"
      by (rule disjE [OF d]; simp add: brewed_def consumed_def s'(3) ev other other [symmetric])+
    have st: "stock_of s' j = stock_of s j" using False len by (simp add: stock_of_def s'(1) upd_qty_nth)
    have qk: "qty_of (c_spellbook c) ?m = qty_of (c_spellbook (cl s k)) ?m" using book other by simp
    have "\<forall>y \<in> set (g_clients s'). 0 \<le> qty_of (c_spellbook y) ?m" if "\<forall>y \<in> set (g_clients s). 0 \<le> qty_of (c_spellbook y) ?m"
      using that mem qk nth_mem [OF k] by metis
    then show ?thesis using acc b st tot [of ?m] qk unfolding account_def Let_def by auto
  next
    case True
    have m: "?m = n" using True fi(2) by simp
    have b: "brewed s' n = brewed s n + (if d = 1 then q else 0)" "consumed s' n = consumed s n + (if d = 1 then 0 else q)"
      by (rule disjE [OF d]; simp add: brewed_def consumed_def s'(3) ev)+
    have st: "stock_of s' j = wrap32 (stock_of s j + d * q)" using True len by (simp add: stock_of_def s'(1) upd_qty_nth)
    have A: "stock_of s j = wrap32 (snd (g_ingredients s0 ! i) + brewed s n - consumed s n)" "0 \<le> brewed s n" "0 \<le> consumed s n"
      "snd (g_ingredients s0 ! i) + brewed s n \<le> int_max \<Longrightarrow>
         (\<forall>y \<in> set (g_clients s). 0 \<le> qty_of (c_spellbook y) n) \<and> spell_total s n \<le> brewed s n - consumed s n"
      using acc unfolding account_def Let_def m True [symmetric] by (simp_all add: m)
    have "stock_of s' j = wrap32 (snd (g_ingredients s0 ! i) + brewed s' n - consumed s' n)"
      using d st A(1) b by (auto simp: wrap_simps algebra_simps)
    moreover have "(\<forall>y \<in> set (g_clients s'). 0 \<le> qty_of (c_spellbook y) n) \<and> spell_total s' n \<le> brewed s' n - consumed s' n"
      if o: "snd (g_ingredients s0 ! i) + brewed s' n \<le> int_max"
    proof -
      have "snd (g_ingredients s0 ! i) + brewed s n \<le> int_max" using o b q by (auto split: if_splits)
      then have p: "\<forall>y \<in> set (g_clients s). 0 \<le> qty_of (c_spellbook y) n" "spell_total s n \<le> brewed s n - consumed s n"
        using A(4) by auto
      have "qty_of (c_spellbook (cl s k)) n \<le> spell_total s n"
        unfolding spell_total_def using p(1) nth_mem [OF k] by (intro member_le_sum_list) auto
      then have x': "0 \<le> x" "x \<le> qty_of (c_spellbook (cl s k)) n + d * q" using x [OF o] p nth_mem [OF k] A(2) by auto
      have qx: "qty_of (c_spellbook c) n = x" using book by simp
      have "\<forall>y \<in> set (g_clients s'). 0 \<le> qty_of (c_spellbook y) n" using mem p(1) x'(1) qx by metis
      moreover have "spell_total s' n \<le> brewed s' n - consumed s' n"
        using p(2) x'(2) tot [of n] qx b d by auto
      ultimately show ?thesis by blast
    qed
    ultimately show ?thesis
      unfolding account_def Let_def m using A(2,3) b q True by auto
  qed
qed

lemma inv_trade:
  assumes inv: "hog_inv s0 s" and start: "start_ok s0" and k: "k < length (g_clients s)"
    and wiz: "c_enrolled (cl s k)" "c_type (cl s k) = ''WIZARD''"
    and i: "find_ingredient s n = Some i" and d: "d = 1 \<or> d = -1" and q: "0 < q"
    and s': "g_ingredients s' = upd_qty i (\<lambda>x. wrap32 (x + d * q)) (g_ingredients s)"
      "g_clients s' = (g_clients s)[k := c]" "g_log s' = g_log s @ [ev]"
      "g_timeout_sec s' = g_timeout_sec s" "g_accepted s' = g_accepted s" "g_closed s' = g_closed s"
    and c: "c_fd c = c_fd (cl s k)" "c_username c = c_username (cl s k)" "c_type c = c_type (cl s k)"
      "c_enrolled c = c_enrolled (cl s k)" "book_ok (names_of s0) c"
    and ev: "d = 1 \<Longrightarrow> ev = Brewed u n q a b" "d = -1 \<Longrightarrow> ev = Consumed u n q a b"
    and book: "qty_of (c_spellbook c) = (qty_of (c_spellbook (cl s k)))(n := x)"
    and x: "snd (g_ingredients s0 ! i) + brewed s' n \<le> int_max \<Longrightarrow>
      0 \<le> qty_of (c_spellbook (cl s k)) n \<Longrightarrow> qty_of (c_spellbook (cl s k)) n \<le> brewed s n - consumed s n \<Longrightarrow> 0 \<le> brewed s n \<Longrightarrow>
      0 \<le> x \<and> x \<le> qty_of (c_spellbook (cl s k)) n + d * q"
  shows "hog_inv s0 s'"
proof -
  have ck: "client_ok (names_of s0) (cl s k)" using hog_invD(4) [OF inv] k by simp
  then have "\<not> c_fd (cl s k) < 0" using wiz(1) by (auto simp: client_ok_def free_client_def)
  then have ok: "client_ok (names_of s0) c" using ck c wiz by (simp add: client_ok_def)
  have "client_ok (names_of s0) y" if "y \<in> set (g_clients s')" for y
    using that set_update_subset_insert hog_invD(4) [OF inv] ok s'(2) by fastforce
  moreover have "open_fds s' = open_fds s"
    using s'(2) c(1) k by (intro open_fds_same) (auto intro!: nth_equalityI simp: nth_list_update)
  moreover have "users_ok (g_clients s')"
    unfolding s'(2)
  proof (rule users_upd [OF hog_invD(5) [OF inv]])
    show "c_fd c < 0 \<or> \<not> c_enrolled c \<or> (\<forall>j < length (g_clients s). j \<noteq> k \<longrightarrow> 0 \<le> c_fd (cl s j) \<longrightarrow> c_enrolled (cl s j) \<longrightarrow>
        c_username (cl s j) \<noteq> c_username c)"
      using hog_invD(5) [OF inv] c k by (auto simp: users_ok_def)
  qed
  moreover have "account s0 s' j" if "j < length (g_ingredients s0)" for j
    by (rule account_trade [OF inv start k i d q s'(1-3) ev book x that])
  ultimately show ?thesis
    using inv s' by (simp add: hog_inv_def)
qed

lemma name_and_qty_range: "name_and_qty rest = Some (n, q) \<Longrightarrow> 0 < q \<and> q \<le> 1000000"
  by (auto simp: name_and_qty_def parse_positive_int_def split: prod.splits option.splits if_splits)

lemma inv_brew:
  assumes inv: "hog_inv s0 s" and start: "start_ok s0" and k: "k < length (g_clients s)"
    and wiz: "c_enrolled (cl s k)" "c_type (cl s k) = ''WIZARD''"
  shows "hog_inv s0 (cmd_brew k rest s)"
proof (cases "name_and_qty rest")
  case (Some nq)
  obtain n q where nq: "nq = (n, q)" by (cases nq)
  have q: "0 < q" "q \<le> 1000000" using name_and_qty_range Some nq by auto
  show ?thesis
  proof (cases "find_ingredient s n")
    case (Some i)
    note fi = find_ingredient_Some [OF inv Some]
    have len: "length n < MAX_INGREDIENT_LEN"
      using start fi(3) by (auto simp: start_ok_def names_of_def)
    have bk: "book_ok (names_of s0) (cl s k)" using hog_invD(4) [OF inv] k by (simp add: client_ok_def)
    have r: "int_min \<le> q" "q \<le> int_max" using q by (simp_all add: limits_defs)
    note add = spell_add_book [OF bk fi(3) len r]
    let ?s = "cmd_brew k rest s" and ?c = "spell_add n q (cl s k)" and ?o = "qty_of (c_spellbook (cl s k)) n"
    define x where "x = qty_of (c_spellbook ?c) n"
    obtain u a b where log: "g_log ?s = g_log s @ [Brewed u n q a b]"
      using \<open>name_and_qty rest = Some nq\<close> nq Some by (simp add: cmd_brew_def Let_def)
    show ?thesis
    proof (rule inv_trade [OF inv start k wiz Some _ q(1), where d = 1 and s' = ?s and c = ?c and x = x])
      show "qty_of (c_spellbook ?c) = (qty_of (c_spellbook (cl s k)))(n := x)"
        unfolding x_def add(2) by auto
      show "0 \<le> x \<and> x \<le> ?o + 1 * q"
        if "snd (g_ingredients s0 ! i) + brewed ?s n \<le> int_max" "0 \<le> ?o" "?o \<le> brewed s n - consumed s n" "0 \<le> brewed s n"
      proof -
        have "0 < snd (g_ingredients s0 ! i)" using start fi(1) by (simp add: start_ok_def)
        moreover have "brewed ?s n = brewed s n + q" by (simp add: brewed_def log)
        moreover have "0 \<le> consumed s n" using hog_invD(8) [OF inv fi(1)] fi(2) by (simp add: account_def Let_def)
        ultimately have "?o + q \<le> int_max" using that by linarith
        then have "wrap32 (?o + q) = ?o + q" using that(2) q by (intro wrap32_id) (simp_all add: limits_defs)
        then show ?thesis unfolding x_def add(2) using that(2) q by auto
      qed
    qed (use \<open>name_and_qty rest = Some nq\<close> nq Some log add(1) in \<open>simp_all add: cmd_brew_def Let_def\<close>)
  qed (use inv Some nq in \<open>simp add: cmd_brew_def\<close>)
qed (use inv in \<open>simp add: cmd_brew_def\<close>)

lemma inv_consume:
  assumes inv: "hog_inv s0 s" and start: "start_ok s0" and k: "k < length (g_clients s)"
    and wiz: "c_enrolled (cl s k)" "c_type (cl s k) = ''WIZARD''"
  shows "hog_inv s0 (cmd_consume k rest s)"
proof (cases "name_and_qty rest")
  case (Some nq)
  obtain n q where nq: "nq = (n, q)" by (cases nq)
  have q: "0 < q" "q \<le> 1000000" using name_and_qty_range Some nq by auto
  show ?thesis
  proof (cases "find_ingredient s n")
    case (Some i)
    note fi = find_ingredient_Some [OF inv Some]
    have bk: "book_ok (names_of s0) (cl s k)" using hog_invD(4) [OF inv] k by (simp add: client_ok_def)
    then have dk: "distinct (map fst (c_spellbook (cl s k)))" by (simp add: book_ok_def)
    let ?s = "cmd_consume k rest s" and ?c = "spell_sub n q (cl s k)" and ?o = "qty_of (c_spellbook (cl s k)) n"
    let ?have = "(case spell_find (cl s k) n of Some j \<Rightarrow> snd (c_spellbook (cl s k) ! j) | None \<Rightarrow> 0)"
    show ?thesis
    proof (cases "?have < q")
      case True
      then show ?thesis using inv \<open>name_and_qty rest = Some nq\<close> nq Some by (simp add: cmd_consume_def)
    next
      case False
      then obtain j where j: "index_of n (c_spellbook (cl s k)) = Some j"
        using q by (auto simp: spell_find_def split: option.splits)
      then have o: "q \<le> ?o" using False qty_of_index [OF dk j] by (simp add: spell_find_def)
      note sub = spell_sub_book [OF bk j, of q]
      obtain u a b where log: "g_log ?s = g_log s @ [Consumed u n q a b]"
        using False \<open>name_and_qty rest = Some nq\<close> nq Some by (simp add: cmd_consume_def Let_def)
      show ?thesis
      proof (rule inv_trade [OF inv start k wiz Some _ q(1), where d = "-1" and s' = ?s and c = ?c])
        show "qty_of (c_spellbook ?c) = (qty_of (c_spellbook (cl s k)))(n := max 0 (wrap32 (?o - q)))" by (rule sub(2))
        show "0 \<le> max 0 (wrap32 (?o - q)) \<and> max 0 (wrap32 (?o - q)) \<le> ?o + - 1 * q"
          if "snd (g_ingredients s0 ! i) + brewed ?s n \<le> int_max" "0 \<le> ?o" "?o \<le> brewed s n - consumed s n" "0 \<le> brewed s n"
        proof -
          have "0 < snd (g_ingredients s0 ! i)" using start fi(1) by (simp add: start_ok_def)
          moreover have "brewed ?s n = brewed s n" by (simp add: brewed_def log)
          moreover have "0 \<le> consumed s n" using hog_invD(8) [OF inv fi(1)] fi(2) by (simp add: account_def Let_def)
          ultimately have "?o \<le> int_max" using that by linarith
          then have "wrap32 (?o - q) = ?o - q" using o q by (intro wrap32_id) (simp_all add: limits_defs)
          then show ?thesis using o by simp
        qed
      qed (use False \<open>name_and_qty rest = Some nq\<close> nq Some log sub(1) in \<open>simp_all add: cmd_consume_def Let_def\<close>)
    qed
  qed (use inv Some nq in \<open>simp add: cmd_consume_def\<close>)
qed (use inv in \<open>simp add: cmd_consume_def\<close>)

lemma not_taken:
  "\<not> username_taken s u k \<Longrightarrow> j < length (g_clients s) \<Longrightarrow> j \<noteq> k \<Longrightarrow> 0 \<le> c_fd (cl s j) \<Longrightarrow> c_enrolled (cl s j) \<Longrightarrow>
   c_username (cl s j) \<noteq> u"
  by (auto simp: username_taken_def list_ex_iff)

lemma inv_enroll:
  assumes inv: "hog_inv s0 s" and k: "k < length (g_clients s)" and live: "0 \<le> c_fd (cl s k)"
  shows "hog_inv s0 (cmd_enroll k rest s)"
proof -
  obtain role rest1 uname rest2 where t: "strtok blanks rest = (role, rest1)" "strtok blanks rest1 = (uname, rest2)"
    by (cases "strtok blanks rest"; cases "strtok blanks (snd (strtok blanks rest))") auto
  show ?thesis
  proof (cases "c_enrolled (cl s k) \<or> role = None \<or> uname = None")
    case True
    then show ?thesis using inv by (auto simp: cmd_enroll_def t split: option.splits)
  next
    case False
    then obtain r u where ru: "role = Some r" "uname = Some u" "\<not> c_enrolled (cl s k)" by auto
    show ?thesis
    proof (cases "r \<noteq> ''WIZARD'' \<and> r \<noteq> ''PROFESSOR'' \<or> length u = 0 \<or> MAX_USERNAME_LEN \<le> length u \<or> username_taken s u k")
      case True
      then show ?thesis using inv ru by (auto simp: cmd_enroll_def t)
    next
      case ok: False
      let ?c = "(cl s k)\<lparr>c_type := r, c_username := u, c_enrolled := True\<rparr>" and ?s = "cmd_enroll k rest s"
      have cp: "strncpy (MAX_TYPE_LEN - 1) r = r" "strncpy (MAX_USERNAME_LEN - 1) u = u"
        using ok by (auto simp: MAX_TYPE_LEN_def MAX_USERNAME_LEN_def)
      have eq: "?s = log_event (Client_Enrolled u r (c_fd (cl s k))) (reply k (snprintf 128 (''OK ENROLL '' @ u)) (upd_client k (\<lambda>_. ?c) s))"
        using ok ru k cp by (auto simp: cmd_enroll_def t Let_def upd_client_def)
      show ?thesis
      proof (rule inv_keep [OF inv k, where s' = ?s and c = ?c and evs = "[Client_Enrolled u r (c_fd (cl s k))]"])
        have "client_ok (names_of s0) (cl s k)" using hog_invD(4) [OF inv] k by simp
        then show "client_ok (names_of s0) ?c" using live ok ru(3) by (auto simp: client_ok_def book_ok_def)
        show "users_ok ((g_clients s)[k := ?c])"
          using not_taken [of s u k] ok by (intro users_upd [OF hog_invD(5) [OF inv]]) auto
      qed (simp_all add: eq)
    qed
  qed
qed

lemma enrolled_live: "hog_inv s0 s \<Longrightarrow> k < length (g_clients s) \<Longrightarrow> c_enrolled (cl s k) \<Longrightarrow> 0 \<le> c_fd (cl s k)"
  using hog_invD(4) [of s0 s "cl s k"] by (auto simp: client_ok_def free_client_def)

lemma inv_queries [simp]:
  "hog_inv s0 s \<Longrightarrow> hog_inv s0 (cmd_spellbook k s)" "hog_inv s0 s \<Longrightarrow> hog_inv s0 (cmd_inspect k rest s)"
  "hog_inv s0 s \<Longrightarrow> hog_inv s0 (cmd_scroll k s)" "hog_inv s0 s \<Longrightarrow> hog_inv s0 (cmd_roster k s)"
  by (auto simp: cmd_spellbook_def cmd_inspect_def cmd_scroll_def cmd_roster_def Let_def split: option.splits)

lemma inv_command:
  assumes inv: "hog_inv s0 s" and start: "start_ok s0" and k: "k < length (g_clients s)" and live: "0 \<le> c_fd (cl s k)"
  shows "hog_inv s0 (fst (handle_command k line s))"
proof -
  obtain cmd rest where t: "strtok blanks line = (cmd, rest)" by (cases "strtok blanks line")
  show ?thesis
  proof (cases "line = [] \<or> cmd = None")
    case True
    then show ?thesis using inv by (auto simp: handle_command_def t)
  next
    case False
    then show ?thesis
      using inv inv_enroll [OF inv k live] inv_brew [OF inv start k] inv_consume [OF inv start k]
      by (auto simp: handle_command_def t Let_def)
  qed
qed

text \<open>A command keeps the connection it came on and the buffers of all clients.\<close>

lemma command_keeps:
  assumes k: "k < length (g_clients s)"
  shows "map c_fd (g_clients (fst (handle_command k line s))) = map c_fd (g_clients s) \<and>
    map c_line_buf (g_clients (fst (handle_command k line s))) = map c_line_buf (g_clients s) \<and>
    map c_last_active (g_clients (fst (handle_command k line s))) = map c_last_active (g_clients s)"
proof -
  have upd: "map f ((g_clients s)[k := c]) = map f (g_clients s)" if "f c = f (cl s k)" for f :: "client \<Rightarrow> 'a" and c
    using k that by (auto intro!: nth_equalityI simp: nth_list_update)
  have "map f (g_clients (cmd_brew k rest s)) = map f (g_clients s) \<and> map f (g_clients (cmd_consume k rest s)) = map f (g_clients s) \<and>
      map f (g_clients (cmd_enroll k rest s)) = map f (g_clients s)"
    if "\<And>c n q. f (spell_add n q c) = f c" "\<And>c n q. f (spell_sub n q c) = f c"
      "\<And>c r u. f (c\<lparr>c_type := r, c_username := u, c_enrolled := True\<rparr>) = f c" for f :: "client \<Rightarrow> 'b" and rest
    using that by (auto simp: cmd_brew_def cmd_consume_def cmd_enroll_def Let_def intro!: upd split: option.splits prod.splits)
  note keep = this
  have q: "g_clients (cmd_spellbook k s) = g_clients s" "g_clients (cmd_inspect k rest s) = g_clients s"
      "g_clients (cmd_scroll k s) = g_clients s" "g_clients (cmd_roster k s) = g_clients s" for rest
    by (auto simp: cmd_spellbook_def cmd_inspect_def cmd_scroll_def cmd_roster_def Let_def split: option.splits)
  show ?thesis
    using keep [of c_fd] keep [of c_line_buf] keep [of c_last_active] q
    by (auto simp: handle_command_def Let_def split: option.splits prod.splits)
qed

section \<open>Input\<close>

lemma inv_upd_frame:
  assumes inv: "hog_inv s0 s" and k: "k < length (g_clients s)" and live: "0 \<le> c_fd (cl s k)"
    and f: "\<And>c. c_fd (f c) = c_fd c \<and> c_username (f c) = c_username c \<and> c_type (f c) = c_type c \<and>
      c_enrolled (f c) = c_enrolled c \<and> c_spellbook (f c) = c_spellbook c"
  shows "hog_inv s0 (upd_client k f s)"
proof (rule inv_keep [OF inv k, where c = "f (cl s k)" and evs = "[]"])
  have "client_ok (names_of s0) (cl s k)" using hog_invD(4) [OF inv] k by simp
  then show "client_ok (names_of s0) (f (cl s k))" using live f by (simp add: client_ok_def book_ok_def)
  show "users_ok ((g_clients s)[k := f (cl s k)])"
    using hog_invD(5) [OF inv] f k by (intro users_upd [OF hog_invD(5) [OF inv]]) (auto simp: users_ok_def)
qed (use f in simp_all)

definition buf_ok :: "client \<Rightarrow> bool" where
  "buf_ok c \<longleftrightarrow> length (c_line_buf c) < MAX_LINE_LEN \<and> LF \<notin> set (c_line_buf c)"

definition others_ok :: "nat \<Rightarrow> server \<Rightarrow> bool" where
  "others_ok k s \<longleftrightarrow> (\<forall>j < length (g_clients s). j \<noteq> k \<longrightarrow> buf_ok (cl s j))"

lemma free_buf_ok [simp]: "buf_ok free_client"
  by (simp add: buf_ok_def free_client_def MAX_LINE_LEN_def)

lemma others_upd [simp]: "others_ok k (upd_client k f s) = others_ok k s"
  by (auto simp: others_ok_def)

lemma others_remove:
  assumes "others_ok k s" "k < length (g_clients s)" "0 \<le> c_fd (cl s k)"
  shows "\<forall>c \<in> set (g_clients (remove_client k reason s)). buf_ok c"
proof
  fix c assume "c \<in> set (g_clients (remove_client k reason s))"
  then obtain j where "j < length (g_clients s)" "c = ((g_clients s)[k := free_client]) ! j"
    using assms(3) by (auto simp: remove_client_def Let_def in_set_conv_nth)
  then show "buf_ok c" using assms(1) by (cases "j = k") (auto simp: others_ok_def)
qed

lemma same_len: "map f xs = map f ys \<Longrightarrow> length xs = length ys"
  using map_eq_imp_length_eq by blast

lemma command_others:
  assumes k: "k < length (g_clients s)" and o: "others_ok k s"
  shows "others_ok k (fst (handle_command k line s))" "length (g_clients (fst (handle_command k line s))) = length (g_clients s)"
    "c_fd (cl (fst (handle_command k line s)) k) = c_fd (cl s k)"
proof -
  note m = command_keeps [OF k, of line]
  let ?s = "fst (handle_command k line s)"
  show len: "length (g_clients ?s) = length (g_clients s)" using m same_len by blast
  have "c_line_buf (cl ?s j) = c_line_buf (cl s j)" if "j < length (g_clients s)" for j
    using m len that by (metis nth_map)
  then show "others_ok k ?s" using o len by (simp add: others_ok_def buf_ok_def)
  show "c_fd (cl ?s k) = c_fd (cl s k)" using m len k by (metis nth_map)
qed

lemma serve_lines_inv:
  assumes "hog_inv s0 s" "start_ok s0" "k < length (g_clients s)" "0 \<le> c_fd (cl s k)" "others_ok k s" "length buf \<le> MAX_LINE_LEN"
  shows "hog_inv s0 (serve_lines k buf s) \<and> (\<forall>c \<in> set (g_clients (serve_lines k buf s)). buf_ok c)"
  using assms
proof (induction k buf s rule: serve_lines.induct)
  case (1 k buf s)
  note inv = "1.prems"(1) and start = "1.prems"(2) and k = "1.prems"(3) and live = "1.prems"(4) and o = "1.prems"(5)
  show ?case
  proof (cases "LF \<in> set buf")
    case False
    show ?thesis
    proof (cases "length buf = MAX_LINE_LEN")
      case True
      have "others_ok k (reply k ''ERR TOOLONG'' s)" using o by (simp add: others_ok_def)
      then show ?thesis
        using inv_remove [of s0 "reply k ''ERR TOOLONG'' s" k] inv k False True
          others_remove [of k "reply k ''ERR TOOLONG'' s"] live
        by (subst (1 2) serve_lines.simps) simp
    next
      case short: False
      have "buf_ok c" if "c \<in> set (g_clients (upd_client k (\<lambda>c. c\<lparr>c_line_buf := buf\<rparr>) s))" for c
      proof -
        obtain j where j: "j < length (g_clients s)" "c = ((g_clients s)[k := (cl s k)\<lparr>c_line_buf := buf\<rparr>]) ! j"
          using \<open>c \<in> _\<close> by (auto simp: in_set_conv_nth)
        have "length buf < MAX_LINE_LEN" using short "1.prems"(6) by simp
        then show ?thesis
          using o False j by (cases "j = k") (auto simp: others_ok_def buf_ok_def)
      qed
      moreover have "hog_inv s0 (upd_client k (\<lambda>c. c\<lparr>c_line_buf := buf\<rparr>) s)" by (rule inv_upd_frame [OF inv k live]) simp
      ultimately show ?thesis using False short by (subst (1 2) serve_lines.simps) simp
    qed
  next
    case True
    define raw where "raw = takeWhile (\<lambda>c. c \<noteq> LF) buf"
    define rest where "rest = drop (length raw + 1) buf"
    define s1 where "s1 = upd_client k (\<lambda>c. c\<lparr>c_line_buf := rest\<rparr>) s"
    have inv1: "hog_inv s0 s1" unfolding s1_def by (rule inv_upd_frame [OF inv k live]) simp
    have s1: "k < length (g_clients s1)" "0 \<le> c_fd (cl s1 k)" "others_ok k s1" using k live o by (simp_all add: s1_def)
    obtain s2 out where h: "handle_command k (input_line raw) s1 = (s2, out)" by (cases "handle_command k (input_line raw) s1")
    have inv2: "hog_inv s0 s2" using inv_command [OF inv1 start s1(1,2), of "input_line raw"] h by simp
    have s2: "k < length (g_clients s2)" "0 \<le> c_fd (cl s2 k)" "others_ok k s2"
      using command_others [OF s1(1,3), of "input_line raw"] h s1 by simp_all
    have step: "serve_lines k buf s = (case out of None \<Rightarrow> serve_lines k rest s2 | Some reason \<Rightarrow> remove_client k reason s2)"
      using True h by (subst serve_lines.simps) (simp add: Let_def raw_def rest_def s1_def split: option.splits)
    show ?thesis
    proof (cases out)
      case None
      have "length rest \<le> MAX_LINE_LEN" using "1.prems"(6) by (simp add: rest_def)
      then show ?thesis
        using "1.IH" [of raw rest s2 None] True h None inv2 start s2 step raw_def rest_def s1_def by simp
    next
      case (Some reason)
      then show ?thesis using step inv_remove [OF inv2 s2(1)] others_remove [OF s2(3,1,2)] by simp
    qed
  qed
qed

lemma all_bufs_others: "\<forall>c \<in> set (g_clients s). buf_ok c \<Longrightarrow> others_ok k s"
  by (simp add: others_ok_def)

lemma client_input_inv:
  assumes inv: "hog_inv s0 s" and start: "start_ok s0" and k: "k < length (g_clients s)" and live: "0 \<le> c_fd (cl s k)"
    and bufs: "\<forall>c \<in> set (g_clients s). buf_ok c"
  shows "hog_inv s0 (handle_client_input k now r s) \<and> (\<forall>c \<in> set (g_clients (handle_client_input k now r s)). buf_ok c)"
proof -
  have space: "length (c_line_buf (cl s k)) < MAX_LINE_LEN" using bufs k by (simp add: buf_ok_def)
  note rm = inv_remove [OF inv k] others_remove [OF all_bufs_others [OF bufs] k live]
  show ?thesis
  proof (cases r)
    case (Read_Bytes bs)
    let ?got = "take (MAX_LINE_LEN - length (c_line_buf (cl s k))) bs" and ?s = "upd_client k (\<lambda>c. c\<lparr>c_last_active := now\<rparr>) s"
    have "hog_inv s0 ?s" by (rule inv_upd_frame [OF inv k live]) simp
    moreover have "others_ok k ?s" using all_bufs_others [OF bufs] by simp
    moreover have "length (c_line_buf (cl s k) @ ?got) \<le> MAX_LINE_LEN" using space by simp
    ultimately have "hog_inv s0 (serve_lines k (c_line_buf (cl s k) @ ?got) ?s) \<and>
        (\<forall>c \<in> set (g_clients (serve_lines k (c_line_buf (cl s k) @ ?got) ?s)). buf_ok c)"
      using serve_lines_inv [of s0 ?s k "c_line_buf (cl s k) @ ?got"] start k live by simp
    then show ?thesis using Read_Bytes space rm by (simp add: handle_client_input_def Let_def)
  qed (use inv bufs space rm in \<open>simp_all add: handle_client_input_def Let_def\<close>)
qed

lemma unreachable_space:
  assumes "\<forall>c \<in> set (g_clients s). buf_ok c" "k < length (g_clients s)"
  shows "MAX_LINE_LEN - length (c_line_buf (cl s k)) \<noteq> 0"
  using assms by (force simp: buf_ok_def)

section \<open>The loop of the server\<close>

definition loop_inv :: "server \<Rightarrow> server \<Rightarrow> bool" where
  "loop_inv s0 s \<longleftrightarrow> hog_inv s0 s \<and> (\<forall>c \<in> set (g_clients s). buf_ok c)"

lemma loop_inv_remove:
  assumes "loop_inv s0 s" "k < length (g_clients s)"
  shows "loop_inv s0 (remove_client k reason s)"
proof (cases "c_fd (cl s k) < 0")
  case True
  then show ?thesis using assms(1) by (simp add: remove_client_def)
next
  case False
  then show ?thesis
    using assms inv_remove [of s0 s k reason] others_remove [OF all_bufs_others, of s k reason] by (simp add: loop_inv_def)
qed

lemma loop_inv_say [simp]:
  "loop_inv s0 s \<Longrightarrow> loop_inv s0 (send_line fd l s)" "loop_inv s0 s \<Longrightarrow> quiet ev \<Longrightarrow> loop_inv s0 (log_event ev s)"
  by (simp_all add: loop_inv_def)

lemma loop_len: "loop_inv s0 s \<Longrightarrow> length (g_clients s) = length (g_clients s0)"
  by (simp add: loop_inv_def hog_inv_def)

lemma idle_loop_inv:
  "loop_inv s0 s \<Longrightarrow> \<forall>i \<in> set is. i < length (g_clients s0) \<Longrightarrow> loop_inv s0 (fst (idle_loop now is (s, m)))"
proof (induction "is" arbitrary: s m)
  case (Cons i "is")
  have i: "i < length (g_clients s)" using Cons.prems loop_len [of s0 s] by simp
  have "loop_inv s0 (remove_client i r (send_line fd l (log_event (Client_Timeout u fd' e) s)))" for r fd l u fd' e
    using Cons.prems(1) i by (intro loop_inv_remove) simp_all
  then show ?case using Cons by (simp add: Let_def)
qed simp

lemma timeouts_inv: "loop_inv s0 s \<Longrightarrow> loop_inv s0 (fst (check_idle_timeouts now s))"
  using idle_loop_inv [of s0 s "[0..<length (g_clients s)]" now "g_timeout_sec s"] loop_len [of s0 s]
  by (simp add: check_idle_timeouts_def case_prod_beta)

lemma find_free_Some: "find_free_slot s = Some k \<Longrightarrow> k < length (g_clients s) \<and> c_fd (cl s k) < 0"
  by (auto simp: find_free_slot_def find_Some_iff)

lemma accept_inv:
  assumes inv: "loop_inv s0 s" and fresh: "\<And>fd ip. peer = Some (fd, ip) \<Longrightarrow> 0 \<le> fd \<and> fd \<notin> set (open_fds s)"
  shows "loop_inv s0 (accept_new_connection now peer s)"
proof (cases peer)
  case (Some p)
  obtain fd ip where p: "peer = Some (fd, ip)" using Some by (cases p) auto
  have h: "hog_inv s0 s" using inv by (simp add: loop_inv_def)
  let ?s = "accept_new_connection now peer s"
  have ff: "find_free_slot (s\<lparr>g_accepted := x\<rparr>) = find_free_slot s" for x by (simp add: find_free_slot_def)
  show ?thesis
  proof (cases "find_free_slot s")
    case None
    have s': "g_ingredients ?s = g_ingredients s" "g_timeout_sec ?s = g_timeout_sec s" "g_clients ?s = g_clients s"
      "g_log ?s = g_log s @ [Client_Rejected fd ip]" "g_accepted ?s = g_accepted s @ [fd]" "g_closed ?s = g_closed s @ [fd]"
      using None by (simp_all add: accept_new_connection_def p ff Let_def)
    have acc: "account s0 ?s i = account s0 s i" for i
      using s' by (simp add: account_def stock_of_def brewed_def consumed_def spell_total_def)
    show ?thesis
      using inv s' acc by (auto simp: loop_inv_def hog_inv_def open_fds_def)
  next
    case (Some k)
    note fk = find_free_Some [OF Some]
    let ?c = "free_client\<lparr>c_fd := fd, c_last_active := now, c_ip := strncpy 15 ip\<rparr>"
    have s': "g_ingredients ?s = g_ingredients s" "g_timeout_sec ?s = g_timeout_sec s" "g_clients ?s = (g_clients s)[k := ?c]"
      "g_log ?s = g_log s @ [Client_Connected fd ip]" "g_accepted ?s = g_accepted s @ [fd]" "g_closed ?s = g_closed s"
      using Some fk by (simp_all add: accept_new_connection_def p ff Let_def)
    have m: "mset (open_fds ?s) = mset (open_fds s) + {#fd#}"
      using mset_open_upd [of k "g_clients s" ?c] fk fresh [OF p] by (simp add: open_fds_def s'(3))
    have "hog_inv s0 ?s"
    proof (rule inv_client [OF h _ s'(1-4)])
      show "client_ok (names_of s0) ?c" using fresh [OF p] by (simp add: client_ok_def free_client_def book_ok_def)
      show "users_ok ((g_clients s)[k := ?c])"
        by (rule users_upd [OF hog_invD(5) [OF h]]) (simp add: free_client_def)
      show "mset (g_accepted ?s) = mset (g_closed ?s) + mset (open_fds ?s)"
        using hog_invD(7) [OF h] m s'(5,6) by simp
      have "mset (open_fds ?s) = mset (fd # open_fds s)" using m by simp
      then show "distinct (open_fds ?s)"
        using hog_invD(6) [OF h] fresh [OF p] by (metis distinct.simps(2) mset_eq_imp_distinct_iff)
    qed (use fk in \<open>simp_all add: free_client_def\<close>)
    moreover have "buf_ok c" if "c \<in> set (g_clients ?s)" for c
    proof -
      have "c = ?c \<or> c \<in> set (g_clients s)" using that s'(3) set_update_subset_insert by fastforce
      then show ?thesis using inv by (auto simp: loop_inv_def buf_ok_def free_client_def MAX_LINE_LEN_def)
    qed
    ultimately show ?thesis by (simp add: loop_inv_def)
  qed
qed (use inv in \<open>simp add: accept_new_connection_def\<close>)

lemma serve_clients_inv:
  "loop_inv s0 s \<Longrightarrow> start_ok s0 \<Longrightarrow> \<forall>i \<in> set is. i < length (g_clients s0) \<Longrightarrow>
   loop_inv s0 (serve_clients now rfds ready is s)"
proof (induction "is" arbitrary: s)
  case (Cons i "is")
  have i: "i < length (g_clients s)" using Cons.prems loop_len [of s0 s] by simp
  have "loop_inv s0 (handle_client_input i now r s)" if "0 \<le> c_fd (cl s i)" for r
    using client_input_inv [OF _ Cons.prems(2) i that] Cons.prems(1) by (simp add: loop_inv_def)
  then show ?case using Cons by (auto simp: Let_def split: option.splits)
qed simp

lemma round_inv:
  assumes inv: "loop_inv s0 s" and start: "start_ok s0" and peer: "peer_ok (fst (check_idle_timeouts t1 s)) sel"
  shows "loop_inv s0 (fst (server_round t1 t2 sel s))"
proof -
  let ?s1 = "fst (check_idle_timeouts t1 s)"
  have s1: "loop_inv s0 ?s1" using timeouts_inv [OF inv] .
  show ?thesis
  proof (cases sel)
    case (Sel_Ready listening p ready)
    let ?s2 = "if listening then accept_new_connection t2 p ?s1 else ?s1"
    have "loop_inv s0 ?s2"
      using s1 accept_inv [OF s1, of p t2] peer
      by (cases listening) (simp_all add: Sel_Ready peer_ok_def split: option.splits, auto)
    then have "loop_inv s0 (serve_clients t2 (open_fds ?s1) ready [0..<length (g_clients ?s2)] ?s2)"
      using loop_len by (intro serve_clients_inv [OF _ start]) auto
    then show ?thesis by (simp add: server_round_def Sel_Ready Let_def case_prod_beta)
  qed (use s1 in \<open>simp_all add: server_round_def case_prod_beta\<close>)
qed

lemma loop_inv_start:
  assumes "start_ok s0"
  shows "loop_inv s0 s0"
proof -
  have free: "c = free_client" if "c \<in> set (g_clients s0)" for c using assms that by (simp add: start_ok_def)
  then have rep: "g_clients s0 = replicate (length (g_clients s0)) free_client"
    by (metis replicate_length_same)
  have o: "open_fds s0 = []" unfolding open_fds_def by (subst rep) (simp add: free_client_def)
  have b: "brewed s0 n = 0" "consumed s0 n = 0" for n
    using quiet_sums [of "g_log s0"] assms by (simp_all add: brewed_def consumed_def start_ok_def)
  have t: "spell_total s0 n = 0" for n
    unfolding spell_total_def by (subst rep) (simp add: free_client_def sum_list_replicate)
  have "account s0 s0 i" if "i < length (g_ingredients s0)" for i
  proof -
    have "0 < stock_of s0 i" "stock_of s0 i \<le> int_max" using assms that by (auto simp: start_ok_def stock_of_def)
    then have "wrap32 (stock_of s0 i) = stock_of s0 i" by (intro wrap32_id) (simp_all add: limits_defs)
    moreover have "0 \<le> qty_of (c_spellbook c) n" if "c \<in> set (g_clients s0)" for c n
      using free [OF that] by (simp add: free_client_def)
    ultimately show ?thesis using b t by (simp add: account_def Let_def stock_of_def)
  qed
  moreover have "users_ok (g_clients s0)"
    unfolding users_ok_def by (subst (1 2 3 4 5 6 7 8) rep) (simp add: free_client_def)
  moreover have "client_ok (names_of s0) c \<and> buf_ok c" if "c \<in> set (g_clients s0)" for c
    using free [OF that] by (simp add: client_ok_def free_client_def book_ok_def buf_ok_def MAX_LINE_LEN_def)
  ultimately show ?thesis using assms o by (simp add: loop_inv_def hog_inv_def start_ok_def)
qed

definition hog_step :: "server \<Rightarrow> server \<Rightarrow> bool" where
  "hog_step s s' \<longleftrightarrow> (\<exists>t1 t2 sel. peer_ok (fst (check_idle_timeouts t1 s)) sel \<and> s' = fst (server_round t1 t2 sel s))"

interpretation hog_sys: invariant_system hog_reach hog_step "\<lambda>s. start_ok s0 \<and> loop_inv s0 s"
  for s0
proof
  show "hog_reach s t \<Longrightarrow> hog_step\<^sup>*\<^sup>* s t" for s t
    by (induction rule: hog_reach.induct) (auto simp: hog_step_def intro: rtranclp.rtrancl_into_rtrancl)
qed (auto simp: hog_step_def intro: round_inv)

lemma reach_loop_inv: "hog_reach s0 s \<Longrightarrow> start_ok s0 \<Longrightarrow> loop_inv s0 s"
  using hog_sys.reach_keeps loop_inv_start by blast

end
