(* ===== verification/Hogwarts_Framing.thy ===== *)
theory Hogwarts_Framing
  imports Hogwarts_Invariants
begin

text \<open>
  The input of a client is a stream of bytes that \<open>read\<close> hands out in pieces of any size.  The
  server cuts it into lines; this theory shows that the pieces make no difference.
\<close>

section \<open>Reading a stream\<close>

text \<open>The specification: all complete lines in turn, the rest is kept; \<open>False\<close> when the connection
  was closed.\<close>

function serve_stream :: "nat \<Rightarrow> string \<Rightarrow> server \<Rightarrow> server \<times> bool" where
  "serve_stream k stream s =
     (if LF \<notin> set stream then (upd_client k (\<lambda>c. c\<lparr>c_line_buf := stream\<rparr>) s, True)
      else (let raw = takeWhile (\<lambda>c. c \<noteq> LF) stream; rest = drop (length raw + 1) stream in
            case handle_command k (input_line raw) (upd_client k (\<lambda>c. c\<lparr>c_line_buf := rest\<rparr>) s) of
              (s', None) \<Rightarrow> serve_stream k rest s'
            | (s', Some reason) \<Rightarrow> (remove_client k reason s', False)))"
  by pat_completeness auto
termination
  by (relation "measure (\<lambda>(k, stream, s). length stream)") (auto intro!: diff_less)

declare serve_stream.simps [simp del]

text \<open>The kernel: a read of at most \<open>space\<close> bytes returns some of the bytes of the stream, at least one.\<close>

fun drain :: "nat \<Rightarrow> int \<Rightarrow> nat list \<Rightarrow> string \<Rightarrow> server \<Rightarrow> server" where
  "drain k now [] stream s = s"
| "drain k now (n # ns) stream s =
     (if c_fd (cl s k) < 0 \<or> stream = [] then s
      else (let m = min (n + 1) (MAX_LINE_LEN - length (c_line_buf (cl s k))) in
            drain k now ns (drop m stream) (handle_client_input k now (Read_Bytes (take m stream)) s)))"

text \<open>No line, with its newline, is longer than the buffer.\<close>

definition short_lines :: "string \<Rightarrow> bool" where
  "short_lines t \<longleftrightarrow> (\<forall>a b c. t = a @ b @ c \<and> LF \<notin> set b \<longrightarrow> length b < MAX_LINE_LEN)"

lemma short_suffix: "short_lines (a @ b) \<Longrightarrow> short_lines b"
  unfolding short_lines_def by (metis append_assoc)

lemma short_prefix: "short_lines (a @ b) \<Longrightarrow> short_lines a"
  unfolding short_lines_def by (metis append_assoc)

lemma short_no_LF: "short_lines t \<Longrightarrow> LF \<notin> set t \<Longrightarrow> length t < MAX_LINE_LEN"
  unfolding short_lines_def by (metis append_Nil append_Nil2)

section \<open>The buffer is not looked at by the commands\<close>

abbreviation set_buf :: "nat \<Rightarrow> string \<Rightarrow> server \<Rightarrow> server" where
  "set_buf k b \<equiv> upd_client k (\<lambda>c. c\<lparr>c_line_buf := b\<rparr>)"

lemma upd_client_comp:
  "k < length (g_clients s) \<Longrightarrow> upd_client k f (upd_client k g s) = upd_client k (f \<circ> g) s"
  by (simp add: upd_client_def)

lemma set_buf_set_buf [simp]: "set_buf k b (set_buf k b' s) = set_buf k b s"
  by (cases "k < length (g_clients s)") (simp_all add: upd_client_def list_update_beyond)

lemma set_buf_reply: "k < length (g_clients s) \<Longrightarrow> reply k l (set_buf k b s) = set_buf k b (reply k l s)"
  by (simp add: reply_def send_line_def upd_client_def)

lemma set_buf_log: "log_event ev (set_buf k b s) = set_buf k b (log_event ev s)"
  by (simp add: log_event_def upd_client_def)

lemma set_buf_upd:
  "k < length (g_clients s) \<Longrightarrow> (\<And>c. f (c\<lparr>c_line_buf := b\<rparr>) = (f c)\<lparr>c_line_buf := b\<rparr>) \<Longrightarrow>
   upd_client k f (set_buf k b s) = set_buf k b (upd_client k f s)"
  by (simp add: upd_client_def)

lemma set_buf_stock: "(set_buf k b s)\<lparr>g_ingredients := x\<rparr> = set_buf k b (s\<lparr>g_ingredients := x\<rparr>)"
  by (simp add: upd_client_def)

lemma spell_add_buf: "spell_add n q (c\<lparr>c_line_buf := b\<rparr>) = (spell_add n q c)\<lparr>c_line_buf := b\<rparr>"
  by (simp add: spell_add_def spell_find_def split: option.splits)

lemma spell_sub_buf: "spell_sub n q (c\<lparr>c_line_buf := b\<rparr>) = (spell_sub n q c)\<lparr>c_line_buf := b\<rparr>"
  by (simp add: spell_sub_def spell_find_def Let_def split: option.splits)

lemma set_buf_lookups:
  "find_ingredient (set_buf k b s) n = find_ingredient s n" "stock_of (set_buf k b s) i = stock_of s i"
  "enrolled_names (set_buf k b s) = enrolled_names s"
  "username_taken (set_buf k b s) u k = username_taken s u k"
proof -
  have "map c_username (filter (\<lambda>c. \<not> c_fd c < 0 \<and> c_enrolled c) (xs[i := (xs ! i)\<lparr>c_line_buf := b\<rparr>])) =
      map c_username (filter (\<lambda>c. \<not> c_fd c < 0 \<and> c_enrolled c) xs)" for xs i
    by (induction xs arbitrary: i) (auto split: nat.splits)
  then show "enrolled_names (set_buf k b s) = enrolled_names s" by (simp add: enrolled_names_def)
  show "username_taken (set_buf k b s) u k = username_taken s u k"
    by (auto simp: username_taken_def list_ex_iff)
qed (simp_all add: find_ingredient_def stock_of_def)

lemmas set_buf_rules = set_buf_reply set_buf_log set_buf_upd set_buf_stock spell_add_buf spell_sub_buf set_buf_lookups

lemma set_buf_brew:
  "k < length (g_clients s) \<Longrightarrow> cmd_brew k rest (set_buf k b s) = set_buf k b (cmd_brew k rest s)"
  by (simp add: cmd_brew_def Let_def set_buf_rules split: option.splits del: upd_client_frame(7))
     (simp add: set_buf_rules)

lemma set_buf_consume:
  "k < length (g_clients s) \<Longrightarrow> cmd_consume k rest (set_buf k b s) = set_buf k b (cmd_consume k rest s)"
  by (simp add: cmd_consume_def Let_def set_buf_rules spell_find_def split: option.splits)

lemma set_buf_enroll:
  "k < length (g_clients s) \<Longrightarrow> cmd_enroll k rest (set_buf k b s) = set_buf k b (cmd_enroll k rest s)"
  by (simp add: cmd_enroll_def Let_def set_buf_rules split: option.splits prod.splits)

lemma set_buf_queries:
  assumes "k < length (g_clients s)"
  shows "cmd_spellbook k (set_buf k b s) = set_buf k b (cmd_spellbook k s)"
    "cmd_inspect k rest (set_buf k b s) = set_buf k b (cmd_inspect k rest s)"
    "cmd_scroll k (set_buf k b s) = set_buf k b (cmd_scroll k s)"
    "cmd_roster k (set_buf k b s) = set_buf k b (cmd_roster k s)"
  using assms
  by (simp_all add: cmd_spellbook_def cmd_inspect_def cmd_scroll_def cmd_roster_def Let_def set_buf_rules split: option.splits)

lemma set_buf_command:
  assumes k: "k < length (g_clients s)"
  shows "handle_command k line (set_buf k b s) =
    (set_buf k b (fst (handle_command k line s)), snd (handle_command k line s))"
proof -
  have same: "c_enrolled (cl (set_buf k b s) k) = c_enrolled (cl s k)" "c_type (cl (set_buf k b s) k) = c_type (cl s k)"
    using k by simp_all
  obtain cmd rest where t: "strtok blanks line = (cmd, rest)" by (cases "strtok blanks line")
  have "handle_command k line (set_buf k b s) = apfst (set_buf k b) (handle_command k line s)"
  proof (cases cmd)
    case None
    then show ?thesis by (simp only: handle_command_def t prod.case option.case if_distrib [of "apfst (set_buf k b)"] apfst_conv)
  next
    case (Some c)
    show ?thesis
      unfolding handle_command_def Let_def same t Some prod.case option.case
      by (simp only: if_distrib [of "apfst (set_buf k b)"] if_distrib [of "set_buf k b"] apfst_conv
          set_buf_brew [OF k] set_buf_consume [OF k] set_buf_enroll [OF k] set_buf_queries [OF k] set_buf_reply [OF k])
  qed
  then show ?thesis by (simp add: apfst_def map_prod_def case_prod_beta)
qed

lemma command_same:
  assumes k: "k < length (g_clients s)"
  shows "length (g_clients (fst (handle_command k line s))) = length (g_clients s)"
    "c_fd (cl (fst (handle_command k line s)) k) = c_fd (cl s k)"
proof -
  note m = command_keeps [OF k, of line]
  show len: "length (g_clients (fst (handle_command k line s))) = length (g_clients s)" using m same_len by blast
  show "c_fd (cl (fst (handle_command k line s)) k) = c_fd (cl s k)" using m len k by (metis nth_map)
qed

lemma remove_set_buf:
  assumes "k < length (g_clients s)"
  shows "remove_client k reason (set_buf k b s) = (if c_fd (cl s k) < 0 then set_buf k b s else remove_client k reason s)"
  using assms
  by (simp add: remove_client_def Let_def shown_name_def reset_client_slot_def close_fd_def log_event_def upd_client_def)

section \<open>One stream\<close>

lemma serve_stream_line:
  assumes "LF \<in> set t" "raw = takeWhile (\<lambda>c. c \<noteq> LF) t" "rest = drop (length raw + 1) t"
    and "handle_command k (input_line raw) (set_buf k rest s) = (s1, out)"
  shows "serve_stream k t s = (case out of None \<Rightarrow> serve_stream k rest s1 | Some r \<Rightarrow> (remove_client k r s1, False))"
  using assms by (subst serve_stream.simps) (simp split: option.splits)

lemma serve_stream_rest: "LF \<notin> set t \<Longrightarrow> serve_stream k t s = (set_buf k t s, True)"
  by (subst serve_stream.simps) simp

lemma stream_set_buf:
  assumes "k < length (g_clients s)"
  shows "serve_stream k t (set_buf k b s) = serve_stream k t s"
  by (subst (1 2) serve_stream.simps) (simp add: Let_def)

text \<open>Serving a piece and then, with what it left, the next one is serving both at once.\<close>

lemma serve_stream_append:
  assumes "k < length (g_clients s)" "0 \<le> c_fd (cl s k)"
  shows "serve_stream k (a @ b) s =
    (case serve_stream k a s of
       (s1, False) \<Rightarrow> (s1, False)
     | (s1, True) \<Rightarrow> serve_stream k (c_line_buf (cl s1 k) @ b) s1)"
  using assms
proof (induction k a s rule: serve_stream.induct)
  case (1 k a s)
  show ?case
  proof (cases "LF \<in> set a")
    case False
    then have "serve_stream k a s = (set_buf k a s, True)" by (rule serve_stream_rest)
    then show ?thesis using 1 stream_set_buf by simp
  next
    case True
    define raw where "raw = takeWhile (\<lambda>c. c \<noteq> LF) a"
    define rest where "rest = drop (length raw + 1) a"
    obtain s1 out where h: "handle_command k (input_line raw) s = (s1, out)" by (cases "handle_command k (input_line raw) s")
    have k1: "k < length (g_clients s1)" "c_fd (cl s1 k) = c_fd (cl s k)"
      using command_same [OF "1.prems"(1), of "input_line raw"] h "1.prems"(1) by simp_all
    have hb: "handle_command k (input_line raw) (set_buf k x s) = (set_buf k x s1, out)" for x
      using set_buf_command [OF "1.prems"(1)] h by simp
    have split: "takeWhile (\<lambda>c. c \<noteq> LF) (a @ b) = raw" "drop (length raw + 1) (a @ b) = rest @ b"
    proof -
      obtain u v where a: "a = u @ LF # v" "LF \<notin> set u" using split_list_first [OF True] by blast
      have tw: "takeWhile (\<lambda>c. c \<noteq> LF) (u @ LF # w) = u" for w by (rule takeWhile_append_stop) (use a in auto)
      then have "raw = u" unfolding raw_def a(1) by blast
      then show "takeWhile (\<lambda>c. c \<noteq> LF) (a @ b) = raw" "drop (length raw + 1) (a @ b) = rest @ b"
        using a(1) tw by (simp_all add: rest_def)
    qed
    have eqa: "serve_stream k a s = (case out of None \<Rightarrow> serve_stream k rest (set_buf k rest s1)
        | Some r \<Rightarrow> (remove_client k r (set_buf k rest s1), False))"
      by (rule serve_stream_line [OF True raw_def rest_def hb])
    have eqab: "serve_stream k (a @ b) s = (case out of None \<Rightarrow> serve_stream k (rest @ b) (set_buf k (rest @ b) s1)
        | Some r \<Rightarrow> (remove_client k r (set_buf k (rest @ b) s1), False))"
      by (rule serve_stream_line [OF _ split(1) [symmetric] split(2) [symmetric] hb]) (use True in simp)
    show ?thesis
    proof (cases out)
      case None
      have "serve_stream k (rest @ b) (set_buf k rest s1) =
          (case serve_stream k rest (set_buf k rest s1) of (s1, False) \<Rightarrow> (s1, False)
           | (s1, True) \<Rightarrow> serve_stream k (c_line_buf (cl s1 k) @ b) s1)"
        using "1.IH" [of raw rest "set_buf k rest s1" None] True hb [of rest] None k1 "1.prems"(2) raw_def rest_def by simp
      then show ?thesis using None eqa eqab stream_set_buf k1(1) by simp
    next
      case (Some r)
      then show ?thesis using eqa eqab remove_set_buf [OF k1(1)] k1(2) "1.prems"(2) by simp
    qed
  qed
qed

lemma serve_lines_stream:
  assumes "short_lines buf"
  shows "serve_lines k buf s = fst (serve_stream k buf s)"
  using assms
proof (induction k buf s rule: serve_stream.induct)
  case (1 k buf s)
  show ?case
  proof (cases "LF \<in> set buf")
    case False
    then show ?thesis using short_no_LF [OF 1(2)] by (subst serve_lines.simps, subst serve_stream.simps) simp
  next
    case True
    define raw where "raw = takeWhile (\<lambda>c. c \<noteq> LF) buf"
    define rest where "rest = drop (length raw + 1) buf"
    have "short_lines rest" using short_suffix [of "take (length raw + 1) buf" rest] 1(2) by (simp add: rest_def)
    moreover obtain s1 out where h: "handle_command k (input_line raw) (set_buf k rest s) = (s1, out)"
      by (cases "handle_command k (input_line raw) (set_buf k rest s)")
    ultimately show ?thesis
      using "1.IH" [of raw rest s1 None] True raw_def rest_def
      by (subst serve_lines.simps, subst serve_stream.simps) (simp split: option.splits)
  qed
qed

section \<open>The pieces make no difference\<close>

lemma stream_keeps_fd:
  assumes "k < length (g_clients s)" "0 \<le> c_fd (cl s k)" "serve_stream k t s = (s', open)"
  shows "length (g_clients s') = length (g_clients s)" "open \<Longrightarrow> c_fd (cl s' k) = c_fd (cl s k)" "\<not> open \<Longrightarrow> c_fd (cl s' k) < 0"
proof -
  have "length (g_clients s') = length (g_clients s) \<and> (if open then c_fd (cl s' k) = c_fd (cl s k) else c_fd (cl s' k) < 0)"
    using assms
  proof (induction k t s rule: serve_stream.induct)
    case (1 k t s)
    show ?case
    proof (cases "LF \<in> set t")
      case False
      then show ?thesis using "1.prems" by (auto simp: serve_stream_rest)
    next
      case True
      define raw where "raw = takeWhile (\<lambda>c. c \<noteq> LF) t"
      define rest where "rest = drop (length raw + 1) t"
      obtain s1 out where h: "handle_command k (input_line raw) (set_buf k rest s) = (s1, out)"
        by (cases "handle_command k (input_line raw) (set_buf k rest s)")
      have s1: "length (g_clients s1) = length (g_clients s)" "c_fd (cl s1 k) = c_fd (cl s k)"
        using command_same [of k "set_buf k rest s" "input_line raw"] h "1.prems" by simp_all
      show ?thesis
      proof (cases out)
        case None
        then have "serve_stream k rest s1 = (s', open)"
          using "1.prems"(3) serve_stream_line [OF True raw_def rest_def h] by simp
        then show ?thesis using "1.IH" [of raw rest s1 None] True h None s1 "1.prems"(1,2) raw_def rest_def by simp
      next
        case (Some r)
        then have "(remove_client k r s1, False) = (s', open)"
          using "1.prems"(3) serve_stream_line [OF True raw_def rest_def h] by simp
        then show ?thesis using s1 "1.prems"(1,2) by (auto simp: remove_client_def Let_def free_client_def)
      qed
    qed
  qed
  then show "length (g_clients s') = length (g_clients s)" "open \<Longrightarrow> c_fd (cl s' k) = c_fd (cl s k)" "\<not> open \<Longrightarrow> c_fd (cl s' k) < 0"
    by auto
qed

lemma stream_buf:
  assumes "k < length (g_clients s)" "serve_stream k t s = (s', True)"
  shows "\<exists>u. t = u @ c_line_buf (cl s' k) \<and> LF \<notin> set (c_line_buf (cl s' k)) \<and> c_last_active (cl s' k) = c_last_active (cl s k)"
  using assms
proof (induction k t s rule: serve_stream.induct)
  case (1 k t s)
  show ?case
  proof (cases "LF \<in> set t")
    case False
    then show ?thesis using "1.prems" by (auto simp: serve_stream_rest)
  next
    case True
    define raw where "raw = takeWhile (\<lambda>c. c \<noteq> LF) t"
    define rest where "rest = drop (length raw + 1) t"
    obtain s1 out where h: "handle_command k (input_line raw) (set_buf k rest s) = (s1, out)"
      by (cases "handle_command k (input_line raw) (set_buf k rest s)")
    have out: "out = None" and st: "serve_stream k rest s1 = (s', True)"
      using "1.prems"(2) serve_stream_line [OF True raw_def rest_def h] by (simp_all split: option.splits)
    have len: "length (g_clients s1) = length (g_clients s)"
      using command_same [of k "set_buf k rest s" "input_line raw"] h "1.prems" by simp
    have "map c_last_active (g_clients s1) = map c_last_active (g_clients (set_buf k rest s))"
      using command_keeps [of k "set_buf k rest s" "input_line raw"] h "1.prems"(1) by simp
    then have la: "c_last_active (cl s1 k) = c_last_active (cl (set_buf k rest s) k)"
      using len "1.prems"(1) by (metis nth_map length_map same_len)
    obtain u where "rest = u @ c_line_buf (cl s' k)" "LF \<notin> set (c_line_buf (cl s' k))" "c_last_active (cl s' k) = c_last_active (cl s1 k)"
      using "1.IH" [of raw rest s1 None] True h out st len "1.prems"(1) raw_def rest_def by auto
    moreover have "t = take (length raw + 1) t @ rest" by (simp add: rest_def)
    ultimately show ?thesis using la "1.prems"(1) by (metis append_assoc client.ext_inject client.surjective client.update_convs(5)
        client.select_convs(6) nth_list_update_eq upd_client_frame(7))
  qed
qed

lemma upd_client_same: "f (cl s k) = cl s k \<Longrightarrow> upd_client k f s = s"
  by (simp add: upd_client_def)

abbreviation touch :: "nat \<Rightarrow> int \<Rightarrow> server \<Rightarrow> server" where
  "touch k now \<equiv> upd_client k (\<lambda>c. c\<lparr>c_last_active := now\<rparr>)"

lemma drain_stream:
  assumes "k < length (g_clients s)" "0 \<le> c_fd (cl s k)" "LF \<notin> set (c_line_buf (cl s k))"
    "short_lines (c_line_buf (cl s k) @ stream)" "stream \<noteq> []" "length stream \<le> length ns"
  shows "drain k now ns stream s = fst (serve_stream k (c_line_buf (cl s k) @ stream) (touch k now s))"
  using assms
proof (induction k now ns stream s rule: drain.induct)
  case (2 k now n ns stream s)
  note k = "2.prems"(1) and live = "2.prems"(2) and short = "2.prems"(4)
  let ?buf = "c_line_buf (cl s k)"
  define m where "m = min (n + 1) (MAX_LINE_LEN - length ?buf)"
  have buf: "length ?buf < MAX_LINE_LEN" using short_no_LF [OF short_prefix [OF short] "2.prems"(3)] .
  then have m: "0 < m" "take (MAX_LINE_LEN - length ?buf) (take m stream) = take m stream" by (auto simp: m_def min_def)
  have whole: "?buf @ stream = (?buf @ take m stream) @ drop m stream" by simp
  have st: "k < length (g_clients (touch k now s))" "0 \<le> c_fd (cl (touch k now s) k)" using k live by simp_all
  obtain s1 op where s1: "serve_stream k (?buf @ take m stream) (touch k now s) = (s1, op)"
    by (cases "serve_stream k (?buf @ take m stream) (touch k now s)")
  note keep = stream_keeps_fd [OF st s1]
  have "handle_client_input k now (Read_Bytes (take m stream)) s = serve_lines k (?buf @ take m stream) (touch k now s)"
    using buf m "2.prems"(5) by (simp add: handle_client_input_def Let_def)
  also have "\<dots> = s1"
    using serve_lines_stream [OF short_prefix [OF short [unfolded whole]]] s1 by simp
  finally have input: "handle_client_input k now (Read_Bytes (take m stream)) s = s1" .
  then have step: "drain k now (n # ns) stream s = drain k now ns (drop m stream) s1"
    using live "2.prems"(5) by (simp add: m_def)
  have split: "serve_stream k (?buf @ stream) (touch k now s) =
      (if op then serve_stream k (c_line_buf (cl s1 k) @ drop m stream) s1 else (s1, False))"
    unfolding whole by (subst serve_stream_append [OF st], subst s1) (simp add: case_bool_if)
  show ?case
  proof (cases op)
    case False
    have "drain k now ns (drop m stream) s1 = s1" using keep(3) False by (cases ns) simp_all
    then show ?thesis using step split False by simp
  next
    case True
    obtain u where u: "?buf @ take m stream = u @ c_line_buf (cl s1 k)" "LF \<notin> set (c_line_buf (cl s1 k))"
        "c_last_active (cl s1 k) = now"
      using stream_buf [OF st(1), of "?buf @ take m stream" s1] s1 True k by auto
    show ?thesis
    proof (cases "drop m stream = []")
      case nil: True
      have "drain k now ns (drop m stream) s1 = s1" by (cases ns) (simp_all add: nil)
      moreover have "serve_stream k (c_line_buf (cl s1 k)) s1 = (s1, True)"
        using serve_stream_rest [OF u(2)] upd_client_same [of "\<lambda>c. c\<lparr>c_line_buf := c_line_buf (cl s1 k)\<rparr>" s1 k] by simp
      ultimately show ?thesis using step split True nil by simp
    next
      case more: False
      have "?buf @ stream = u @ (c_line_buf (cl s1 k) @ drop m stream)" unfolding whole u(1) by simp
      then have "short_lines (c_line_buf (cl s1 k) @ drop m stream)" using short short_suffix by metis
      moreover have "touch k now s1 = s1" using u(3) by (intro upd_client_same) simp
      moreover have "length (drop m stream) \<le> length ns" using "2.prems"(6) m(1) by simp
      ultimately have "drain k now ns (drop m stream) s1 = fst (serve_stream k (c_line_buf (cl s1 k) @ drop m stream) s1)"
        using "2.IH" [OF _ m_def, unfolded input] "2.prems"(5) live keep(1,2) True u(2) more k by simp
      then show ?thesis using step split True by simp
    qed
  qed
qed simp

end
