(* ===== verification/Hogwarts_Facts.thy ===== *)
theory Hogwarts_Facts
  imports Hogwarts_Framing
begin

text \<open>
  The remaining facts about single operations of the Hogwarts server: replies, timeouts, shutdown,
  the ingredients file, replies that are put together in a buffer, and \<open>write_all\<close>.
\<close>

section \<open>Replies\<close>

definition only_reply :: "nat \<Rightarrow> server \<Rightarrow> server \<Rightarrow> bool" where
  "only_reply k s s' \<longleftrightarrow> (\<exists>msg. g_sent s' = g_sent s @ [(c_fd (cl s k), line_out msg)]) \<and>
     length (g_clients s') = length (g_clients s) \<and> (\<forall>j < length (g_clients s). j \<noteq> k \<longrightarrow> cl s' j = cl s j)"

lemma only_replyI:
  "g_sent s' = g_sent s @ [(c_fd (cl s k), line_out msg)] \<Longrightarrow> g_clients s' = g_clients s \<or> (\<exists>c. g_clients s' = (g_clients s)[k := c]) \<Longrightarrow>
   only_reply k s s'"
  by (auto simp: only_reply_def)

lemma reply_only [simp]: "only_reply k s (reply k l s)"
  by (rule only_replyI) auto

lemma commands_reply:
  assumes "k < length (g_clients s)"
  shows "only_reply k s (cmd_brew k rest s)" "only_reply k s (cmd_consume k rest s)" "only_reply k s (cmd_enroll k rest s)"
    "only_reply k s (cmd_spellbook k s)" "only_reply k s (cmd_inspect k rest s)" "only_reply k s (cmd_scroll k s)"
    "only_reply k s (cmd_roster k s)"
  using assms
  by (auto simp: cmd_brew_def cmd_consume_def cmd_enroll_def cmd_spellbook_def cmd_inspect_def cmd_scroll_def cmd_roster_def
      Let_def intro!: only_replyI split: option.splits prod.splits)

lemma command_reply:
  assumes k: "k < length (g_clients s)" and t: "strtok blanks line = (Some cmd, rest)"
  shows "only_reply k s (fst (handle_command k line s))"
proof -
  have "line \<noteq> []" using t by auto
  then show ?thesis
    using commands_reply [OF k] by (simp add: handle_command_def t Let_def)
qed

lemma stock_unchanged:
  "g_ingredients (cmd_enroll k rest s) = g_ingredients s" "g_ingredients (cmd_spellbook k s) = g_ingredients s"
  "g_ingredients (cmd_inspect k rest s) = g_ingredients s" "g_ingredients (cmd_scroll k s) = g_ingredients s"
  "g_ingredients (cmd_roster k s) = g_ingredients s"
  by (auto simp: cmd_enroll_def cmd_spellbook_def cmd_inspect_def cmd_scroll_def cmd_roster_def Let_def
      split: option.splits prod.splits)

lemma command_stock:
  assumes "g_ingredients (fst (handle_command k line s)) \<noteq> g_ingredients s"
  shows "c_enrolled (cl s k) \<and> c_type (cl s k) = ''WIZARD'' \<and> fst (strtok blanks line) \<in> {Some ''BREW'', Some ''CONSUME''}"
  using assms stock_unchanged
  by (cases "strtok blanks line"; cases "fst (strtok blanks line)") (auto simp: handle_command_def Let_def split: if_splits)

lemma index_of_names: "map fst es = map fst es' \<Longrightarrow> index_of n es = index_of n es'"
proof (induction es arbitrary: es')
  case (Cons e es)
  then obtain e' es'' where "es' = e' # es''" "fst e = fst e'" "map fst es = map fst es''" by (cases es') auto
  then show ?case using Cons.IH [of es''] by simp
qed simp

lemma index_of_upd [simp]: "index_of n (upd_qty i f es) = index_of n es"
  by (rule index_of_names) simp

section \<open>Timeouts\<close>

definition idle_for :: "int \<Rightarrow> client \<Rightarrow> int" where
  "idle_for now c = (if now - c_last_active c < 0 then 0 else now - c_last_active c)"

definition timed_out :: "int \<Rightarrow> int \<Rightarrow> client \<Rightarrow> bool" where
  "timed_out T now c \<longleftrightarrow> 0 \<le> c_fd c \<and> T \<le> idle_for now c"

lemma idle_step:
  "idle_loop now (i # is) (s, m) =
     (if timed_out (g_timeout_sec s) now (cl s i) then
        idle_loop now is (remove_client i ''timeout'' (send_line (c_fd (cl s i)) ''TIMEOUT DISCONNECT''
          (log_event (Client_Timeout (shown_name (cl s i)) (c_fd (cl s i)) (idle_for now (cl s i))) s)), m)
      else if c_fd (cl s i) < 0 then idle_loop now is (s, m)
      else idle_loop now is (s, min (g_timeout_sec s - idle_for now (cl s i)) m))"
  by (simp add: Let_def timed_out_def idle_for_def min_def)

lemma idle_loop_result:
  assumes "distinct is" "\<forall>i \<in> set is. i < length (g_clients s)" "idle_loop now is (s, m) = (s', m')"
  shows "length (g_clients s') = length (g_clients s) \<and> g_timeout_sec s' = g_timeout_sec s \<and>
    (\<forall>j < length (g_clients s). cl s' j = (if j \<in> set is \<and> timed_out (g_timeout_sec s) now (cl s j) then free_client else cl s j)) \<and>
    m' \<le> m \<and> (1 \<le> m \<longrightarrow> 1 \<le> m') \<and>
    (\<forall>j \<in> set is. 0 \<le> c_fd (cl s' j) \<longrightarrow> m' \<le> g_timeout_sec s - idle_for now (cl s' j))"
  using assms
proof (induction "is" arbitrary: s m)
  case (Cons i "is")
  let ?T = "g_timeout_sec s"
  note lp = Cons.prems(3) [unfolded idle_step]
  have i: "i < length (g_clients s)" "i \<notin> set is" using Cons.prems by auto
  consider (out) "timed_out ?T now (cl s i)" | (free) "\<not> timed_out ?T now (cl s i)" "c_fd (cl s i) < 0"
    | (live) "\<not> timed_out ?T now (cl s i)" "\<not> c_fd (cl s i) < 0" by blast
  then show ?case
  proof cases
    case out
    define s1 where "s1 = remove_client i ''timeout'' (send_line (c_fd (cl s i)) ''TIMEOUT DISCONNECT''
          (log_event (Client_Timeout (shown_name (cl s i)) (c_fd (cl s i)) (idle_for now (cl s i))) s))"
    have s1: "g_clients s1 = (g_clients s)[i := free_client]" "g_timeout_sec s1 = ?T"
      using out by (simp_all add: s1_def remove_client_def Let_def timed_out_def)
    have lp1: "idle_loop now is (s1, m) = (s', m')" using lp out by (simp add: s1_def)
    have "\<forall>i \<in> set is. i < length (g_clients s1)" using Cons.prems(2) s1(1) by simp
    note IH = Cons.IH [OF _ this lp1]
    have "cl s' i = free_client" using IH Cons.prems(1) s1 i by simp
    then show ?thesis
      using IH Cons.prems(1) s1 i out by (auto simp: nth_list_update free_client_def split: if_splits)
  next
    case free
    then have lp1: "idle_loop now is (s, m) = (s', m')" using lp by simp
    note IH = Cons.IH [OF _ _ lp1]
    show ?thesis using IH Cons.prems(1,2) free i by auto
  next
    case live
    then have lp1: "idle_loop now is (s, min (?T - idle_for now (cl s i)) m) = (s', m')" using lp by simp
    note IH = Cons.IH [OF _ _ lp1]
    have "1 \<le> ?T - idle_for now (cl s i)" using live by (auto simp: timed_out_def)
    then show ?thesis using IH Cons.prems(1,2) live i by auto
  qed
qed simp

section \<open>Shutdown\<close>

lemma shutdown_fold:
  assumes "\<forall>i \<in> set is. i < length (g_clients s)" "distinct is"
    and "mset (g_accepted s) = mset (g_closed s) + mset (open_fds s)"
  shows "let s' = foldl (\<lambda>s i. if c_fd (cl s i) \<ge> 0
      then reset_client_slot i (close_fd (c_fd (cl s i)) (send_line (c_fd (cl s i)) ''SERVER SHUTDOWN'' s)) else s) s is in
    length (g_clients s') = length (g_clients s) \<and> g_accepted s' = g_accepted s \<and>
    mset (g_accepted s') = mset (g_closed s') + mset (open_fds s') \<and>
    (\<forall>j < length (g_clients s). cl s' j = (if j \<in> set is \<and> 0 \<le> c_fd (cl s j) then free_client else cl s j))"
  using assms
proof (induction "is" arbitrary: s)
  case (Cons i "is")
  define s1 where "s1 = (if c_fd (cl s i) \<ge> 0
      then reset_client_slot i (close_fd (c_fd (cl s i)) (send_line (c_fd (cl s i)) ''SERVER SHUTDOWN'' s)) else s)"
  have i: "i < length (g_clients s)" using Cons.prems(1) by simp
  have acc: "mset (g_accepted s1) = mset (g_closed s1) + mset (open_fds s1)"
    using Cons.prems(3) mset_open_upd [OF i, of free_client] by (auto simp: s1_def open_fds_def free_client_def)
  have s1: "g_clients s1 = (if 0 \<le> c_fd (cl s i) then (g_clients s)[i := free_client] else g_clients s)" "g_accepted s1 = g_accepted s"
    by (simp_all add: s1_def)
  note IH = Cons.IH [of s1, OF _ _ acc]
  have len: "length (g_clients s1) = length (g_clients s)" using s1(1) by simp
  have bounds: "\<forall>i \<in> set is. i < length (g_clients s1)" "distinct is" using Cons.prems(1,2) len by auto
  have s1_nth: "cl s1 j = (if j = i \<and> 0 \<le> c_fd (cl s j) then free_client else cl s j)" if "j < length (g_clients s)" for j
    using s1(1) that by (auto simp: nth_list_update)
  have free: "\<not> 0 \<le> c_fd free_client" by (simp add: free_client_def)
  show ?case
    unfolding foldl_Cons s1_def [symmetric]
    using IH [OF bounds] len s1(2) s1_nth i Cons.prems(2) free by (auto simp: Let_def)
qed (simp add: Let_def)

section \<open>The ingredients file\<close>

definition stock_ok :: "stock_entry list \<Rightarrow> bool" where
  "stock_ok es \<longleftrightarrow> distinct (map fst es) \<and> length es \<le> MAX_INGREDIENTS \<and>
     (\<forall>e \<in> set es. is_valid_ingredient_name (fst e) \<and> 0 < snd e \<and> snd e \<le> int_max)"

lemma valid_name_length: "is_valid_ingredient_name n \<Longrightarrow> length n < MAX_INGREDIENT_LEN"
  by (auto simp: is_valid_ingredient_name_def MAX_INGREDIENT_LEN_def)

lemma ingredient_line_ok:
  assumes "ingredient_line known line = Some e"
  shows "is_valid_ingredient_name (fst e) \<and> 0 < snd e \<and> snd e \<le> int_max \<and> fst e \<notin> fst ` set known"
proof -
  obtain name rest qty r where p: "scan_word 63 (cstr line) = Some (name, rest)" "scan_int rest = Some (qty, r)"
      "is_valid_ingredient_name name" "0 < qty" "\<not> list_ex (\<lambda>p. fst p = name) known"
      "e = (strncpy (MAX_INGREDIENT_LEN - 1) name, qty)"
    using assms by (auto simp: ingredient_line_def split: option.splits prod.splits if_splits)
  have "strncpy (MAX_INGREDIENT_LEN - 1) name = name" using valid_name_length [OF p(3)] by simp
  moreover have "qty \<le> int_max" using p(2) wrap32_range by (auto simp: scan_int_def split: prod.splits if_splits)
  ultimately show ?thesis using p by (auto simp: list_ex_iff)
qed

lemma load_loop_ok: "stock_ok known \<Longrightarrow> stock_ok (load_loop lines known)"
proof (induction lines known rule: load_loop.induct)
  case (2 line lines known)
  show ?case
  proof (cases "MAX_INGREDIENTS \<le> length known")
    case room: False
    show ?thesis
    proof (cases "ingredient_line known line")
      case None
      then show ?thesis using "2.IH"(1) [OF room None "2.prems"] room by simp
    next
      case (Some e)
      note ok = ingredient_line_ok [OF Some]
      have "stock_ok (known @ [e])" using "2.prems" ok room by (auto simp: stock_ok_def)
      then show ?thesis using "2.IH"(2) [OF room Some] room Some by simp
    qed
  qed (use 2 in simp)
qed simp

lemma load_ingredients_ok: "load_ingredients file = Some es \<Longrightarrow> stock_ok es"
  using load_loop_ok [of "[]"] by (auto simp: load_ingredients_def stock_ok_def)

definition stock_line :: "stock_entry \<Rightarrow> string" where
  "stock_line e = fst e @ '' '' @ int_dec (snd e)"

lemma name_char: "is_valid_ingredient_name n \<Longrightarrow> c \<in> set n \<Longrightarrow> \<not> is_space c \<and> c \<noteq> NUL"
  by (auto simp: is_valid_ingredient_name_def list_all_iff char_class_defs)

lemma ingredient_line_print:
  assumes "is_valid_ingredient_name (fst e)" "0 < snd e" "snd e \<le> int_max" "fst e \<notin> fst ` set known"
  shows "ingredient_line known (stock_line e @ [LF]) = Some e"
proof -
  obtain n q where e: "e = (n, q)" by (cases e)
  have n: "length n < MAX_INGREDIENT_LEN" "n \<noteq> []" using assms(1) e valid_name_length by (auto simp: is_valid_ingredient_name_def)
  have sp: "is_space CHR '' ''" by (simp add: char_class_defs)
  have nul: "NUL \<notin> set (stock_line e @ [LF])"
    using name_char [of n] assms(1) set_int_dec [of NUL q] by (auto simp: stock_line_def e char_class_defs)
  have hd: "dropWhile is_space (n @ t) = n @ t" for t using n(2) name_char [of n "hd n"] assms(1) e by (cases n) auto
  have "takeWhile (\<lambda>c. \<not> is_space c) (n @ CHR '' '' # t) = n" for t
    by (rule takeWhile_append_stop) (use name_char [of n] assms(1) e sp in auto)
  then have w: "scan_word 63 (n @ CHR '' '' # t) = Some (n, CHR '' '' # t)" for t
    using hd n by (simp add: scan_word_def Let_def MAX_INGREDIENT_LEN_def)
  have v: "strtol (int_dec q @ [LF]) = (q, [LF], False)"
    using assms(2,3) e by (intro strtol_int_dec) (auto simp: limits_defs char_class_defs)
  obtain c cs where c: "int_dec q @ [LF] = c # cs" "is_digit c"
    using nat_dec_hd [of "nat q"] assms(2) e by (auto simp: int_dec_def)
  have "c \<noteq> CHR ''-''" "c \<noteq> CHR ''+''" using c(2) by (auto simp: char_class_defs)
  then have "strtol (CHR '' '' # c # cs) = strtol (c # cs)"
    using sp c(2) digit_not_space [OF c(2)] by (simp add: strtol_def Let_def)
  then have "strtol (CHR '' '' # int_dec q @ [LF]) = (q, [LF], False)" using v c(1) by simp
  then have i: "scan_int (CHR '' '' # int_dec q @ [LF]) = Some (q, [LF])"
    using assms(2,3) e wrap32_id [of q] by (simp add: scan_int_def limits_defs)
  show ?thesis
    unfolding ingredient_line_def cstr_id [OF nul]
    using w i assms n by (simp add: stock_line_def e list_ex_iff image_iff) force
qed

lemma load_loop_print:
  assumes "stock_ok (known @ es)"
  shows "load_loop (map (\<lambda>e. stock_line e @ [LF]) es) known = known @ es"
  using assms
proof (induction es arbitrary: known)
  case (Cons e es)
  have "ingredient_line known (stock_line e @ [LF]) = Some e"
    using Cons.prems by (intro ingredient_line_print) (auto simp: stock_ok_def)
  moreover have "length known < MAX_INGREDIENTS" using Cons.prems by (simp add: stock_ok_def)
  ultimately show ?case using Cons.IH [of "known @ [e]"] Cons.prems by simp
qed simp

lemma stock_line_fits:
  assumes "is_valid_ingredient_name (fst e)" "0 < snd e" "snd e \<le> int_max"
  shows "length (stock_line e) < 255" "LF \<notin> set (stock_line e)"
proof -
  have "nat (snd e) < 10 ^ 10" using assms(2,3) by (simp add: int_max_def)
  then have "length (nat_dec (nat (snd e))) \<le> 10" by (rule nat_dec_length) simp
  then show "length (stock_line e) < 255"
    using assms(2) valid_name_length [OF assms(1)] by (simp add: stock_line_def int_dec_def MAX_INGREDIENT_LEN_def)
  show "LF \<notin> set (stock_line e)"
    using name_char [OF assms(1), of LF] set_int_dec [of LF "snd e"] by (auto simp: stock_line_def char_class_defs)
qed

lemma fgets_stock:
  "stock_ok es \<Longrightarrow> fgets_lines 256 (concat (map (\<lambda>e. stock_line e @ [LF]) es)) = map (\<lambda>e. stock_line e @ [LF]) es"
proof (induction es)
  case (Cons e es)
  have "stock_ok es" using Cons.prems by (simp add: stock_ok_def)
  then show ?case
    using Cons stock_line_fits [of e] fgets_lines_line [of "stock_line e" 256 "concat (map (\<lambda>e. stock_line e @ [LF]) es)"]
    by (simp add: stock_ok_def)
qed simp

lemma start_server_ok:
  assumes "start_server fopen ok argv = Some s0"
  shows "start_ok s0" "1 \<le> g_timeout_sec s0" "0 < length (g_clients s0)" "stock_ok (g_ingredients s0)"
proof -
  obtain c stock where c: "parse_args argv = Some c" "load_ingredients (fopen (the (ingredients_path c))) = Some stock"
    and s0: "s0 = log_event (Server_Started (cfg_port c) (cfg_max_clients c) (cfg_timeout_sec c) (length stock))
        \<lparr>g_ingredients = stock, g_clients = replicate (nat (cfg_max_clients c)) free_client,
         g_timeout_sec = cfg_timeout_sec c, g_sent = [], g_log = [], g_accepted = [], g_closed = []\<rparr>"
    using assms by (auto simp: start_server_def split: option.splits if_splits)
  have st: "stock_ok stock" using load_ingredients_ok [OF c(2)] .
  have cfg: "1 \<le> cfg_timeout_sec c" "1 \<le> cfg_max_clients c"
    using c(1) by (auto simp: parse_args_def split: option.splits if_splits)
  show "start_ok s0" using st valid_name_length by (auto simp: start_ok_def s0 stock_ok_def)
  show "1 \<le> g_timeout_sec s0" "0 < length (g_clients s0)" "stock_ok (g_ingredients s0)" using st cfg by (simp_all add: s0)
qed

section \<open>Text in a buffer\<close>

lemma fill_take: "length buf < cap \<Longrightarrow> fill cap buf ps = take (cap - 1) (buf @ concat ps)"
proof (induction cap buf ps rule: fill.induct)
  case (2 cap buf p ps)
  show ?case
  proof (cases "length p \<ge> cap - length buf")
    case True
    then show ?thesis using 2(2) by (simp add: snprintf_def)
  next
    case False
    then show ?thesis using 2 by simp
  qed
qed simp

lemma concat_pieces: "xs \<noteq> [] \<Longrightarrow> concat (pieces xs) = hd xs @ concat (map (\<lambda>x. CHR '','' # x) (tl xs))"
  by (cases xs) (simp_all add: pieces_def)

section \<open>Writing\<close>

lemma write_all_prefix:
  assumes "write_all ws buf sent = Some (out, ok)" "sent = take (length sent) buf" "length sent \<le> length buf"
  shows "out = take (length out) buf \<and> length sent \<le> length out \<and> (ok \<longrightarrow> out = buf)"
  using assms
proof (induction ws buf sent rule: write_all.induct)
  case (1 ws buf sent)
  show ?case
  proof (cases "length sent < length buf")
    case False
    then show ?thesis using "1.prems" by (subst (asm) write_all.simps) auto
  next
    case True
    show ?thesis
    proof (cases ws)
      case Nil
      then show ?thesis using True "1.prems"(1) by (subst (asm) write_all.simps) simp
    next
      case (Cons w ws')
      show ?thesis
      proof (cases w)
        case W_Eintr
        then have "write_all ws' buf sent = Some (out, ok)" using True Cons "1.prems"(1) by (subst (asm) write_all.simps) simp
        then show ?thesis using "1.IH"(1) [OF True Cons W_Eintr] "1.prems"(2,3) by blast
      next
        case W_Error
        then have "out = sent" "\<not> ok" using True Cons "1.prems"(1) by (subst (asm) write_all.simps; simp)+
        then show ?thesis using "1.prems"(2) by simp
      next
        case (W_Bytes n)
        show ?thesis
        proof (cases "n = 0")
          case True
          then have "out = sent" "\<not> ok"
            using W_Bytes \<open>length sent < length buf\<close> Cons "1.prems"(1) by (subst (asm) write_all.simps; simp)+
          then show ?thesis using "1.prems"(2) by simp
        next
          case False
          let ?sent = "sent @ take n (drop (length sent) buf)"
          have w: "write_all ws' buf ?sent = Some (out, ok)"
            using W_Bytes False True Cons "1.prems"(1) by (subst (asm) write_all.simps) simp
          have "?sent = take (length sent + n) buf" using "1.prems"(2) by (metis take_add)
          then have "?sent = take (length ?sent) buf" "length ?sent \<le> length buf" by (simp_all add: min_def)
          then have "out = take (length out) buf \<and> length ?sent \<le> length out \<and> (ok \<longrightarrow> out = buf)"
            by (rule "1.IH"(2) [OF True Cons W_Bytes False w])
          moreover have "length sent \<le> length ?sent" by simp
          ultimately show ?thesis using le_trans by blast
        qed
      qed
    qed
  qed
qed

lemma write_all_fails: "write_all ws buf sent = Some (out, False) \<Longrightarrow> length out < length buf"
proof (induction ws buf sent rule: write_all.induct)
  case (1 ws buf sent)
  show ?case
    by (cases "length sent < length buf"; cases ws; cases "hd ws")
       (use "1" in \<open>subst (asm) write_all.simps, force split: if_splits\<close>)+
qed

lemma write_all_enough:
  assumes "\<forall>w \<in> set ws. \<exists>n > 0. w = W_Bytes n" "length buf \<le> length sent + length ws"
  shows "\<exists>out. write_all ws buf sent = Some (out, True)"
  using assms
proof (induction ws arbitrary: sent)
  case Nil
  then show ?case by (subst write_all.simps) simp
next
  case (Cons w ws)
  obtain n where n: "w = W_Bytes n" "0 < n" using Cons.prems(1) by auto
  show ?case
  proof (cases "length sent < length buf")
    case True
    let ?sent = "sent @ take n (drop (length sent) buf)"
    have "length buf \<le> length ?sent + length ws" using Cons.prems(2) n(2) True by (simp add: min_def)
    then show ?thesis using Cons.IH [of ?sent] Cons.prems(1) n True by (subst write_all.simps) simp
  qed (subst write_all.simps, simp)
qed

end
