(* ===== verification/Hogwarts_Demo.thy ===== *)
theory Hogwarts_Demo
  imports Hogwarts_Facts
begin

text \<open>
  Running the Hogwarts server on given answers of the system, and the session the properties are
  shown on: a wizard connects, enrolls, brews and consumes.
\<close>

section \<open>Answers of the system\<close>

text \<open>\<open>accept\<close> never returns a descriptor that is still open.\<close>

fun answers_ok :: "(int \<times> int \<times> select_result) list \<Rightarrow> server \<Rightarrow> bool" where
  "answers_ok [] s = True"
| "answers_ok ((t1, t2, sel) # rest) s =
     (peer_ok (fst (check_idle_timeouts t1 s)) sel \<and> answers_ok rest (fst (server_round t1 t2 sel s)))"

fun pass_all :: "(int \<times> int \<times> select_result) list \<Rightarrow> server \<Rightarrow> server" where
  "pass_all [] s = s"
| "pass_all ((t1, t2, sel) # rest) s = pass_all rest (fst (server_round t1 t2 sel s))"

lemma pass_all_reach: "hog_reach s0 s \<Longrightarrow> answers_ok as s \<Longrightarrow> hog_reach s0 (pass_all as s)"
  by (induction "as" s rule: pass_all.induct) (auto intro: hog_round)

lemma run_server_reach:
  "hog_reach s0 s \<Longrightarrow> answers_ok as s \<Longrightarrow> \<exists>s'. hog_reach s0 s' \<and> run_server as s = shutdown_clients s'"
proof (induction "as" s rule: run_server.induct)
  case (2 t1 t2 sel rest s)
  obtain s' b where r: "server_round t1 t2 sel s = (s', b)" by (cases "server_round t1 t2 sel s")
  have "hog_reach s0 s'" using r hog_round [OF "2.prems"(1), of t1 sel t2] "2.prems"(2) by simp
  moreover have "answers_ok rest s'" using "2.prems"(2) r by simp
  moreover have "run_server ((t1, t2, sel) # rest) s = (if b then run_server rest s' else shutdown_clients s')"
    using r by (cases b) simp_all
  ultimately show ?case using "2.IH" [of s' b] r by (cases b) auto
qed auto

section \<open>A session\<close>

definition demo_stock_file :: string where
  "demo_stock_file = ''MANDRAKE 10'' @ [LF] @ ''BELL 7'' @ [LF]"

definition demo_hog_argv :: "string list" where
  "demo_hog_argv = [''-p'', ''5000'', ''-s'', ''stock'', ''-l'', ''log'', ''-n'', ''2'', ''-t'', ''30'']"

definition demo_server :: server where
  "demo_server = \<lparr>g_ingredients = [(''MANDRAKE'', 10), (''BELL'', 7)], g_clients = [free_client, free_client],
     g_timeout_sec = 30, g_sent = [], g_log = [Server_Started 5000 2 30 2], g_accepted = [], g_closed = []\<rparr>"

definition demo_rounds :: "(int \<times> int \<times> select_result) list" where
  "demo_rounds =
     [(0, 0, Sel_Ready True (Some (5, ''127.0.0.1'')) (\<lambda>_. None)),
      (1, 1, Sel_Ready False None (\<lambda>fd. if fd = 5
         then Some (Read_Bytes (''ENROLL WIZARD harry'' @ [LF] @ ''BREW MANDRAKE 5'' @ [LF] @ ''CONSUME MANDRAKE 2'' @ [LF])) else None))]"

definition demo_wizard :: client where
  "demo_wizard = \<lparr>c_fd = 5, c_username = ''harry'', c_type = ''WIZARD'', c_enrolled = True, c_line_buf = [],
     c_last_active = 1, c_ip = ''127.0.0.1'', c_spellbook = [(''MANDRAKE'', 3)]\<rparr>"

definition demo_served :: server where
  "demo_served = \<lparr>g_ingredients = [(''MANDRAKE'', 13), (''BELL'', 7)], g_clients = [demo_wizard, free_client],
     g_timeout_sec = 30,
     g_sent = [(5, ''OK ENROLL harry'' @ [LF]), (5, ''OK BREW MANDRAKE 5 15'' @ [LF]), (5, ''OK CONSUME MANDRAKE 2 13'' @ [LF])],
     g_log = [Server_Started 5000 2 30 2, Client_Connected 5 ''127.0.0.1'', Client_Enrolled ''harry'' ''WIZARD'' 5,
       Brewed ''harry'' ''MANDRAKE'' 5 10 15, Consumed ''harry'' ''MANDRAKE'' 2 15 13],
     g_accepted = [5], g_closed = []\<rparr>"

lemma demo_server_started: "start_server (\<lambda>_. Some demo_stock_file) True demo_hog_argv = Some demo_server"
  by code_simp

lemma demo_answers: "answers_ok demo_rounds demo_server"
  by code_simp

lemma demo_pass: "pass_all demo_rounds demo_server = demo_served"
  by code_simp

lemma demo_served_reach: "hog_reach demo_server demo_served"
  using pass_all_reach [OF hog_init demo_answers] demo_pass by simp

end
