(* ===== verification/Hogwarts_Client.thy ===== *)
theory Hogwarts_Client
  imports Hogwarts_Server
begin

text \<open>
  The two clients of the Hogwarts project, \<open>HW6/wizard.c\<close> and \<open>HW6/professor.c\<close>.  The programs are
  the same except for the role in the enrolment and in the lines they print, which is a parameter
  here.  Both share \<open>trim_newline\<close> of \<open>common.c\<close>.
\<close>

section \<open>Data\<close>

text \<open>\<open>net_buf\<close> up to \<open>net_len\<close>, the lines printed, and the lines sent to the server.\<close>

record hog_client =
  net_buf :: string
  w_out :: "string list"
  w_sock :: "string list"

text \<open>\<open>select\<close> fails or is interrupted, or it reports the socket and the standard input; the result of
  \<open>read\<close> and of \<open>fgets\<close> comes with it.\<close>

datatype client_select = CSel_Fail | CSel_Ready "read_answer option" "string option option"
and read_answer = RA_Failed | RA_Bytes string

text \<open>The loop goes on, has been left, or the program has ended in it.\<close>

datatype loop_state = Loop_On | Loop_Left | Loop_Ended

definition trim_newline :: "string \<Rightarrow> string" where
  "trim_newline s = rev (dropWhile (\<lambda>c. c = LF \<or> c = CR) (rev (cstr s)))"

fun strstr :: "string \<Rightarrow> string \<Rightarrow> bool" where
  "strstr [] pat \<longleftrightarrow> pat = []"
| "strstr (c # cs) pat \<longleftrightarrow> take (length pat) (c # cs) = pat \<or> strstr cs pat"

definition stop_line :: "string \<Rightarrow> bool" where
  "stop_line line \<longleftrightarrow> strstr line ''TIMEOUT DISCONNECT'' \<or> strstr line ''SERVER SHUTDOWN''"

definition client_tag :: "string \<Rightarrow> string \<Rightarrow> string" where
  "client_tag role username = ''['' @ role @ '' '' @ username @ '']''"

definition print :: "string \<Rightarrow> hog_client \<Rightarrow> hog_client" where
  "print line s = s\<lparr>w_out := w_out s @ [line]\<rparr>"

definition to_server :: "string \<Rightarrow> hog_client \<Rightarrow> hog_client" where
  "to_server line s = s\<lparr>w_sock := w_sock s @ [line_out line]\<rparr>"

section \<open>The socket\<close>

text \<open>The first line of the buffer, without its newline and a carriage return before it, and what
  \<open>memmove\<close> leaves.\<close>

definition first_line :: "string \<Rightarrow> string" where
  "first_line buf =
     (let raw = takeWhile (\<lambda>c. c \<noteq> LF) buf in if raw \<noteq> [] \<and> last raw = CR then butlast raw else raw)"

definition after_line :: "string \<Rightarrow> string" where
  "after_line buf = drop (length (takeWhile (\<lambda>c. c \<noteq> LF) buf) + 1) buf"

text \<open>The loop over the lines in \<open>net_buf\<close>: \<open>strchr\<close> finds a newline only before the first NUL byte.\<close>

function client_lines :: "string \<Rightarrow> string \<Rightarrow> hog_client \<Rightarrow> hog_client \<times> loop_state" where
  "client_lines tag buf s =
     (if LF \<notin> set (cstr buf) then (s\<lparr>net_buf := buf\<rparr>, Loop_On)
      else (let line = first_line buf; s1 = print (tag @ '' RECEIVED '' @ line) s
            in if stop_line line
               then ((print (tag @ '' DISCONNECTED reason=shutdown/timeout'') s1)\<lparr>net_buf := buf\<rparr>, Loop_Ended)
               else client_lines tag (after_line buf) s1))"
  by pat_completeness auto
termination
proof (relation "measure (\<lambda>(tag, buf, s). length buf)")
  fix buf l :: string and tag tag' :: string and s s' :: hog_client
  assume "\<not> LF \<notin> set (cstr buf)"
  then have "buf \<noteq> []" by (auto simp: cstr_def)
  then show "((tag', after_line buf, s'), tag, buf, s) \<in> measure (\<lambda>(tag, buf, s). length buf)"
    by (simp add: after_line_def)
qed simp

declare client_lines.simps [simp del]

text \<open>The last byte of \<open>net_buf\<close> is kept for a NUL; a full buffer asks \<open>read\<close> for no bytes.\<close>

definition client_read :: "string \<Rightarrow> read_answer \<Rightarrow> hog_client \<Rightarrow> hog_client \<times> loop_state" where
  "client_read tag r s =
     (case r of
        RA_Failed \<Rightarrow> (s, Loop_Left)
      | RA_Bytes bs \<Rightarrow>
          (let got = take (MAX_LINE_LEN - length (net_buf s) - 1) bs in
           if got = [] then (s, Loop_Left) else client_lines tag (net_buf s @ got) s))"

section \<open>The program\<close>

definition client_input :: "string \<Rightarrow> string option \<Rightarrow> hog_client \<Rightarrow> hog_client" where
  "client_input tag input s =
     (case input of
        None \<Rightarrow> s
      | Some chunk \<Rightarrow>
          (let line = trim_newline chunk in
           if line = [] then s else print (tag @ '' SENT '' @ line) (to_server line s)))"

definition client_round :: "string \<Rightarrow> client_select \<Rightarrow> hog_client \<Rightarrow> hog_client \<times> loop_state" where
  "client_round tag sel s =
     (case sel of
        CSel_Fail \<Rightarrow> (s, Loop_Left)
      | CSel_Ready sock stdin \<Rightarrow>
          (case (case sock of None \<Rightarrow> (s, Loop_On) | Some r \<Rightarrow> client_read tag r s) of
             (s1, Loop_On) \<Rightarrow> ((case stdin of None \<Rightarrow> s1 | Some input \<Rightarrow> client_input tag input s1), Loop_On)
           | left \<Rightarrow> left))"

text \<open>After the loop: \<open>resp\<close> is not terminated, so the text that is printed ends at the first newline,
  carriage return or NUL of the answer or of whatever lies behind it in memory.\<close>

definition client_leave :: "string \<Rightarrow> read_answer \<Rightarrow> string \<Rightarrow> hog_client \<Rightarrow> hog_client" where
  "client_leave tag r mem s =
     (let s1 = print (tag @ '' SENT APPARATE'') (to_server ''APPARATE'' s);
          s2 = (case r of
                  RA_Failed \<Rightarrow> s1
                | RA_Bytes bs \<Rightarrow>
                    if bs = [] then s1
                    else print (tag @ '' RECEIVED '' @ takeWhile (\<lambda>c. c \<noteq> CR \<and> c \<noteq> LF \<and> c \<noteq> NUL) (take 128 bs @ mem)) s1)
      in print (tag @ '' DISCONNECTED reason=APPARATE'') s2)"

text \<open>The whole program on the answers of the system; they end when SIGINT has set \<open>g_shutdown\<close>.\<close>

fun client_loop :: "string \<Rightarrow> client_select list \<Rightarrow> hog_client \<Rightarrow> hog_client \<times> bool" where
  "client_loop tag [] s = (s, True)"
| "client_loop tag (sel # rest) s =
     (case client_round tag sel s of
        (s', Loop_On) \<Rightarrow> client_loop tag rest s'
      | (s', Loop_Left) \<Rightarrow> (s', True)
      | (s', Loop_Ended) \<Rightarrow> (s', False))"

definition client_start :: "string \<Rightarrow> string list \<Rightarrow> bool \<Rightarrow> (string \<times> hog_client) option" where
  "client_start role argv connected =
     (case argv of
        [ip, port, username] \<Rightarrow>
          if \<not> connected then None
          else (let tag = client_tag role username in
                Some (tag, to_server (snprintf 256 (''ENROLL '' @ role @ '' '' @ username))
                  (print (tag @ '' CONNECTED server='' @ ip @ '':'' @ int_dec (atoi port))
                     \<lparr>net_buf = [], w_out = [], w_sock = []\<rparr>)))
      | _ \<Rightarrow> None)"

definition client_main :: "string \<Rightarrow> string list \<Rightarrow> bool \<Rightarrow> client_select list \<Rightarrow> read_answer \<Rightarrow> string \<Rightarrow> hog_client option" where
  "client_main role argv connected sels answer mem =
     map_option (\<lambda>(tag, s0). case client_loop tag sels s0 of
                    (s, True) \<Rightarrow> client_leave tag answer mem s
                  | (s, False) \<Rightarrow> s)
       (client_start role argv connected)"

definition wizard_main :: "string list \<Rightarrow> bool \<Rightarrow> client_select list \<Rightarrow> read_answer \<Rightarrow> string \<Rightarrow> hog_client option" where
  "wizard_main = client_main ''WIZARD''"

definition professor_main :: "string list \<Rightarrow> bool \<Rightarrow> client_select list \<Rightarrow> read_answer \<Rightarrow> string \<Rightarrow> hog_client option" where
  "professor_main = client_main ''PROFESSOR''"

section \<open>Lines in pieces\<close>

text \<open>A stream that arrives in pieces: \<open>read\<close> gives at most the next \<open>n + 1\<close> bytes and at most what
  there is room for.\<close>

fun client_feed :: "string \<Rightarrow> nat list \<Rightarrow> string \<Rightarrow> hog_client \<Rightarrow> hog_client \<times> loop_state" where
  "client_feed tag [] stream s = (s, Loop_On)"
| "client_feed tag (n # ns) stream s =
     (if stream = [] then (s, Loop_On)
      else (let m = min (n + 1) (MAX_LINE_LEN - length (net_buf s) - 1) in
            case client_read tag (RA_Bytes (take m stream)) s of
              (s', Loop_On) \<Rightarrow> client_feed tag ns (drop m stream) s'
            | left \<Rightarrow> left))"

definition line_fits :: "string \<Rightarrow> bool" where
  "line_fits l \<longleftrightarrow> LF \<notin> set l \<and> NUL \<notin> set l \<and> length l < MAX_LINE_LEN - 1 \<and> (l \<noteq> [] \<longrightarrow> last l \<noteq> CR) \<and> \<not> stop_line l"

lemma client_lines_rest: "LF \<notin> set (cstr buf) \<Longrightarrow> client_lines tag buf s = (s\<lparr>net_buf := buf\<rparr>, Loop_On)"
  by (subst client_lines.simps) simp

lemma client_lines_step:
  "LF \<in> set (cstr buf) \<Longrightarrow> client_lines tag buf s =
     (if stop_line (first_line buf)
      then ((print (tag @ '' DISCONNECTED reason=shutdown/timeout'') (print (tag @ '' RECEIVED '' @ first_line buf) s))\<lparr>net_buf := buf\<rparr>, Loop_Ended)
      else client_lines tag (after_line buf) (print (tag @ '' RECEIVED '' @ first_line buf) s))"
  by (subst client_lines.simps) (simp add: Let_def)

lemma cstr_append_LF: "LF \<in> set (cstr a) \<Longrightarrow> LF \<in> set (cstr (a @ b)) \<and> takeWhile (\<lambda>c. c \<noteq> LF) (a @ b) = takeWhile (\<lambda>c. c \<noteq> LF) a \<and>
  length (takeWhile (\<lambda>c. c \<noteq> LF) a) < length a"
  by (induction a) (auto simp: cstr_def split: if_splits)

lemma append_line: "LF \<in> set (cstr a) \<Longrightarrow> first_line (a @ b) = first_line a \<and> after_line (a @ b) = after_line a @ b"
  using cstr_append_LF [of a b] by (simp add: first_line_def after_line_def)

lemma print_buf: "print l (s\<lparr>net_buf := b\<rparr>) = (print l s)\<lparr>net_buf := b\<rparr>"
  by (simp add: print_def)

lemma client_lines_buf: "client_lines tag buf (s\<lparr>net_buf := b\<rparr>) = client_lines tag buf s"
proof (induction tag buf s rule: client_lines.induct)
  case (1 tag buf s)
  show ?case
    by (cases "LF \<in> set (cstr buf)")
       (use "1.IH" in \<open>simp_all add: client_lines_rest client_lines_step print_buf\<close>)
qed

lemma client_lines_append:
  "client_lines tag (a @ b) s =
     (case client_lines tag a s of
        (s1, Loop_On) \<Rightarrow> client_lines tag (net_buf s1 @ b) s1
      | (s1, l) \<Rightarrow> (s1\<lparr>net_buf := net_buf s1 @ b\<rparr>, l))"
proof (induction tag a s rule: client_lines.induct)
  case (1 tag a s)
  show ?case
    by (cases "LF \<in> set (cstr a)")
       (use "1.IH" cstr_append_LF [of a b] append_line [of a b] in
         \<open>simp_all add: client_lines_rest client_lines_step client_lines_buf\<close>)
qed

abbreviation text_of :: "string list \<Rightarrow> string" where
  "text_of ls \<equiv> concat (map (\<lambda>l. l @ [LF]) ls)"

lemma take_append_exact: "take (length xs) (xs @ ys) = xs"
  by simp

lemma text_prefix:
  assumes "u @ v = text_of ls" "\<forall>l \<in> set ls. LF \<notin> set l"
  shows "\<exists>ls1 ls2 p. ls = ls1 @ ls2 \<and> u = text_of ls1 @ p \<and> LF \<notin> set p \<and> p @ v = text_of ls2"
  using assms
proof (induction ls arbitrary: u)
  case Nil
  then show ?case by auto
next
  case (Cons l ls)
  show ?case
  proof (cases "length u < length (l @ [LF])")
    case True
    have "u = take (length u) (u @ v)" by simp
    also have "\<dots> = take (length u) l" using True Cons.prems(1) by simp
    finally have "LF \<notin> set u" using Cons.prems(2) by (metis in_set_takeD list.set_intros(1))
    then show ?thesis using Cons.prems(1) by (intro exI [of _ "[]"] exI [of _ "l # ls"] exI [of _ u]) simp
  next
    case False
    then have "take (length (l @ [LF])) u = take (length (l @ [LF])) (u @ v)" by simp
    also have "u @ v = (l @ [LF]) @ text_of ls" using Cons.prems(1) by simp
    also have "take (length (l @ [LF])) ((l @ [LF]) @ text_of ls) = l @ [LF]" by (rule take_append_exact)
    finally have t: "take (length (l @ [LF])) u = l @ [LF]" .
    define u' where "u' = drop (length (l @ [LF])) u"
    have u: "u = (l @ [LF]) @ u'" unfolding u'_def by (subst (1) t [symmetric]) (simp only: append_take_drop_id)
    have "u' @ v = text_of ls" using Cons.prems(1) u by simp
    from Cons.IH [OF this] Cons.prems(2)
    obtain ls1 ls2 p where "ls = ls1 @ ls2" "u' = text_of ls1 @ p" "LF \<notin> set p" "p @ v = text_of ls2" by auto
    then show ?thesis using u by (intro exI [of _ "l # ls1"] exI [of _ ls2] exI [of _ p]) simp
  qed
qed

definition received :: "string \<Rightarrow> string list \<Rightarrow> hog_client \<Rightarrow> hog_client" where
  "received tag ls s = s\<lparr>w_out := w_out s @ map (\<lambda>l. tag @ '' RECEIVED '' @ l) ls\<rparr>"

lemma received_append: "received tag ls2 (received tag ls1 s) = received tag (ls1 @ ls2) s"
  by (simp add: received_def)

lemma line_fits_first:
  assumes "line_fits l"
  shows "first_line (l @ LF # r) = l" "after_line (l @ LF # r) = r" "LF \<in> set (cstr (l @ LF # r))"
proof -
  have "takeWhile (\<lambda>c. c \<noteq> LF) (l @ LF # r) = l"
    using assms by (intro takeWhile_append_stop) (auto simp: line_fits_def)
  then show "first_line (l @ LF # r) = l" "after_line (l @ LF # r) = r"
    using assms by (auto simp: first_line_def after_line_def line_fits_def Let_def)
  have "LF \<noteq> NUL" by (simp add: char_class_defs)
  then show "LF \<in> set (cstr (l @ LF # r))"
    using assms by (subst cstr_def, subst takeWhile_append2) (auto simp: line_fits_def)
qed

lemma client_lines_text:
  assumes "list_all line_fits ls" "LF \<notin> set p"
  shows "client_lines tag (text_of ls @ p) s = ((received tag ls s)\<lparr>net_buf := p\<rparr>, Loop_On)"
  using assms
proof (induction ls arbitrary: s)
  case Nil
  then have "LF \<notin> set (cstr p)" using set_cstr_subset by blast
  then show ?case by (simp add: client_lines_rest received_def)
next
  case (Cons l ls)
  have l: "line_fits l" "\<not> stop_line l" using Cons.prems by (simp_all add: line_fits_def)
  have "client_lines tag (text_of (l # ls) @ p) s = client_lines tag (text_of ls @ p) (print (tag @ '' RECEIVED '' @ l) s)"
    using client_lines_step [OF line_fits_first(3) [OF l(1)], of tag "text_of ls @ p" s] line_fits_first(1,2) [OF l(1)] l(2) by simp
  then show ?case using Cons by (simp add: received_def print_def)
qed

lemma client_feed_text:
  assumes "net_buf s @ stream = text_of ls" "list_all line_fits ls" "LF \<notin> set (net_buf s)" "length stream \<le> length ns"
  shows "client_feed tag ns stream s = ((received tag ls s)\<lparr>net_buf := []\<rparr>, Loop_On)"
  using assms
proof (induction ns arbitrary: stream s ls)
  case Nil
  then have "ls = []" by (cases ls) auto
  then show ?case using Nil by (simp add: received_def)
next
  case (Cons n ns)
  show ?case
  proof (cases "stream = []")
    case True
    then have "ls = []" using Cons.prems(1,3) by (cases ls) auto
    then show ?thesis using Cons.prems(1) True by (simp add: received_def)
  next
    case False
    define m where "m = min (n + 1) (MAX_LINE_LEN - length (net_buf s) - 1)"
    have noLF: "\<forall>l \<in> set ls. LF \<notin> set l" using Cons.prems(2) by (auto simp: list_all_iff line_fits_def)
    obtain l ls' where ls: "ls = l # ls'" using Cons.prems(1) False by (cases ls) auto
    have "length (net_buf s) \<le> length l"
    proof (rule ccontr)
      assume "\<not> length (net_buf s) \<le> length l"
      then have "length l < length (net_buf s)" by simp
      moreover have "(net_buf s @ stream) ! length l = LF" using Cons.prems(1) ls by (simp add: nth_append)
      ultimately have "net_buf s ! length l = LF" by (simp add: nth_append)
      then show False using Cons.prems(3) \<open>length l < length (net_buf s)\<close> nth_mem by metis
    qed
    then have room: "length (net_buf s) < MAX_LINE_LEN - 1" using Cons.prems(2) ls by (simp add: line_fits_def)
    then have m: "0 < m" "take (MAX_LINE_LEN - length (net_buf s) - 1) (take m stream) = take m stream" by (auto simp: m_def min_def)
    obtain ls1 ls2 p where p: "ls = ls1 @ ls2" "net_buf s @ take m stream = text_of ls1 @ p" "LF \<notin> set p"
        "p @ drop m stream = text_of ls2"
      using text_prefix [of "net_buf s @ take m stream" "drop m stream" ls] Cons.prems(1) noLF by auto
    have "client_read tag (RA_Bytes (take m stream)) s = ((received tag ls1 s)\<lparr>net_buf := p\<rparr>, Loop_On)"
      using client_lines_text [of ls1 p tag s] p m False Cons.prems(2) by (simp add: client_read_def Let_def)
    then have "client_feed tag (n # ns) stream s = client_feed tag ns (drop m stream) ((received tag ls1 s)\<lparr>net_buf := p\<rparr>)"
      using False by (simp add: m_def)
    also have "\<dots> = ((received tag ls2 ((received tag ls1 s)\<lparr>net_buf := p\<rparr>))\<lparr>net_buf := []\<rparr>, Loop_On)"
      using Cons.IH [of "(received tag ls1 s)\<lparr>net_buf := p\<rparr>" "drop m stream" ls2] p Cons.prems(2,4) m(1) by simp
    finally show ?thesis using p(1) by (simp add: received_def)
  qed
qed

text \<open>A line of 511 bytes or more never gets its newline into the buffer.\<close>

lemma client_feed_long:
  assumes "MAX_LINE_LEN - 1 < length (net_buf s @ stream)" "LF \<notin> set (take (MAX_LINE_LEN - 1) (net_buf s @ stream))"
    and "length (net_buf s) \<le> MAX_LINE_LEN - 1" "length stream \<le> length ns"
  shows "\<exists>b. client_feed tag ns stream s = (s\<lparr>net_buf := b\<rparr>, Loop_Left)"
  using assms
proof (induction ns arbitrary: stream s)
  case Nil
  then show ?case by simp
next
  case (Cons n ns)
  define m where "m = min (n + 1) (MAX_LINE_LEN - length (net_buf s) - 1)"
  have ne: "stream \<noteq> []" using Cons.prems(1,3) by auto
  show ?case
  proof (cases "m = 0")
    case True
    then have zero: "MAX_LINE_LEN - Suc (length (net_buf s)) = 0" by (auto simp: m_def)
    show ?thesis using ne by (intro exI [of _ "net_buf s"]) (simp add: client_read_def zero)
  next
    case False
    have t: "take (MAX_LINE_LEN - length (net_buf s) - 1) (take m stream) = take m stream" by (auto simp: m_def min_def)
    let ?s = "s\<lparr>net_buf := net_buf s @ take m stream\<rparr>"
    have len: "length (net_buf s @ take m stream) \<le> MAX_LINE_LEN - 1" using Cons.prems(3) by (auto simp: m_def min_def)
    have "net_buf s @ take m stream = take (length (net_buf s @ take m stream)) (net_buf s @ stream)" by (simp add: take_add min_def)
    then have "LF \<notin> set (net_buf s @ take m stream)"
      using len Cons.prems(2) by (metis set_take_subset_set_take subsetD)
    then have "LF \<notin> set (cstr (net_buf s @ take m stream))" using set_cstr_subset by blast
    then have "client_read tag (RA_Bytes (take m stream)) s = (?s, Loop_On)"
      using t ne False by (simp add: client_read_def Let_def client_lines_rest)
    then have "client_feed tag (n # ns) stream s = client_feed tag ns (drop m stream) ?s"
      using ne by (simp add: m_def Let_def)
    moreover have "\<exists>b. client_feed tag ns (drop m stream) ?s = (?s\<lparr>net_buf := b\<rparr>, Loop_Left)"
    proof (rule Cons.IH)
      show "length (drop m stream) \<le> length ns" using Cons.prems(4) False by simp
    qed (use Cons.prems len in simp_all)
    ultimately show ?thesis by simp
  qed
qed

end
