(* ===== verification/Hogwarts_Properties.thy ===== *)
theory Hogwarts_Properties
  imports Hogwarts_Demo Hogwarts_Client
begin

text \<open>The properties of the Hogwarts server and its clients (\<open>HW6\<close>).\<close>

section \<open>The tables\<close>

lemma started_inv:
  assumes "start_server fopen ok argv = Some s0" "hog_reach s0 s"
  shows "hog_inv s0 s" "\<forall>c \<in> set (g_clients s). buf_ok c"
  using reach_loop_inv [OF assms(2) start_server_ok(1) [OF assms(1)]] by (simp_all add: loop_inv_def)

text \<open>C32: at any time the stock of an ingredient is what the file gave plus everything brewed minus
  everything consumed by the log, as a C int; and as long as this has not overflowed, all spellbooks
  together hold at most what was brewed and not consumed, so the stock never falls below its start.\<close>

theorem stock_accounts:
  assumes "start_server fopen ok argv = Some s0" and "hog_reach s0 s"
    and "i < length (g_ingredients s0)" and "g_ingredients s0 ! i = (n, q0)"
  shows "fst (g_ingredients s ! i) = n \<and> stock_of s i = wrap32 (q0 + brewed s n - consumed s n) \<and>
    (q0 + brewed s n \<le> int_max \<longrightarrow>
       spell_total s n \<le> brewed s n - consumed s n \<and> stock_of s i = q0 + brewed s n - consumed s n \<and>
       q0 + spell_total s n \<le> stock_of s i)"
proof -
  note inv = started_inv(1) [OF assms(1,2)]
  have acc: "account s0 s i" using hog_invD(8) [OF inv] inv assms(3) by (auto simp: hog_inv_def)
  have q0: "0 < q0" using start_server_ok(1) [OF assms(1)] assms(3,4) nth_mem [OF assms(3)] by (auto simp: start_ok_def)
  have "0 \<le> spell_total s n" if "q0 + brewed s n \<le> int_max"
    using acc that assms(4) unfolding account_def Let_def spell_total_def by (intro sum_list_nonneg) auto
  moreover have "wrap32 (q0 + brewed s n - consumed s n) = q0 + brewed s n - consumed s n"
    if "q0 + brewed s n \<le> int_max" "0 \<le> brewed s n - consumed s n"
    using acc that q0 assms(4) by (intro wrap32_id) (auto simp: account_def Let_def limits_defs)
  ultimately show ?thesis
    using acc account_entry [OF inv assms(3)] assms(4) by (auto simp: account_def Let_def)
qed

lemma stock_accounts_witness:
  "stock_of demo_served 0 = 10 + 5 - 2 \<and> 10 + spell_total demo_served ''MANDRAKE'' \<le> stock_of demo_served 0"
proof -
  have b: "brewed demo_served ''MANDRAKE'' = 5" "consumed demo_served ''MANDRAKE'' = 2"
    by (simp_all add: brewed_def consumed_def demo_served_def)
  show ?thesis
    using stock_accounts [OF demo_server_started demo_served_reach, of 0 "''MANDRAKE''" 10] b
    by (simp add: demo_server_def int_max_def)
qed

text \<open>C33: no two enrolled clients that are connected have the same name; an enrolled client is a wizard
  or a professor with a name of 1 to 31 characters, only a wizard has a spellbook, and its entries are
  of different ingredients of the file; the input buffer of every client has room and no whole line.\<close>

theorem clients_valid:
  assumes "start_server fopen ok argv = Some s0" and "hog_reach s0 s" and "i < length (g_clients s)"
  shows "(c_enrolled (cl s i) \<longrightarrow> 0 \<le> c_fd (cl s i) \<and> c_type (cl s i) \<in> {''WIZARD'', ''PROFESSOR''} \<and>
      0 < length (c_username (cl s i)) \<and> length (c_username (cl s i)) < MAX_USERNAME_LEN \<and>
      \<not> username_taken s (c_username (cl s i)) i) \<and>
    (c_spellbook (cl s i) \<noteq> [] \<longrightarrow> c_enrolled (cl s i) \<and> c_type (cl s i) = ''WIZARD'') \<and>
    distinct (map fst (c_spellbook (cl s i))) \<and>
    fst ` set (c_spellbook (cl s i)) \<subseteq> fst ` set (g_ingredients s0) \<and>
    length (c_line_buf (cl s i)) < MAX_LINE_LEN \<and> LF \<notin> set (c_line_buf (cl s i))"
proof -
  note inv = started_inv [OF assms(1,2)]
  have ok: "client_ok (names_of s0) (cl s i)" using hog_invD(4) [OF inv(1)] assms(3) by simp
  have live: "c_enrolled (cl s i) \<Longrightarrow> 0 \<le> c_fd (cl s i)" by (rule enrolled_live [OF inv(1) assms(3)])
  have "\<not> username_taken s (c_username (cl s i)) i" if "c_enrolled (cl s i)"
    using hog_invD(5) [OF inv(1)] live [OF that] that assms(3)
    by (auto simp: username_taken_def list_ex_iff users_ok_def)
  then show ?thesis
    using ok live inv(2) assms(3) by (auto simp: client_ok_def book_ok_def names_of_def buf_ok_def)
qed

lemma clients_valid_witness: "c_enrolled (cl demo_served 0) \<and> \<not> username_taken demo_served ''harry'' 0"
  using clients_valid [OF demo_server_started demo_served_reach, of 0] by (simp add: demo_served_def demo_wizard_def)

text \<open>C34: when the server has ended, every connection it accepted has been closed, each as often as it
  was accepted, and all slots are free again.\<close>

theorem connections_closed:
  assumes "start_server fopen ok argv = Some s0" and "answers_ok as s0"
  shows "mset (g_accepted (run_server as s0)) = mset (g_closed (run_server as s0)) \<and>
    (\<forall>c \<in> set (g_clients (run_server as s0)). c = free_client)"
proof -
  obtain s where s: "hog_reach s0 s" "run_server as s0 = shutdown_clients s"
    using run_server_reach [OF hog_init assms(2)] by blast
  note inv = started_inv(1) [OF assms(1) s(1)]
  define s' where "s' = foldl (\<lambda>s i. if c_fd (cl s i) \<ge> 0
      then reset_client_slot i (close_fd (c_fd (cl s i)) (send_line (c_fd (cl s i)) ''SERVER SHUTDOWN'' s)) else s) s [0..<length (g_clients s)]"
  have "\<forall>i \<in> set [0..<length (g_clients s)]. i < length (g_clients s)" "distinct [0..<length (g_clients s)]" by simp_all
  note sf = shutdown_fold [OF this hog_invD(7) [OF inv], unfolded Let_def, folded s'_def]
  then have fold: "length (g_clients s') = length (g_clients s)" "mset (g_accepted s') = mset (g_closed s') + mset (open_fds s')"
    by blast+
  have slots: "\<forall>j < length (g_clients s). cl s' j = (if 0 \<le> c_fd (cl s j) then free_client else cl s j)" using sf by simp
  have free: "cl s' j = free_client" if "j < length (g_clients s)" for j
    using slots that hog_invD(4) [OF inv, of "cl s j"] by (auto simp: client_ok_def)
  have cs: "\<forall>c \<in> set (g_clients s'). c = free_client" using free fold(1) by (metis in_set_conv_nth)
  then have "open_fds s' = []" by (auto simp: open_fds_def filter_empty_conv free_client_def)
  then show ?thesis using fold(2) cs by (simp add: s(2) shutdown_clients_def s'_def [symmetric])
qed

lemma connections_closed_witness:
  "mset (g_accepted (run_server demo_rounds demo_server)) = mset (g_closed (run_server demo_rounds demo_server))"
  using connections_closed [OF demo_server_started demo_answers] by blast

section \<open>The input of a client\<close>

text \<open>C35: what a client sends is served the same however the network cuts it into pieces: as long as no
  line reaches 512 bytes, the pieces that \<open>read\<close> returns do not matter, and the result is that of
  serving the lines of the stream one after the other.\<close>

theorem framing_independent:
  assumes "start_server fopen ok argv = Some s0" and "hog_reach s0 s"
    and "k < length (g_clients s)" and "0 \<le> c_fd (cl s k)" and "stream \<noteq> []"
    and "short_lines (c_line_buf (cl s k) @ stream)" and "length stream \<le> length ns"
  shows "drain k now ns stream s =
    fst (serve_stream k (c_line_buf (cl s k) @ stream) (upd_client k (\<lambda>c. c\<lparr>c_last_active := now\<rparr>) s))"
proof -
  have "LF \<notin> set (c_line_buf (cl s k))" using started_inv(2) [OF assms(1,2)] assms(3) by (auto simp: buf_ok_def)
  then show ?thesis using drain_stream assms by blast
qed

lemma short_lines_small: "length t < MAX_LINE_LEN \<Longrightarrow> short_lines t"
  by (auto simp: short_lines_def)

lemma framing_independent_witness:
  "drain 0 2 (replicate 20 0) (''BREW BELL 1'' @ [LF]) demo_served = drain 0 2 (replicate 20 4) (''BREW BELL 1'' @ [LF]) demo_served"
proof -
  have "short_lines (c_line_buf (cl demo_served 0) @ ''BREW BELL 1'' @ [LF])"
    by (rule short_lines_small) (simp add: demo_served_def demo_wizard_def MAX_LINE_LEN_def)
  then show ?thesis
    using framing_independent [OF demo_server_started demo_served_reach, of 0 "''BREW BELL 1'' @ [LF]"]
    by (simp add: demo_served_def demo_wizard_def)
qed

section \<open>Commands\<close>

text \<open>C36: every line with a word in it gets exactly one reply, to the client that sent it; no other
  client is touched; and the stock only changes by a \<open>BREW\<close> or \<open>CONSUME\<close> of an enrolled wizard.\<close>

theorem command_response:
  assumes "k < length (g_clients s)" and "strtok blanks line = (Some cmd, rest)"
    and "s' = fst (handle_command k line s)"
  shows "(\<exists>msg. g_sent s' = g_sent s @ [(c_fd (cl s k), line_out msg)]) \<and>
    (\<forall>j < length (g_clients s). j \<noteq> k \<longrightarrow> cl s' j = cl s j) \<and>
    (g_ingredients s' \<noteq> g_ingredients s \<longrightarrow>
       c_enrolled (cl s k) \<and> c_type (cl s k) = ''WIZARD'' \<and> cmd \<in> {''BREW'', ''CONSUME''})"
  using command_reply [OF assms(1,2)] command_stock [of k line s] assms(2,3) by (auto simp: only_reply_def)

lemma command_response_witness:
  "\<exists>msg. g_sent (fst (handle_command 0 ''ROSTER'' demo_served)) = g_sent demo_served @ [(5, line_out msg)]"
proof -
  have t: "strtok blanks ''ROSTER'' = (Some ''ROSTER'', [])" by (rule strtok_last) (simp_all add: blanks_def)
  show ?thesis using command_response [OF _ t refl, of 0 demo_served] by (simp add: demo_served_def demo_wizard_def)
qed

text \<open>C37: a brew by a wizard whose 64 spellbook entries are taken by other ingredients is answered with
  OK and enters the stock, but the spellbook does not take it: the wizard cannot consume any of it.\<close>

theorem brew_into_full_spellbook:
  assumes "k < length (g_clients s)" and "name_and_qty rest = Some (ing, qty)" and "find_ingredient s ing = Some i"
    and "MAX_SPELLBOOK_ENTRIES \<le> length (c_spellbook (cl s k))" and "spell_find (cl s k) ing = None"
    and "s' = cmd_brew k rest s"
  shows "stock_of s' i = wrap32 (stock_of s i + qty) \<and> c_spellbook (cl s' k) = c_spellbook (cl s k) \<and>
    g_sent s' = g_sent s @ [(c_fd (cl s k), line_out (snprintf 128 (''OK BREW '' @ ing @ '' '' @ int_dec qty @ '' '' @ int_dec (stock_of s' i))))] \<and>
    cmd_consume k rest s' = reply k ''ERR INSUFFICIENT_INGREDIENTS'' s'"
proof -
  have i: "i < length (g_ingredients s)" using index_of_Some assms(3) by (simp add: find_ingredient_def)
  have q: "0 < qty" using name_and_qty_range [OF assms(2)] by simp
  have keep: "spell_add ing qty (cl s k) = cl s k" using assms(4,5) by (simp add: spell_add_def)
  have s': "g_ingredients s' = upd_qty i (\<lambda>q. wrap32 (q + qty)) (g_ingredients s)" "g_clients s' = g_clients s"
    using keep by (simp_all add: assms(2,3,6) cmd_brew_def Let_def)
  have "stock_of s' i = wrap32 (stock_of s i + qty)" using i by (simp add: stock_of_def s'(1) upd_qty_nth)
  moreover have "find_ingredient s' ing = Some i" using assms(3) by (simp add: find_ingredient_def s'(1))
  then have "cmd_consume k rest s' = reply k ''ERR INSUFFICIENT_INGREDIENTS'' s'"
    using q assms(5) by (auto simp: cmd_consume_def assms(2) s'(2))
  moreover have "g_sent s' = g_sent s @ [(c_fd (cl s k), line_out (snprintf 128 (''OK BREW '' @ ing @ '' '' @ int_dec qty @ '' '' @ int_dec (stock_of s' i))))]"
    using assms(1) by (simp add: assms(2,3,6) cmd_brew_def Let_def stock_of_def)
  ultimately show ?thesis using s'(2) by simp
qed

definition full_wizard :: client where
  "full_wizard = demo_wizard\<lparr>c_spellbook := map (\<lambda>i. (''BELL'' @ nat_dec i, 1)) [0..<64]\<rparr>"

lemma full_wizard_book: "length (c_spellbook full_wizard) = 64" "spell_find full_wizard ''MANDRAKE'' = None"
  by (auto simp: full_wizard_def spell_find_def index_of_None)

lemma demo_brew_args: "name_and_qty ''MANDRAKE 4'' = Some (''MANDRAKE'', 4)"
  by code_simp

lemma brew_into_full_spellbook_witness:
  "stock_of (cmd_brew 0 ''MANDRAKE 4'' (demo_served\<lparr>g_clients := [full_wizard]\<rparr>)) 0 = 17"
proof -
  let ?s = "demo_served\<lparr>g_clients := [full_wizard]\<rparr>"
  have "find_ingredient ?s ''MANDRAKE'' = Some 0" "stock_of ?s 0 = 13"
    by (simp_all add: find_ingredient_def demo_served_def stock_of_def)
  then show ?thesis
    using brew_into_full_spellbook [OF _ demo_brew_args _ _ _ refl, of 0 ?s 0] full_wizard_book
    by (simp add: MAX_SPELLBOOK_ENTRIES_def wrap32_def)
qed

section \<open>Idle clients\<close>

text \<open>C40: the check for idle clients frees exactly the slots of those that have been silent for the
  timeout or longer; the wait it returns is between one second and the timeout, and no later than
  the moment at which the next of the remaining clients is due.\<close>

theorem idle_timeouts:
  assumes "start_server fopen ok argv = Some s0" and "hog_reach s0 s" and "check_idle_timeouts now s = (s', remain)"
  shows "(\<forall>j < length (g_clients s). cl s' j = (if timed_out (g_timeout_sec s) now (cl s j) then free_client else cl s j)) \<and>
    1 \<le> remain \<and> remain \<le> g_timeout_sec s \<and>
    (\<forall>j < length (g_clients s). 0 \<le> c_fd (cl s' j) \<longrightarrow> remain \<le> g_timeout_sec s - idle_for now (cl s' j))"
proof -
  have T: "1 \<le> g_timeout_sec s"
    using hog_invD(3) [OF started_inv(1) [OF assms(1,2)]] start_server_ok(2) [OF assms(1)] by simp
  obtain m where lp: "idle_loop now [0..<length (g_clients s)] (s, g_timeout_sec s) = (s', m)" "remain = (if m < 1 then 1 else m)"
    using assms(3) by (auto simp: check_idle_timeouts_def split: prod.splits)
  have "\<forall>i \<in> set [0..<length (g_clients s)]. i < length (g_clients s)" "distinct [0..<length (g_clients s)]" by simp_all
  note r = idle_loop_result [OF this(2,1) lp(1)]
  then have "1 \<le> m" "m \<le> g_timeout_sec s" using T by blast+
  then have "remain = m" using lp(2) by simp
  moreover have "\<forall>j < length (g_clients s). 0 \<le> c_fd (cl s' j) \<longrightarrow> m \<le> g_timeout_sec s - idle_for now (cl s' j)"
  proof (intro allI impI)
    fix j assume "j < length (g_clients s)" "0 \<le> c_fd (cl s' j)"
    moreover have "\<forall>j \<in> set [0..<length (g_clients s)]. 0 \<le> c_fd (cl s' j) \<longrightarrow> m \<le> g_timeout_sec s - idle_for now (cl s' j)"
      using r by blast
    ultimately show "m \<le> g_timeout_sec s - idle_for now (cl s' j)" by (metis atLeastLessThan_iff le0 set_upt)
  qed
  moreover have "\<forall>j < length (g_clients s). cl s' j = (if timed_out (g_timeout_sec s) now (cl s j) then free_client else cl s j)"
    using r by simp
  ultimately show ?thesis using \<open>1 \<le> m\<close> \<open>m \<le> g_timeout_sec s\<close> by blast
qed

lemma idle_timeouts_witness: "cl (fst (check_idle_timeouts 40 demo_served)) 0 = free_client"
proof -
  obtain s' r where c: "check_idle_timeouts 40 demo_served = (s', r)" by (cases "check_idle_timeouts 40 demo_served")
  show ?thesis
    using idle_timeouts [OF demo_server_started demo_served_reach c] c
    by (simp add: demo_served_def demo_wizard_def timed_out_def idle_for_def)
qed

section \<open>The ingredients file\<close>

definition stock_text :: "stock_entry list \<Rightarrow> string" where
  "stock_text es = concat (map (\<lambda>e. stock_line e @ [LF]) es)"

text \<open>The lists of ingredients the server can start with are exactly those of at most 256 different
  valid names with positive quantities, and each of them can be written as a file that loads it.\<close>

theorem ingredients_file:
  "stock_ok es = (\<exists>file. load_ingredients file = Some es) \<and>
   stock_ok es = (load_ingredients (Some (stock_text es)) = Some es)"
proof -
  have "load_ingredients (Some (stock_text es)) = Some es" if "stock_ok es"
    using fgets_stock [OF that] load_loop_print [of "[]" es] that by (simp add: load_ingredients_def stock_text_def)
  then show ?thesis using load_ingredients_ok by blast
qed

section \<open>Writing\<close>

text \<open>What \<open>write_all\<close> hands over is always a beginning of the text, and it succeeds exactly when
  this is the whole text; when every call of \<open>write\<close> takes at least a byte, it needs at most one call
  for each byte.\<close>

theorem write_all_delivers:
  assumes "\<forall>w \<in> set ws. \<exists>n > 0. w = W_Bytes n" and "length buf \<le> length ws"
  shows "write_all ws buf [] = Some (buf, True) \<and>
    (\<forall>vs out ok. write_all vs buf [] = Some (out, ok) \<longrightarrow> take (length out) buf = out \<and> ok = (out = buf))"
proof -
  have sound: "take (length out) buf = out \<and> ok = (out = buf)" if w: "write_all vs buf [] = Some (out, ok)" for vs out ok
  proof -
    have "out = take (length out) buf" "ok \<longrightarrow> out = buf" using write_all_prefix [OF w] by auto
    moreover have "ok" if "out = buf" using write_all_fails [of vs buf "[]" out] w that by (cases ok) auto
    ultimately show ?thesis by auto
  qed
  moreover obtain out where "write_all ws buf [] = Some (out, True)"
    using write_all_enough [OF assms(1), of buf "[]"] assms(2) by auto
  ultimately show ?thesis by blast
qed

lemma write_all_delivers_witness: "write_all (replicate 11 (W_Bytes 2)) ''OK APPARATE'' [] = Some (''OK APPARATE'', True)"
  using write_all_delivers [of "replicate 11 (W_Bytes 2)" "''OK APPARATE''"] by simp

section \<open>The clients\<close>

text \<open>C38: a client prints every line of a stream of the server, in order and once, however the stream
  is cut into pieces, when no line has 511 bytes or more and none announces the end.\<close>

theorem client_receives_lines:
  assumes "list_all line_fits ls" and "net_buf s = []" and "length (text_of ls) \<le> length ns"
  shows "client_feed tag ns (text_of ls) s = (s\<lparr>w_out := w_out s @ map (\<lambda>l. tag @ '' RECEIVED '' @ l) ls\<rparr>, Loop_On)"
  using client_feed_text [of s "text_of ls" ls ns tag] assms by (simp add: received_def)

lemma client_receives_lines_witness:
  "w_out (fst (client_feed ''[WIZARD harry]'' (replicate 40 2) (text_of [''OK ENROLL harry'', ''OK SPELLBOOK EMPTY''])
     \<lparr>net_buf = [], w_out = [], w_sock = []\<rparr>)) =
     [''[WIZARD harry] RECEIVED OK ENROLL harry'', ''[WIZARD harry] RECEIVED OK SPELLBOOK EMPTY'']"
proof -
  have "list_all line_fits [''OK ENROLL harry'', ''OK SPELLBOOK EMPTY'']" by code_simp
  then show ?thesis
    using client_receives_lines [of "[''OK ENROLL harry'', ''OK SPELLBOOK EMPTY'']" "\<lparr>net_buf = [], w_out = [], w_sock = []\<rparr>" "replicate 40 2"]
    by simp
qed

definition scroll_text :: "server \<Rightarrow> string" where
  "scroll_text s = ''OK SCROLL '' @ concat (pieces (map entry_text (g_ingredients s)))"

text \<open>C39: when the list of ingredients has 511 characters or more, the server cuts the reply to
  \<open>SCROLL\<close> to 511 and ends it with a newline; these 512 bytes do not fit into the buffer of the
  professor, who leaves without printing anything, in whatever pieces they arrive.\<close>

theorem scroll_drops_professor:
  assumes "list_all (\<lambda>e. is_valid_ingredient_name (fst e)) (g_ingredients s)" and "k < length (g_clients s)"
    and "MAX_LINE_LEN - 1 \<le> length (scroll_text s)"
    and "net_buf p = []" and "MAX_LINE_LEN \<le> length ns"
  shows "\<exists>bytes. g_sent (cmd_scroll k s) = g_sent s @ [(c_fd (cl s k), bytes)] \<and>
    bytes = take (MAX_LINE_LEN - 1) (scroll_text s) @ [LF] \<and>
    snd (client_feed tag ns bytes p) = Loop_Left \<and> w_out (fst (client_feed tag ns bytes p)) = w_out p"
proof -
  let ?line = "take (MAX_LINE_LEN - 1) (scroll_text s)"
  have entry: "LF \<notin> set (entry_text e)" if "e \<in> set (g_ingredients s)" for e
    using assms(1) that name_char [of "fst e" LF] set_int_dec [of LF "snd e"]
    by (auto simp: list_all_iff entry_text_def char_class_defs)
  have pcs: "LF \<notin> set (concat (pieces xs))" if "\<forall>x \<in> set xs. LF \<notin> set x" for xs
    using that by (cases xs) (auto simp: pieces_def char_class_defs)
  have "LF \<notin> set (concat (pieces (map entry_text (g_ingredients s))))" by (rule pcs) (use entry in auto)
  then have "LF \<notin> set (scroll_text s)" by (simp add: scroll_text_def char_class_defs del: set_concat)
  then have noLF: "LF \<notin> set ?line" by (meson in_set_takeD)
  have len: "length ?line = MAX_LINE_LEN - 1" using assms(3) by simp
  have ne: "?line \<noteq> []" using len by (auto simp: MAX_LINE_LEN_def)
  then have out: "line_out ?line = ?line @ [LF]" using noLF last_in_set [OF ne] by (metis line_out_def)
  have sent: "g_sent (cmd_scroll k s) = g_sent s @ [(c_fd (cl s k), ?line @ [LF])]"
    using fill_take [of "''OK SCROLL ''" MAX_LINE_LEN] out
    by (simp add: cmd_scroll_def scroll_text_def) (simp add: MAX_LINE_LEN_def)
  have "\<exists>b. client_feed tag ns (?line @ [LF]) p = (p\<lparr>net_buf := b\<rparr>, Loop_Left)"
    using assms(4,5) noLF len by (intro client_feed_long) (simp_all add: MAX_LINE_LEN_def)
  then show ?thesis using sent by auto
qed

definition long_stock :: "stock_entry list" where
  "long_stock = map (\<lambda>i. (''MANDRAKE'' @ nat_dec i, 10)) [0..<60]"

lemma scroll_drops_professor_witness:
  "\<exists>bytes. g_sent (cmd_scroll 0 (demo_served\<lparr>g_ingredients := long_stock\<rparr>)) = g_sent demo_served @ [(5, bytes)] \<and>
     snd (client_feed ''[PROFESSOR snape]'' (replicate 512 0) bytes \<lparr>net_buf = [], w_out = [], w_sock = []\<rparr>) = Loop_Left"
proof -
  let ?s = "demo_served\<lparr>g_ingredients := long_stock\<rparr>"
  have v: "list_all (\<lambda>e. is_valid_ingredient_name (fst e)) long_stock" by code_simp
  have "511 \<le> length (''OK SCROLL '' @ concat (pieces (map entry_text long_stock)))" by code_simp
  then have l: "MAX_LINE_LEN - 1 \<le> length (scroll_text ?s)" by (simp add: scroll_text_def MAX_LINE_LEN_def)
  show ?thesis
    using scroll_drops_professor [of ?s 0 "\<lparr>net_buf = [], w_out = [], w_sock = []\<rparr>" "replicate 512 0" "''[PROFESSOR snape]''"] v l
    by (auto simp: demo_served_def demo_wizard_def MAX_LINE_LEN_def)
qed

end
