(* ===== verification/Sort_Word.thy ===== *)
theory Sort_Word
  imports C_Library
begin

text \<open>
  One word of the sorting building (\<open>HW3\<close>): \<open>t_word\<close> and \<open>t_char_task\<close> of \<open>inc/structs.h\<close>, what the
  sorting process does with a word (\<open>processes/sorting_proc.c\<close>) and the slot a letter carrier puts a
  character into (\<open>place_char\<close> in \<open>processes/letter_carrier.c\<close>).  The arrays of a word are lists of
  \<open>word_len\<close> elements.
\<close>

section \<open>Data\<close>

definition MAX_WORD_LEN :: nat where "MAX_WORD_LEN = 64"

record char_task =
  t_word_id :: int
  t_character :: char
  t_original_index :: nat
  t_src_floor :: int
  t_dest_floor :: int
  t_claimed :: bool
  t_delivered :: bool

record word =
  word_id :: int
  original :: string
  word_len :: nat
  arrival_floor :: int
  sorting_floor :: nat
  sorting_area :: string
  occupied :: "bool list"
  fixed :: "bool list"
  tasks :: "char_task list"
  w_claimed :: bool
  w_admitted :: bool
  w_completed :: bool

section \<open>Sorting\<close>

text \<open>The first empty slot, otherwise the first that can be swapped, among the other slots of the word
  that want this character and are not fixed.\<close>

definition wants :: "word \<Rightarrow> nat \<Rightarrow> nat \<Rightarrow> bool" where
  "wants w i j \<longleftrightarrow> original w ! j = sorting_area w ! i \<and> \<not> fixed w ! j \<and> j \<noteq> i"

definition find_correct_slot :: "word \<Rightarrow> nat \<Rightarrow> nat option" where
  "find_correct_slot w i =
     (if original w ! i = sorting_area w ! i \<and> \<not> fixed w ! i then Some i
      else (case List.find (\<lambda>j. wants w i j \<and> \<not> occupied w ! j) [0..<word_len w] of
              Some j \<Rightarrow> Some j
            | None \<Rightarrow> List.find (\<lambda>j. wants w i j \<and> occupied w ! j) [0..<word_len w]))"

definition sort_slot :: "nat \<Rightarrow> word \<Rightarrow> word \<times> bool" where
  "sort_slot i w =
     (if \<not> occupied w ! i \<or> fixed w ! i then (w, False)
      else (let c = sorting_area w ! i in
            case find_correct_slot w i of
              None \<Rightarrow> (w, False)
            | Some correct \<Rightarrow>
                if correct = i then (w\<lparr>fixed := (fixed w)[i := True]\<rparr>, True)
                else if \<not> occupied w ! correct
                then (w\<lparr>sorting_area := (sorting_area w)[correct := c, i := NUL],
                        occupied := (occupied w)[correct := True, i := False]\<rparr>, True)
                else if \<not> fixed w ! correct
                then (let tmp = sorting_area w ! correct in
                      (w\<lparr>sorting_area := (sorting_area w)[correct := c, i := tmp]\<rparr>, True))
                else (w, False)))"

fun sort_slots :: "nat list \<Rightarrow> word \<times> bool \<Rightarrow> word \<times> bool" where
  "sort_slots [] wc = wc"
| "sort_slots (i # is) (w, changed) =
     (case sort_slot i w of (w', c) \<Rightarrow> sort_slots is (w', changed \<or> c))"

definition all_delivered :: "word \<Rightarrow> bool" where
  "all_delivered w \<longleftrightarrow> list_all t_delivered (tasks w)"

definition all_fixed :: "word \<Rightarrow> bool" where
  "all_fixed w \<longleftrightarrow> list_all id (fixed w)"

text \<open>\<open>sort_step\<close> on a word with its mutex: the word, whether it changed and whether it is done now.\<close>

definition sort_word :: "nat \<Rightarrow> word \<Rightarrow> word \<times> bool \<times> bool" where
  "sort_word floor w =
     (if sorting_floor w \<noteq> floor \<or> \<not> w_admitted w \<or> w_completed w then (w, False, False)
      else (case sort_slots [0..<word_len w] (w, False) of
              (w', changed) \<Rightarrow>
                if all_delivered w' \<and> all_fixed w' \<and> \<not> w_completed w'
                then (w'\<lparr>w_completed := True\<rparr>, changed, True)
                else (w', changed, False)))"

section \<open>Placing a character\<close>

definition free_slot :: "word \<Rightarrow> nat option" where
  "free_slot w = List.find (\<lambda>i. \<not> occupied w ! i \<and> \<not> fixed w ! i) [0..<word_len w]"

definition place_char :: "nat \<Rightarrow> word \<Rightarrow> word" where
  "place_char t w =
     (case free_slot w of
        None \<Rightarrow> w
      | Some slot \<Rightarrow>
          w\<lparr>sorting_area := (sorting_area w)[slot := t_character (tasks w ! t)],
            occupied := (occupied w)[slot := True],
            tasks := (tasks w)[t := (tasks w ! t)\<lparr>t_delivered := True\<rparr>]\<rparr>)"

section \<open>The words at the start\<close>

text \<open>\<open>init_word_info\<close> for one word of the input.  The arrays have 64 elements: for a longer word the
  code writes behind \<open>tasks\<close>, which is the result \<open>None\<close> here.  \<open>original\<close> holds at most 63 characters.\<close>

definition init_word :: "int \<times> string \<times> int \<Rightarrow> word option" where
  "init_word input =
     (case input of (wid, wd, fl) \<Rightarrow>
        if length wd > MAX_WORD_LEN then None
        else (let n = length wd;
                  orig = take n (strncpy (MAX_WORD_LEN - 1) wd @ [NUL])
              in Some \<lparr>word_id = wid, original = orig, word_len = n, arrival_floor = -1, sorting_floor = nat fl,
                   sorting_area = replicate n NUL, occupied = replicate n False, fixed = replicate n False,
                   tasks = map (\<lambda>j. \<lparr>t_word_id = wid, t_character = orig ! j, t_original_index = j, t_src_floor = -1, t_dest_floor = fl,
                                  t_claimed = False, t_delivered = False\<rparr>) [0..<n],
                   w_claimed = False, w_admitted = False, w_completed = False\<rparr>))"

section \<open>The state of a word\<close>

text \<open>The characters in the sorting area.\<close>

definition slots :: "word \<Rightarrow> (char \<times> bool) list" where
  "slots w = zip (sorting_area w) (occupied w)"

definition placed :: "word \<Rightarrow> char multiset" where
  "placed w = image_mset fst (filter_mset snd (mset (slots w)))"

definition delivered_chars :: "word \<Rightarrow> char multiset" where
  "delivered_chars w = image_mset t_character (filter_mset t_delivered (mset (tasks w)))"

definition word_ok :: "word \<Rightarrow> bool" where
  "word_ok w \<longleftrightarrow>
     length (original w) = word_len w \<and> length (sorting_area w) = word_len w \<and> length (occupied w) = word_len w \<and>
     length (fixed w) = word_len w \<and> length (tasks w) = word_len w \<and>
     map t_character (tasks w) = original w \<and> placed w = delivered_chars w \<and>
     (\<forall>i < word_len w. fixed w ! i \<longrightarrow> occupied w ! i \<and> sorting_area w ! i = original w ! i) \<and>
     list_all (\<lambda>t. t_delivered t \<longrightarrow> t_claimed t) (tasks w) \<and>
     (w_completed w \<longrightarrow> w_admitted w \<and> all_delivered w \<and> all_fixed w)"

lemma mset_update_cons:
  "i < length xs \<Longrightarrow> \<exists>R. mset xs = add_mset (xs ! i) R \<and> (\<forall>x. mset (xs[i := x]) = add_mset x R)"
  by (intro exI [of _ "mset xs - {#xs ! i#}"]) (simp add: mset_update)

lemma word_ok_init:
  assumes "init_word inp = Some w"
  shows "word_ok w"
proof -
  obtain wid wd fl where inp: "inp = (wid, wd, fl)" by (cases inp)
  have n: "length wd \<le> MAX_WORD_LEN" and w: "w = the (init_word inp)"
    using assms by (auto simp: inp init_word_def split: if_splits)
  have len: "length (take (length wd) (strncpy (MAX_WORD_LEN - 1) wd @ [NUL])) = length wd"
    using n by (auto simp: strncpy_def)
  have "placed w = {#}" using n
    by (auto simp: w inp init_word_def Let_def placed_def slots_def filter_mset_eq_mempty_iff zip_replicate)
  moreover have "delivered_chars w = {#}" using n
    by (auto simp: w inp init_word_def Let_def delivered_chars_def filter_mset_eq_mempty_iff)
  ultimately show ?thesis
    using n len by (auto simp: word_ok_def w inp init_word_def Let_def list_all_iff intro!: nth_equalityI)
qed

end
