(* ===== verification/Sort_System.thy ===== *)
theory Sort_System
  imports Sort_Word
begin

text \<open>
  The processes of the sorting building (\<open>HW3/src/processes\<close>) on their shared memory: word
  carriers, letter carriers, sorting processes, the two elevators and the monitor of the parent.
  Every critical section is one step, and so is every read or write outside of them that another
  process could notice.  A process that polls keeps its state; one that waits for a semaphore has no
  step.
\<close>

section \<open>Shared memory\<close>

record t_config =
  num_floors :: int
  word_carriers_per_floor :: int
  letter_carriers_per_floor :: int
  sorting_processes_per_floor :: int
  max_words_per_floor :: int
  delivery_elevator_capacity :: int
  reposition_elevator_capacity :: int
  input_file :: "string option"
  output_file :: "string option"

text \<open>\<open>t_elevator\<close> with its array of requests.\<close>

record t_elevator =
  current_floor :: int
  direction :: int
  capacity :: int
  current_load :: int
  request_sem :: nat
  requests :: "int list"

text \<open>\<open>t_shm\<close> and its header.  Of \<open>lc_states\<close> the model keeps whether the entry has been filled in.
  \<open>granted\<close> is a history variable: the words let in, with the floor they arrived on.\<close>

record shm =
  words :: "word list"
  floor_counts :: "int list"
  rr_index :: nat
  admitted_count :: nat
  done_count :: nat
  shutdown :: bool
  retry_count :: int
  delivery_ops :: int
  reposition_ops :: int
  delivery :: t_elevator
  reposition :: t_elevator
  lc_states :: "bool list"
  granted :: "(nat \<times> nat) list"

definition total_words :: "shm \<Rightarrow> nat" where
  "total_words s = length (words s)"

definition upd_word :: "nat \<Rightarrow> (word \<Rightarrow> word) \<Rightarrow> shm \<Rightarrow> shm" where
  "upd_word w f s = s\<lparr>words := (words s)[w := f (words s ! w)]\<rparr>"

definition upd_task :: "nat \<Rightarrow> (char_task \<Rightarrow> char_task) \<Rightarrow> word \<Rightarrow> word" where
  "upd_task t f w = w\<lparr>tasks := (tasks w)[t := f (tasks w ! t)]\<rparr>"

section \<open>Word carriers\<close>

text \<open>The control points of \<open>run_word_carrier\<close> with \<open>rr_pick\<close>; the number is the word.\<close>

datatype wc_pc = WC_Loop | WC_Pick | WC_Scan nat nat | WC_Claim nat | WC_Admit nat | WC_Arrive nat | WC_Mark nat
  | WC_Src nat nat | WC_Count nat | WC_Release nat | WC_Retry | WC_End

text \<open>The two mutexes are taken in the order of the floors and held for the whole of the test.\<close>

definition try_admit :: "int \<Rightarrow> nat \<Rightarrow> nat \<Rightarrow> int list \<Rightarrow> int list option" where
  "try_admit max_words sorting arrival counts =
     (if arrival = sorting then
        (if counts ! arrival < max_words then Some (counts[arrival := counts ! arrival + 2]) else None)
      else if counts ! arrival < max_words \<and> counts ! sorting < max_words
      then Some (counts[arrival := counts ! arrival + 1, sorting := counts ! sorting + 1])
      else None)"

fun word_carrier_step :: "int \<Rightarrow> nat \<Rightarrow> wc_pc \<Rightarrow> shm \<Rightarrow> wc_pc \<times> shm" where
  "word_carrier_step mx my_floor WC_Loop s =
     (if shutdown s then WC_End else if admitted_count s \<ge> total_words s then WC_End else WC_Pick, s)"
| "word_carrier_step mx my_floor WC_Pick s = (WC_Scan (rr_index s) 0, s\<lparr>rr_index := (rr_index s + 1) mod total_words s\<rparr>)"
| "word_carrier_step mx my_floor (WC_Scan start i) s =
     (if i \<ge> total_words s then (WC_Loop, s)
      else (let idx = (start + i) mod total_words s in
            (if \<not> w_claimed (words s ! idx) \<and> \<not> w_admitted (words s ! idx) then WC_Claim idx else WC_Scan start (i + 1), s)))"
| "word_carrier_step mx my_floor (WC_Claim w) s =
     (if w_claimed (words s ! w) \<or> w_admitted (words s ! w) then (WC_Loop, s)
      else (WC_Admit w, upd_word w (\<lambda>x. x\<lparr>w_claimed := True\<rparr>) s))"
| "word_carrier_step mx my_floor (WC_Admit w) s =
     (case try_admit mx (sorting_floor (words s ! w)) my_floor (floor_counts s) of
        None \<Rightarrow> (WC_Release w, s)
      | Some counts \<Rightarrow> (WC_Arrive w, s\<lparr>floor_counts := counts, granted := granted s @ [(w, my_floor)]\<rparr>))"
| "word_carrier_step mx my_floor (WC_Arrive w) s = (WC_Mark w, upd_word w (\<lambda>x. x\<lparr>arrival_floor := int my_floor\<rparr>) s)"
| "word_carrier_step mx my_floor (WC_Mark w) s = (WC_Src w 0, upd_word w (\<lambda>x. x\<lparr>w_admitted := True\<rparr>) s)"
| "word_carrier_step mx my_floor (WC_Src w j) s =
     (if j \<ge> word_len (words s ! w) then (WC_Count w, s)
      else (WC_Src w (j + 1), upd_word w (upd_task j (\<lambda>t. t\<lparr>t_src_floor := int my_floor\<rparr>)) s))"
| "word_carrier_step mx my_floor (WC_Count w) s = (WC_Loop, s\<lparr>admitted_count := admitted_count s + 1\<rparr>)"
| "word_carrier_step mx my_floor (WC_Release w) s = (WC_Retry, upd_word w (\<lambda>x. x\<lparr>w_claimed := False\<rparr>) s)"
| "word_carrier_step mx my_floor WC_Retry s = (WC_Loop, s\<lparr>retry_count := wrap32 (retry_count s + 1)\<rparr>)"
| "word_carrier_step mx my_floor WC_End s = (WC_End, s)"

section \<open>Letter carriers\<close>

text \<open>A ride with an elevator: a character to its sorting floor, or the carrier to another floor.\<close>

datatype errand = Deliver nat nat | Move nat

datatype lc_pc = LC_Init nat | LC_Loop | LC_Word nat | LC_Task nat nat | LC_Lock nat nat | LC_Carry nat nat
  | LC_Enter errand | LC_Cap errand | LC_Check errand | LC_Request errand | LC_Post errand | LC_Wait errand
  | LC_Leave errand | LC_Op errand | LC_Place nat nat | LC_End

definition lift_of :: "errand \<Rightarrow> shm \<Rightarrow> t_elevator" where
  "lift_of e s = (case e of Deliver w t \<Rightarrow> delivery s | Move d \<Rightarrow> reposition s)"

definition upd_lift :: "errand \<Rightarrow> (t_elevator \<Rightarrow> t_elevator) \<Rightarrow> shm \<Rightarrow> shm" where
  "upd_lift e f s = (case e of Deliver w t \<Rightarrow> s\<lparr>delivery := f (delivery s)\<rparr> | Move d \<Rightarrow> s\<lparr>reposition := f (reposition s)\<rparr>)"

definition dest_of :: "errand \<Rightarrow> shm \<Rightarrow> nat" where
  "dest_of e s = (case e of Deliver w t \<Rightarrow> nat (t_dest_floor (tasks (words s ! w) ! t)) | Move d \<Rightarrow> d)"

text \<open>Where a carrier goes on when a ride is over: \<open>place_char\<close> on the destination, or the main loop.\<close>

definition ride_over :: "errand \<Rightarrow> nat \<Rightarrow> bool \<Rightarrow> shm \<Rightarrow> nat \<times> lc_pc" where
  "ride_over e my_floor reached s =
     (case e of Deliver w t \<Rightarrow> (dest_of e s, LC_Place w t) | Move d \<Rightarrow> (if reached then d else my_floor, LC_Loop))"

text \<open>The state of a letter carrier is its floor, \<open>idle_ticks\<close> and its control point; \<open>x\<close> is the value
  of \<open>rand()\<close>.\<close>

fun letter_carrier_step :: "nat \<Rightarrow> nat \<Rightarrow> nat \<Rightarrow> nat \<Rightarrow> lc_pc \<Rightarrow> shm \<Rightarrow> (nat \<times> nat \<times> lc_pc) \<times> shm" where
  "letter_carrier_step nf x fl idle (LC_Init k) s = ((fl, idle, LC_Loop), s\<lparr>lc_states := (lc_states s)[k := True]\<rparr>)"
| "letter_carrier_step nf x fl idle LC_Loop s = ((fl, idle, if shutdown s then LC_End else LC_Word 0), s)"
| "letter_carrier_step nf x fl idle (LC_Word w) s =
     (if w \<ge> total_words s then
        (if idle + 1 \<ge> 5 then
           (let d = x mod nf; dest = (if d = fl then (d + 1) mod nf else d) in ((fl, 0, LC_Enter (Move dest)), s))
         else ((fl, idle + 1, LC_Loop), s))
      else (let wd = words s ! w in
            if \<not> w_admitted wd \<or> w_completed wd \<or> arrival_floor wd \<noteq> int fl then ((fl, idle, LC_Word (w + 1)), s)
            else ((fl, idle, LC_Task w 0), s)))"
| "letter_carrier_step nf x fl idle (LC_Task w t) s =
     (if t \<ge> word_len (words s ! w) then ((fl, idle, LC_Word (w + 1)), s)
      else (let task = tasks (words s ! w) ! t in
            if t_claimed task \<or> t_delivered task \<or> t_src_floor task \<noteq> int fl then ((fl, idle, LC_Task w (t + 1)), s)
            else ((fl, idle, LC_Lock w t), s)))"
| "letter_carrier_step nf x fl idle (LC_Lock w t) s =
     (let task = tasks (words s ! w) ! t in
      if \<not> t_claimed task \<and> \<not> t_delivered task
      then ((fl, 0, LC_Carry w t), upd_word w (upd_task t (\<lambda>t. t\<lparr>t_claimed := True\<rparr>)) s)
      else ((fl, idle, LC_Task w (t + 1)), s))"
| "letter_carrier_step nf x fl idle (LC_Carry w t) s =
     ((fl, idle, if t_dest_floor (tasks (words s ! w) ! t) = int fl then LC_Place w t else LC_Enter (Deliver w t)), s)"
| "letter_carrier_step nf x fl idle (LC_Enter e) s =
     (if shutdown s then (case ride_over e fl False s of (fl', pc) \<Rightarrow> ((fl', idle, pc), s)) else ((fl, idle, LC_Cap e), s))"
| "letter_carrier_step nf x fl idle (LC_Cap e) s =
     (if current_load (lift_of e s) < capacity (lift_of e s)
      then ((fl, idle, LC_Check e), upd_lift e (\<lambda>l. l\<lparr>current_load := current_load l + 1\<rparr>) s)
      else ((fl, idle, LC_Cap e), s))"
| "letter_carrier_step nf x fl idle (LC_Check e) s =
     (if shutdown s then (case ride_over e fl False s of (fl', pc) \<Rightarrow> ((fl', idle, pc), s)) else ((fl, idle, LC_Request e), s))"
| "letter_carrier_step nf x fl idle (LC_Request e) s =
     ((fl, idle, LC_Post e), upd_lift e (\<lambda>l. l\<lparr>requests := (requests l)[dest_of e s := requests l ! dest_of e s + 1]\<rparr>) s)"
| "letter_carrier_step nf x fl idle (LC_Post e) s =
     ((fl, idle, LC_Wait e), upd_lift e (\<lambda>l. l\<lparr>request_sem := request_sem l + 1\<rparr>) s)"
| "letter_carrier_step nf x fl idle (LC_Wait e) s =
     ((fl, idle, if shutdown s \<or> requests (lift_of e s) ! dest_of e s = 0 \<and> current_floor (lift_of e s) = int (dest_of e s)
                 then LC_Leave e else LC_Wait e), s)"
| "letter_carrier_step nf x fl idle (LC_Leave e) s =
     ((fl, idle, LC_Op e), upd_lift e (\<lambda>l. l\<lparr>current_load := current_load l - 1\<rparr>) s)"
| "letter_carrier_step nf x fl idle (LC_Op e) s =
     (case ride_over e fl True s of (fl', pc) \<Rightarrow>
        ((fl', idle, pc), (case e of Deliver w t \<Rightarrow> s\<lparr>delivery_ops := wrap32 (delivery_ops s + 1)\<rparr>
                           | Move d \<Rightarrow> s\<lparr>reposition_ops := wrap32 (reposition_ops s + 1)\<rparr>)))"
| "letter_carrier_step nf x fl idle (LC_Place w t) s = ((fl, idle, LC_Loop), upd_word w (place_char t) s)"
| "letter_carrier_step nf x fl idle LC_End s = ((fl, idle, LC_End), s)"

section \<open>Sorting processes\<close>

datatype sp_pc = SP_Loop | SP_Word nat | SP_End

text \<open>\<open>sort_step\<close>; \<open>busy\<close> is the case that \<open>sem_trywait\<close> finds the mutex of the word taken.\<close>

definition sort_step :: "bool \<Rightarrow> nat \<Rightarrow> nat \<Rightarrow> shm \<Rightarrow> shm" where
  "sort_step busy floor w s =
     (if busy then s
      else (case sort_word floor (words s ! w) of
              (w', changed, now_done) \<Rightarrow>
                let s1 = s\<lparr>words := (words s)[w := w']\<rparr> in
                if now_done then s1\<lparr>floor_counts := (floor_counts s)[floor := floor_counts s ! floor - 1],
                                    done_count := done_count s + 1\<rparr>
                else s1))"

fun sorter_step :: "bool \<Rightarrow> nat \<Rightarrow> sp_pc \<Rightarrow> shm \<Rightarrow> sp_pc \<times> shm" where
  "sorter_step busy floor SP_Loop s = (if shutdown s then SP_End else SP_Word 0, s)"
| "sorter_step busy floor (SP_Word w) s =
     (if w \<ge> total_words s then (SP_Loop, s) else (SP_Word (w + 1), sort_step busy floor w s))"
| "sorter_step busy floor SP_End s = (SP_End, s)"

section \<open>Elevators\<close>

definition has_request_in_direction :: "int list \<Rightarrow> int \<Rightarrow> int \<Rightarrow> bool" where
  "has_request_in_direction reqs cur dir =
     (if dir = 1 then list_ex (\<lambda>i. int i > cur \<and> reqs ! i > 0) [0..<length reqs]
      else list_ex (\<lambda>i. int i < cur \<and> reqs ! i > 0) [0..<length reqs])"

definition any_request :: "int list \<Rightarrow> bool" where
  "any_request reqs = list_ex (\<lambda>r. r > 0) reqs"

text \<open>The critical section of \<open>run_elevator\<close>.\<close>

definition first_request :: "int list \<Rightarrow> nat option" where
  "first_request reqs = List.find (\<lambda>i. reqs ! i > 0) [0..<length reqs]"

definition elevator_move :: "t_elevator \<Rightarrow> t_elevator" where
  "elevator_move l =
     (let reqs = requests l;
          nf = int (length reqs);
          dir = (if current_load l = 0 \<and> \<not> has_request_in_direction reqs (current_floor l) (direction l)
                 then (case first_request reqs of
                         None \<Rightarrow> direction l
                       | Some i \<Rightarrow> if int i > current_floor l then 1 else -1)
                 else direction l);
          f = current_floor l + dir;
          (f1, dir1) = (if f \<ge> nf then (nf - 1, -1) else (f, dir));
          (f2, dir2) = (if f1 < 0 then (0, 1) else (f1, dir1));
          reqs2 = (if reqs ! nat f2 > 0 then reqs[nat f2 := 0] else reqs);
          dir3 = (if \<not> has_request_in_direction reqs2 f2 dir2 \<and> current_load l = 0 then - dir2 else dir2)
      in l\<lparr>current_floor := f2, direction := dir3, requests := reqs2\<rparr>)"

datatype el_pc = EL_Loop | EL_Sem | EL_Check | EL_Move | EL_Post | EL_End

fun elevator_step :: "bool \<Rightarrow> el_pc \<Rightarrow> t_elevator \<Rightarrow> (el_pc \<times> t_elevator) option" where
  "elevator_step stop EL_Loop l = Some (if stop then EL_End else EL_Sem, l)"
| "elevator_step stop EL_Sem l =
     (if request_sem l = 0 then None else Some (EL_Check, l\<lparr>request_sem := request_sem l - 1\<rparr>))"
| "elevator_step stop EL_Check l = Some (if stop then EL_End else EL_Move, l)"
| "elevator_step stop EL_Move l = Some (EL_Post, elevator_move l)"
| "elevator_step stop EL_Post l =
     Some (EL_Loop, if any_request (requests l) then l\<lparr>request_sem := request_sem l + 1\<rparr> else l)"
| "elevator_step stop EL_End l = None"

section \<open>The monitor and the whole building\<close>

datatype mo_pc = MO_Loop | MO_Floor nat | MO_Spawn nat nat | MO_Stop | MO_End

datatype process =
    Word_Carrier nat wc_pc
  | Letter_Carrier nat nat nat lc_pc
  | Sorter nat sp_pc
  | Delivery_Elevator el_pc
  | Reposition_Elevator el_pc
  | Monitor mo_pc

text \<open>As long as the monitor runs, the letter carriers that have filled in their entry are alive.\<close>

definition count_live_lc_on_floor :: "nat \<Rightarrow> shm \<Rightarrow> nat \<Rightarrow> nat" where
  "count_live_lc_on_floor lpf s floor = length (filter (\<lambda>k. lc_states s ! k) [floor * lpf..<floor * lpf + lpf])"

fun monitor_step :: "nat \<Rightarrow> nat \<Rightarrow> mo_pc \<Rightarrow> shm \<Rightarrow> (mo_pc \<times> shm \<times> process list) option" where
  "monitor_step nf lpf MO_Loop s =
     Some (if shutdown s then MO_Stop else if done_count s \<ge> total_words s then MO_Stop else MO_Floor 0, s, [])"
| "monitor_step nf lpf (MO_Floor f) s =
     Some (if f \<ge> nf then MO_Loop else if count_live_lc_on_floor lpf s f = 0 then MO_Spawn f 0 else MO_Floor (f + 1), s, [])"
| "monitor_step nf lpf (MO_Spawn f i) s =
     Some (if i \<ge> lpf then (MO_Floor (f + 1), s, [])
           else (MO_Spawn f (i + 1), s, [Letter_Carrier f f 0 (LC_Init (f * lpf))]))"
| "monitor_step nf lpf MO_Stop s = Some (MO_End, s\<lparr>shutdown := True\<rparr>, [])"
| "monitor_step nf lpf MO_End s = None"

text \<open>One step of a process: its new state, the memory and the processes it has started; \<open>x\<close> is what
  \<open>rand\<close> returns and \<open>busy\<close> whether a mutex that is only tried is taken.\<close>

definition process_step :: "t_config \<Rightarrow> nat \<Rightarrow> bool \<Rightarrow> process \<Rightarrow> shm \<Rightarrow> (process \<times> shm \<times> process list) option" where
  "process_step cfg x busy p s =
     (case p of
        Word_Carrier fl pc \<Rightarrow>
          (case word_carrier_step (max_words_per_floor cfg) fl pc s of (pc', s') \<Rightarrow> Some (Word_Carrier fl pc', s', []))
      | Letter_Carrier home fl idle pc \<Rightarrow>
          (case letter_carrier_step (nat (num_floors cfg)) x fl idle pc s of
             ((fl', idle', pc'), s') \<Rightarrow> Some (Letter_Carrier home fl' idle' pc', s', []))
      | Sorter fl pc \<Rightarrow> (case sorter_step busy fl pc s of (pc', s') \<Rightarrow> Some (Sorter fl pc', s', []))
      | Delivery_Elevator pc \<Rightarrow>
          map_option (\<lambda>(pc', l). (Delivery_Elevator pc', s\<lparr>delivery := l\<rparr>, [])) (elevator_step (shutdown s) pc (delivery s))
      | Reposition_Elevator pc \<Rightarrow>
          map_option (\<lambda>(pc', l). (Reposition_Elevator pc', s\<lparr>reposition := l\<rparr>, [])) (elevator_step (shutdown s) pc (reposition s))
      | Monitor pc \<Rightarrow>
          map_option (\<lambda>(pc', s', new). (Monitor pc', s', new))
            (monitor_step (nat (num_floors cfg)) (nat (letter_carriers_per_floor cfg)) pc s))"

record building =
  procs :: "process list"
  memory :: shm

text \<open>\<open>init_floors\<close>, \<open>init_elevators\<close> and \<open>shm_init\<close>.\<close>

definition init_elevator :: "int \<Rightarrow> int \<Rightarrow> t_elevator" where
  "init_elevator nf cap = \<lparr>current_floor = 0, direction = 1, capacity = cap, current_load = 0, request_sem = 0,
     requests = replicate (nat nf) 0\<rparr>"

fun all_some :: "'a option list \<Rightarrow> 'a list option" where
  "all_some [] = Some []"
| "all_some (None # xs) = None"
| "all_some (Some x # xs) = map_option ((#) x) (all_some xs)"

definition shm_init :: "t_config \<Rightarrow> (int \<times> string \<times> int) list \<Rightarrow> shm option" where
  "shm_init cfg inputs =
     map_option (\<lambda>ws. \<lparr>words = ws, floor_counts = replicate (nat (num_floors cfg)) 0, rr_index = 0, admitted_count = 0,
         done_count = 0, shutdown = False, retry_count = 0, delivery_ops = 0, reposition_ops = 0,
         delivery = init_elevator (num_floors cfg) (delivery_elevator_capacity cfg),
         reposition = init_elevator (num_floors cfg) (reposition_elevator_capacity cfg),
         lc_states = replicate (nat (num_floors cfg * letter_carriers_per_floor cfg)) False, granted = []\<rparr>)
       (all_some (map init_word inputs))"

text \<open>\<open>spawn_all\<close>, with the parent process, which becomes the monitor, as the last one.\<close>

definition spawn_floor :: "t_config \<Rightarrow> nat \<Rightarrow> process list" where
  "spawn_floor cfg f =
     replicate (nat (word_carriers_per_floor cfg)) (Word_Carrier f WC_Loop) @
     map (\<lambda>i. Letter_Carrier f f 0 (LC_Init (f * nat (letter_carriers_per_floor cfg) + i))) [0..<nat (letter_carriers_per_floor cfg)] @
     replicate (nat (sorting_processes_per_floor cfg)) (Sorter f SP_Loop)"

definition spawn_all :: "t_config \<Rightarrow> process list" where
  "spawn_all cfg =
     concat (map (spawn_floor cfg) [0..<nat (num_floors cfg)]) @ [Delivery_Elevator EL_Loop, Reposition_Elevator EL_Loop]"

definition start_building :: "t_config \<Rightarrow> (int \<times> string \<times> int) list \<Rightarrow> building option" where
  "start_building cfg inputs =
     map_option (\<lambda>s. \<lparr>procs = spawn_all cfg @ [Monitor MO_Loop], memory = s\<rparr>) (shm_init cfg inputs)"

inductive building_step :: "t_config \<Rightarrow> building \<Rightarrow> building \<Rightarrow> bool" for cfg where
  proc_moves: "i < length (procs b) \<Longrightarrow> process_step cfg x busy (procs b ! i) (memory b) = Some (p, s, new) \<Longrightarrow>
    building_step cfg b \<lparr>procs = (procs b)[i := p] @ new, memory = s\<rparr>"

inductive building_reach :: "t_config \<Rightarrow> building \<Rightarrow> building \<Rightarrow> bool" for cfg b0 where
  reach_start: "building_reach cfg b0 b0"
| reach_step: "building_reach cfg b0 b \<Longrightarrow> building_step cfg b b' \<Longrightarrow> building_reach cfg b0 b'"

end
