(* ===== verification/Sort_Input.thy ===== *)
theory Sort_Input
  imports Sort_System
begin

text \<open>
  The input and output of the sorting building: the command line (\<open>HW3/src/check/args.c\<close>), reading
  lines (\<open>get_next_line/get_next_line.c\<close>), the format of a line (\<open>check/file_control.c\<close>,
  \<open>check/validate_words.c\<close>), the output file and the summary (\<open>check/output.c\<close>), and \<open>main\<close>.
\<close>

section \<open>Arguments\<close>

fun set_option :: "char \<Rightarrow> string \<Rightarrow> t_config \<Rightarrow> t_config option" where
  "set_option f v c =
     (if f = CHR ''f'' then Some (c\<lparr>num_floors := atoi v\<rparr>)
      else if f = CHR ''w'' then Some (c\<lparr>word_carriers_per_floor := atoi v\<rparr>)
      else if f = CHR ''l'' then Some (c\<lparr>letter_carriers_per_floor := atoi v\<rparr>)
      else if f = CHR ''s'' then Some (c\<lparr>sorting_processes_per_floor := atoi v\<rparr>)
      else if f = CHR ''c'' then Some (c\<lparr>max_words_per_floor := atoi v\<rparr>)
      else if f = CHR ''d'' then Some (c\<lparr>delivery_elevator_capacity := atoi v\<rparr>)
      else if f = CHR ''r'' then Some (c\<lparr>reposition_elevator_capacity := atoi v\<rparr>)
      else if f = CHR ''i'' then Some (c\<lparr>input_file := Some v\<rparr>)
      else if f = CHR ''o'' then Some (c\<lparr>output_file := Some v\<rparr>)
      else None)"

fun sort_options :: "opt_event list \<Rightarrow> t_config \<Rightarrow> t_config option" where
  "sort_options [] c = Some c"
| "sort_options (Opt f v # es) c = (case set_option f v c of None \<Rightarrow> None | Some c' \<Rightarrow> sort_options es c')"
| "sort_options (e # es) c = None"

definition parse_args :: "string list \<Rightarrow> t_config option" where
  "parse_args argv = sort_options (fst (getopt ''fwlscdrio'' [] argv))
     \<lparr>num_floors = 0, word_carriers_per_floor = 0, letter_carriers_per_floor = 0, sorting_processes_per_floor = 0,
      max_words_per_floor = 0, delivery_elevator_capacity = 0, reposition_elevator_capacity = 0, input_file = None,
      output_file = None\<rparr>"

text \<open>\<open>open\<close> succeeds on the files that \<open>readable\<close> accepts.\<close>

definition validate_args :: "(string \<Rightarrow> bool) \<Rightarrow> t_config \<Rightarrow> bool" where
  "validate_args readable c \<longleftrightarrow>
     \<not> num_floors c < 1 \<and> \<not> word_carriers_per_floor c < 1 \<and> \<not> letter_carriers_per_floor c < 1 \<and>
     \<not> sorting_processes_per_floor c < 1 \<and> \<not> max_words_per_floor c < 1 \<and> \<not> delivery_elevator_capacity c < 1 \<and>
     \<not> reposition_elevator_capacity c < 1 \<and> input_file c \<noteq> None \<and> output_file c \<noteq> None \<and>
     (case input_file c of None \<Rightarrow> False | Some f \<Rightarrow> readable f)"

section \<open>Lines\<close>

text \<open>\<open>read_file\<close>: the argument is what successive calls of \<open>read\<close> return, an empty string at the end
  of the file; \<open>data\<close> is the static variable of \<open>get_next_line\<close>.\<close>

fun read_file :: "string list \<Rightarrow> string option \<Rightarrow> string option \<times> string list" where
  "read_file [] data = (data, [])"
| "read_file (c # cs) data =
     (if c = [] then (data, cs)
      else (let d = (case data of None \<Rightarrow> [] | Some d \<Rightarrow> d) @ cstr c in
            if LF \<in> set d then (Some d, cs) else read_file cs (Some d)))"

definition ft_sep_line :: "string \<Rightarrow> string" where
  "ft_sep_line d = (let l = takeWhile (\<lambda>c. c \<noteq> LF) d in if LF \<in> set d then l @ [LF] else l)"

definition ft_update :: "string \<Rightarrow> string option" where
  "ft_update d = (let r = drop (length (ft_sep_line d)) d in if r = [] then None else Some r)"

definition get_next_line :: "string list \<Rightarrow> string option \<Rightarrow> string option \<times> string option \<times> string list" where
  "get_next_line chunks data =
     (case read_file chunks data of
        (None, rest) \<Rightarrow> (None, None, rest)
      | (Some d, rest) \<Rightarrow> (Some (ft_sep_line d), ft_update d, rest))"

section \<open>The input file\<close>

definition trim_newline :: "string \<Rightarrow> string" where
  "trim_newline line =
     (let l1 = (if line \<noteq> [] \<and> last line = LF then butlast line else line)
      in if l1 \<noteq> [] \<and> last l1 = CR then butlast l1 else l1)"

text \<open>The number of characters of a class at the front must be positive; then the rest goes on.\<close>

definition span1 :: "(char \<Rightarrow> bool) \<Rightarrow> string \<Rightarrow> string option" where
  "span1 P s = (if s \<noteq> [] \<and> P (hd s) then Some (dropWhile P s) else None)"

definition one_space :: "string \<Rightarrow> string option" where
  "one_space s = (if s \<noteq> [] \<and> hd s = CHR '' '' then Some (tl s) else None)"

definition is_valid_line :: "string \<Rightarrow> bool" where
  "is_valid_line line =
     (case span1 is_digit line of None \<Rightarrow> False | Some r1 \<Rightarrow>
     (case one_space r1 of None \<Rightarrow> False | Some r2 \<Rightarrow>
     (case span1 is_lower r2 of None \<Rightarrow> False | Some r3 \<Rightarrow>
     (case one_space r3 of None \<Rightarrow> False | Some r4 \<Rightarrow>
     (case span1 is_digit r4 of None \<Rightarrow> False | Some r5 \<Rightarrow> r5 = [])))))"

definition line_delims :: "char list" where "line_delims = [CHR '' '', LF]"

text \<open>\<open>parse_line\<close>; \<open>atoi\<close> and \<open>strdup\<close> of a null pointer would be the result \<open>None\<close>.\<close>

definition parse_line :: "string \<Rightarrow> (int \<times> string \<times> int) option" where
  "parse_line line =
     (case strtok line_delims line of (i, r1) \<Rightarrow>
      case strtok line_delims r1 of (w, r2) \<Rightarrow>
      case strtok line_delims r2 of (f, r3) \<Rightarrow>
        (case (i, w, f) of (Some i, Some w, Some f) \<Rightarrow> Some (atoi i, w, atoi f) | _ \<Rightarrow> None))"

definition input_weight :: "string list \<Rightarrow> string option \<Rightarrow> nat" where
  "input_weight chunks data =
     2 * sum_list (map length chunks) + length chunks + (case data of None \<Rightarrow> 0 | Some d \<Rightarrow> 2 * length d + 1)"

lemma read_file_weight:
  "read_file chunks data = (data', rest) \<Longrightarrow> data' \<noteq> None \<Longrightarrow> input_weight rest data' \<le> input_weight chunks data"
proof (induction chunks arbitrary: data)
  case (Cons c cs)
  have "input_weight cs (Some ((case data of None \<Rightarrow> [] | Some d \<Rightarrow> d) @ cstr c)) \<le> input_weight (c # cs) data" if "c \<noteq> []"
    using that length_cstr [of c] by (cases data) (auto simp: input_weight_def)
  then show ?case
    using Cons by (fastforce simp: Let_def input_weight_def split: if_splits option.splits)
qed (auto simp: input_weight_def)

lemma get_next_line_weight:
  assumes "(Some raw, data', rest) = get_next_line chunks data" "trim_newline raw \<noteq> []"
  shows "input_weight rest data' < input_weight chunks data"
proof -
  obtain d where d: "read_file chunks data = (Some d, rest)" "raw = ft_sep_line d" "data' = ft_update d"
    using assms(1) by (auto simp: get_next_line_def split: prod.splits option.splits)
  have "raw \<noteq> []" using assms(2) by (auto simp: trim_newline_def)
  then have "length raw > 0" "d \<noteq> []" using d(2) by (auto simp: ft_sep_line_def Let_def)
  then have "input_weight rest data' < input_weight rest (Some d)"
    using d(2,3) by (auto simp: input_weight_def ft_update_def Let_def)
  then show ?thesis using read_file_weight [OF d(1)] by simp
qed

text \<open>The loop of \<open>read_input\<close>; an empty or malformed line ends the program, which is \<open>None\<close>.\<close>

function read_input :: "string list \<Rightarrow> string option \<Rightarrow> (int \<times> string \<times> int) list option" where
  "read_input chunks data =
     (case get_next_line chunks data of
        (None, data', rest) \<Rightarrow> Some []
      | (Some raw, data', rest) \<Rightarrow>
          (let line = trim_newline raw in
           if line = [] then None
           else if \<not> is_valid_line line then None
           else (case parse_line line of
                   None \<Rightarrow> None
                 | Some w \<Rightarrow> map_option ((#) w) (read_input rest data'))))"
  by pat_completeness auto
termination
  by (relation "measure (\<lambda>(chunks, data). input_weight chunks data)") (auto dest: get_next_line_weight)

declare read_input.simps [simp del]

definition validate_words :: "(int \<times> string \<times> int) list \<Rightarrow> t_config \<Rightarrow> bool" where
  "validate_words ws c = list_all (\<lambda>(i, w, f). \<not> (f < 0 \<or> f \<ge> num_floors c)) ws"

text \<open>\<open>main\<close> up to the monitor: \<open>chunks\<close> is what \<open>read\<close> gives on the input file, \<open>ok\<close> whether the
  memory and the processes are to be had.\<close>

definition sort_main :: "(string \<Rightarrow> string list option) \<Rightarrow> bool \<Rightarrow> string list \<Rightarrow> (t_config \<times> building) option" where
  "sort_main chunks ok argv =
     (case parse_args argv of
        None \<Rightarrow> None
      | Some c \<Rightarrow>
          if \<not> validate_args (\<lambda>f. chunks f \<noteq> None) c then None
          else (case read_input (the (chunks (the (input_file c)))) None of
                  None \<Rightarrow> None
                | Some ws \<Rightarrow>
                    if \<not> validate_words ws c then None
                    else if \<not> ok then None
                    else map_option (\<lambda>b. (c, b)) (start_building c ws)))"

section \<open>Output\<close>

text \<open>The differences of \<open>cmp_words\<close> wrap.\<close>

definition cmp_words :: "word \<Rightarrow> word \<Rightarrow> int" where
  "cmp_words a b =
     (if sorting_floor a \<noteq> sorting_floor b then wrap32 (int (sorting_floor a) - int (sorting_floor b))
      else wrap32 (word_id a - word_id b))"

text \<open>\<open>qsort\<close> with a comparison function.\<close>

fun insert_by :: "('a \<Rightarrow> 'a \<Rightarrow> int) \<Rightarrow> 'a \<Rightarrow> 'a list \<Rightarrow> 'a list" where
  "insert_by cmp x [] = [x]"
| "insert_by cmp x (y # ys) = (if cmp x y \<le> 0 then x # y # ys else y # insert_by cmp x ys)"

definition qsort :: "('a \<Rightarrow> 'a \<Rightarrow> int) \<Rightarrow> 'a list \<Rightarrow> 'a list" where
  "qsort cmp xs = foldr (insert_by cmp) xs []"

definition output_line :: "word \<Rightarrow> string" where
  "output_line w = int_dec (word_id w) @ '' '' @ cstr (original w) @ '' '' @ nat_dec (sorting_floor w) @ [LF]"

definition write_output_file :: "shm \<Rightarrow> string" where
  "write_output_file s = concat (map output_line (qsort cmp_words (words s)))"

text \<open>The lines of \<open>print_summary\<close>; \<open>%3d\<close> and \<open>%2d\<close> pad on the left, \<open>%-*s\<close> on the right.\<close>

definition word_summary :: "word \<Rightarrow> string" where
  "word_summary w =
     ''  Word '' @ pad_left 3 (int_dec (word_id w)) @ '' '' @ pad_right MAX_WORD_LEN (cstr (original w)) @
     '' | arrival: '' @ pad_left 2 (int_dec (arrival_floor w)) @ '' | sorting: '' @ pad_left 2 (nat_dec (sorting_floor w)) @
     '' | chars: '' @ nat_dec (length (filter t_delivered (tasks w))) @ ''/'' @ nat_dec (word_len w) @
     '' | '' @ (if w_completed w then ''COMPLETED'' else ''INCOMPLETE'') @ [LF]"

definition print_summary :: "shm \<Rightarrow> string list" where
  "print_summary s =
     [LF # ''System Summary:'' @ [LF],
      ''--------------------------------------------------'' @ [LF],
      ''Total words:                  '' @ nat_dec (total_words s) @ [LF],
      ''Completed words:              '' @ nat_dec (done_count s) @ [LF],
      ''Retries: '' @ int_dec (retry_count s) @ [LF],
      ''Characters transported:       '' @ nat_dec (\<Sum>w\<leftarrow>words s. word_len w) @ [LF],
      ''Delivery elevator operations: '' @ int_dec (delivery_ops s) @ [LF],
      ''Reposition elevator operations: '' @ int_dec (reposition_ops s) @ [LF],
      LF # ''Per-word statistics:'' @ [LF]] @
     map word_summary (words s) @
     [LF # ''Program terminated successfully.'' @ [LF]]"

section \<open>The table of processes\<close>

text \<open>The size \<open>main\<close> allocates for the process ids that \<open>spawn_all\<close> fills in.\<close>

definition total_process_count :: "t_config \<Rightarrow> int" where
  "total_process_count c =
     (word_carriers_per_floor c + letter_carriers_per_floor c + sorting_processes_per_floor c) * num_floors c + 2"

lemma spawn_all_count:
  assumes "validate_args readable c"
  shows "int (length (spawn_all c)) = total_process_count c"
proof -
  have "length (spawn_all c) = (\<Sum>f\<leftarrow>[0..<nat (num_floors c)]. nat (word_carriers_per_floor c) +
      nat (letter_carriers_per_floor c) + nat (sorting_processes_per_floor c)) + 2"
    by (simp add: spawn_all_def spawn_floor_def length_concat o_def add.assoc)
  then show ?thesis using assms by (simp add: total_process_count_def validate_args_def sum_list_triv)
qed

end
