(* ===== verification/Sort_Word_Facts.thy ===== *)
theory Sort_Word_Facts
  imports Sort_Word
begin

text \<open>
  The operations on a word keep it well-formed, a claimed character always finds a free slot, and a
  pass of the sorting process over a word whose characters are all there fixes at least one more.
\<close>

section \<open>Well-formed words\<close>

lemma word_okD:
  assumes "word_ok w"
  shows "length (original w) = word_len w" "length (sorting_area w) = word_len w" "length (occupied w) = word_len w"
    "length (fixed w) = word_len w" "length (tasks w) = word_len w" "map t_character (tasks w) = original w"
    "placed w = delivered_chars w" "i < word_len w \<Longrightarrow> fixed w ! i \<Longrightarrow> occupied w ! i"
    "i < word_len w \<Longrightarrow> fixed w ! i \<Longrightarrow> sorting_area w ! i = original w ! i"
  using assms by (auto simp: word_ok_def)

lemma find_upt_Some: "List.find P [0..<n] = Some j \<Longrightarrow> j < n \<and> P j"
  by (auto simp: find_Some_iff)

lemma find_correct_slot_Some:
  assumes "find_correct_slot w i = Some j"
  shows "j < word_len w \<or> j = i" "original w ! j = sorting_area w ! i" "\<not> fixed w ! j"
  using assms
  by (auto simp: find_correct_slot_def wants_def split: if_splits option.splits dest: find_upt_Some)

lemma placed_upd:
  assumes "i < length (slots w)"
  shows "\<exists>R. mset (slots w) = add_mset (sorting_area w ! i, occupied w ! i) R \<and>
    (\<forall>c b. mset (zip ((sorting_area w)[i := c]) ((occupied w)[i := b])) = add_mset (c, b) R)"
proof -
  have i: "i < length (sorting_area w)" "i < length (occupied w)" using assms by (simp_all add: slots_def)
  show ?thesis using mset_update_cons [OF assms] i by (auto simp: slots_def zip_update [symmetric])
qed

abbreviation set_slot :: "nat \<Rightarrow> char \<Rightarrow> bool \<Rightarrow> word \<Rightarrow> word" where
  "set_slot i c b w \<equiv> w\<lparr>sorting_area := (sorting_area w)[i := c], occupied := (occupied w)[i := b]\<rparr>"

lemma placed_set_slot:
  assumes "i < length (sorting_area w)" "length (occupied w) = length (sorting_area w)"
  shows "placed (set_slot i c b w) + (if occupied w ! i then {#sorting_area w ! i#} else {#}) =
    placed w + (if b then {#c#} else {#})"
proof -
  have "i < length (slots w)" using assms by (simp add: slots_def)
  from placed_upd [OF this] obtain R where R: "mset (slots w) = add_mset (sorting_area w ! i, occupied w ! i) R"
      "mset (slots (set_slot i c b w)) = add_mset (c, b) R"
    by (auto simp: slots_def)
  show ?thesis unfolding placed_def R by simp
qed

lemma delivered_same: "tasks w' = tasks w \<Longrightarrow> delivered_chars w' = delivered_chars w"
  by (simp add: delivered_chars_def)

lemma word_ok_area:
  assumes ok: "word_ok w" and p: "placed w' = placed w"
    and f: "\<And>i. i < word_len w \<Longrightarrow> fixed w ! i \<Longrightarrow> occupied w' ! i \<and> sorting_area w' ! i = sorting_area w ! i"
    and len: "length (sorting_area w') = word_len w" "length (occupied w') = word_len w"
    and s: "original w' = original w" "word_len w' = word_len w" "fixed w' = fixed w" "tasks w' = tasks w"
      "w_completed w' = w_completed w" "w_admitted w' = w_admitted w"
  shows "word_ok w'"
  using ok f p len s delivered_same [OF s(4)]
  by (auto simp: word_ok_def all_delivered_def all_fixed_def)

lemma sort_slot_ok:
  assumes ok: "word_ok w" and i: "i < word_len w" and s: "sort_slot i w = (w', ch)"
  shows "word_ok w' \<and> word_len w' = word_len w \<and> original w' = original w \<and> tasks w' = tasks w \<and>
    w_completed w' = w_completed w \<and> w_admitted w' = w_admitted w \<and> w_claimed w' = w_claimed w \<and>
    sorting_floor w' = sorting_floor w \<and> arrival_floor w' = arrival_floor w \<and> word_id w' = word_id w"
proof (cases "\<not> occupied w ! i \<or> fixed w ! i")
  case True
  then show ?thesis using s ok by (simp add: sort_slot_def)
next
  case False
  note len = word_okD(1-5) [OF ok]
  show ?thesis
  proof (cases "find_correct_slot w i")
    case None
    then show ?thesis using s ok by (simp add: sort_slot_def split: if_splits)
  next
    case (Some j)
    note j = find_correct_slot_Some [OF Some]
    have jn: "j < word_len w" using j(1) i by auto
    consider (here) "j = i" | (move) "j \<noteq> i" "\<not> occupied w ! j" | (swap) "j \<noteq> i" "occupied w ! j" by blast
    then show ?thesis
    proof cases
      case here
      have w': "w' = w\<lparr>fixed := (fixed w)[i := True]\<rparr>" using s False Some here by (simp add: sort_slot_def)
      have "word_ok w'"
        using ok j(2) here False i
        by (auto simp: w' word_ok_def placed_def slots_def delivered_chars_def all_delivered_def all_fixed_def nth_list_update
            list_all_length)
      then show ?thesis by (simp add: w')
    next
      case move
      let ?c = "sorting_area w ! i"
      have w': "w' = set_slot i NUL False (set_slot j ?c True w)"
        using s False Some move by (simp add: sort_slot_def Let_def)
      have "placed (set_slot j ?c True w) = placed w + {#?c#}"
        using placed_set_slot [of j w True ?c] move(2) jn len by simp
      then have "placed w' = placed w"
        using placed_set_slot [of i "set_slot j ?c True w" False NUL] move i len jn False unfolding w' by simp
      then have "word_ok w'"
        by (rule word_ok_area [OF ok]) (use False j(3) word_okD(8) [OF ok] i jn len in \<open>auto simp: w' nth_list_update\<close>)
      then show ?thesis by (simp add: w')
    next
      case swap
      let ?c = "sorting_area w ! i" and ?d = "sorting_area w ! j"
      have w': "w' = set_slot i ?d True (set_slot j ?c True w)"
      proof -
        have occ: "(occupied w)[j := True] = occupied w" "(occupied w)[i := True] = occupied w"
          using swap(2) False by (metis list_update_id)+
        have "w' = w\<lparr>sorting_area := (sorting_area w)[j := ?c, i := ?d]\<rparr>"
          using s False Some swap j(3) by (simp add: sort_slot_def Let_def)
        also have "\<dots> = set_slot i ?d True (set_slot j ?c True w)" by (cases w) (use occ in simp)
        finally show ?thesis .
      qed
      have "placed (set_slot j ?c True w) + {#?d#} = placed w + {#?c#}"
        using placed_set_slot [of j w True ?c] swap(2) jn len by simp
      moreover have "placed w' + {#?c#} = placed (set_slot j ?c True w) + {#?d#}"
        using placed_set_slot [of i "set_slot j ?c True w" True ?d] swap i len jn False unfolding w' by simp
      ultimately have "placed w' = placed w" by simp
      then have "word_ok w'"
        by (rule word_ok_area [OF ok]) (use False j(3) word_okD(8) [OF ok] i jn len in \<open>auto simp: w' nth_list_update\<close>)
      then show ?thesis by (simp add: w')
    qed
  qed
qed

definition same_frame :: "word \<Rightarrow> word \<Rightarrow> bool" where
  "same_frame w w' \<longleftrightarrow> word_len w' = word_len w \<and> original w' = original w \<and> tasks w' = tasks w \<and>
     w_admitted w' = w_admitted w \<and> w_claimed w' = w_claimed w \<and>
     sorting_floor w' = sorting_floor w \<and> arrival_floor w' = arrival_floor w \<and> word_id w' = word_id w"

lemma sort_slots_ok:
  "word_ok w \<Longrightarrow> \<forall>i \<in> set is. i < word_len w \<Longrightarrow> sort_slots is (w, ch) = (w', ch') \<Longrightarrow>
   word_ok w' \<and> same_frame w w' \<and> w_completed w' = w_completed w"
proof (induction "is" arbitrary: w ch)
  case Nil
  then show ?case by (simp add: same_frame_def)
next
  case (Cons i "is")
  obtain w1 c where s: "sort_slot i w = (w1, c)" by (cases "sort_slot i w")
  have "i < word_len w" using Cons.prems(2) by simp
  note ok = sort_slot_ok [OF Cons.prems(1) this s]
  have "word_ok w' \<and> same_frame w1 w' \<and> w_completed w' = w_completed w1"
    by (rule Cons.IH [of w1 "ch \<or> c"]) (use ok Cons.prems s in auto)
  then show ?case using ok by (simp add: same_frame_def)
qed

lemma sort_word_ok:
  assumes ok: "word_ok w" and s: "sort_word floor w = (w', ch, done)"
  shows "word_ok w' \<and> same_frame w w' \<and> (w_completed w' \<longleftrightarrow> w_completed w \<or> done) \<and>
    (done \<longrightarrow> \<not> w_completed w \<and> w_admitted w \<and> sorting_floor w = floor)"
proof (cases "sorting_floor w \<noteq> floor \<or> \<not> w_admitted w \<or> w_completed w")
  case True
  then show ?thesis using ok s by (auto simp: sort_word_def same_frame_def)
next
  case False
  obtain w1 c where l: "sort_slots [0..<word_len w] (w, False) = (w1, c)" by (cases "sort_slots [0..<word_len w] (w, False)")
  note r = sort_slots_ok [OF ok _ l]
  show ?thesis
  proof (cases "all_delivered w1 \<and> all_fixed w1")
    case True
    then have "w' = w1\<lparr>w_completed := True\<rparr>" "done" using s False l r by (auto simp: sort_word_def)
    then show ?thesis
      using r False True by (auto simp: word_ok_def same_frame_def placed_def slots_def delivered_chars_def all_delivered_def all_fixed_def)
  next
    case no: False
    then show ?thesis using s False l r by (auto simp: sort_word_def)
  qed
qed

section \<open>Placing\<close>

lemma size_placed: "word_ok w \<Longrightarrow> size (placed w) = length (filter id (occupied w))"
proof -
  assume ok: "word_ok w"
  have "size (placed w) = length (filter snd (slots w))"
    by (simp add: placed_def flip: mset_filter)
  also have "\<dots> = length (filter id (map snd (slots w)))" by (simp add: filter_map o_def id_def)
  finally show ?thesis using word_okD(2,3) [OF ok] by (simp add: slots_def)
qed

lemma length_filter_less: "i < length xs \<Longrightarrow> \<not> P (xs ! i) \<Longrightarrow> length (filter P xs) < length xs"
  by (metis length_filter_less nth_mem)

text \<open>As long as a task is not delivered there is room.\<close>

lemma free_slot_exists:
  assumes ok: "word_ok w" and t: "t < word_len w" "\<not> t_delivered (tasks w ! t)"
  shows "\<exists>i. free_slot w = Some i \<and> i < word_len w \<and> \<not> occupied w ! i \<and> \<not> fixed w ! i"
proof -
  have "length (filter id (occupied w)) = size (delivered_chars w)" using size_placed [OF ok] word_okD(7) [OF ok] by simp
  also have "\<dots> = length (filter t_delivered (tasks w))" by (simp add: delivered_chars_def flip: mset_filter)
  also have "\<dots> < word_len w" using length_filter_less [of t "tasks w" t_delivered] t word_okD(5) [OF ok] by simp
  finally have less: "length (filter id (occupied w)) < word_len w" .
  have "\<not> list_all id (occupied w)"
  proof
    assume "list_all id (occupied w)"
    then have "filter id (occupied w) = occupied w" by (intro filter_True) (simp add: list_all_iff)
    then show False using less word_okD(3) [OF ok] by simp
  qed
  then obtain i where i: "i < word_len w" "\<not> occupied w ! i"
    using word_okD(3) [OF ok] by (auto simp: list_all_length)
  then have "\<not> fixed w ! i" using word_okD(8) [OF ok] by blast
  then have "free_slot w \<noteq> None" using i by (auto simp: free_slot_def find_None_iff)
  then obtain j where "free_slot w = Some j" by blast
  then show ?thesis
    using find_upt_Some [of "\<lambda>i. \<not> occupied w ! i \<and> \<not> fixed w ! i" "word_len w" j] by (simp add: free_slot_def)
qed

lemma delivered_upd:
  assumes "t < length (tasks w)" "\<not> t_delivered (tasks w ! t)"
  shows "delivered_chars (w\<lparr>tasks := (tasks w)[t := (tasks w ! t)\<lparr>t_delivered := True\<rparr>]\<rparr>) =
    add_mset (t_character (tasks w ! t)) (delivered_chars w)"
proof -
  obtain R where R: "mset (tasks w) = add_mset (tasks w ! t) R" "\<And>x. mset ((tasks w)[t := x]) = add_mset x R"
    using mset_update_cons [OF assms(1)] by blast
  show ?thesis using assms(2) by (simp add: delivered_chars_def R)
qed

lemma place_char_ok:
  assumes ok: "word_ok w" and t: "t < word_len w" "\<not> t_delivered (tasks w ! t)" "t_claimed (tasks w ! t)"
  shows "word_ok (place_char t w) \<and> word_len (place_char t w) = word_len w \<and> original (place_char t w) = original w \<and>
    w_completed (place_char t w) = w_completed w \<and> w_admitted (place_char t w) = w_admitted w \<and>
    w_claimed (place_char t w) = w_claimed w \<and> sorting_floor (place_char t w) = sorting_floor w \<and>
    tasks (place_char t w) = (tasks w)[t := (tasks w ! t)\<lparr>t_delivered := True\<rparr>]"
proof -
  obtain i where i: "free_slot w = Some i" "i < word_len w" "\<not> occupied w ! i" "\<not> fixed w ! i"
    using free_slot_exists [OF ok t(1,2)] by blast
  let ?c = "t_character (tasks w ! t)"
  have w': "place_char t w = (set_slot i ?c True w)\<lparr>tasks := (tasks w)[t := (tasks w ! t)\<lparr>t_delivered := True\<rparr>]\<rparr>"
    using i(1) by (simp add: place_char_def)
  note len = word_okD(1-5) [OF ok]
  have p: "placed (place_char t w) = add_mset ?c (placed w)"
    using placed_set_slot [of i w True ?c] i len by (simp add: w' placed_def slots_def)
  have d: "delivered_chars (place_char t w) = add_mset ?c (delivered_chars w)"
    using delivered_upd [of t w] t len by (simp add: w' delivered_chars_def)
  have "\<not> w_completed w" using ok t(1,2) len by (auto simp: word_ok_def all_delivered_def list_all_length)
  moreover have "map t_character (tasks (place_char t w)) = original w"
    using word_okD(6) [OF ok] t(1) len by (simp add: w' map_update) (metis list_update_id nth_map)
  ultimately have "word_ok (place_char t w)"
    using ok i len p d t
    by (auto simp: word_ok_def w' nth_list_update list_all_length)
  then show ?thesis by (simp add: w')
qed

section \<open>Sorting comes to an end\<close>

definition full :: "word \<Rightarrow> bool" where
  "full w \<longleftrightarrow> word_ok w \<and> list_all id (occupied w) \<and> all_delivered w"

definition fixed_set :: "word \<Rightarrow> nat set" where
  "fixed_set w = {i. i < word_len w \<and> fixed w ! i}"

definition ripe :: "nat \<Rightarrow> word \<Rightarrow> bool" where
  "ripe j w \<longleftrightarrow> j < word_len w \<and> \<not> fixed w ! j \<and> sorting_area w ! j = original w ! j"

lemma finite_fixed [simp]: "finite (fixed_set w)"
  by (simp add: fixed_set_def)

lemma full_occ: "full w \<Longrightarrow> i < word_len w \<Longrightarrow> occupied w ! i"
  by (auto simp: full_def list_all_length word_okD(3))

lemma full_mset:
  assumes "full w"
  shows "mset (sorting_area w) = mset (original w)"
proof -
  have ok: "word_ok w" using assms by (simp add: full_def)
  have "filter_mset snd (mset (slots w)) = mset (slots w)"
    using assms word_okD(2,3) [OF ok] by (auto simp: full_def filter_mset_eq_conv slots_def list_all_length set_zip)
  then have "placed w = mset (map fst (slots w))" by (simp add: placed_def)
  moreover have "filter_mset t_delivered (mset (tasks w)) = mset (tasks w)"
    using assms by (auto simp: full_def filter_mset_eq_conv all_delivered_def list_all_iff)
  then have "delivered_chars w = mset (map t_character (tasks w))" by (simp add: delivered_chars_def)
  ultimately show ?thesis using word_okD [OF ok] by (simp add: slots_def)
qed

lemma mset_nth_image: "mset xs = image_mset ((!) xs) (mset_set {..<length xs})"
  by (metis atLeast_upt map_nth mset_map mset_set_set mset_upt atLeast0LessThan)

text \<open>A character that is not yet in place is wanted by another slot that is not fixed.\<close>

lemma wanted_exists:
  assumes full: "full w" and i: "i < word_len w" "\<not> fixed w ! i"
  shows "\<exists>j < word_len w. \<not> fixed w ! j \<and> original w ! j = sorting_area w ! i"
proof -
  have ok: "word_ok w" using full by (simp add: full_def)
  note len = word_okD(1-5) [OF ok]
  let ?F = "{j. j < word_len w \<and> fixed w ! j}" and ?U = "{j. j < word_len w \<and> \<not> fixed w ! j}"
  have split: "{..<word_len w} = ?F \<union> ?U" "?F \<inter> ?U = {}" by auto
  have "image_mset ((!) (sorting_area w)) (mset_set {..<word_len w}) = image_mset ((!) (original w)) (mset_set {..<word_len w})"
    using full_mset [OF full] mset_nth_image [of "sorting_area w"] mset_nth_image [of "original w"] len by simp
  moreover have "mset_set {..<word_len w} = mset_set ?F + mset_set ?U"
    unfolding split(1) by (rule mset_set_Union) (use split(2) in auto)
  moreover have "image_mset ((!) (sorting_area w)) (mset_set ?F) = image_mset ((!) (original w)) (mset_set ?F)"
    by (rule image_mset_cong) (use word_okD(9) [OF ok] in auto)
  ultimately have "image_mset ((!) (sorting_area w)) (mset_set ?U) = image_mset ((!) (original w)) (mset_set ?U)" by simp
  then have "(!) (sorting_area w) ` ?U = (!) (original w) ` ?U"
    by (metis (no_types, lifting) finite_nat_set_iff_bounded finite_set_mset_mset_set mem_Collect_eq set_image_mset)
  moreover have "sorting_area w ! i \<in> (!) (sorting_area w) ` ?U" using i by blast
  ultimately show ?thesis by auto
qed

text \<open>What one step over a slot does to a word that has all its characters.\<close>

lemma full_area:
  assumes "full w" "word_ok w'" "occupied w' = occupied w" "tasks w' = tasks w"
  shows "full w'"
  using assms by (simp add: full_def all_delivered_def)

lemma full_slot:
  assumes full: "full w" and i: "i < word_len w" and s: "sort_slot i w = (w', ch)"
  shows "full w' \<and> same_frame w w' \<and> w_completed w' = w_completed w \<and> fixed_set w \<subseteq> fixed_set w' \<and>
    (\<forall>j. ripe j w \<longrightarrow> (if j = i then j \<in> fixed_set w' else ripe j w' \<or> j \<in> fixed_set w')) \<and>
    (\<not> fixed w ! i \<longrightarrow> i \<in> fixed_set w' \<or> (\<exists>j. j \<noteq> i \<and> \<not> fixed w ! j \<and> ripe j w' \<and> fixed_set w' = fixed_set w))"
proof -
  have ok: "word_ok w" using full by (simp add: full_def)
  note len = word_okD(1-5) [OF ok]
  note sok = sort_slot_ok [OF ok i s]
  have occ: "occupied w ! j" if "j < word_len w" for j using full_occ [OF full that] .
  consider (old) "fixed w ! i" | (here) "\<not> fixed w ! i" "sorting_area w ! i = original w ! i"
    | (swap) "\<not> fixed w ! i" "sorting_area w ! i \<noteq> original w ! i" by blast
  then show ?thesis
  proof cases
    case old
    then show ?thesis using s full by (auto simp: sort_slot_def same_frame_def ripe_def)
  next
    case here
    then have "find_correct_slot w i = Some i" by (simp add: find_correct_slot_def)
    then have w': "w' = w\<lparr>fixed := (fixed w)[i := True]\<rparr>" using s here occ [OF i] by (simp add: sort_slot_def)
    have "full w'" using full_area [OF full] sok w' by simp
    then show ?thesis using sok i len by (auto simp: w' same_frame_def fixed_set_def ripe_def nth_list_update)
  next
    case swap
    have none: "List.find (\<lambda>j. wants w i j \<and> \<not> occupied w ! j) [0..<word_len w] = None"
      using occ by (auto simp: find_None_iff)
    obtain k where "k < word_len w" "\<not> fixed w ! k" "original w ! k = sorting_area w ! i"
      using wanted_exists [OF full i swap(1)] by blast
    then have "wants w i k \<and> occupied w ! k" "k \<in> set [0..<word_len w]" using swap(2) occ by (auto simp: wants_def)
    then have "List.find (\<lambda>j. wants w i j \<and> occupied w ! j) [0..<word_len w] \<noteq> None" by (metis find_None_iff)
    then obtain j where j: "List.find (\<lambda>j. wants w i j \<and> occupied w ! j) [0..<word_len w] = Some j" by blast
    then have f: "find_correct_slot w i = Some j" using none swap(2) by (auto simp: find_correct_slot_def)
    note jw = find_upt_Some [OF j]
    then have jn: "j < word_len w" "j \<noteq> i" "\<not> fixed w ! j" "original w ! j = sorting_area w ! i" by (auto simp: wants_def)
    have w': "w' = w\<lparr>sorting_area := (sorting_area w)[j := sorting_area w ! i, i := sorting_area w ! j]\<rparr>"
      using s swap(1) f jn occ i by (simp add: sort_slot_def Let_def)
    have "full w'" using full_area [OF full] sok w' by simp
    moreover have "fixed_set w' = fixed_set w" by (simp add: w' fixed_set_def)
    moreover have "ripe j w'" using jn i len by (simp add: ripe_def w')
    moreover have "ripe l w'" if "ripe l w" "l \<noteq> i" for l
      using that jn i len by (auto simp: ripe_def w' nth_list_update)
    moreover have "\<not> ripe i w" using swap by (simp add: ripe_def)
    ultimately show ?thesis using sok jn by (auto simp: same_frame_def)
  qed
qed

text \<open>A slot that holds its character is fixed when the pass comes to it.\<close>

lemma pass_fixes_ripe:
  "full w \<Longrightarrow> \<forall>i \<in> set is. i < word_len w \<Longrightarrow> j \<in> fixed_set w \<or> ripe j w \<and> j \<in> set is \<Longrightarrow> sort_slots is (w, ch) = (w', ch') \<Longrightarrow>
   full w' \<and> fixed_set w \<subseteq> fixed_set w' \<and> j \<in> fixed_set w'"
proof (induction "is" arbitrary: w ch)
  case Nil
  then show ?case by simp
next
  case (Cons i "is")
  obtain w1 c where s: "sort_slot i w = (w1, c)" by (cases "sort_slot i w")
  have i: "i < word_len w" using Cons.prems(2) by simp
  note f = full_slot [OF Cons.prems(1) i s]
  have "j \<in> fixed_set w1 \<or> ripe j w1 \<and> j \<in> set is"
    using f Cons.prems(3) by (auto split: if_splits)
  then have "full w' \<and> fixed_set w1 \<subseteq> fixed_set w' \<and> j \<in> fixed_set w'"
    using Cons.IH [of w1 "ch \<or> c"] f Cons.prems(2,4) s by (simp add: same_frame_def)
  then show ?case using f by blast
qed

lemma sort_slots_append: "sort_slots (xs @ ys) wc = sort_slots ys (sort_slots xs wc)"
  by (induction xs arbitrary: wc) (auto split: prod.splits)

lemma sort_slots_fixed: "\<forall>i \<in> set is. fixed w ! i \<Longrightarrow> sort_slots is (w, ch) = (w, ch)"
  by (induction "is") (auto simp: sort_slot_def)

lemma pass_progress:
  assumes full: "full w" and open_: "\<not> all_fixed w" and s: "sort_slots [0..<word_len w] (w, ch) = (w', ch')"
  shows "full w' \<and> fixed_set w \<subset> fixed_set w'"
proof -
  have ok: "word_ok w" using full by (simp add: full_def)
  define i where "i = (LEAST i. i < word_len w \<and> \<not> fixed w ! i)"
  obtain i0 where "i0 < word_len w \<and> \<not> fixed w ! i0"
    using open_ word_okD(4) [OF ok] by (auto simp: all_fixed_def list_all_length)
  then have i: "i < word_len w" "\<not> fixed w ! i" unfolding i_def by (metis (mono_tags, lifting) LeastI)+
  have first: "fixed w ! k" if "k < i" for k using that i(1) not_less_Least [of k] unfolding i_def by (metis (mono_tags, lifting) less_trans)
  have split: "[0..<word_len w] = [0..<i] @ i # [i + 1..<word_len w]"
    using i(1) upt_add_eq_append [of 0 i "word_len w - i"] upt_conv_Cons [of i "word_len w"] by simp
  obtain w1 c where w1: "sort_slot i w = (w1, c)" by (cases "sort_slot i w")
  have s1: "sort_slots [i + 1..<word_len w] (w1, ch \<or> c) = (w', ch')"
    using s sort_slots_fixed [of "[0..<i]" w ch] first w1 unfolding split by (simp add: sort_slots_append)
  note f = full_slot [OF full i(1) w1]
  obtain j where j: "j \<notin> fixed_set w" "j \<in> fixed_set w1 \<or> ripe j w1 \<and> j \<in> set [i + 1..<word_len w]"
  proof (cases "i \<in> fixed_set w1")
    case True
    then show ?thesis using that [of i] i by (simp add: fixed_set_def)
  next
    case False
    then obtain j where j: "j \<noteq> i" "\<not> fixed w ! j" "ripe j w1" using f i(2) by blast
    then have "i < j" using first [of j] by (meson linorder_neqE_nat)
    moreover have "j < word_len w" using j(3) f by (simp add: ripe_def same_frame_def)
    ultimately show ?thesis using that [of j] j by (simp add: fixed_set_def)
  qed
  have "full w' \<and> fixed_set w1 \<subseteq> fixed_set w' \<and> j \<in> fixed_set w'"
    by (rule pass_fixes_ripe [OF _ _ j(2) s1]) (use f in \<open>auto simp: same_frame_def\<close>)
  then show ?thesis using f j(1) by blast
qed

fun sort_passes :: "nat \<Rightarrow> nat \<Rightarrow> word \<Rightarrow> word" where
  "sort_passes floor 0 w = w"
| "sort_passes floor (Suc n) w = sort_passes floor n (fst (sort_word floor w))"

lemma passes_completed: "w_completed w \<Longrightarrow> sort_passes floor n w = w"
  by (induction n) (simp_all add: sort_word_def)

lemma completed_sorted: "word_ok w \<Longrightarrow> w_completed w \<Longrightarrow> sorting_area w = original w"
  by (rule nth_equalityI) (auto simp: word_ok_def all_fixed_def list_all_length)

lemma one_pass:
  assumes full: "full w" and w: "w_admitted w" "\<not> w_completed w" "sorting_floor w = floor"
    and w': "w' = fst (sort_word floor w)"
  shows "same_frame w w' \<and> word_ok w' \<and> (w_completed w' \<or> full w' \<and> \<not> all_fixed w' \<and> \<not> w_completed w' \<and> \<not> all_fixed w \<and>
    card (fixed_set w) < card (fixed_set w'))"
proof -
  obtain w1 c where s: "sort_slots [0..<word_len w] (w, False) = (w1, c)" by (cases "sort_slots [0..<word_len w] (w, False)")
  have ok: "word_ok w" using full by (simp add: full_def)
  note r = sort_slots_ok [OF ok _ s]
  obtain ch dn where sw: "sort_word floor w = (w', ch, dn)" using w' by (cases "sort_word floor w") auto
  note rw = sort_word_ok [OF ok sw]
  show ?thesis
  proof (cases "w_completed w'")
    case False
    have d: "all_delivered w1" using r full by (simp add: same_frame_def full_def all_delivered_def)
    have w1: "w' = w1" "\<not> all_fixed w1" using sw False s w d by (auto simp: sort_word_def split: if_splits)
    have nf: "\<not> all_fixed w"
    proof
      assume af: "all_fixed w"
      then have "\<forall>i \<in> set [0..<word_len w]. fixed w ! i" using word_okD(4) [OF ok] by (auto simp: all_fixed_def list_all_length)
      from sort_slots_fixed [OF this] s have "w1 = w" by simp
      then show False using w1(2) af by simp
    qed
    note p = pass_progress [OF full nf s]
    then have "card (fixed_set w) < card (fixed_set w1)" by (intro psubset_card_mono) auto
    then show ?thesis using p w1 nf rw False by simp
  qed (use rw in simp)
qed

lemma passes_complete:
  "full w \<Longrightarrow> w_admitted w \<Longrightarrow> \<not> w_completed w \<Longrightarrow> sorting_floor w = floor \<Longrightarrow> 0 < n \<Longrightarrow>
   word_len w - card (fixed_set w) \<le> n \<Longrightarrow>
   word_ok (sort_passes floor n w) \<and> same_frame w (sort_passes floor n w) \<and> w_completed (sort_passes floor n w)"
proof (induction n arbitrary: w)
  case (Suc n)
  define w' where "w' = fst (sort_word floor w)"
  note p = one_pass [OF Suc.prems(1-4) w'_def]
  show ?case
  proof (cases "w_completed w'")
    case True
    then show ?thesis using p passes_completed [of w' floor n] by (simp add: w'_def [symmetric])
  next
    case False
    then have f: "full w'" "\<not> all_fixed w'" "card (fixed_set w) < card (fixed_set w')" using p by auto
    have ok: "word_ok w'" using f(1) by (simp add: full_def)
    obtain i where "i < word_len w'" "\<not> fixed w' ! i"
      using f(2) word_okD(4) [OF ok] by (auto simp: all_fixed_def list_all_length)
    then have "fixed_set w' \<subset> {..<word_len w'}" by (auto simp: fixed_set_def)
    then have "card (fixed_set w') < word_len w'" by (metis card_lessThan finite_lessThan psubset_card_mono)
    moreover have "word_len w' = word_len w" using p by (simp add: same_frame_def)
    ultimately have "0 < n" "word_len w' - card (fixed_set w') \<le> n" using Suc.prems(6) f(3) by linarith+
    then have "word_ok (sort_passes floor n w') \<and> same_frame w' (sort_passes floor n w') \<and> w_completed (sort_passes floor n w')"
      using f(1) p False Suc.prems(2,4) by (intro Suc.IH) (auto simp: same_frame_def)
    then show ?thesis using p by (simp add: w'_def [symmetric] same_frame_def)
  qed
qed simp

end
