(* ===== verification/Sort_Invariants.thy ===== *)
theory Sort_Invariants
  imports Sort_System Sort_Word_Facts Runs
begin

text \<open>
  The invariant of the sorting building: every word is well-formed, a word is let in at most once, a
  character is carried by at most one letter carrier, and the counters of the floors are what the
  history of admissions and completions makes them.
\<close>

section \<open>Updates of one word\<close>

lemma task_list_ok:
  assumes "word_ok w" "t < word_len w"
    and "t_character x = t_character (tasks w ! t)" "t_delivered x = t_delivered (tasks w ! t)" "t_claimed (tasks w ! t) \<longrightarrow> t_claimed x"
  shows "word_ok (w\<lparr>tasks := (tasks w)[t := x]\<rparr>)"
proof -
  have t: "t < length (tasks w)" using assms(1,2) by (simp add: word_ok_def)
  obtain R where R: "mset (tasks w) = add_mset (tasks w ! t) R" "\<And>x. mset ((tasks w)[t := x]) = add_mset x R"
    using mset_update_cons [OF t] by blast
  have "delivered_chars (w\<lparr>tasks := (tasks w)[t := x]\<rparr>) = delivered_chars w"
    using assms(3,4) by (simp add: delivered_chars_def R)
  moreover have "map t_character ((tasks w)[t := x]) = map t_character (tasks w)"
    using t assms(3) by (simp add: map_update) (metis list_update_id nth_map)
  moreover have "all_delivered (w\<lparr>tasks := (tasks w)[t := x]\<rparr>) = all_delivered w"
    using t assms(4) by (auto simp: all_delivered_def list_all_length nth_list_update)
  moreover have "list_all (\<lambda>t. t_delivered t \<longrightarrow> t_claimed t) ((tasks w)[t := x])"
    using assms t by (auto simp: word_ok_def list_all_length nth_list_update)
  ultimately show ?thesis
    using assms(1) t by (simp add: word_ok_def placed_def slots_def all_fixed_def)
qed

lemma word_ok_flags [simp]:
  "word_ok (w\<lparr>w_claimed := b\<rparr>) = word_ok w" "word_ok (w\<lparr>arrival_floor := a\<rparr>) = word_ok w"
  by (simp_all add: word_ok_def placed_def slots_def delivered_chars_def all_delivered_def all_fixed_def)

lemma word_ok_admit: "word_ok w \<Longrightarrow> word_ok (w\<lparr>w_admitted := True\<rparr>)"
  by (simp add: word_ok_def placed_def slots_def delivered_chars_def all_delivered_def all_fixed_def)

section \<open>Who works on what\<close>

fun holding :: "process \<Rightarrow> nat option" where
  "holding (Word_Carrier f (WC_Admit w)) = Some w"
| "holding (Word_Carrier f (WC_Release w)) = Some w"
| "holding p = None"

fun errand_task :: "errand \<Rightarrow> (nat \<times> nat) option" where
  "errand_task (Deliver w t) = Some (w, t)"
| "errand_task (Move d) = None"

fun lc_task :: "lc_pc \<Rightarrow> (nat \<times> nat) option" where
  "lc_task (LC_Carry w t) = Some (w, t)"
| "lc_task (LC_Place w t) = Some (w, t)"
| "lc_task (LC_Enter e) = errand_task e"
| "lc_task (LC_Cap e) = errand_task e"
| "lc_task (LC_Check e) = errand_task e"
| "lc_task (LC_Request e) = errand_task e"
| "lc_task (LC_Post e) = errand_task e"
| "lc_task (LC_Wait e) = errand_task e"
| "lc_task (LC_Leave e) = errand_task e"
| "lc_task (LC_Op e) = errand_task e"
| "lc_task pc = None"

fun carrying :: "process \<Rightarrow> (nat \<times> nat) option" where
  "carrying (Letter_Carrier home fl idle pc) = lc_task pc"
| "carrying p = None"

text \<open>The words a process is about are there, and a word that is being marked has been let in.\<close>

fun about_ok :: "nat \<Rightarrow> shm \<Rightarrow> process \<Rightarrow> bool" where
  "about_ok nf s (Word_Carrier f pc) \<longleftrightarrow> f < nf \<and>
     (case pc of WC_Claim w \<Rightarrow> w < total_words s
      | WC_Arrive w \<Rightarrow> w < total_words s \<and> w \<in> fst ` set (granted s)
      | WC_Mark w \<Rightarrow> w < total_words s \<and> w \<in> fst ` set (granted s)
      | WC_Src w j \<Rightarrow> w < total_words s
      | _ \<Rightarrow> True)"
| "about_ok nf s (Letter_Carrier home fl idle pc) \<longleftrightarrow>
     (case pc of LC_Task w t \<Rightarrow> w < total_words s
      | LC_Lock w t \<Rightarrow> w < total_words s \<and> t < word_len (words s ! w)
      | _ \<Rightarrow> True)"
| "about_ok nf s p \<longleftrightarrow> True"

section \<open>The counters\<close>

definition arrivals :: "shm \<Rightarrow> nat \<Rightarrow> nat" where
  "arrivals s f = length (filter (\<lambda>g. snd g = f) (granted s))"

definition active :: "shm \<Rightarrow> nat \<Rightarrow> nat" where
  "active s f = length (filter (\<lambda>g. sorting_floor (words s ! fst g) = f \<and> \<not> w_completed (words s ! fst g)) (granted s))"

definition counts_ok :: "int \<Rightarrow> nat \<Rightarrow> shm \<Rightarrow> bool" where
  "counts_ok mx nf s \<longleftrightarrow>
     length (floor_counts s) = nf \<and> distinct (map fst (granted s)) \<and>
     (\<forall>(w, a) \<in> set (granted s). w < total_words s \<and> a < nf \<and> w_claimed (words s ! w)) \<and>
     (\<forall>w < total_words s. w_admitted (words s ! w) \<longrightarrow> w \<in> fst ` set (granted s)) \<and>
     (\<forall>w < total_words s. sorting_floor (words s ! w) < nf) \<and>
     (\<forall>f < nf. floor_counts s ! f = int (arrivals s f + active s f) \<and> floor_counts s ! f \<le> mx + 1) \<and>
     done_count s = length (filter w_completed (words s))"

definition static :: "word \<Rightarrow> int \<times> string \<times> nat \<times> nat" where
  "static w = (word_id w, original w, word_len w, sorting_floor w)"

definition building_inv :: "t_config \<Rightarrow> building \<Rightarrow> building \<Rightarrow> bool" where
  "building_inv cfg b0 b \<longleftrightarrow>
     map static (words (memory b)) = map static (words (memory b0)) \<and>
     (\<forall>w \<in> set (words (memory b)). word_ok w) \<and>
     (\<forall>p \<in> set (procs b). about_ok (nat (num_floors cfg)) (memory b) p) \<and>
     (\<forall>i < length (procs b). \<forall>w. holding (procs b ! i) = Some w \<longrightarrow>
        w < total_words (memory b) \<and> w_claimed (words (memory b) ! w) \<and> w \<notin> fst ` set (granted (memory b)) \<and>
        (\<forall>j < length (procs b). j \<noteq> i \<longrightarrow> holding (procs b ! j) \<noteq> Some w)) \<and>
     (\<forall>i < length (procs b). \<forall>w t. carrying (procs b ! i) = Some (w, t) \<longrightarrow>
        w < total_words (memory b) \<and> t < word_len (words (memory b) ! w) \<and>
        t_claimed (tasks (words (memory b) ! w) ! t) \<and> \<not> t_delivered (tasks (words (memory b) ! w) ! t) \<and>
        (\<forall>j < length (procs b). j \<noteq> i \<longrightarrow> carrying (procs b ! j) \<noteq> Some (w, t))) \<and>
     counts_ok (max_words_per_floor cfg) (nat (num_floors cfg)) (memory b)"

lemma building_invD:
  assumes "building_inv cfg b0 b"
  shows "map static (words (memory b)) = map static (words (memory b0))"
    "\<And>w. w < total_words (memory b) \<Longrightarrow> word_ok (words (memory b) ! w)"
    "\<And>p. p \<in> set (procs b) \<Longrightarrow> about_ok (nat (num_floors cfg)) (memory b) p"
    "\<And>i w. i < length (procs b) \<Longrightarrow> holding (procs b ! i) = Some w \<Longrightarrow>
        w < total_words (memory b) \<and> w_claimed (words (memory b) ! w) \<and> w \<notin> fst ` set (granted (memory b)) \<and>
        (\<forall>j < length (procs b). j \<noteq> i \<longrightarrow> holding (procs b ! j) \<noteq> Some w)"
    "\<And>i w t. i < length (procs b) \<Longrightarrow> carrying (procs b ! i) = Some (w, t) \<Longrightarrow>
        w < total_words (memory b) \<and> t < word_len (words (memory b) ! w) \<and>
        t_claimed (tasks (words (memory b) ! w) ! t) \<and> \<not> t_delivered (tasks (words (memory b) ! w) ! t) \<and>
        (\<forall>j < length (procs b). j \<noteq> i \<longrightarrow> carrying (procs b ! j) \<noteq> Some (w, t))"
    "counts_ok (max_words_per_floor cfg) (nat (num_floors cfg)) (memory b)"
  using assms by (auto simp: building_inv_def total_words_def)

section \<open>One process moves\<close>

text \<open>What of the memory the other processes rely on.\<close>

definition relies_kept :: "shm \<Rightarrow> shm \<Rightarrow> nat option \<Rightarrow> (nat \<times> nat) option \<Rightarrow> bool" where
  "relies_kept s s' hold carry \<longleftrightarrow>
     map static (words s') = map static (words s) \<and> set (granted s) \<subseteq> set (granted s') \<and>
     (\<forall>w < total_words s. hold \<noteq> Some w \<longrightarrow> w_claimed (words s ! w) \<longrightarrow> w_claimed (words s' ! w)) \<and>
     (\<forall>w < total_words s. hold \<noteq> Some w \<longrightarrow> w \<notin> fst ` set (granted s) \<longrightarrow> w \<notin> fst ` set (granted s')) \<and>
     (\<forall>w < total_words s. \<forall>t < word_len (words s ! w). carry \<noteq> Some (w, t) \<longrightarrow>
        t_claimed (tasks (words s ! w) ! t) \<and> \<not> t_delivered (tasks (words s ! w) ! t) \<longrightarrow>
        t_claimed (tasks (words s' ! w) ! t) \<and> \<not> t_delivered (tasks (words s' ! w) ! t))"

lemma static_eq:
  assumes "map static (words s') = map static (words s)"
  shows "total_words s' = total_words s"
    "w < total_words s \<Longrightarrow> word_len (words s' ! w) = word_len (words s ! w) \<and> sorting_floor (words s' ! w) = sorting_floor (words s ! w) \<and>
       original (words s' ! w) = original (words s ! w)"
proof -
  show t: "total_words s' = total_words s" using map_eq_imp_length_eq [OF assms] by (simp add: total_words_def)
  show "w < total_words s \<Longrightarrow> word_len (words s' ! w) = word_len (words s ! w) \<and> sorting_floor (words s' ! w) = sorting_floor (words s ! w) \<and>
       original (words s' ! w) = original (words s ! w)"
  proof -
    assume "w < total_words s"
    then have "static (words s' ! w) = static (words s ! w)"
      using t assms by (metis nth_map total_words_def)
    then show ?thesis by (simp add: static_def)
  qed
qed

lemma about_ok_kept:
  assumes "relies_kept s s' h c" "about_ok nf s p"
  shows "about_ok nf s' p"
proof -
  have st: "map static (words s') = map static (words s)" and g: "fst ` set (granted s) \<subseteq> fst ` set (granted s')"
    using assms(1) by (auto simp: relies_kept_def)
  note t = static_eq [OF st]
  show ?thesis
    using assms(2) g t by (cases p) (auto split: wc_pc.splits lc_pc.splits)
qed

lemma inv_step:
  assumes inv: "building_inv cfg b0 b" and i: "i < length (procs b)"
    and rel: "relies_kept (memory b) s' (holding (procs b ! i)) (carrying (procs b ! i))"
    and ok: "\<forall>w \<in> set (words s'). word_ok w"
    and counts: "counts_ok (max_words_per_floor cfg) (nat (num_floors cfg)) s'"
    and p: "about_ok (nat (num_floors cfg)) s' p'"
    and hold: "\<And>w. holding p' = Some w \<Longrightarrow> w < total_words s' \<and> w_claimed (words s' ! w) \<and> w \<notin> fst ` set (granted s') \<and>
        (\<forall>j < length (procs b). j \<noteq> i \<longrightarrow> holding (procs b ! j) \<noteq> Some w)"
    and carry: "\<And>w t. carrying p' = Some (w, t) \<Longrightarrow> w < total_words s' \<and> t < word_len (words s' ! w) \<and>
        t_claimed (tasks (words s' ! w) ! t) \<and> \<not> t_delivered (tasks (words s' ! w) ! t) \<and>
        (\<forall>j < length (procs b). j \<noteq> i \<longrightarrow> carrying (procs b ! j) \<noteq> Some (w, t))"
    and new: "\<And>q. q \<in> set new \<Longrightarrow> about_ok (nat (num_floors cfg)) s' q \<and> holding q = None \<and> carrying q = None"
  shows "building_inv cfg b0 \<lparr>procs = (procs b)[i := p'] @ new, memory = s'\<rparr>"
proof -
  let ?s = "memory b" and ?ps = "(procs b)[i := p'] @ new"
  note D = building_invD [OF inv]
  have st: "map static (words s') = map static (words ?s)" using rel by (simp add: relies_kept_def)
  note t = static_eq [OF st]
  have nth: "?ps ! j = (if j = i then p' else if j < length (procs b) then procs b ! j else new ! (j - length (procs b)))"
    if "j < length ?ps" for j using i that by (auto simp: nth_append nth_list_update)
  have newn: "holding (?ps ! j) = None" "carrying (?ps ! j) = None" if "j < length ?ps" "length (procs b) \<le> j" for j
    using new [of "new ! (j - length (procs b))"] that i by (auto simp: nth_append)
  have about: "about_ok (nat (num_floors cfg)) s' q" if "q \<in> set ?ps" for q
  proof -
    have "q \<in> set ((procs b)[i := p']) \<or> q \<in> set new" using that by simp
    then consider "q = p'" | "q \<in> set (procs b)" | "q \<in> set new" using set_update_subset_insert [of "procs b" i p'] by blast
    then show ?thesis using p new about_ok_kept [OF rel] D(3) by cases auto
  qed
  have holds: "w < total_words s' \<and> w_claimed (words s' ! w) \<and> w \<notin> fst ` set (granted s') \<and>
      (\<forall>l < length ?ps. l \<noteq> j \<longrightarrow> holding (?ps ! l) \<noteq> Some w)" if j: "j < length ?ps" "holding (?ps ! j) = Some w" for j w
  proof (cases "j = i")
    case True
    then have h: "holding p' = Some w" using nth j by simp
    then show ?thesis using hold [OF h] nth newn True by (metis not_le_imp_less option.distinct(1))
  next
    case False
    have jl: "j < length (procs b)" using newn(1) [OF j(1)] j(2) by (cases "j < length (procs b)") auto
    then have h: "holding (procs b ! j) = Some w" using nth [OF j(1)] j(2) False by simp
    note d = D(4) [OF jl h]
    have ni: "holding (procs b ! i) \<noteq> Some w" using d i False by blast
    have np: "holding p' \<noteq> Some w" using hold h jl False by blast
    have "holding (?ps ! l) \<noteq> Some w" if "l < length ?ps" "l \<noteq> j" for l
      using nth [OF that(1)] newn(1) [OF that(1)] np d that(2) by (cases "l < length (procs b)") auto
    moreover have "w_claimed (words s' ! w)" "w \<notin> fst ` set (granted s')" using rel d ni by (auto simp: relies_kept_def)
    ultimately show ?thesis using d t(1) by simp
  qed
  have carries: "w < total_words s' \<and> k < word_len (words s' ! w) \<and>
      t_claimed (tasks (words s' ! w) ! k) \<and> \<not> t_delivered (tasks (words s' ! w) ! k) \<and>
      (\<forall>l < length ?ps. l \<noteq> j \<longrightarrow> carrying (?ps ! l) \<noteq> Some (w, k))" if j: "j < length ?ps" "carrying (?ps ! j) = Some (w, k)" for j w k
  proof (cases "j = i")
    case True
    then have h: "carrying p' = Some (w, k)" using nth j by simp
    then show ?thesis using carry [OF h] nth newn True by (metis not_le_imp_less option.distinct(1))
  next
    case False
    have jl: "j < length (procs b)" using newn(2) [OF j(1)] j(2) by (cases "j < length (procs b)") auto
    then have h: "carrying (procs b ! j) = Some (w, k)" using nth [OF j(1)] j(2) False by simp
    note d = D(5) [OF jl h]
    have ni: "carrying (procs b ! i) \<noteq> Some (w, k)" using d i False by blast
    have np: "carrying p' \<noteq> Some (w, k)" using carry h jl False by blast
    have "carrying (?ps ! l) \<noteq> Some (w, k)" if "l < length ?ps" "l \<noteq> j" for l
      using nth [OF that(1)] newn(2) [OF that(1)] np d that(2) by (cases "l < length (procs b)") auto
    moreover have "t_claimed (tasks (words s' ! w) ! k)" "\<not> t_delivered (tasks (words s' ! w) ! k)"
      using rel d ni by (auto simp: relies_kept_def)
    ultimately show ?thesis using d t by simp
  qed
  have S: "map static (words s') = map static (words (memory b0))" using st D(1) by simp
  have A: "\<forall>q \<in> set ?ps. about_ok (nat (num_floors cfg)) s' q" using about by blast
  have B: "\<forall>j < length ?ps. \<forall>w. holding (?ps ! j) = Some w \<longrightarrow> w < total_words s' \<and> w_claimed (words s' ! w) \<and>
      w \<notin> fst ` set (granted s') \<and> (\<forall>l < length ?ps. l \<noteq> j \<longrightarrow> holding (?ps ! l) \<noteq> Some w)"
    using holds by blast
  have C: "\<forall>j < length ?ps. \<forall>w k. carrying (?ps ! j) = Some (w, k) \<longrightarrow> w < total_words s' \<and> k < word_len (words s' ! w) \<and>
      t_claimed (tasks (words s' ! w) ! k) \<and> \<not> t_delivered (tasks (words s' ! w) ! k) \<and>
      (\<forall>l < length ?ps. l \<noteq> j \<longrightarrow> carrying (?ps ! l) \<noteq> Some (w, k))"
    using carries by blast
  show ?thesis unfolding building_inv_def building.simps by (intro conjI; fact S A B C ok counts)
qed

end
