(* ===== verification/Sort_Steps.thy ===== *)
theory Sort_Steps
  imports Sort_Invariants
begin

text \<open>Every step of every process of the sorting building keeps the invariant.\<close>

section \<open>Kinds of steps\<close>

lemma counts_ok_core:
  assumes "words s' = words s" "floor_counts s' = floor_counts s" "granted s' = granted s" "done_count s' = done_count s"
  shows "counts_ok mx nf s' = counts_ok mx nf s"
  using assms by (simp add: counts_ok_def arrivals_def active_def total_words_def)

lemma all_words: "\<forall>w \<in> set (words (memory b)). word_ok w" if "building_inv cfg b0 b"
  using that by (simp add: building_inv_def)

text \<open>A step that does not touch words, floors and history.\<close>

lemma inv_core:
  assumes inv: "building_inv cfg b0 b" and i: "i < length (procs b)"
    and same: "words s' = words (memory b)" "floor_counts s' = floor_counts (memory b)" "granted s' = granted (memory b)"
      "done_count s' = done_count (memory b)"
    and p: "about_ok (nat (num_floors cfg)) (memory b) p'"
    and h: "holding p' = None \<or> holding p' = holding (procs b ! i)" and c: "carrying p' = None \<or> carrying p' = carrying (procs b ! i)"
    and new: "\<And>q. q \<in> set new \<Longrightarrow> about_ok (nat (num_floors cfg)) (memory b) q \<and> holding q = None \<and> carrying q = None"
  shows "building_inv cfg b0 \<lparr>procs = (procs b)[i := p'] @ new, memory = s'\<rparr>"
proof (rule inv_step [OF inv i])
  note D = building_invD [OF inv]
  show rel: "relies_kept (memory b) s' (holding (procs b ! i)) (carrying (procs b ! i))" using same by (simp add: relies_kept_def)
  show "\<forall>w \<in> set (words s'). word_ok w" using all_words [OF inv] same by simp
  show "counts_ok (max_words_per_floor cfg) (nat (num_floors cfg)) s'" using D(6) counts_ok_core [OF same] by simp
  show "about_ok (nat (num_floors cfg)) s' p'" by (rule about_ok_kept [OF rel p])
  show "about_ok (nat (num_floors cfg)) s' q \<and> holding q = None \<and> carrying q = None" if "q \<in> set new" for q
    using new [OF that] about_ok_kept [OF rel] by blast
  show "w < total_words s' \<and> w_claimed (words s' ! w) \<and> w \<notin> fst ` set (granted s') \<and>
      (\<forall>j < length (procs b). j \<noteq> i \<longrightarrow> holding (procs b ! j) \<noteq> Some w)" if "holding p' = Some w" for w
    using D(4) [OF i, of w] h that same by (auto simp: total_words_def)
  show "w < total_words s' \<and> t < word_len (words s' ! w) \<and> t_claimed (tasks (words s' ! w) ! t) \<and> \<not> t_delivered (tasks (words s' ! w) ! t) \<and>
      (\<forall>j < length (procs b). j \<noteq> i \<longrightarrow> carrying (procs b ! j) \<noteq> Some (w, t))" if "carrying p' = Some (w, t)" for w t
    using D(5) [OF i, of w t] c that same by (auto simp: total_words_def)
qed

lemma length_filter_map: "map f xs = map f ys \<Longrightarrow> length (filter f xs) = length (filter f ys)"
proof -
  assume e: "map f xs = map f ys"
  have l: "length (filter f zs) = length (filter id (map f zs))" for zs by (simp add: filter_map o_def)
  show ?thesis unfolding l [of xs] l [of ys] e ..
qed

text \<open>A step that changes one word but does not let it in or complete it.\<close>

lemma counts_ok_word:
  assumes c: "counts_ok mx nf s" and w: "w < total_words s"
    and s': "words s' = (words s)[w := x]" "floor_counts s' = floor_counts s" "granted s' = granted s" "done_count s' = done_count s"
    and x: "sorting_floor x = sorting_floor (words s ! w)" "w_completed x = w_completed (words s ! w)"
      "w_admitted x \<longrightarrow> w \<in> fst ` set (granted s)" "w \<in> fst ` set (granted s) \<longrightarrow> w_claimed x"
  shows "counts_ok mx nf s'"
proof -
  have wl: "w < length (words s)" using w by (simp add: total_words_def)
  have nth: "words s' ! v = (if v = w then x else words s ! v)" if "v < total_words s" for v
    using that s'(1) by (auto simp: total_words_def nth_list_update)
  have act: "active s' f = active s f" for f
  proof -
    have "filter (\<lambda>g. sorting_floor (words s' ! fst g) = f \<and> \<not> w_completed (words s' ! fst g)) (granted s) =
        filter (\<lambda>g. sorting_floor (words s ! fst g) = f \<and> \<not> w_completed (words s ! fst g)) (granted s)"
    proof (rule filter_cong [OF refl])
      fix g assume "g \<in> set (granted s)"
      then have "fst g < total_words s" using c by (auto simp: counts_ok_def)
      from nth [OF this] show "(sorting_floor (words s' ! fst g) = f \<and> \<not> w_completed (words s' ! fst g)) =
          (sorting_floor (words s ! fst g) = f \<and> \<not> w_completed (words s ! fst g))"
        using x(1,2) by simp
    qed
    then show ?thesis by (simp add: active_def s'(3))
  qed
  have dn: "length (filter w_completed (words s')) = length (filter w_completed (words s))"
  proof -
    have "map w_completed (words s') = map w_completed (words s)"
      unfolding s'(1) map_update x(2) using wl by (metis list_update_id nth_map)
    then show ?thesis by (rule length_filter_map)
  qed
  have tot: "total_words s' = total_words s" by (simp add: total_words_def s'(1))
  have gr: "w_claimed (words s' ! v)" if "v \<in> fst ` set (granted s)" for v
  proof -
    have "v < total_words s \<and> w_claimed (words s ! v)" using c that by (auto simp: counts_ok_def)
    then show ?thesis using nth [of v] x(4) that by (cases "v = w") auto
  qed
  have ad: "v \<in> fst ` set (granted s)" if "v < total_words s" "w_admitted (words s' ! v)" for v
    using c nth [OF that(1)] x(3) that by (auto simp: counts_ok_def split: if_splits)
  have fl: "sorting_floor (words s' ! v) < nf" if "v < total_words s" for v
    using c nth [OF that] x(1) that w by (auto simp: counts_ok_def)
  have arr: "arrivals s' f = arrivals s f" for f by (simp add: arrivals_def s'(3))
  show ?thesis
    unfolding counts_ok_def act arr tot s'(2,3) dn s'(4)
  proof (intro conjI)
    show "\<forall>(v, a) \<in> set (granted s). v < total_words s \<and> a < nf \<and> w_claimed (words s' ! v)"
    proof (clarify)
      fix v a assume va: "(v, a) \<in> set (granted s)"
      then have "v \<in> fst ` set (granted s)" by force
      then show "v < total_words s \<and> a < nf \<and> w_claimed (words s' ! v)" using gr c va by (auto simp: counts_ok_def)
    qed
  qed (use c [unfolded counts_ok_def] ad fl in blast)+
qed

lemma inv_word:
  assumes inv: "building_inv cfg b0 b" and i: "i < length (procs b)" and w: "w < total_words (memory b)"
    and s': "words s' = (words (memory b))[w := x]" "floor_counts s' = floor_counts (memory b)" "granted s' = granted (memory b)"
      "done_count s' = done_count (memory b)"
    and x: "static x = static (words (memory b) ! w)" "word_ok x" "w_completed x = w_completed (words (memory b) ! w)"
      "w_admitted x \<longrightarrow> w_admitted (words (memory b) ! w) \<or> w \<in> fst ` set (granted (memory b))"
      "w_claimed (words (memory b) ! w) \<longrightarrow> w_claimed x \<or> holding (procs b ! i) = Some w"
    and tsk: "\<And>t. t < word_len x \<Longrightarrow> carrying (procs b ! i) \<noteq> Some (w, t) \<Longrightarrow>
      t_claimed (tasks (words (memory b) ! w) ! t) \<and> \<not> t_delivered (tasks (words (memory b) ! w) ! t) \<Longrightarrow>
      t_claimed (tasks x ! t) \<and> \<not> t_delivered (tasks x ! t)"
    and p: "about_ok (nat (num_floors cfg)) s' p'"
    and hold: "\<And>v. holding p' = Some v \<Longrightarrow> v < total_words (memory b) \<and> w_claimed (words s' ! v) \<and> v \<notin> fst ` set (granted (memory b)) \<and>
        (\<forall>j < length (procs b). j \<noteq> i \<longrightarrow> holding (procs b ! j) \<noteq> Some v)"
    and carry: "\<And>v t. carrying p' = Some (v, t) \<Longrightarrow> v < total_words (memory b) \<and> t < word_len (words s' ! v) \<and>
        t_claimed (tasks (words s' ! v) ! t) \<and> \<not> t_delivered (tasks (words s' ! v) ! t) \<and>
        (\<forall>j < length (procs b). j \<noteq> i \<longrightarrow> carrying (procs b ! j) \<noteq> Some (v, t))"
  shows "building_inv cfg b0 \<lparr>procs = (procs b)[i := p'], memory = s'\<rparr>"
proof -
  let ?s = "memory b"
  note D = building_invD [OF inv]
  have wl: "w < length (words ?s)" using w by (simp add: total_words_def)
  have tot: "total_words s' = total_words ?s" by (simp add: total_words_def s'(1))
  have nth: "words s' ! v = (if v = w then x else words ?s ! v)" if "v < total_words ?s" for v
    using that s'(1) by (auto simp: total_words_def nth_list_update)
  have st: "map static (words s') = map static (words ?s)"
    unfolding s'(1) map_update x(1) using wl by (metis list_update_id nth_map)
  have len: "word_len x = word_len (words ?s ! w)" "sorting_floor x = sorting_floor (words ?s ! w)" using x(1) by (simp_all add: static_def)
  have rel: "relies_kept ?s s' (holding (procs b ! i)) (carrying (procs b ! i))"
    unfolding relies_kept_def using st s'(3) nth x(5) tsk len by auto
  have claimed: "w \<in> fst ` set (granted ?s) \<longrightarrow> w_claimed x"
  proof
    assume g: "w \<in> fst ` set (granted ?s)"
    then have "w_claimed (words ?s ! w)" using D(6) by (auto simp: counts_ok_def)
    moreover have "holding (procs b ! i) \<noteq> Some w" using D(4) [OF i, of w] g by blast
    ultimately show "w_claimed x" using x(5) by blast
  qed
  have adm: "w_admitted x \<longrightarrow> w \<in> fst ` set (granted ?s)" using x(4) D(6) w by (auto simp: counts_ok_def)
  have counts: "counts_ok (max_words_per_floor cfg) (nat (num_floors cfg)) s'"
    by (rule counts_ok_word [OF D(6) w s' len(2) x(3) adm claimed])
  have ok: "\<forall>v \<in> set (words s'). word_ok v"
    using all_words [OF inv] x(2) set_update_subset_insert [of "words ?s" w x] s'(1) by auto
  have "building_inv cfg b0 \<lparr>procs = (procs b)[i := p'] @ [], memory = s'\<rparr>"
    by (rule inv_step [OF inv i rel ok counts p]) (use hold carry tot s'(3) in auto)
  then show ?thesis by simp
qed

lemma inv_core1:
  assumes "building_inv cfg b0 b" "i < length (procs b)"
    "words s' = words (memory b)" "floor_counts s' = floor_counts (memory b)" "granted s' = granted (memory b)"
    "done_count s' = done_count (memory b)"
    "about_ok (nat (num_floors cfg)) (memory b) p'"
    "holding p' = None \<or> holding p' = holding (procs b ! i)" "carrying p' = None \<or> carrying p' = carrying (procs b ! i)"
  shows "building_inv cfg b0 \<lparr>procs = (procs b)[i := p'], memory = s'\<rparr>"
  using inv_core [OF assms, of "[]"] by simp

section \<open>Word carriers\<close>

lemma try_admit_Some:
  assumes "try_admit mx srt arr counts = Some counts'" "arr < length counts" "srt < length counts"
  shows "length counts' = length counts \<and>
    (\<forall>f < length counts. counts' ! f = counts ! f + (if f = arr then 1 else 0) + (if f = srt then 1 else 0)) \<and>
    (\<forall>f < length counts. counts ! f \<le> mx + 1 \<longrightarrow> counts' ! f \<le> mx + 1)"
  using assms by (auto simp: try_admit_def nth_list_update split: if_splits)

lemma admit_inv:
  assumes inv: "building_inv cfg b0 b" and i: "i < length (procs b)" and p: "procs b ! i = Word_Carrier fl (WC_Admit w)"
    and adm: "try_admit (max_words_per_floor cfg) (sorting_floor (words (memory b) ! w)) fl (floor_counts (memory b)) = Some counts"
  shows "building_inv cfg b0 \<lparr>procs = (procs b)[i := Word_Carrier fl (WC_Arrive w)],
    memory = (memory b)\<lparr>floor_counts := counts, granted := granted (memory b) @ [(w, fl)]\<rparr>\<rparr>"
proof -
  let ?s = "memory b" and ?nf = "nat (num_floors cfg)" and ?mx = "max_words_per_floor cfg"
  let ?s' = "?s\<lparr>floor_counts := counts, granted := granted ?s @ [(w, fl)]\<rparr>"
  note D = building_invD [OF inv]
  have h: "w < total_words ?s" "w_claimed (words ?s ! w)" "w \<notin> fst ` set (granted ?s)"
    using D(4) [OF i, of w] p by auto
  have fl: "fl < ?nf" using D(3) [of "procs b ! i"] p i nth_mem [OF i] by auto
  note c = D(6) [unfolded counts_ok_def]
  have srt: "sorting_floor (words ?s ! w) < ?nf" using c h(1) by blast
  have len: "length (floor_counts ?s) = ?nf" using c by blast
  note t = try_admit_Some [OF adm, unfolded len, OF fl srt]
  have ncomp: "\<not> w_completed (words ?s ! w)"
    using D(2) [OF h(1)] c h by (auto simp: word_ok_def)
  have tot: "total_words ?s' = total_words ?s" by (simp add: total_words_def)
  have arr: "arrivals ?s' f = arrivals ?s f + (if f = fl then 1 else 0)" for f by (simp add: arrivals_def)
  have act: "active ?s' f = active ?s f + (if f = sorting_floor (words ?s ! w) then 1 else 0)" for f
    using ncomp by (auto simp: active_def)
  have cnt: "\<forall>f < ?nf. floor_counts ?s' ! f = int (arrivals ?s' f + active ?s' f) \<and> floor_counts ?s' ! f \<le> ?mx + 1"
  proof (intro allI impI)
    fix f assume f: "f < ?nf"
    have f1: "floor_counts ?s ! f = int (arrivals ?s f + active ?s f)" and f2: "floor_counts ?s ! f \<le> ?mx + 1" using c f by blast+
    have "counts ! f \<le> ?mx + 1" using t f f2 by blast
    moreover have "counts ! f = int (arrivals ?s' f + active ?s' f)" using t f by (simp add: arr act f1)
    ultimately show "floor_counts ?s' ! f = int (arrivals ?s' f + active ?s' f) \<and> floor_counts ?s' ! f \<le> ?mx + 1" by simp
  qed
  have counts: "counts_ok ?mx ?nf ?s'"
    unfolding counts_ok_def tot
  proof (intro conjI)
    show "distinct (map fst (granted ?s'))" using c h(3) by simp
    show "\<forall>(v, a) \<in> set (granted ?s'). v < total_words ?s \<and> a < ?nf \<and> w_claimed (words ?s' ! v)"
      using c h(1,2) fl by auto
    show "\<forall>v < total_words ?s. w_admitted (words ?s' ! v) \<longrightarrow> v \<in> fst ` set (granted ?s')" using c by auto
    show "length (floor_counts ?s') = ?nf" using t by simp
    show "\<forall>f < ?nf. floor_counts ?s' ! f = int (arrivals ?s' f + active ?s' f) \<and> floor_counts ?s' ! f \<le> ?mx + 1" by (fact cnt)
  qed (use c in simp_all)
  have rel: "relies_kept ?s ?s' (holding (procs b ! i)) (carrying (procs b ! i))"
    using p by (auto simp: relies_kept_def)
  have "building_inv cfg b0 \<lparr>procs = (procs b)[i := Word_Carrier fl (WC_Arrive w)] @ [], memory = ?s'\<rparr>"
    by (rule inv_step [OF inv i rel _ counts]) (use all_words [OF inv] fl h(1) tot in auto)
  then show ?thesis by simp
qed

lemma upd_word_fields [simp]:
  "words (upd_word w f s) = (words s)[w := f (words s ! w)]" "floor_counts (upd_word w f s) = floor_counts s"
  "granted (upd_word w f s) = granted s" "done_count (upd_word w f s) = done_count s"
  "total_words (upd_word w f s) = total_words s"
  by (simp_all add: upd_word_def total_words_def)

lemma inv_word1:
  assumes inv: "building_inv cfg b0 b" and i: "i < length (procs b)" and w: "w < total_words (memory b)"
    and x: "x = f (words (memory b) ! w)" "static x = static (words (memory b) ! w)" "word_ok x"
      "w_completed x = w_completed (words (memory b) ! w)"
      "w_admitted x \<longrightarrow> w_admitted (words (memory b) ! w) \<or> w \<in> fst ` set (granted (memory b))"
      "w_claimed (words (memory b) ! w) \<longrightarrow> w_claimed x \<or> holding (procs b ! i) = Some w"
    and tsk: "\<And>t. t < word_len x \<Longrightarrow> carrying (procs b ! i) \<noteq> Some (w, t) \<Longrightarrow>
      t_claimed (tasks (words (memory b) ! w) ! t) \<and> \<not> t_delivered (tasks (words (memory b) ! w) ! t) \<Longrightarrow>
      t_claimed (tasks x ! t) \<and> \<not> t_delivered (tasks x ! t)"
    and p: "about_ok (nat (num_floors cfg)) (memory b) p'" and h: "holding p' = None" and c: "carrying p' = None"
  shows "building_inv cfg b0 \<lparr>procs = (procs b)[i := p'], memory = upd_word w f (memory b)\<rparr>"
proof (rule inv_word [OF inv i w, of _ x])
  let ?s' = "upd_word w f (memory b)"
  have st: "map static (words ?s') = map static (words (memory b))"
    using w x(1,2) by (simp add: map_update total_words_def) (metis list_update_id nth_map)
  show "about_ok (nat (num_floors cfg)) ?s' p'"
    using p static_eq [OF st] by (cases p') (auto split: wc_pc.splits lc_pc.splits)
qed (use assms in auto)

lemma word_carrier_inv:
  assumes inv: "building_inv cfg b0 b" and i: "i < length (procs b)" and p: "procs b ! i = Word_Carrier fl pc"
    and s': "word_carrier_step (max_words_per_floor cfg) fl pc (memory b) = (pc', s')"
  shows "building_inv cfg b0 \<lparr>procs = (procs b)[i := Word_Carrier fl pc'], memory = s'\<rparr>"
proof -
  let ?s = "memory b"
  note D = building_invD [OF inv]
  have ab: "about_ok (nat (num_floors cfg)) ?s (Word_Carrier fl pc)" using D(3) [of "procs b ! i"] p i nth_mem [OF i] by simp
  then have fl: "fl < nat (num_floors cfg)" by simp
  have hold: "v < total_words ?s \<and> w_claimed (words ?s ! v) \<and> v \<notin> fst ` set (granted ?s)" if "holding (Word_Carrier fl pc) = Some v" for v
    using D(4) [OF i, of v] p that by simp
  show ?thesis
  proof (cases pc)
    case (WC_Claim w)
    have w: "w < total_words ?s" using ab WC_Claim by simp
    show ?thesis
    proof (cases "w_claimed (words ?s ! w) \<or> w_admitted (words ?s ! w)")
      case True
      then have "pc' = WC_Loop" "s' = ?s" using s' WC_Claim by auto
      then show ?thesis using inv_core1 [OF inv i, of s' "Word_Carrier fl pc'"] fl by simp
    next
      case False
      then have e: "pc' = WC_Admit w" "s' = upd_word w (\<lambda>x. x\<lparr>w_claimed := True\<rparr>) ?s" using s' WC_Claim by auto
      have ng: "w \<notin> fst ` set (granted ?s)" using D(6) False by (auto simp: counts_ok_def)
      have nh: "holding (procs b ! j) \<noteq> Some w" if "j < length (procs b)" for j using D(4) [OF that, of w] False by blast
      show ?thesis
        by (rule inv_word [OF inv i w, of _ "(words ?s ! w)\<lparr>w_claimed := True\<rparr>"])
           (use e w ng nh fl D(2) [OF w] in \<open>auto simp: static_def total_words_def\<close>)
    qed
  next
    case (WC_Admit w)
    show ?thesis
    proof (cases "try_admit (max_words_per_floor cfg) (sorting_floor (words ?s ! w)) fl (floor_counts ?s)")
      case None
      then have "pc' = WC_Release w" "s' = ?s" using s' WC_Admit by auto
      then show ?thesis using inv_core1 [OF inv i, of s' "Word_Carrier fl pc'"] fl p WC_Admit by simp
    next
      case (Some counts)
      then show ?thesis using admit_inv [OF inv i p [unfolded WC_Admit] Some] s' WC_Admit by simp
    qed
  next
    case (WC_Arrive w)
    have w: "w < total_words ?s" "w \<in> fst ` set (granted ?s)" using ab WC_Arrive by auto
    have e: "pc' = WC_Mark w" "s' = upd_word w (\<lambda>x. x\<lparr>arrival_floor := int fl\<rparr>) ?s" using s' WC_Arrive by auto
    show ?thesis unfolding e
      by (rule inv_word1 [OF inv i w(1) refl]) (use ab WC_Arrive D(2) [OF w(1)] in \<open>auto simp: static_def\<close>)
  next
    case (WC_Mark w)
    have w: "w < total_words ?s" "w \<in> fst ` set (granted ?s)" using ab WC_Mark by auto
    have e: "pc' = WC_Src w 0" "s' = upd_word w (\<lambda>x. x\<lparr>w_admitted := True\<rparr>) ?s" using s' WC_Mark by auto
    show ?thesis unfolding e
      by (rule inv_word1 [OF inv i w(1) refl]) (use ab WC_Mark D(2) [OF w(1)] w in \<open>auto simp: static_def word_ok_admit\<close>)
  next
    case (WC_Src w j)
    have w: "w < total_words ?s" using ab WC_Src by auto
    show ?thesis
    proof (cases "word_len (words ?s ! w) \<le> j")
      case True
      then have "pc' = WC_Count w" "s' = ?s" using s' WC_Src by auto
      then show ?thesis using inv_core1 [OF inv i, of s' "Word_Carrier fl pc'"] fl by simp
    next
      case False
      then have e: "pc' = WC_Src w (j + 1)" "s' = upd_word w (upd_task j (\<lambda>t. t\<lparr>t_src_floor := int fl\<rparr>)) ?s" using s' WC_Src by auto
      have ok: "word_ok (upd_task j (\<lambda>t. t\<lparr>t_src_floor := int fl\<rparr>) (words ?s ! w))"
        unfolding upd_task_def by (rule task_list_ok [OF D(2) [OF w]]) (use False in auto)
      have len: "length (tasks (words ?s ! w)) = word_len (words ?s ! w)" using word_okD(5) [OF D(2) [OF w]] .
      show ?thesis unfolding e
        by (rule inv_word1 [where f = "upd_task j (\<lambda>t. t\<lparr>t_src_floor := int fl\<rparr>)", OF inv i w refl _ ok]) (use ab WC_Src p len False in \<open>auto simp: static_def upd_task_def nth_list_update\<close>)
    qed
  next
    case (WC_Release w)
    have w: "w < total_words ?s" using hold [of w] WC_Release by simp
    have e: "pc' = WC_Retry" "s' = upd_word w (\<lambda>x. x\<lparr>w_claimed := False\<rparr>) ?s" using s' WC_Release by auto
    show ?thesis unfolding e
      by (rule inv_word1 [OF inv i w refl]) (use p WC_Release D(2) [OF w] fl in \<open>auto simp: static_def\<close>)
  next
    case (WC_Scan start k)
    have "pc' = WC_Loop \<or> (\<exists>k'. pc' = WC_Scan start k') \<or> (\<exists>v. v < total_words ?s \<and> pc' = WC_Claim v)" "s' = ?s"
      using s' WC_Scan by (auto simp: Let_def split: if_splits)
    then show ?thesis using inv_core1 [OF inv i, of s' "Word_Carrier fl pc'"] fl by auto
  qed (use s' inv_core1 [OF inv i, of s' "Word_Carrier fl pc'"] fl in \<open>auto split: if_splits\<close>)
qed

section \<open>Letter carriers\<close>

lemma upd_lift_core [simp]:
  "words (upd_lift e f s) = words s" "floor_counts (upd_lift e f s) = floor_counts s" "granted (upd_lift e f s) = granted s"
  "done_count (upd_lift e f s) = done_count s"
  by (simp_all add: upd_lift_def split: errand.splits)

lemma ride_over_task: "lc_task (snd (ride_over e fl r s)) = errand_task e"
  "\<exists>fl'. ride_over e fl r s = (fl', LC_Loop) \<or> (\<exists>w t. ride_over e fl r s = (fl', LC_Place w t))"
  by (auto simp: ride_over_def split: errand.splits)

lemma letter_core:
  assumes s': "letter_carrier_step nf x fl idle pc s = ((fl', idle', pc'), s')"
    and pc: "\<And>w t. pc \<noteq> LC_Place w t" "\<And>w t. pc = LC_Lock w t \<Longrightarrow> t_claimed (tasks (words s ! w) ! t) \<or> t_delivered (tasks (words s ! w) ! t)"
    and ab: "about_ok n s (Letter_Carrier home fl idle pc)"
  shows "words s' = words s \<and> floor_counts s' = floor_counts s \<and> granted s' = granted s \<and> done_count s' = done_count s \<and>
    about_ok n s (Letter_Carrier home fl' idle' pc') \<and> (lc_task pc' = None \<or> lc_task pc' = lc_task pc)"
proof (cases pc)
  case (LC_Enter e)
  then show ?thesis using s' ride_over_task(2) [of e fl False s] ride_over_task(1) [of e fl False s] by (auto split: if_splits prod.splits)
next
  case (LC_Check e)
  then show ?thesis using s' ride_over_task(2) [of e fl False s] ride_over_task(1) [of e fl False s] by (auto split: if_splits prod.splits)
next
  case (LC_Op e)
  then show ?thesis using s' ride_over_task(2) [of e fl True s] ride_over_task(1) [of e fl True s]
    by (auto split: if_splits prod.splits errand.splits)
qed (use assms in \<open>auto simp: Let_def split: if_splits\<close>)

lemma letter_carrier_inv:
  assumes inv: "building_inv cfg b0 b" and i: "i < length (procs b)" and p: "procs b ! i = Letter_Carrier home fl idle pc"
    and s': "letter_carrier_step nf x fl idle pc (memory b) = ((fl', idle', pc'), s')"
  shows "building_inv cfg b0 \<lparr>procs = (procs b)[i := Letter_Carrier home fl' idle' pc'], memory = s'\<rparr>"
proof -
  let ?s = "memory b"
  note D = building_invD [OF inv]
  have ab: "about_ok (nat (num_floors cfg)) ?s (Letter_Carrier home fl idle pc)"
    using D(3) [of "procs b ! i"] p i nth_mem [OF i] by simp
  consider (place) w t where "pc = LC_Place w t"
    | (lock) w t where "pc = LC_Lock w t" "\<not> t_claimed (tasks (words ?s ! w) ! t)" "\<not> t_delivered (tasks (words ?s ! w) ! t)"
    | (other) "\<forall>w t. pc \<noteq> LC_Place w t"
        "\<forall>w t. pc = LC_Lock w t \<longrightarrow> t_claimed (tasks (words ?s ! w) ! t) \<or> t_delivered (tasks (words ?s ! w) ! t)" by blast
  then show ?thesis
  proof cases
    case other
    then have "words s' = words ?s \<and> floor_counts s' = floor_counts ?s \<and> granted s' = granted ?s \<and> done_count s' = done_count ?s \<and>
        about_ok (nat (num_floors cfg)) ?s (Letter_Carrier home fl' idle' pc') \<and> (lc_task pc' = None \<or> lc_task pc' = lc_task pc)"
      by (intro letter_core [OF s' _ _ ab]) auto
    then show ?thesis by (intro inv_core1 [OF inv i]) (simp_all add: p)
  next
    case lock
    have w: "w < total_words ?s" "t < word_len (words ?s ! w)" using ab lock(1) by simp_all
    have e: "fl' = fl" "pc' = LC_Carry w t" "s' = upd_word w (upd_task t (\<lambda>t. t\<lparr>t_claimed := True\<rparr>)) ?s"
      using s' lock by (auto simp: Let_def)
    have len: "length (tasks (words ?s ! w)) = word_len (words ?s ! w)" using word_okD(5) [OF D(2) [OF w(1)]] .
    have ok: "word_ok (upd_task t (\<lambda>t. t\<lparr>t_claimed := True\<rparr>) (words ?s ! w))"
      unfolding upd_task_def by (rule task_list_ok [OF D(2) [OF w(1)] w(2)]) auto
    have nc: "carrying (procs b ! j) \<noteq> Some (w, t)" if "j < length (procs b)" for j
      using D(5) [OF that, of w t] lock(2) by blast
    show ?thesis
      by (rule inv_word [OF inv i w(1), of _ "upd_task t (\<lambda>t. t\<lparr>t_claimed := True\<rparr>) (words ?s ! w)"])
         (use e w ok nc len lock in \<open>auto simp: static_def upd_task_def nth_list_update total_words_def\<close>)
  next
    case place
    have c: "carrying (procs b ! i) = Some (w, t)" using p place by simp
    note d = D(5) [OF i c]
    have e: "fl' = fl" "pc' = LC_Loop" "s' = upd_word w (place_char t) ?s" using s' place by auto
    note po = place_char_ok [OF D(2), of w t]
    have len: "length (tasks (words ?s ! w)) = word_len (words ?s ! w)" using word_okD(5) [OF D(2), of w] d by simp
    have "word_id (place_char t (words ?s ! w)) = word_id (words ?s ! w)" by (simp add: place_char_def split: option.splits)
    then show ?thesis unfolding e
      by (intro inv_word1 [OF inv i _ refl]) (use d po p place len in \<open>auto simp: static_def nth_list_update\<close>)
  qed
qed

section \<open>Sorting processes\<close>

lemma filter_complete:
  assumes "distinct (map fst gs)" "w \<in> fst ` set gs" "\<And>g. g \<in> set gs \<Longrightarrow> fst g \<noteq> w \<Longrightarrow> P' g = P g"
    and "\<And>g. g \<in> set gs \<Longrightarrow> fst g = w \<Longrightarrow> \<not> P' g"
  shows "length (filter P gs) = length (filter P' gs) + (if \<exists>g \<in> set gs. fst g = w \<and> P g then 1 else 0)"
  using assms
proof (induction gs)
  case (Cons g gs)
  show ?case
  proof (cases "fst g = w")
    case True
    have no: "w \<notin> fst ` set gs" using Cons.prems(1) True by auto
    have "filter P' gs = filter P gs" by (rule filter_cong) (use Cons.prems(3) no in \<open>auto simp: image_iff\<close>)
    moreover have "\<not> P' g" using Cons.prems(4) True by simp
    moreover have "(\<exists>h \<in> set (g # gs). fst h = w \<and> P h) = P g" using no True by (auto simp: image_iff)
    ultimately show ?thesis by simp
  next
    case False
    have "length (filter P gs) = length (filter P' gs) + (if \<exists>g \<in> set gs. fst g = w \<and> P g then 1 else 0)"
      by (rule Cons.IH) (use Cons.prems False in auto)
    moreover have "P' g = P g" using Cons.prems(3) False by simp
    ultimately show ?thesis using False by simp
  qed
qed simp

lemma filter_upd_new:
  assumes "i < length xs" "\<not> P (xs ! i)" "P x"
  shows "length (filter P (xs[i := x])) = length (filter P xs) + 1"
proof -
  obtain R where R: "mset xs = add_mset (xs ! i) R" "\<And>y. mset (xs[i := y]) = add_mset y R"
    using mset_update_cons [OF assms(1)] by blast
  have "length (filter P ys) = size (filter_mset P (mset ys))" for ys by (simp flip: mset_filter)
  then show ?thesis using assms(2,3) by (simp add: R)
qed

lemma counts_ok_complete:
  assumes c: "counts_ok mx nf s" and w: "w < total_words s"
    and x: "static x = static (words s ! w)" "w_completed x" "w_admitted x" "w_claimed x = w_claimed (words s ! w)"
    and old: "\<not> w_completed (words s ! w)" "w_admitted (words s ! w)" "sorting_floor (words s ! w) = fl"
    and s': "words s' = (words s)[w := x]" "granted s' = granted s"
      "floor_counts s' = (floor_counts s)[fl := floor_counts s ! fl - 1]" "done_count s' = done_count s + 1"
  shows "counts_ok mx nf s'"
proof -
  note c' = c [unfolded counts_ok_def]
  have wl: "w < length (words s)" using w by (simp add: total_words_def)
  have tot: "total_words s' = total_words s" by (simp add: total_words_def s'(1))
  have fl: "fl < nf" using c' w old(3) by blast
  have wg: "w \<in> fst ` set (granted s)" using c' w old(2) by blast
  have nth: "words s' ! v = (if v = w then x else words s ! v)" if "v < total_words s" for v
    using that s'(1) by (auto simp: total_words_def nth_list_update)
  have gt: "fst g < total_words s" if "g \<in> set (granted s)" for g using c' that by auto
  have srt: "sorting_floor x = fl" using x(1) old(3) by (simp add: static_def)
  have arr: "arrivals s' f = arrivals s f" for f by (simp add: arrivals_def s'(2))
  have act: "active s f = active s' f + (if f = fl then 1 else 0)" for f
  proof -
    have ex: "(\<exists>g \<in> set (granted s). fst g = w \<and> sorting_floor (words s ! fst g) = f \<and> \<not> w_completed (words s ! fst g)) = (f = fl)"
      using wg old by force
    show ?thesis
      unfolding active_def s'(2) ex [symmetric]
    proof (rule filter_complete)
      show "distinct (map fst (granted s))" using c' by blast
      show "w \<in> fst ` set (granted s)" by (fact wg)
    qed (use nth gt x(2) in auto)
  qed
  have len: "length (floor_counts s) = nf" using c' by blast
  show ?thesis
    unfolding counts_ok_def tot s'(2)
  proof (intro conjI)
    show "length (floor_counts s') = nf" using len s'(3) by simp
    show "distinct (map fst (granted s))" using c' by blast
    show "\<forall>(v, a) \<in> set (granted s). v < total_words s \<and> a < nf \<and> w_claimed (words s' ! v)"
    proof clarify
      fix v a assume "(v, a) \<in> set (granted s)"
      then have "v < total_words s \<and> a < nf \<and> w_claimed (words s ! v)" using c' by blast
      then show "v < total_words s \<and> a < nf \<and> w_claimed (words s' ! v)" using nth [of v] x(4) by (cases "v = w") auto
    qed
    show "\<forall>v < total_words s. w_admitted (words s' ! v) \<longrightarrow> v \<in> fst ` set (granted s)"
      using c' nth wg by (metis (full_types))
    show "\<forall>v < total_words s. sorting_floor (words s' ! v) < nf" using c' nth srt fl by (metis (full_types))
    show "\<forall>f < nf. floor_counts s' ! f = int (arrivals s' f + active s' f) \<and> floor_counts s' ! f \<le> mx + 1"
    proof (intro allI impI)
      fix f assume f: "f < nf"
      have "floor_counts s ! f = int (arrivals s f + active s f)" "floor_counts s ! f \<le> mx + 1" using c' f by blast+
      moreover have "floor_counts s' ! f = floor_counts s ! f - (if f = fl then 1 else 0)"
        using s'(3) len f by (simp add: nth_list_update)
      ultimately show "floor_counts s' ! f = int (arrivals s' f + active s' f) \<and> floor_counts s' ! f \<le> mx + 1"
        using arr [of f] act [of f] by (simp split: if_splits)
    qed
    show "done_count s' = length (filter w_completed (words s'))"
      using filter_upd_new [OF wl, of w_completed x] old(1) x(2) c' s'(1,4) by simp
  qed
qed

lemma sorter_inv:
  assumes inv: "building_inv cfg b0 b" and i: "i < length (procs b)" and p: "procs b ! i = Sorter fl pc"
    and s': "sorter_step busy fl pc (memory b) = (pc', s')"
  shows "building_inv cfg b0 \<lparr>procs = (procs b)[i := Sorter fl pc'], memory = s'\<rparr>"
proof -
  let ?s = "memory b" and ?nf = "nat (num_floors cfg)"
  note D = building_invD [OF inv]
  show ?thesis
  proof (cases "(\<exists>w < total_words ?s. pc = SP_Word w) \<and> \<not> busy")
    case False
    then have "s' = ?s" using s' by (cases pc) (auto simp: sort_step_def split: if_splits)
    then show ?thesis by (intro inv_core1 [OF inv i]) auto
  next
    case True
    then obtain w where w: "w < total_words ?s" "pc = SP_Word w" "\<not> busy" by blast
    obtain x ch dn where x: "sort_word fl (words ?s ! w) = (x, ch, dn)" by (cases "sort_word fl (words ?s ! w)")
    note r = sort_word_ok [OF D(2) [OF w(1)] x]
    have st: "static x = static (words ?s ! w)" using r by (simp add: same_frame_def static_def)
    show ?thesis
    proof (cases dn)
      case no: False
      have e: "words s' = (words ?s)[w := x]" "floor_counts s' = floor_counts ?s" "granted s' = granted ?s" "done_count s' = done_count ?s"
        using s' w x no by (auto simp: sort_step_def Let_def)
      show ?thesis
        by (rule inv_word [OF inv i w(1) e st]) (use r p no in \<open>auto simp: same_frame_def\<close>)
    next
      case yes: True
      have e: "words s' = (words ?s)[w := x]" "granted s' = granted ?s"
          "floor_counts s' = (floor_counts ?s)[fl := floor_counts ?s ! fl - 1]" "done_count s' = done_count ?s + 1"
        using s' w x yes by (auto simp: sort_step_def Let_def)
      have counts: "counts_ok (max_words_per_floor cfg) ?nf s'"
        by (rule counts_ok_complete [OF D(6) w(1) st _ _ _ _ _ _ e]) (use r yes in \<open>auto simp: same_frame_def\<close>)
      have stm: "map static (words s') = map static (words ?s)"
        unfolding e(1) map_update st using w(1) by (metis list_update_id nth_map total_words_def)
      have nth: "words s' ! v = (if v = w then x else words ?s ! v)" if "v < total_words ?s" for v
        using that e(1) by (auto simp: total_words_def nth_list_update)
      have rel: "relies_kept ?s s' (holding (procs b ! i)) (carrying (procs b ! i))"
        unfolding relies_kept_def using stm e(2) nth r by (auto simp: same_frame_def)
      have ok: "\<forall>v \<in> set (words s'). word_ok v"
        using all_words [OF inv] r set_update_subset_insert [of "words ?s" w x] e(1) by auto
      have "building_inv cfg b0 \<lparr>procs = (procs b)[i := Sorter fl pc'] @ [], memory = s'\<rparr>"
        by (rule inv_step [OF inv i rel ok counts]) auto
      then show ?thesis by simp
    qed
  qed
qed

section \<open>All processes\<close>

lemma process_inv:
  assumes inv: "building_inv cfg b0 b" and i: "i < length (procs b)"
    and s: "process_step cfg x busy (procs b ! i) (memory b) = Some (p, s, new)"
  shows "building_inv cfg b0 \<lparr>procs = (procs b)[i := p] @ new, memory = s\<rparr>"
proof (cases "procs b ! i")
  case (Word_Carrier fl pc)
  obtain pc' s' where w: "word_carrier_step (max_words_per_floor cfg) fl pc (memory b) = (pc', s')"
    by (cases "word_carrier_step (max_words_per_floor cfg) fl pc (memory b)")
  then show ?thesis using word_carrier_inv [OF inv i Word_Carrier w] s Word_Carrier by (simp add: process_step_def)
next
  case (Letter_Carrier home fl idle pc)
  obtain fl' idle' pc' s' where w: "letter_carrier_step (nat (num_floors cfg)) x fl idle pc (memory b) = ((fl', idle', pc'), s')"
    by (cases "letter_carrier_step (nat (num_floors cfg)) x fl idle pc (memory b)") auto
  then show ?thesis using letter_carrier_inv [OF inv i Letter_Carrier w] s Letter_Carrier by (simp add: process_step_def)
next
  case (Sorter fl pc)
  obtain pc' s' where w: "sorter_step busy fl pc (memory b) = (pc', s')" by (cases "sorter_step busy fl pc (memory b)")
  then show ?thesis using sorter_inv [OF inv i Sorter w] s Sorter by (simp add: process_step_def)
next
  case (Delivery_Elevator pc)
  then show ?thesis using s by (intro inv_core [OF inv i]) (auto simp: process_step_def)
next
  case (Reposition_Elevator pc)
  then show ?thesis using s by (intro inv_core [OF inv i]) (auto simp: process_step_def)
next
  case (Monitor pc)
  have "words s = words (memory b) \<and> floor_counts s = floor_counts (memory b) \<and> granted s = granted (memory b) \<and>
      done_count s = done_count (memory b) \<and> (\<exists>pc'. p = Monitor pc') \<and>
      (\<forall>q \<in> set new. \<exists>f k. q = Letter_Carrier f f 0 (LC_Init k))"
    using s Monitor by (cases pc) (auto simp: process_step_def split: if_splits)
  then show ?thesis by (intro inv_core [OF inv i]) auto
qed

lemma step_inv: "building_inv cfg b0 b \<Longrightarrow> building_step cfg b b' \<Longrightarrow> building_inv cfg b0 b'"
  by (auto elim!: building_step.cases intro: process_inv)

interpretation building_sys: invariant_system "building_reach cfg" "building_step cfg" "building_inv cfg b0"
  for cfg b0
proof
  show "building_reach cfg s t \<Longrightarrow> (building_step cfg)\<^sup>*\<^sup>* s t" for s t
    by (induction rule: building_reach.induct) (auto intro: rtranclp.rtrancl_into_rtrancl)
qed (rule step_inv)

lemma reach_building_inv: "building_reach cfg b0 b \<Longrightarrow> building_inv cfg b0 b0 \<Longrightarrow> building_inv cfg b0 b"
  by (rule building_sys.reach_keeps)

end
