(* ===== verification/Sort_Input_Facts.thy ===== *)
theory Sort_Input_Facts
  imports Sort_Input Sort_Steps
begin

text \<open>
  The lines of the input do not depend on how \<open>read\<close> cuts the file, the valid lines are those of three
  fields, the output is sorted, and the invariant of the building holds at its start.
\<close>

section \<open>Lines\<close>

abbreviation pending_input :: "string option \<Rightarrow> string" where
  "pending_input data \<equiv> (case data of None \<Rightarrow> [] | Some d \<Rightarrow> d)"

lemma read_file_text:
  assumes "\<forall>c \<in> set chunks. c \<noteq> [] \<and> NUL \<notin> set c" "pending_input data @ concat chunks \<noteq> []"
  shows "\<exists>d rest. read_file chunks data = (Some d, rest) \<and> d @ concat rest = pending_input data @ concat chunks \<and>
    (LF \<in> set d \<or> rest = []) \<and> d \<noteq> [] \<and> set rest \<subseteq> set chunks"
  using assms
proof (induction chunks arbitrary: data)
  case Nil
  then show ?case by (cases data) auto
next
  case (Cons c cs)
  have c: "c \<noteq> []" "cstr c = c" using Cons.prems(1) by (auto intro: cstr_id)
  show ?case
  proof (cases "LF \<in> set (pending_input data @ c)")
    case True
    then show ?thesis using c by (auto simp: Let_def)
  next
    case False
    have "\<exists>d rest. read_file cs (Some (pending_input data @ c)) = (Some d, rest) \<and>
        d @ concat rest = pending_input (Some (pending_input data @ c)) @ concat cs \<and> (LF \<in> set d \<or> rest = []) \<and> d \<noteq> [] \<and> set rest \<subseteq> set cs"
      by (rule Cons.IH) (use Cons.prems(1) c in auto)
    then show ?thesis using c False by (auto simp: Let_def)
  qed
qed

lemma get_next_line_text:
  assumes "\<forall>c \<in> set chunks. c \<noteq> [] \<and> NUL \<notin> set c" "pending_input data @ concat chunks = l @ LF # t" "LF \<notin> set l"
  shows "\<exists>data' rest. get_next_line chunks data = (Some (l @ [LF]), data', rest) \<and> pending_input data' @ concat rest = t \<and>
    set rest \<subseteq> set chunks"
proof -
  obtain d rest where d: "read_file chunks data = (Some d, rest)" "d @ concat rest = l @ LF # t" "LF \<in> set d \<or> rest = []"
      "set rest \<subseteq> set chunks"
    using read_file_text [OF assms(1), of data] assms(2) by auto
  have LF: "LF \<in> set d"
  proof (rule ccontr)
    assume no: "LF \<notin> set d"
    then have "d = l @ LF # t" using d(2,3) by simp
    then show False using no by simp
  qed
  then obtain u v where uv: "d = u @ LF # v" "LF \<notin> set u" by (metis split_list_first)
  then have "u = l" "v @ concat rest = t" using d(2) assms(3) by (auto simp: append_eq_Cons_conv append_eq_append_conv2 Cons_eq_append_conv)
  then have "ft_sep_line d = l @ [LF]" "ft_update d = (if v = [] then None else Some v)"
  proof -
    have "takeWhile (\<lambda>c. c \<noteq> LF) d = l" unfolding uv(1) \<open>u = l\<close> by (rule takeWhile_append_stop) (use assms(3) in auto)
    then have sep: "ft_sep_line d = l @ [LF]" using LF by (simp add: ft_sep_line_def)
    then have "drop (length (ft_sep_line d)) d = v" using uv(1) \<open>u = l\<close> by simp
    then show "ft_sep_line d = l @ [LF]" "ft_update d = (if v = [] then None else Some v)" using sep by (simp_all add: ft_update_def)
  qed
  then show ?thesis using d(1,4) \<open>v @ concat rest = t\<close> by (auto simp: get_next_line_def)
qed

lemma get_next_line_end: "get_next_line [] None = (None, None, [])"
  by (simp add: get_next_line_def)

section \<open>The format of a line\<close>

lemma dropWhile_stop: "\<forall>x \<in> set xs. P x \<Longrightarrow> ys = [] \<or> \<not> P (hd ys) \<Longrightarrow> dropWhile P (xs @ ys) = ys"
  by (induction xs) (auto simp: dropWhile_eq_self_iff)

lemma span1_Some: "span1 P s = Some r \<longleftrightarrow> (\<exists>u. s = u @ r \<and> u \<noteq> [] \<and> (\<forall>c \<in> set u. P c) \<and> (r = [] \<or> \<not> P (hd r)))"
proof
  assume a: "span1 P s = Some r"
  then have s: "s = takeWhile P s @ r" "r = dropWhile P s" "s \<noteq> []" "P (hd s)" by (auto simp: span1_def split: if_splits)
  have "takeWhile P s \<noteq> []" using s(3,4) by (cases s) auto
  moreover have "r = [] \<or> \<not> P (hd r)" using s(2) hd_dropWhile [of P s] by auto
  ultimately show "\<exists>u. s = u @ r \<and> u \<noteq> [] \<and> (\<forall>c \<in> set u. P c) \<and> (r = [] \<or> \<not> P (hd r))"
    using s(1) by (intro exI [of _ "takeWhile P s"]) (auto dest: set_takeWhileD)
next
  assume "\<exists>u. s = u @ r \<and> u \<noteq> [] \<and> (\<forall>c \<in> set u. P c) \<and> (r = [] \<or> \<not> P (hd r))"
  then obtain u where u: "s = u @ r" "u \<noteq> []" "\<forall>c \<in> set u. P c" "r = [] \<or> \<not> P (hd r)" by blast
  then have "dropWhile P s = r" "P (hd s)" "s \<noteq> []" using dropWhile_stop [of u P r] by auto
  then show "span1 P s = Some r" by (simp add: span1_def)
qed

definition fields_ok :: "string \<Rightarrow> string \<Rightarrow> string \<Rightarrow> bool" where
  "fields_ok i w f \<longleftrightarrow> i \<noteq> [] \<and> w \<noteq> [] \<and> f \<noteq> [] \<and> (\<forall>c \<in> set i. is_digit c) \<and> (\<forall>c \<in> set w. is_lower c) \<and> (\<forall>c \<in> set f. is_digit c)"

lemma blank_class: "\<not> is_digit CHR '' ''" "\<not> is_lower CHR '' ''"
  by (simp_all add: is_lower_def char_class_defs)

lemma is_valid_line_iff:
  "is_valid_line line = (\<exists>i w f. line = i @ CHR '' '' # w @ CHR '' '' # f \<and> fields_ok i w f)"
proof
  assume v: "is_valid_line line"
  then obtain r1 r2 r3 r4 where r: "span1 is_digit line = Some r1" "one_space r1 = Some r2" "span1 is_lower r2 = Some r3"
      "one_space r3 = Some r4" "span1 is_digit r4 = Some []"
    by (auto simp: is_valid_line_def split: option.splits)
  obtain i where i: "line = i @ r1" "i \<noteq> []" "\<forall>c \<in> set i. is_digit c" using r(1) by (auto simp: span1_Some)
  obtain w where w: "r2 = w @ r3" "w \<noteq> []" "\<forall>c \<in> set w. is_lower c" using r(3) by (auto simp: span1_Some)
  have f: "r4 \<noteq> []" "\<forall>c \<in> set r4. is_digit c" using r(5) by (auto simp: span1_Some)
  have "r1 = CHR '' '' # r2" "r3 = CHR '' '' # r4" using r(2,4) by (cases r1; cases r3; auto simp: one_space_def split: if_splits)+
  then show "\<exists>i w f. line = i @ CHR '' '' # w @ CHR '' '' # f \<and> fields_ok i w f" using i w f by (auto simp: fields_ok_def)
next
  assume "\<exists>i w f. line = i @ CHR '' '' # w @ CHR '' '' # f \<and> fields_ok i w f"
  then obtain i w f where l: "line = i @ CHR '' '' # w @ CHR '' '' # f" and ok: "fields_ok i w f" by blast
  have "span1 is_digit line = Some (CHR '' '' # w @ CHR '' '' # f)"
    unfolding span1_Some l using ok blank_class by (intro exI [of _ i]) (auto simp: fields_ok_def)
  moreover have "span1 is_lower (w @ CHR '' '' # f) = Some (CHR '' '' # f)"
    unfolding span1_Some using ok blank_class by (intro exI [of _ w]) (auto simp: fields_ok_def)
  moreover have "span1 is_digit f = Some []"
    unfolding span1_Some using ok by (intro exI [of _ f]) (auto simp: fields_ok_def)
  ultimately show "is_valid_line line" by (simp add: is_valid_line_def one_space_def)
qed

lemma no_delims:
  assumes "\<forall>c \<in> set s. is_digit c \<or> is_lower c"
  shows "set s \<inter> set line_delims = {}"
proof -
  have "\<not> is_digit LF" "\<not> is_lower LF" by (simp_all add: is_lower_def char_class_defs)
  then show ?thesis using assms blank_class by (auto simp: line_delims_def)
qed

lemma parse_line_fields:
  assumes "fields_ok i w f"
  shows "parse_line (i @ CHR '' '' # w @ CHR '' '' # f) = Some (atoi i, w, atoi f)"
proof -
  have d: "CHR '' '' \<in> set line_delims" by (simp add: line_delims_def)
  have "set i \<inter> set line_delims = {}" "set w \<inter> set line_delims = {}" "set f \<inter> set line_delims = {}"
    using assms by (auto intro!: no_delims simp: fields_ok_def)
  then show ?thesis
    using assms strtok_step [of i line_delims "CHR '' ''" "w @ CHR '' '' # f"] strtok_step [of w line_delims "CHR '' ''" f]
      strtok_last [of f line_delims] d
    by (simp add: parse_line_def fields_ok_def)
qed

definition record_line :: "int \<times> string \<times> int \<Rightarrow> string" where
  "record_line r = (case r of (i, w, f) \<Rightarrow> int_dec i @ CHR '' '' # w @ CHR '' '' # int_dec f)"

definition record_ok :: "int \<times> string \<times> int \<Rightarrow> bool" where
  "record_ok r \<longleftrightarrow> (case r of (i, w, f) \<Rightarrow> 0 \<le> i \<and> i \<le> int_max \<and> w \<noteq> [] \<and> (\<forall>c \<in> set w. is_lower c) \<and> 0 \<le> f \<and> f \<le> int_max)"

lemma int_dec_digits: "0 \<le> i \<Longrightarrow> c \<in> set (int_dec i) \<Longrightarrow> is_digit c"
  by (simp add: int_dec_def nat_dec_digits)

lemma atoi_int_dec: "0 \<le> i \<Longrightarrow> i \<le> int_max \<Longrightarrow> atoi (int_dec i) = i"
  using strtol_int_dec [of i "[]"] wrap32_id [of i] by (simp add: atoi_def limits_defs)

lemma record_line_ok:
  assumes "record_ok r"
  shows "is_valid_line (record_line r)" "parse_line (record_line r) = Some r" "LF \<notin> set (record_line r)" "record_line r \<noteq> []"
    "trim_newline (record_line r @ [LF]) = record_line r" "NUL \<notin> set (record_line r)"
proof -
  obtain i w f where r: "r = (i, w, f)" by (cases r)
  have ok: "fields_ok (int_dec i) w (int_dec f)" using assms int_dec_digits by (auto simp: r record_ok_def fields_ok_def)
  have l: "record_line r = int_dec i @ CHR '' '' # w @ CHR '' '' # int_dec f" by (simp add: record_line_def r)
  show "is_valid_line (record_line r)" unfolding is_valid_line_iff l using ok by blast
  show "parse_line (record_line r) = Some r"
    unfolding l parse_line_fields [OF ok] using assms by (simp add: r record_ok_def atoi_int_dec)
  have cls: "is_digit c \<or> is_lower c \<or> c = CHR '' ''" if "c \<in> set (record_line r)" for c
    using that ok by (auto simp: l fields_ok_def)
  have neg: "\<not> is_digit LF" "\<not> is_lower LF" "\<not> is_digit CR" "\<not> is_lower CR" "\<not> is_digit NUL" "\<not> is_lower NUL"
      "LF \<noteq> CHR '' ''" "CR \<noteq> CHR '' ''" "NUL \<noteq> CHR '' ''"
    by (simp_all add: is_lower_def char_class_defs)
  show "LF \<notin> set (record_line r)" "NUL \<notin> set (record_line r)" using cls neg by metis+
  show ne: "record_line r \<noteq> []" by (simp add: l)
  have "CR \<notin> set (record_line r)" using cls neg by metis
  then have "last (record_line r) \<noteq> CR" using ne last_in_set by metis
  then show "trim_newline (record_line r @ [LF]) = record_line r" by (simp add: trim_newline_def)
qed

lemma read_input_records:
  assumes "\<forall>c \<in> set chunks. c \<noteq> [] \<and> NUL \<notin> set c" "list_all record_ok rs" "data \<noteq> Some []"
    and "pending_input data @ concat chunks = concat (map (\<lambda>r. record_line r @ [LF]) rs)"
  shows "read_input chunks data = Some rs"
  using assms
proof (induction rs arbitrary: chunks data)
  case Nil
  then have "data = None" "chunks = []" by (auto split: option.splits)
  then show ?case by (subst read_input.simps) (simp add: get_next_line_end)
next
  case (Cons r rs)
  have r: "record_ok r" "list_all record_ok rs" using Cons.prems(2) by simp_all
  note ok = record_line_ok [OF r(1)]
  have t: "pending_input data @ concat chunks = record_line r @ LF # concat (map (\<lambda>r. record_line r @ [LF]) rs)"
    using Cons.prems(4) by simp
  obtain data' rest where g: "get_next_line chunks data = (Some (record_line r @ [LF]), data', rest)"
      "pending_input data' @ concat rest = concat (map (\<lambda>r. record_line r @ [LF]) rs)" "set rest \<subseteq> set chunks"
    using get_next_line_text [OF Cons.prems(1) t ok(3)] by blast
  have "data' \<noteq> Some []" using g(1) by (auto simp: get_next_line_def ft_update_def Let_def split: prod.splits option.splits if_splits)
  then have "read_input rest data' = Some rs" using Cons.IH [of rest data'] g(2,3) Cons.prems(1) r(2) by blast
  then show ?case using ok g(1) by (subst read_input.simps) simp
qed

section \<open>The start\<close>

lemma all_some_iff: "all_some xs = Some ys \<longleftrightarrow> xs = map Some ys"
proof (induction xs arbitrary: ys)
  case (Cons x xs)
  then show ?case by (cases x; cases ys) auto
qed auto

lemma spawn_about: "p \<in> set (spawn_all cfg) \<Longrightarrow> about_ok (nat (num_floors cfg)) s p \<and> holding p = None \<and> carrying p = None"
  by (auto simp: spawn_all_def spawn_floor_def)

lemma start_building_words:
  assumes "start_building cfg inputs = Some b0"
  shows "map init_word inputs = map Some (words (memory b0))"
  using assms by (auto simp: start_building_def shm_init_def all_some_iff)

lemma init_word_fields:
  assumes "init_word (i, w, f) = Some x"
  shows "word_id x = i" "sorting_floor x = nat f" "word_len x = length w" "\<not> w_admitted x" "\<not> w_completed x" "length w \<le> MAX_WORD_LEN"
    "length w < MAX_WORD_LEN \<Longrightarrow> original x = w"
  using assms by (auto simp: init_word_def Let_def split: if_splits)

lemma start_inv:
  assumes start: "start_building cfg inputs = Some b0" and val: "validate_words inputs cfg" and mx: "1 \<le> max_words_per_floor cfg"
  shows "building_inv cfg b0 b0"
proof -
  let ?nf = "nat (num_floors cfg)" and ?ws = "words (memory b0)"
  have im: "map init_word inputs = map Some ?ws" by (rule start_building_words [OF start])
  have b0: "procs b0 = spawn_all cfg @ [Monitor MO_Loop]" "floor_counts (memory b0) = replicate ?nf 0" "granted (memory b0) = []"
      "done_count (memory b0) = 0"
    using start by (auto simp: start_building_def shm_init_def)
  have len: "length inputs = length ?ws" using im by (metis length_map)
  have nth: "init_word (inputs ! v) = Some (?ws ! v)" if "v < length ?ws" for v
    using im len that by (metis nth_map)
  have word: "word_ok (?ws ! v) \<and> sorting_floor (?ws ! v) < ?nf \<and> \<not> w_admitted (?ws ! v) \<and> \<not> w_completed (?ws ! v)"
    if v: "v < length ?ws" for v
  proof -
    obtain i w f where r: "inputs ! v = (i, w, f)" by (cases "inputs ! v")
    have "(i, w, f) \<in> set inputs" using v len r nth_mem by metis
    then have "0 \<le> f \<and> f < num_floors cfg" using val by (auto simp: validate_words_def list_all_iff)
    then show ?thesis using init_word_fields [of i w f] nth [OF v] r word_ok_init by auto
  qed
  have pr: "about_ok ?nf (memory b0) p \<and> holding p = None \<and> carrying p = None" if "p \<in> set (procs b0)" for p
    using that spawn_about [of p cfg "memory b0"] by (auto simp: b0(1))
  have "\<forall>x \<in> set ?ws. word_ok x \<and> \<not> w_completed x" using word by (metis in_set_conv_nth)
  moreover have "filter w_completed ?ws = []" using calculation by (simp add: filter_empty_conv)
  moreover have "counts_ok (max_words_per_floor cfg) ?nf (memory b0)"
    using word mx \<open>filter w_completed ?ws = []\<close> by (simp add: counts_ok_def b0 arrivals_def active_def total_words_def)
  moreover have "holding (procs b0 ! i) = None \<and> carrying (procs b0 ! i) = None" if "i < length (procs b0)" for i
    using pr nth_mem [OF that] by blast
  ultimately show ?thesis using pr by (simp add: building_inv_def)
qed

section \<open>The output\<close>

lemma insert_by_sorted:
  assumes "\<forall>a \<in> insert x (set ys). \<forall>b \<in> insert x (set ys). cmp a b \<le> 0 \<longleftrightarrow> key a \<le> (key b :: 'k :: linorder)"
    and "sorted (map key ys)"
  shows "sorted (map key (insert_by cmp x ys)) \<and> mset (insert_by cmp x ys) = add_mset x (mset ys)"
  using assms
proof (induction ys)
  case (Cons y ys)
  show ?case
  proof (cases "cmp x y \<le> 0")
    case True
    then have "key x \<le> key y" using Cons.prems(1) by simp
    then show ?thesis using True Cons.prems(2) by auto
  next
    case False
    then have xy: "key y \<le> key x" using Cons.prems(1) by (metis insertCI le_cases list.simps(15))
    have "sorted (map key (insert_by cmp x ys)) \<and> mset (insert_by cmp x ys) = add_mset x (mset ys)"
      by (rule Cons.IH) (use Cons.prems in auto)
    moreover have "set (insert_by cmp x ys) = insert x (set ys)" using calculation by (metis set_mset_add_mset_insert set_mset_mset)
    ultimately show ?thesis using False xy Cons.prems(2) by auto
  qed
qed simp

lemma qsort_sorted:
  assumes "\<forall>a \<in> set xs. \<forall>b \<in> set xs. cmp a b \<le> 0 \<longleftrightarrow> key a \<le> (key b :: 'k :: linorder)"
  shows "sorted (map key (qsort cmp xs)) \<and> mset (qsort cmp xs) = mset xs"
  using assms
proof (induction xs)
  case (Cons x xs)
  then have "sorted (map key (qsort cmp xs))" "mset (qsort cmp xs) = mset xs" by auto
  moreover have "set (qsort cmp xs) = set xs" using calculation(2) mset_eq_setD by blast
  ultimately show ?case using insert_by_sorted [of x "qsort cmp xs" cmp key] Cons.prems by (simp add: qsort_def)
qed (simp add: qsort_def)

definition word_key :: "word \<Rightarrow> nat \<times> int" where
  "word_key w = (sorting_floor w, word_id w)"

lemma cmp_words_key:
  assumes "int (sorting_floor a) \<le> int_max" "int (sorting_floor b) \<le> int_max" "0 \<le> word_id a" "word_id a \<le> int_max"
    "0 \<le> word_id b" "word_id b \<le> int_max"
  shows "cmp_words a b \<le> 0 \<longleftrightarrow> word_key a \<le> word_key b"
  using assms wrap32_id [of "int (sorting_floor a) - int (sorting_floor b)"] wrap32_id [of "word_id a - word_id b"]
  by (auto simp: cmp_words_def word_key_def limits_defs)

end
