(* ===== verification/Sort_Properties.thy ===== *)
theory Sort_Properties
  imports Sort_Input_Facts
begin

text \<open>The properties of the sorting building (\<open>HW3\<close>).\<close>

section \<open>Schedules and a demonstration\<close>

fun run_building :: "t_config \<Rightarrow> (nat \<times> nat \<times> bool) list \<Rightarrow> building \<Rightarrow> building" where
  "run_building cfg [] b = b"
| "run_building cfg ((i, x, busy) # ms) b =
     run_building cfg ms
       (if i < length (procs b) then
          (case process_step cfg x busy (procs b ! i) (memory b) of
             None \<Rightarrow> b
           | Some (p, s, new) \<Rightarrow> \<lparr>procs = (procs b)[i := p] @ new, memory = s\<rparr>)
        else b)"

lemma run_building_reach: "building_reach cfg b0 b \<Longrightarrow> building_reach cfg b0 (run_building cfg ms b)"
proof (induction ms arbitrary: b)
  case (Cons m ms)
  obtain i x busy where m: "m = (i, x, busy)" by (cases m)
  show ?case
    using Cons reach_step [OF Cons.prems proc_moves [of i b cfg x busy]]
    by (cases "process_step cfg x busy (procs b ! i) (memory b)") (auto simp: m split: prod.splits)
qed simp

definition demo_cfg :: t_config where
  "demo_cfg = \<lparr>num_floors = 1, word_carriers_per_floor = 1, letter_carriers_per_floor = 1, sorting_processes_per_floor = 1,
     max_words_per_floor = 1, delivery_elevator_capacity = 1, reposition_elevator_capacity = 1,
     input_file = Some ''in'', output_file = Some ''out''\<rparr>"

definition demo_sort_argv :: "string list" where
  "demo_sort_argv = [''-f'', ''1'', ''-w'', ''1'', ''-l'', ''1'', ''-s'', ''1'', ''-c'', ''1'', ''-d'', ''1'', ''-r'', ''1'', ''-i'', ''in'', ''-o'', ''out'']"

definition demo_building :: building where
  "demo_building = the (start_building demo_cfg [(7, ''ba'', 0)])"

lemma demo_sort_started:
  "sort_main (\<lambda>_. Some [''7 b'', ''a 0'' @ [LF]]) True demo_sort_argv = Some (demo_cfg, demo_building)"
proof -
  have "parse_args demo_sort_argv = Some demo_cfg" by code_simp
  moreover have "validate_args (\<lambda>f. Some [''7 b'', ''a 0'' @ [LF]] \<noteq> None) demo_cfg"
    by (simp add: validate_args_def demo_cfg_def)
  moreover have "read_input [''7 b'', ''a 0'' @ [LF]] None = Some [(7, ''ba'', 0)]" by code_simp
  moreover have "validate_words [(7, ''ba'', 0)] demo_cfg" by code_simp
  moreover have "start_building demo_cfg [(7, ''ba'', 0)] \<noteq> None" by code_simp
  ultimately show ?thesis by (auto simp: sort_main_def demo_building_def demo_cfg_def)
qed

definition demo_sort_moves :: "(nat \<times> nat \<times> bool) list" where
  "demo_sort_moves = replicate 12 (0, 0, False) @ replicate 16 (1, 0, False) @ replicate 6 (2, 0, False) @ replicate 2 (5, 0, False)"

definition demo_sorted :: building where
  "demo_sorted = run_building demo_cfg demo_sort_moves demo_building"

lemma demo_sorted_reach: "building_reach demo_cfg demo_building demo_sorted"
  unfolding demo_sorted_def by (rule run_building_reach [OF reach_start])

lemma demo_sorted_end: "shutdown (memory demo_sorted) \<and> map w_completed (words (memory demo_sorted)) = [True] \<and> done_count (memory demo_sorted) = 1"
  by code_simp

section \<open>From the start\<close>

lemma sort_main_inv:
  assumes "sort_main chunks ok argv = Some (cfg, b0)" "building_reach cfg b0 b"
  shows "building_inv cfg b0 b"
    "\<exists>inputs. start_building cfg inputs = Some b0 \<and> validate_words inputs cfg \<and> read_input (the (chunks (the (input_file cfg)))) None = Some inputs"
proof -
  obtain inputs where i: "start_building cfg inputs = Some b0" "validate_words inputs cfg" "validate_args (\<lambda>f. chunks f \<noteq> None) cfg"
      "read_input (the (chunks (the (input_file cfg)))) None = Some inputs"
    using assms(1) by (auto simp: sort_main_def split: option.splits if_splits)
  have "building_inv cfg b0 b0" by (rule start_inv [OF i(1,2)]) (use i(3) in \<open>simp add: validate_args_def\<close>)
  then show "building_inv cfg b0 b" by (rule reach_building_inv [OF assms(2)])
  show "\<exists>inputs. start_building cfg inputs = Some b0 \<and> validate_words inputs cfg \<and> read_input (the (chunks (the (input_file cfg)))) None = Some inputs"
    using i by blast
qed

text \<open>The flag \<open>shutdown\<close> is set by the monitor alone, once all words are done.\<close>

definition stop_inv :: "building \<Rightarrow> bool" where
  "stop_inv b \<longleftrightarrow> (shutdown (memory b) \<or> Monitor MO_Stop \<in> set (procs b) \<longrightarrow> total_words (memory b) \<le> done_count (memory b))"

lemma upd_lift_stop [simp]: "shutdown (upd_lift e f s) = shutdown s"
  by (simp add: upd_lift_def split: errand.splits)

lemma upd_word_stop [simp]: "shutdown (upd_word w f s) = shutdown s"
  by (simp add: upd_word_def)

lemma word_carrier_frame:
  "word_carrier_step mx fl pc s = (pc', s') \<Longrightarrow> shutdown s' = shutdown s \<and> done_count s' = done_count s"
  by (cases pc) (auto simp: Let_def split: if_splits option.splits)

lemma letter_carrier_frame:
  "letter_carrier_step nf x fl idle pc s = ((fl', idle', pc'), s') \<Longrightarrow> shutdown s' = shutdown s \<and> done_count s' = done_count s"
  by (cases pc) (auto simp: Let_def split: if_splits option.splits prod.splits errand.splits)

lemma sorter_frame: "sorter_step busy fl pc s = (pc', s') \<Longrightarrow> shutdown s' = shutdown s \<and> done_count s \<le> done_count s'"
  by (cases pc) (auto simp: sort_step_def Let_def split: if_splits prod.splits)

lemma stop_step:
  assumes inv: "building_inv cfg b0 b" "stop_inv b" and st: "building_step cfg b b'"
  shows "stop_inv b'"
  using st
proof cases
  case (proc_moves i x busy p s new)
  have tot: "total_words s = total_words (memory b)"
    using building_invD(1) [OF inv(1)] building_invD(1) [OF step_inv [OF inv(1) st]] proc_moves(1)
    by (metis building.select_convs(2) map_eq_imp_length_eq total_words_def)
  have sub: "q \<in> set (procs b)" if "q \<in> set (procs b')" "q \<noteq> p" "q \<notin> set new" for q
    using that set_update_subset_insert [of "procs b" i p] by (auto simp: proc_moves(1))
  note pr = proc_moves(3) [unfolded process_step_def]
  have "(shutdown s = shutdown (memory b) \<and> done_count (memory b) \<le> done_count s \<and> p \<noteq> Monitor MO_Stop \<and> Monitor MO_Stop \<notin> set new) \<or>
      (\<exists>pc. procs b ! i = Monitor pc)"
  proof (cases "procs b ! i")
    case (Word_Carrier fl pc)
    then show ?thesis using pr word_carrier_frame by (auto split: prod.splits)
  next
    case (Letter_Carrier home fl idle pc)
    then show ?thesis using pr letter_carrier_frame by (auto split: prod.splits)
  next
    case (Sorter fl pc)
    then show ?thesis using pr sorter_frame by (auto split: prod.splits)
  qed (use pr in auto)
  then show ?thesis
  proof
    assume "shutdown s = shutdown (memory b) \<and> done_count (memory b) \<le> done_count s \<and> p \<noteq> Monitor MO_Stop \<and> Monitor MO_Stop \<notin> set new"
    then show ?thesis using inv(2) sub [of "Monitor MO_Stop"] tot unfolding stop_inv_def proc_moves(1) by (auto simp: proc_moves(1))
  next
    assume "\<exists>pc. procs b ! i = Monitor pc"
    then obtain pc where pc: "procs b ! i = Monitor pc" by blast
    have "Monitor pc \<in> set (procs b)" using pc proc_moves(2) by (metis nth_mem)
    then have stop: "shutdown (memory b) \<or> pc = MO_Stop \<Longrightarrow> total_words (memory b) \<le> done_count (memory b)"
      using inv(2) by (auto simp: stop_inv_def)
    have m: "done_count s = done_count (memory b) \<and> Monitor MO_Stop \<notin> set new \<and> (shutdown s \<longrightarrow> shutdown (memory b) \<or> pc = MO_Stop) \<and>
        (p = Monitor MO_Stop \<longrightarrow> shutdown (memory b) \<or> total_words (memory b) \<le> done_count (memory b))"
      using pr pc by (cases pc) (auto split: if_splits)
    have "total_words s \<le> done_count s" if "shutdown s \<or> Monitor MO_Stop \<in> set (procs b')"
    proof (cases "p = Monitor MO_Stop \<or> shutdown s")
      case True
      then show ?thesis using m stop tot by metis
    next
      case False
      then have "Monitor MO_Stop \<in> set (procs b)" using sub [of "Monitor MO_Stop"] that m by blast
      then show ?thesis using inv(2) m tot by (simp add: stop_inv_def)
    qed
    then show ?thesis by (simp add: stop_inv_def proc_moves(1))
  qed
qed

interpretation stop_sys: invariant_system "building_reach cfg" "building_step cfg" "\<lambda>b. building_inv cfg b0 b \<and> stop_inv b"
  for cfg b0
  by unfold_locales (auto intro: building_sys.reach_closed step_inv stop_step)

lemma reach_stop: "building_reach cfg b0 b \<Longrightarrow> building_inv cfg b0 b0 \<Longrightarrow> stop_inv b0 \<Longrightarrow> stop_inv b"
  using stop_sys.reach_keeps by blast

section \<open>The building\<close>




lemma stopped_done:
  assumes "sort_main chunks ok argv = Some (cfg, b0)" "building_reach cfg b0 b" "shutdown (memory b)"
  shows "total_words (memory b) \<le> length (filter w_completed (words (memory b)))"
proof -
  have inv: "building_inv cfg b0 b" and inv0: "building_inv cfg b0 b0"
    using sort_main_inv(1) [OF assms(1,2)] sort_main_inv(1) [OF assms(1) reach_start] by blast+
  obtain inputs where "start_building cfg inputs = Some b0" using sort_main_inv(2) [OF assms(1,2)] by blast
  then have "\<not> shutdown (memory b0)" "Monitor MO_Stop \<notin> set (procs b0)"
    by (auto simp: start_building_def shm_init_def spawn_all_def spawn_floor_def)
  then have "total_words (memory b) \<le> done_count (memory b)"
    using reach_stop [OF assms(2) inv0] assms(3) by (simp add: stop_inv_def)
  also have "done_count (memory b) = length (filter w_completed (words (memory b)))"
    using building_invD(6) [OF inv] by (simp add: counts_ok_def)
  finally show ?thesis .
qed

lemma stopped_completed:
  assumes "sort_main chunks ok argv = Some (cfg, b0)" "building_reach cfg b0 b" "shutdown (memory b)"
  shows "\<forall>w \<in> set (words (memory b)). w_completed w \<and> sorting_area w = original w"
proof -
  have "length (filter w_completed (words (memory b))) = length (words (memory b))"
    using stopped_done [OF assms] by (intro le_antisym [OF length_filter_le]) (simp only: total_words_def)
  then have "w_completed w" if "w \<in> set (words (memory b))" for w
    using List.length_filter_less [of w "words (memory b)" w_completed] that by (cases "w_completed w") simp_all
  then show ?thesis using all_words [OF sort_main_inv(1) [OF assms(1,2)]] completed_sorted by blast
qed

text \<open>The record of the input that a word stands for.\<close>

definition record_of :: "word \<Rightarrow> int \<times> string \<times> int" where
  "record_of w = (word_id w, original w, int (sorting_floor w))"

lemma words_of_input:
  assumes "sort_main chunks ok argv = Some (cfg, b0)" "building_reach cfg b0 b"
    "read_input (the (chunks (the (input_file cfg)))) None = Some rs" "list_all (\<lambda>r. record_ok r \<and> length (fst (snd r)) < MAX_WORD_LEN) rs"
  shows "map record_of (words (memory b)) = rs"
proof -
  let ?s = "memory b"
  note D = building_invD [OF sort_main_inv(1) [OF assms(1,2)]]
  have i: "start_building cfg rs = Some b0" using sort_main_inv(2) [OF assms(1,2)] assms(3) by auto
  have len: "length rs = total_words ?s" using start_building_words [OF i] D(1) by (metis length_map total_words_def)
  have rec: "record_of (words ?s ! v) = rs ! v" if v: "v < total_words ?s" for v
  proof -
    have "init_word (rs ! v) = Some (words (memory b0) ! v)"
      using start_building_words [OF i] len v D(1) by (metis length_map nth_map total_words_def)
    moreover have r: "length (fst (snd (rs ! v))) < MAX_WORD_LEN" "record_ok (rs ! v)" using assms(4) len v by (simp_all add: list_all_length)
    moreover have "static (words ?s ! v) = static (words (memory b0) ! v)"
      using D(1) v by (metis nth_map length_map total_words_def)
    ultimately show ?thesis
      using init_word_fields [of "fst (rs ! v)" "fst (snd (rs ! v))" "snd (snd (rs ! v))"]
      by (auto simp: static_def record_of_def record_ok_def prod_eq_iff split: prod.splits)
  qed
  show ?thesis by (rule nth_equalityI) (simp_all add: len total_words_def [symmetric] rec)
qed

lemma output_of_records:
  assumes "\<forall>w \<in> set (words s). record_ok (record_of w)"
  shows "write_output_file s = concat (map (\<lambda>r. record_line r @ [LF]) (map record_of (qsort cmp_words (words s))))"
    and "mset (map record_of (qsort cmp_words (words s))) = mset (map record_of (words s))"
    and "sorted (map (\<lambda>(i, w, f). (f, i)) (map record_of (qsort cmp_words (words s))))"
proof -
  have "cmp_words x y \<le> 0 \<longleftrightarrow> word_key x \<le> word_key y" if "x \<in> set (words s)" "y \<in> set (words s)" for x y
    using assms that by (intro cmp_words_key) (auto simp: record_ok_def record_of_def)
  then have q: "sorted (map word_key (qsort cmp_words (words s)))" "mset (qsort cmp_words (words s)) = mset (words s)"
    using qsort_sorted [of "words s" cmp_words word_key] by blast+
  have line: "output_line w = record_line (record_of w) @ [LF]" if "w \<in> set (words s)" for w
  proof -
    have "\<forall>c \<in> set (original w). is_lower c" using assms that by (auto simp: record_of_def record_ok_def)
    moreover have "\<not> is_lower NUL" by (simp add: char_class_defs)
    ultimately have "NUL \<notin> set (original w)" by blast
    then show ?thesis by (simp add: output_line_def record_line_def record_of_def cstr_id int_dec_def)
  qed
  show "write_output_file s = concat (map (\<lambda>r. record_line r @ [LF]) (map record_of (qsort cmp_words (words s))))"
    unfolding write_output_file_def map_map
    by (rule arg_cong [of _ _ concat], rule map_cong [OF refl]) (use line q(2) in \<open>auto dest: mset_eq_setD\<close>)
  show "mset (map record_of (qsort cmp_words (words s))) = mset (map record_of (words s))" using q(2) by (metis mset_map)
  show "sorted (map (\<lambda>(i, w, f). (f, i)) (map record_of (qsort cmp_words (words s))))"
    using q(1) by (auto simp: sorted_wrt_map word_key_def record_of_def o_def elim!: sorted_wrt_mono_rel [rotated])
qed

text \<open>C26: the processes are told to stop only when every word has been completed, and then the output
  file holds the records of the input, each once, ordered by sorting floor and number - whatever the
  schedule was.\<close>

theorem sorted_at_the_end:
  assumes "sort_main chunks ok argv = Some (cfg, b0)" and "building_reach cfg b0 b" and "shutdown (memory b)"
    and "read_input (the (chunks (the (input_file cfg)))) None = Some rs"
    and "list_all (\<lambda>r. record_ok r \<and> length (fst (snd r)) < MAX_WORD_LEN) rs" and "num_floors cfg \<le> int_max"
  shows "(\<forall>w \<in> set (words (memory b)). w_completed w \<and> sorting_area w = original w) \<and>
    (\<exists>out. write_output_file (memory b) = concat (map (\<lambda>r. record_line r @ [LF]) out) \<and> mset out = mset rs \<and>
       sorted (map (\<lambda>(i, w, f). (f, i)) out))"
proof -
  have rs: "map record_of (words (memory b)) = rs" by (rule words_of_input [OF assms(1,2,4,5)])
  have "\<forall>w \<in> set (words (memory b)). record_ok (record_of w)" using rs assms(5) by (auto simp: list_all_iff)
  note out = output_of_records [OF this]
  show ?thesis using stopped_completed [OF assms(1,2,3)] out rs by blast
qed

lemma sorted_at_the_end_witness: "list_all (\<lambda>w. sorting_area w = original w) (words (memory demo_sorted))"
proof -
  have "read_input [''7 b'', ''a 0'' @ [LF]] None = Some [(7, ''ba'', 0)]" by code_simp
  moreover have "list_all (\<lambda>r. record_ok r \<and> length (fst (snd r)) < MAX_WORD_LEN) [(7, ''ba'', 0)]" by code_simp
  ultimately show ?thesis
    using sorted_at_the_end [OF demo_sort_started demo_sorted_reach, of "[(7, ''ba'', 0)]"] demo_sorted_end
    by (auto simp: demo_cfg_def int_max_def list_all_iff)
qed

lemma granted_by_floor:
  fixes gs :: "(nat \<times> nat) list"
  shows "\<forall>g \<in> set gs. snd g < n \<Longrightarrow> length gs = (\<Sum>f<n. length (filter (\<lambda>g. snd g = f) gs))"
proof (induction gs)
  case (Cons g gs)
  have "(\<Sum>f<n. length (filter (\<lambda>h. snd h = f) (g # gs))) =
      (\<Sum>f<n. (if snd g = f then 1 else 0) + length (filter (\<lambda>h. snd h = f) gs))"
    by (rule sum.cong) auto
  then show ?case using Cons by (simp add: sum.distrib)
qed simp

lemma granted_bound:
  assumes "counts_ok (max_words_per_floor cfg) (nat (num_floors cfg)) s" "1 \<le> num_floors cfg"
  shows "int (length (granted s)) \<le> num_floors cfg * (max_words_per_floor cfg + 1)"
proof -
  let ?nf = "nat (num_floors cfg)"
  note c = assms(1) [unfolded counts_ok_def]
  have "int (length (granted s)) = (\<Sum>f<?nf. int (arrivals s f))"
    unfolding arrivals_def using granted_by_floor [of "granted s" ?nf] c by force
  also have "\<dots> \<le> (\<Sum>f<?nf. max_words_per_floor cfg + 1)"
  proof (rule sum_mono)
    fix f assume "f \<in> {..<?nf}"
    then have "int (arrivals s f + active s f) \<le> max_words_per_floor cfg + 1" using c by fastforce
    then show "int (arrivals s f) \<le> max_words_per_floor cfg + 1" by simp
  qed
  also have "\<dots> = num_floors cfg * (max_words_per_floor cfg + 1)" using assms(2) by simp
  finally show ?thesis .
qed

lemma admitted_granted:
  assumes "counts_ok mx nf s"
  shows "length (filter w_admitted (words s)) \<le> length (granted s)"
proof -
  have "length (filter w_admitted (words s)) = card {w. w < total_words s \<and> w_admitted (words s ! w)}"
    by (simp add: length_filter_conv_card total_words_def)
  also have "\<dots> \<le> card (fst ` set (granted s))" by (rule card_mono) (use assms in \<open>auto simp: counts_ok_def\<close>)
  also have "\<dots> \<le> length (granted s)" by (metis card_image_le card_length finite_set le_trans)
  finally show ?thesis .
qed

lemma completed_admitted:
  assumes "building_inv cfg b0 b"
  shows "length (filter w_completed (words (memory b))) \<le> length (filter w_admitted (words (memory b)))"
proof -
  have "filter w_completed (words (memory b)) = filter w_completed (filter w_admitted (words (memory b)))"
    unfolding filter_filter by (rule filter_cong) (use all_words [OF assms] in \<open>auto simp: word_ok_def\<close>)
  then show ?thesis by (metis length_filter_le)
qed

text \<open>C27: a word that has been completed is taken off its sorting floor only, never off the floor it
  arrived on.  So at most (max. words + 1) words for each floor are ever let in, and with more words
  than that in the input the program never ends, whatever the schedule.\<close>

theorem arrival_floors_fill_up:
  assumes "sort_main chunks ok argv = Some (cfg, b0)" and "building_reach cfg b0 b"
  shows "int (length (filter w_admitted (words (memory b)))) \<le> num_floors cfg * (max_words_per_floor cfg + 1) \<and>
    (num_floors cfg * (max_words_per_floor cfg + 1) < int (total_words (memory b)) \<longrightarrow> \<not> shutdown (memory b))"
proof -
  note inv = sort_main_inv(1) [OF assms]
  note c = building_invD(6) [OF inv]
  have "1 \<le> num_floors cfg" using assms(1) by (auto simp: sort_main_def validate_args_def split: option.splits if_splits)
  then have a: "int (length (filter w_admitted (words (memory b)))) \<le> num_floors cfg * (max_words_per_floor cfg + 1)"
    using granted_bound [OF c] admitted_granted [OF c] by linarith
  have "int (total_words (memory b)) \<le> num_floors cfg * (max_words_per_floor cfg + 1)" if "shutdown (memory b)"
    using stopped_done [OF assms that] completed_admitted [OF inv] a by linarith
  then show ?thesis using a by linarith
qed

lemma arrival_floors_fill_up_witness:
  "length (filter w_admitted (words (memory demo_sorted))) = 1 \<and> (1::int) \<le> num_floors demo_cfg * (max_words_per_floor demo_cfg + 1)"
proof -
  have "length (filter w_admitted (words (memory demo_sorted))) = 1" by code_simp
  then show ?thesis using arrival_floors_fill_up [OF demo_sort_started demo_sorted_reach] by simp
qed

section \<open>One word\<close>

text \<open>C29: once all characters of a word have been delivered, a sorting process of its floor completes it in
  at most as many passes as the word has letters, and then every letter is in its place.\<close>

theorem sorting_terminates:
  assumes "word_ok w" and "all_delivered w" and "list_all id (occupied w)" and "w_admitted w" and "0 < word_len w"
  shows "w_completed (sort_passes (sorting_floor w) (word_len w) w) \<and>
    sorting_area (sort_passes (sorting_floor w) (word_len w) w) = original w"
proof (cases "w_completed w")
  case True
  then show ?thesis using passes_completed [OF True] completed_sorted [OF assms(1) True] by simp
next
  case False
  have "full w" using assms(1-3) by (simp add: full_def)
  from passes_complete [OF this assms(4) False refl assms(5)] show ?thesis
    using completed_sorted [of "sort_passes (sorting_floor w) (word_len w) w"] by (simp add: same_frame_def)
qed

definition demo_mixed :: word where
  "demo_mixed = (the (init_word (1, ''abca'', 0)))\<lparr>sorting_area := ''caba'', occupied := [True, True, True, True], w_admitted := True,
     tasks := map (\<lambda>t. t\<lparr>t_claimed := True, t_delivered := True\<rparr>) (tasks (the (init_word (1, ''abca'', 0))))\<rparr>"

lemma sorting_terminates_witness: "sorting_area (sort_passes 0 4 demo_mixed) = ''abca''"
proof -
  have "word_ok demo_mixed"
  proof -
    have "placed demo_mixed = delivered_chars demo_mixed" by (simp add: placed_def slots_def delivered_chars_def demo_mixed_def init_word_def
          MAX_WORD_LEN_def Let_def upt_conv_Cons)
    moreover have "\<forall>i < word_len demo_mixed. \<not> fixed demo_mixed ! i"
      by (simp add: demo_mixed_def init_word_def MAX_WORD_LEN_def Let_def less_Suc_eq)
    ultimately show ?thesis
      by (simp add: word_ok_def) (simp add: demo_mixed_def init_word_def MAX_WORD_LEN_def Let_def upt_conv_Cons)
  qed
  moreover have "all_delivered demo_mixed" "list_all id (occupied demo_mixed)" "w_admitted demo_mixed"
    "word_len demo_mixed = 4" "sorting_floor demo_mixed = 0" "original demo_mixed = ''abca''" by code_simp+
  ultimately show ?thesis using sorting_terminates [of demo_mixed] by simp
qed

section \<open>The input file\<close>

text \<open>C31: the lines the program accepts are exactly those of a number, a word of small letters and a number
  with one blank between; and a file of such records is read back completely, in whatever pieces
  \<open>read\<close> delivers it.\<close>

theorem input_file_roundtrip:
  assumes "list_all record_ok rs" and "\<forall>c \<in> set chunks. c \<noteq> []" and "concat chunks = concat (map (\<lambda>r. record_line r @ [LF]) rs)"
  shows "read_input chunks None = Some rs \<and>
    is_valid_line line = (\<exists>i w f. line = i @ CHR '' '' # w @ CHR '' '' # f \<and> fields_ok i w f)"
proof -
  have "LF \<noteq> NUL" by (simp add: char_class_defs)
  then have nul: "NUL \<notin> set (concat chunks)"
    unfolding assms(3) using assms(1) record_line_ok(6) by (auto simp: list_all_iff)
  have "\<forall>c \<in> set chunks. c \<noteq> [] \<and> NUL \<notin> set c" using assms(2) nul unfolding set_concat by blast
  from read_input_records [OF this assms(1), of None] assms(3) is_valid_line_iff [of line] show ?thesis by simp
qed

lemma input_file_roundtrip_witness: "read_input [''12 a'', ''b 3'' @ [LF], ''4 c 0'', [LF]] None = Some [(12, ''ab'', 3), (4, ''c'', 0)]"
proof -
  have "list_all record_ok [(12, ''ab'', 3), (4, ''c'', 0)]" by code_simp
  moreover have "concat [''12 a'', ''b 3'' @ [LF], ''4 c 0'', [LF]] = concat (map (\<lambda>r. record_line r @ [LF]) [(12, ''ab'', 3), (4, ''c'', 0)])"
    by code_simp
  ultimately show ?thesis using input_file_roundtrip [of "[(12, ''ab'', 3), (4, ''c'', 0)]" "[''12 a'', ''b 3'' @ [LF], ''4 c 0'', [LF]]"] by simp
qed

end
