(* ===== verification/Sort_Missed.thy ===== *)
theory Sort_Missed
  imports Sort_Properties
begin

text \<open>
  A letter carrier polls for the arrival of the delivery elevator.  When the elevator has come and
  gone before the carrier looks, its request is cleared and nothing calls the elevator back.
\<close>

section \<open>A missed arrival\<close>

definition missed :: "nat \<Rightarrow> nat \<Rightarrow> nat \<Rightarrow> building \<Rightarrow> bool" where
  "missed a w t b \<longleftrightarrow>
     a < length (procs b) \<and> (\<exists>home fl idle. procs b ! a = Letter_Carrier home fl idle (LC_Wait (Deliver w t))) \<and>
     \<not> shutdown (memory b) \<and> current_floor (delivery (memory b)) \<noteq> int (dest_of (Deliver w t) (memory b)) \<and>
     request_sem (delivery (memory b)) = 0 \<and> (\<forall>pc. Delivery_Elevator pc \<in> set (procs b) \<longrightarrow> pc = EL_Sem) \<and>
     (\<forall>j < length (procs b). j \<noteq> a \<longrightarrow> carrying (procs b ! j) = None) \<and>
     (\<forall>wd \<in> set (words (memory b)). list_all t_claimed (tasks wd))"

lemma missed_step_upd:
  assumes m: "missed a w t b" and j: "j < length (procs b)" "j \<noteq> a" and w: "w < total_words (memory b)" "t < word_len (words (memory b) ! w)"
    and b': "b' = \<lparr>procs = (procs b)[j := p] @ new, memory = s\<rparr>"
    and s: "shutdown s = shutdown (memory b)" "delivery s = delivery (memory b)"
      "t_dest_floor (tasks (words s ! w) ! t) = t_dest_floor (tasks (words (memory b) ! w) ! t)"
      "\<forall>wd \<in> set (words s). list_all t_claimed (tasks wd)"
    and p: "carrying p = None" "\<And>pc. p = Delivery_Elevator pc \<Longrightarrow> pc = EL_Sem"
      "\<And>q. q \<in> set new \<Longrightarrow> carrying q = None \<and> (\<forall>pc. q \<noteq> Delivery_Elevator pc)"
  shows "missed a w t b'"
proof -
  have nth: "procs b' ! k = (if k = j then p else if k < length (procs b) then procs b ! k else new ! (k - length (procs b)))"
    if "k < length (procs b')" for k using that j(1) by (auto simp: b' nth_append nth_list_update)
  have "carrying (procs b' ! k) = None" if k: "k < length (procs b')" "k \<noteq> a" for k
    using nth [OF k(1)] m k p(1) p(3) [of "new ! (k - length (procs b))"] by (auto simp: missed_def b')
  moreover have "pc = EL_Sem" if "Delivery_Elevator pc \<in> set (procs b')" for pc
  proof -
    have "Delivery_Elevator pc \<in> set ((procs b)[j := p]) \<or> Delivery_Elevator pc \<in> set new" using that by (simp add: b')
    then have "Delivery_Elevator pc = p \<or> Delivery_Elevator pc \<in> set (procs b)"
      using set_update_subset_insert [of "procs b" j p] p(3) by blast
    then show ?thesis using m p(2) by (auto simp: missed_def)
  qed
  moreover have "a < length (procs b')" "procs b' ! a = procs b ! a" using m j by (auto simp: missed_def b' nth_append)
  ultimately show ?thesis using m s by (auto simp: missed_def b' dest_of_def)
qed

lemma words_claimed_upd:
  assumes "\<forall>wd \<in> set (words s). list_all t_claimed (tasks wd)" "list_all t_claimed (tasks (f (words s ! w)))"
  shows "\<forall>wd \<in> set (words (upd_word w f s)). list_all t_claimed (tasks wd)"
  using assms set_update_subset_insert [of "words s" w "f (words s ! w)"] by auto

lemma upd_task_nth:
  "n < length (tasks x) \<Longrightarrow> tasks (upd_task j g x) ! n = (if n = j then g (tasks x ! n) else tasks x ! n)"
  "length (tasks (upd_task j g x)) = length (tasks x)"
  by (auto simp: upd_task_def nth_list_update)

definition keeps_tasks :: "(word \<Rightarrow> word) \<Rightarrow> bool" where
  "keeps_tasks f \<longleftrightarrow> (\<forall>x. length (tasks (f x)) = length (tasks x) \<and>
     (\<forall>n < length (tasks x). t_claimed (tasks (f x) ! n) = t_claimed (tasks x ! n) \<and>
        t_dest_floor (tasks (f x) ! n) = t_dest_floor (tasks x ! n)))"

lemma keeps_flags:
  "keeps_tasks (\<lambda>x. x\<lparr>w_claimed := c\<rparr>)" "keeps_tasks (\<lambda>x. x\<lparr>arrival_floor := a\<rparr>)" "keeps_tasks (\<lambda>x. x\<lparr>w_admitted := c\<rparr>)"
  "keeps_tasks (upd_task j (\<lambda>t. t\<lparr>t_src_floor := a\<rparr>))"
  by (simp_all add: keeps_tasks_def upd_task_nth)

definition same_tasks :: "shm \<Rightarrow> shm \<Rightarrow> bool" where
  "same_tasks s s' \<longleftrightarrow> (\<forall>wd \<in> set (words s'). list_all t_claimed (tasks wd)) \<and>
    (\<forall>v < total_words s. \<forall>t < length (tasks (words s ! v)). t_dest_floor (tasks (words s' ! v) ! t) = t_dest_floor (tasks (words s ! v) ! t))"

lemma same_tasks_upd:
  assumes f: "keeps_tasks f" and c: "\<forall>wd \<in> set (words s). list_all t_claimed (tasks wd)"
  shows "same_tasks s (upd_word v f s)"
proof -
  have "list_all t_claimed (tasks (f x))" if "list_all t_claimed (tasks x)" for x
    using f that by (auto simp: keeps_tasks_def list_all_length)
  then have "\<forall>wd \<in> set (words (upd_word v f s)). list_all t_claimed (tasks wd)"
    using c by (cases "v < length (words s)") (auto simp: list_update_beyond dest: set_update_subset_insert [THEN subsetD])
  moreover have "words (upd_word v f s) ! u = (if u = v then f (words s ! u) else words s ! u)" if "u < total_words s" for u
    using that by (cases "u = v") (auto simp: total_words_def)
  ultimately show ?thesis using f by (auto simp: same_tasks_def keeps_tasks_def)
qed

lemma same_tasks_refl: "words s' = words s \<Longrightarrow> \<forall>wd \<in> set (words s). list_all t_claimed (tasks wd) \<Longrightarrow> same_tasks s s'"
  by (simp add: same_tasks_def)

lemma delivery_upd_word [simp]: "delivery (upd_word v f s) = delivery s"
  by (simp add: upd_word_def)

lemma word_carrier_tasks:
  assumes "word_carrier_step mx fl pc s = (pc', s')" "\<forall>wd \<in> set (words s). list_all t_claimed (tasks wd)"
  shows "delivery s' = delivery s \<and> same_tasks s s'"
  using assms
  by (cases pc) (auto simp: Let_def split: if_splits option.splits intro: same_tasks_refl
      same_tasks_upd [OF keeps_flags(1)] same_tasks_upd [OF keeps_flags(2)] same_tasks_upd [OF keeps_flags(3)] same_tasks_upd [OF keeps_flags(4)])

lemma letter_carrier_tasks:
  assumes "letter_carrier_step nf x fl idle pc s = ((fl', idle', pc'), s')" "\<forall>wd \<in> set (words s). list_all t_claimed (tasks wd)"
    and "lc_task pc = None" "about_ok n s (Letter_Carrier home fl idle pc)" "\<forall>w < total_words s. word_len (words s ! w) = length (tasks (words s ! w))"
  shows "delivery s' = delivery s \<and> words s' = words s \<and> lc_task pc' = None"
proof -
  have locked: "t_claimed (tasks (words s ! v) ! t)" if "pc = LC_Lock v t" for v t
    using assms(2,4,5) that by (auto simp: total_words_def list_all_length)
  have move: "\<exists>d. e = Move d" if "errand_task e = None" for e using that by (cases e) auto
  show ?thesis
  proof (cases pc)
    case (LC_Lock v t)
    then show ?thesis using assms(1) locked [OF LC_Lock] by (auto simp: Let_def)
  qed (use assms(1,3) in \<open>auto simp: Let_def upd_lift_def ride_over_def dest!: move split: if_splits errand.splits\<close>)
qed

lemma missed_stays:
  assumes m: "missed a w t b" and w: "w < total_words (memory b)" "t < word_len (words (memory b) ! w)"
    and inv: "building_inv cfg b0 b" "stop_inv b" and nd: "\<not> t_delivered (tasks (words (memory b) ! w) ! t)"
    and st: "building_step cfg b b'"
  shows "missed a w t b'"
  using st
proof cases
  case (proc_moves j x busy p s new)
  let ?s = "memory b"
  note D = building_invD [OF inv(1)]
  note pr = proc_moves(3) [unfolded process_step_def]
  have claimed: "\<forall>wd \<in> set (words ?s). list_all t_claimed (tasks wd)" and stop: "\<not> shutdown ?s" using m by (auto simp: missed_def)
  have lens: "\<forall>v < total_words ?s. word_len (words ?s ! v) = length (tasks (words ?s ! v))" using D(2) word_okD(5) by simp
  have tl: "t < length (tasks (words ?s ! w))" using lens w by simp
  have running: "Monitor MO_Stop \<notin> set (procs b)"
  proof
    assume "Monitor MO_Stop \<in> set (procs b)"
    then have "total_words ?s \<le> done_count ?s" using inv(2) by (simp add: stop_inv_def)
    moreover have "\<not> w_completed (words ?s ! w)"
      using D(2) [OF w(1)] nd tl by (auto simp: word_ok_def all_delivered_def list_all_length)
    then have "length (filter w_completed (words ?s)) < length (words ?s)"
      using List.length_filter_less [of "words ?s ! w" "words ?s" w_completed] w(1) by (simp add: total_words_def)
    ultimately show False using D(6) by (simp add: counts_ok_def total_words_def)
  qed
  show ?thesis
  proof (cases "j = a")
    case True
    then have "procs b ! j = p" "s = ?s" "new = []"
      using m pr stop by (auto simp: missed_def lift_of_def dest_of_def)
    then have "b' = b" using proc_moves(1,2) by (metis append_Nil2 building.surjective list_update_id unit.exhaust)
    then show ?thesis using m by simp
  next
    case other: False
    have none: "carrying (procs b ! j) = None" using m proc_moves(2) other by (simp add: missed_def)
    note upd = missed_step_upd [OF m proc_moves(2) other w proc_moves(1)]
    have ab: "about_ok (nat (num_floors cfg)) ?s (procs b ! j)" using D(3) proc_moves(2) by simp
    show ?thesis
    proof (cases "procs b ! j")
      case (Word_Carrier fl pc)
      obtain pc' s1 where wc: "word_carrier_step (max_words_per_floor cfg) fl pc ?s = (pc', s1)"
        by (cases "word_carrier_step (max_words_per_floor cfg) fl pc ?s")
      then have e: "p = Word_Carrier fl pc'" "s = s1" "new = []" using pr Word_Carrier by auto
      show ?thesis
        by (rule upd) (use e word_carrier_tasks [OF wc claimed] word_carrier_frame [OF wc] tl w in \<open>auto simp: same_tasks_def\<close>)
    next
      case (Letter_Carrier home fl idle pc)
      obtain fl' idle' pc' s1 where lc: "letter_carrier_step (nat (num_floors cfg)) x fl idle pc ?s = ((fl', idle', pc'), s1)"
        by (cases "letter_carrier_step (nat (num_floors cfg)) x fl idle pc ?s") auto
      then have e: "p = Letter_Carrier home fl' idle' pc'" "s = s1" "new = []" using pr Letter_Carrier by auto
      have "lc_task pc = None" using none Letter_Carrier by simp
      from letter_carrier_tasks [OF lc claimed this ab [unfolded Letter_Carrier] lens] letter_carrier_frame [OF lc]
      show ?thesis by (intro upd) (use e claimed in auto)
    next
      case (Sorter fl pc)
      obtain pc' s1 where sp: "sorter_step busy fl pc ?s = (pc', s1)" by (cases "sorter_step busy fl pc ?s")
      then have e: "p = Sorter fl pc'" "s = s1" "new = []" using pr Sorter by auto
      have tsk: "delivery s1 = delivery ?s \<and> map tasks (words s1) = map tasks (words ?s)"
        using sp
      proof (cases "(\<exists>v < total_words ?s. pc = SP_Word v) \<and> \<not> busy")
        case True
        then obtain v where v: "v < total_words ?s" "pc = SP_Word v" "\<not> busy" by blast
        obtain y ch dn where y: "sort_word fl (words ?s ! v) = (y, ch, dn)" by (cases "sort_word fl (words ?s ! v)")
        have "tasks y = tasks (words ?s ! v)" using sort_word_ok [OF D(2) [OF v(1)] y] by (simp add: same_frame_def)
        then have "map tasks ((words ?s)[v := y]) = map tasks (words ?s)"
          unfolding map_update using v(1) by (metis list_update_id nth_map total_words_def)
        then show ?thesis using sp v y by (auto simp: sort_step_def Let_def)
      qed (cases pc; auto simp: sort_step_def split: if_splits)
      have len: "length (words s1) = length (words ?s)" using tsk by (metis length_map)
      have same: "tasks (words s1 ! v) = tasks (words ?s ! v)" if "v < total_words ?s" for v
        using tsk that len by (metis nth_map total_words_def)
      have "\<forall>wd \<in> set (words s1). list_all t_claimed (tasks wd)"
        using claimed same len by (metis in_set_conv_nth total_words_def)
      then show ?thesis
        by (intro upd) (use e tsk same [OF w(1)] sorter_frame [OF sp] in auto)
    next
      case (Delivery_Elevator pc)
      then have "Delivery_Elevator pc \<in> set (procs b)" using proc_moves(2) by (metis nth_mem)
      then have "pc = EL_Sem" using m by (auto simp: missed_def)
      then show ?thesis using pr Delivery_Elevator m by (simp add: missed_def)
    next
      case (Reposition_Elevator pc)
      then show ?thesis by (intro upd) (use pr claimed in auto)
    next
      case (Monitor pc)
      have "Monitor pc \<in> set (procs b)" using Monitor proc_moves(2) by (metis nth_mem)
      then have "pc \<noteq> MO_Stop" using running by auto
      then have "s = ?s \<and> (\<exists>pc'. p = Monitor pc') \<and> (\<forall>q \<in> set new. \<exists>f k. q = Letter_Carrier f f 0 (LC_Init k))"
        using pr Monitor by (cases pc) (auto split: if_splits)
      then show ?thesis by (intro upd) (use claimed in auto)
    qed
  qed
qed

lemma missed_reach:
  assumes "building_reach cfg b b'" "missed a w t b" "building_inv cfg b0 b" "stop_inv b"
  shows "missed a w t b' \<and> building_inv cfg b0 b' \<and> stop_inv b'"
  using assms
proof (induction rule: building_reach.induct)
  case (reach_step c c')
  then have c: "missed a w t c" "building_inv cfg b0 c" "stop_inv c" by simp_all
  note D = building_invD [OF c(2)]
  have "a < length (procs c)" "carrying (procs c ! a) = Some (w, t)" using c(1) by (auto simp: missed_def)
  from D(5) [OF this] missed_stays [OF c(1) _ _ c(2,3) _ reach_step.hyps(2)] step_inv [OF c(2) reach_step.hyps(2)]
    stop_step [OF c(2,3) reach_step.hyps(2)]
  show ?case by blast
qed simp

definition late_cfg :: t_config where
  "late_cfg = \<lparr>num_floors = 2, word_carriers_per_floor = 1, letter_carriers_per_floor = 1, sorting_processes_per_floor = 1,
     max_words_per_floor = 2, delivery_elevator_capacity = 2, reposition_elevator_capacity = 1,
     input_file = Some ''in'', output_file = Some ''out''\<rparr>"

definition late_argv :: "string list" where
  "late_argv = [''-f'', ''2'', ''-w'', ''1'', ''-l'', ''1'', ''-s'', ''1'', ''-c'', ''2'', ''-d'', ''2'', ''-r'', ''1'', ''-i'', ''in'', ''-o'', ''out'']"

definition late_words :: "(int \<times> string \<times> int) list" where
  "late_words = [(1, ''a'', 1), (2, ''b'', 0)]"

definition late_building :: building where
  "late_building = the (start_building late_cfg late_words)"

lemma late_started:
  "sort_main (\<lambda>_. Some [''1 a 1'' @ [LF] @ ''2 b 0'' @ [LF]]) True late_argv = Some (late_cfg, late_building)"
proof -
  have "parse_args late_argv = Some late_cfg" by code_simp
  moreover have "validate_args (\<lambda>f. Some [''1 a 1'' @ [LF] @ ''2 b 0'' @ [LF]] \<noteq> None) late_cfg"
    by (simp add: validate_args_def late_cfg_def)
  moreover have "read_input [''1 a 1'' @ [LF] @ ''2 b 0'' @ [LF]] None = Some late_words" by code_simp
  moreover have "validate_words late_words late_cfg" by code_simp
  moreover have "start_building late_cfg late_words \<noteq> None" by code_simp
  ultimately show ?thesis by (auto simp: sort_main_def late_building_def late_cfg_def)
qed

definition late_moves :: "(nat \<times> nat \<times> bool) list" where
  "late_moves = replicate 10 (0, 0, False) @ replicate 10 (3, 0, False) @ replicate 11 (1, 0, False) @ replicate 12 (4, 0, False) @
     replicate 21 (6, 0, False) @ replicate 5 (4, 0, False)"

definition late_end :: building where
  "late_end = run_building late_cfg late_moves late_building"

lemma late_reach: "building_reach late_cfg late_building late_end"
  unfolding late_end_def by (rule run_building_reach [OF reach_start])

text \<open>C28: an arrival can be missed for good.  When the delivery elevator has served its requests and left while
  a letter carrier had not yet looked, and nobody else carries anything, the carrier waits for ever:
  its character is never delivered, its word never completed and the program never told to stop.\<close>

theorem missed_arrival_hangs:
  assumes "sort_main chunks ok argv = Some (cfg, b0)" and "building_reach cfg b0 b" and "missed a w t b"
    and "building_reach cfg b b'"
  shows "missed a w t b' \<and> \<not> shutdown (memory b') \<and> \<not> t_delivered (tasks (words (memory b') ! w) ! t) \<and>
    \<not> w_completed (words (memory b') ! w)"
proof -
  have inv0: "building_inv cfg b0 b0" by (rule sort_main_inv(1) [OF assms(1) reach_start])
  have "\<exists>inputs. start_building cfg inputs = Some b0" using sort_main_inv(2) [OF assms(1) reach_start] by blast
  then have "stop_inv b0"
    by (auto simp: stop_inv_def start_building_def shm_init_def spawn_all_def spawn_floor_def)
  from missed_reach [OF assms(4,3) reach_building_inv [OF assms(2) inv0] reach_stop [OF assms(2) inv0 this]]
  have m: "missed a w t b'" and inv: "building_inv cfg b0 b'" by auto
  note D = building_invD [OF inv]
  have "a < length (procs b')" "carrying (procs b' ! a) = Some (w, t)" using m by (auto simp: missed_def)
  from D(5) [OF this] have c: "w < total_words (memory b')" "t < word_len (words (memory b') ! w)"
      "\<not> t_delivered (tasks (words (memory b') ! w) ! t)" by blast+
  then have "\<not> w_completed (words (memory b') ! w)"
    using D(2) [OF c(1)] by (auto simp: word_ok_def all_delivered_def list_all_length)
  then show ?thesis using m c by (simp add: missed_def)
qed

lemma late_missed: "missed 1 0 0 late_end"
proof -
  have "length (procs late_end) = 9 \<and> procs late_end ! 1 = Letter_Carrier 0 0 0 (LC_Wait (Deliver 0 0))" by code_simp
  moreover have "list_all (\<lambda>p. \<forall>pc \<in> set [EL_Loop, EL_Check, EL_Move, EL_Post, EL_End]. p \<noteq> Delivery_Elevator pc) (procs late_end)" by code_simp
  moreover have "list_all (\<lambda>j. j \<noteq> 1 \<longrightarrow> carrying (procs late_end ! j) = None) [0..<9]" by code_simp
  moreover have "\<not> shutdown (memory late_end) \<and> current_floor (delivery (memory late_end)) \<noteq> int (dest_of (Deliver 0 0) (memory late_end)) \<and>
      request_sem (delivery (memory late_end)) = 0 \<and> list_all (\<lambda>wd. list_all t_claimed (tasks wd)) (words (memory late_end))"
    by code_simp
  moreover have "pc = EL_Sem \<or> pc \<in> set [EL_Loop, EL_Check, EL_Move, EL_Post, EL_End]" for pc by (cases pc) simp_all
  ultimately show ?thesis unfolding missed_def list_all_iff by (metis atLeastLessThan_iff bot_nat_0.extremum one_less_numeral_iff semiring_norm(77) set_upt)
qed

lemma missed_arrival_hangs_witness: "\<not> shutdown (memory (run_building late_cfg [(1, 0, False), (6, 0, False), (8, 0, False)] late_end))"
  using missed_arrival_hangs [OF late_started late_reach late_missed run_building_reach [OF reach_start, of _ _ "[(1, 0, False), (6, 0, False), (8, 0, False)]"]]
  by blast

end
