(* ===== verification/File_Tree.thy ===== *)
theory File_Tree
  imports C_Library
begin

text \<open>
  A tree of files as the directory searches of \<open>HW1\<close> and \<open>HW2\<close> meet it: what \<open>lstat\<close> says of an entry and
  the entries \<open>readdir\<close> returns for a directory, in that order and with those for the directory
  itself and its parent.
\<close>

datatype file_type = S_REG | S_DIR | S_LNK | S_BLK | S_CHR | S_FIFO | S_SOCK

record stat =
  st_type :: file_type
  st_perm :: nat
  st_nlink :: int
  st_size :: int

text \<open>The listing is \<open>None\<close> when \<open>opendir\<close> fails; \<open>No_Stat\<close> is an entry \<open>lstat\<close> fails on.\<close>

datatype node = No_Stat | Node stat "(string \<times> node) list option"

type_synonym listing = "(string \<times> node) list option"

abbreviation S_ISDIR :: "stat \<Rightarrow> bool" where
  "S_ISDIR st \<equiv> st_type st = S_DIR"

definition is_dot :: "string \<Rightarrow> bool" where
  "is_dot n \<longleftrightarrow> n = ''.'' \<or> n = ''..''"

definition path_join :: "string \<Rightarrow> string \<Rightarrow> string" where
  "path_join path n = path @ ''/'' @ n"

text \<open>The measures of recursions over a tree.\<close>

abbreviation entries_size :: "(string \<times> node) list \<Rightarrow> nat" where
  "entries_size es \<equiv> size_list (size_prod (\<lambda>_. 0) size) es"

abbreviation listing_size :: "listing \<Rightarrow> nat" where
  "listing_size d \<equiv> size_option (size_list (size_prod (\<lambda>_. 0) size)) d"

end
