(* ===== verification/Find_Pattern.thy ===== *)
theory Find_Pattern
  imports C_Library
begin

text \<open>
  The file name patterns of \<open>HW1/src/regex.c\<close> and \<open>HW2/src/regex.c\<close>: letters of either case, and
  \<open>c+\<close> for one or more of a character.  HW1 matches a whole name, HW2 any part of one.
\<close>

section \<open>The matchers\<close>

text \<open>The loop over \<open>filename\<close> after \<open>c+\<close> is a function of its own; \<open>q\<close> is \<open>pattern + 2\<close>.\<close>

fun regex_match :: "string \<Rightarrow> string \<Rightarrow> bool"
  and regex_match_plus :: "char \<Rightarrow> string \<Rightarrow> string \<Rightarrow> bool" where
  "regex_match [] s = (s = [])"
| "regex_match (p # ps) s =
     (let c = to_lower p in
      if ps \<noteq> [] \<and> hd ps = CHR ''+'' then
        (if s = [] \<or> to_lower (hd s) \<noteq> c then False else regex_match_plus c (tl ps) s)
      else if s \<noteq> [] \<and> to_lower (hd s) = c then regex_match ps (tl s)
      else False)"
| "regex_match_plus c q [] = False"
| "regex_match_plus c q (x # s) =
     (if to_lower x = c then (if regex_match q s then True else regex_match_plus c q s) else False)"

fun match :: "string \<Rightarrow> string \<Rightarrow> bool"
  and match_plus :: "char \<Rightarrow> string \<Rightarrow> string \<Rightarrow> bool" where
  "match [] s = True"
| "match (p # ps) s =
     (let c = to_lower p in
      if ps \<noteq> [] \<and> hd ps = CHR ''+'' then
        (if s = [] \<or> to_lower (hd s) \<noteq> c then False else match_plus c (tl ps) s)
      else if s \<noteq> [] \<and> to_lower (hd s) = c then match ps (tl s)
      else False)"
| "match_plus c q [] = False"
| "match_plus c q (x # s) =
     (if to_lower x = c then (if match q s then True else match_plus c q s) else False)"

fun regex :: "string \<Rightarrow> string \<Rightarrow> bool" where
  "regex p [] = match p []"
| "regex p (x # s) = (if match p (x # s) then True else regex p s)"

section \<open>The language of a pattern\<close>

datatype atom = One char | Many char

fun atoms :: "string \<Rightarrow> atom list" where
  "atoms [] = []"
| "atoms (p # ps) =
     (if ps \<noteq> [] \<and> hd ps = CHR ''+'' then Many (to_lower p) # atoms (tl ps) else One (to_lower p) # atoms ps)"

fun lang :: "atom list \<Rightarrow> string set" where
  "lang [] = {[]}"
| "lang (One c # as) = {c # s |s. s \<in> lang as}"
| "lang (Many c # as) = {replicate (Suc n) c @ s |n s. s \<in> lang as}"

lemma lang_Many_Cons: "x # s \<in> lang (Many c # as) \<longleftrightarrow> x = c \<and> (s \<in> lang as \<or> s \<in> lang (Many c # as))"
proof
  assume "x # s \<in> lang (Many c # as)"
  then obtain n r where r: "x = c" "s = replicate n c @ r" "r \<in> lang as" by auto
  then show "x = c \<and> (s \<in> lang as \<or> s \<in> lang (Many c # as))" by (cases n) auto
next
  assume a: "x = c \<and> (s \<in> lang as \<or> s \<in> lang (Many c # as))"
  have "\<exists>n r. x # s = replicate (Suc n) c @ r \<and> r \<in> lang as"
  proof (cases "s \<in> lang as")
    case True
    then show ?thesis using a by (intro exI [of _ 0] exI [of _ s]) simp
  next
    case False
    then obtain n r where "s = replicate (Suc n) c @ r" "r \<in> lang as" using a by auto
    then show ?thesis using a by (intro exI [of _ "Suc n"] exI [of _ r]) simp
  qed
  then show "x # s \<in> lang (Many c # as)" by simp
qed

lemma lang_Many_Nil: "[] \<notin> lang (Many c # as)"
  by simp

lemma plus_starts:
  "regex_match_plus c q s \<Longrightarrow> s \<noteq> [] \<and> to_lower (hd s) = c"
  "match_plus c q s \<Longrightarrow> s \<noteq> [] \<and> to_lower (hd s) = c"
  by (cases s; auto split: if_splits)+

lemma regex_match_Cons:
  "regex_match (p # ps) s =
     (if ps \<noteq> [] \<and> hd ps = CHR ''+'' then regex_match_plus (to_lower p) (tl ps) s
      else s \<noteq> [] \<and> to_lower (hd s) = to_lower p \<and> regex_match ps (tl s))"
  using plus_starts(1) [of "to_lower p" "tl ps" s] by (auto simp: Let_def)

lemma match_Cons:
  "match (p # ps) s =
     (if ps \<noteq> [] \<and> hd ps = CHR ''+'' then match_plus (to_lower p) (tl ps) s
      else s \<noteq> [] \<and> to_lower (hd s) = to_lower p \<and> match ps (tl s))"
  using plus_starts(2) [of "to_lower p" "tl ps" s] by (auto simp: Let_def)

lemma regex_match_lang:
  "regex_match p s \<longleftrightarrow> map to_lower s \<in> lang (atoms p)"
  "regex_match_plus c q s \<longleftrightarrow> map to_lower s \<in> lang (Many c # atoms q)"
proof (induction p s and c q s rule: regex_match_regex_match_plus.induct)
  case (2 p ps s)
  show ?case
  proof (cases "ps \<noteq> [] \<and> hd ps = CHR ''+''")
    case True
    show ?thesis
    proof (cases "s = [] \<or> to_lower (hd s) \<noteq> to_lower p")
      case True
      then have "\<not> regex_match_plus (to_lower p) (tl ps) s" "map to_lower s \<notin> lang (Many (to_lower p) # atoms (tl ps))"
        using plus_starts(1) [of "to_lower p" "tl ps" s] lang_Many_Nil by (cases s; auto simp: lang_Many_Cons simp del: lang.simps(3))+
      then show ?thesis using \<open>ps \<noteq> [] \<and> hd ps = CHR ''+''\<close> by (simp add: regex_match_Cons del: lang.simps(3) regex_match.simps(2))
    next
      case False
      then show ?thesis using 2(1) True by (simp add: regex_match_Cons del: lang.simps(3) regex_match.simps(2))
    qed
  next
    case False
    then show ?thesis using 2(2) by (cases s) (auto simp: regex_match_Cons simp del: regex_match.simps(2))
  qed
next
  case (4 c q x s)
  then show ?case by (auto simp: lang_Many_Cons simp del: lang.simps(3))
qed (auto simp: lang_Many_Nil)

lemma match_regex_match:
  "match p s \<longleftrightarrow> (\<exists>n. regex_match p (take n s))"
  "match_plus c q s \<longleftrightarrow> (\<exists>n. regex_match_plus c q (take n s))"
proof (induction p s and c q s rule: match_match_plus.induct)
  case (1 s)
  show ?case by (auto intro: exI [of _ 0])
next
  case (2 p ps s)
  show ?case
  proof (cases "ps \<noteq> [] \<and> hd ps = CHR ''+''")
    case True
    show ?thesis
    proof (cases "s = [] \<or> to_lower (hd s) \<noteq> to_lower p")
      case True
      then have "\<not> match_plus (to_lower p) (tl ps) s" "\<not> regex_match_plus (to_lower p) (tl ps) (take n s)" for n
        using plus_starts [of "to_lower p" "tl ps" s] plus_starts(1) [of "to_lower p" "tl ps" "take n s"] by (cases n; cases s; auto)+
      then show ?thesis using \<open>ps \<noteq> [] \<and> hd ps = CHR ''+''\<close> by (simp add: match_Cons regex_match_Cons del: match.simps(2) regex_match.simps(2))
    next
      case False
      then show ?thesis using 2(1) True by (simp add: match_Cons regex_match_Cons del: match.simps(2) regex_match.simps(2))
    qed
  next
    case False
    have "(\<exists>n. take n s \<noteq> [] \<and> to_lower (hd (take n s)) = to_lower p \<and> regex_match ps (tl (take n s))) \<longleftrightarrow>
        s \<noteq> [] \<and> to_lower (hd s) = to_lower p \<and> (\<exists>n. regex_match ps (take n (tl s)))"
    proof (cases s)
      case (Cons x r)
      have "(\<exists>n. take n s \<noteq> [] \<and> P (take n s)) \<longleftrightarrow> (\<exists>n. P (x # take n r))" for P
        using Cons by (metis list.discI not0_implies_Suc take0 take_Suc_Cons)
      from this [of "\<lambda>t. to_lower (hd t) = to_lower p \<and> regex_match ps (tl t)"] Cons show ?thesis by simp
    qed simp
    then show ?thesis using 2(2) False by (auto simp: match_Cons regex_match_Cons simp del: match.simps(2) regex_match.simps(2))
  qed
next
  case (4 c q x s)
  have "(\<exists>n. regex_match_plus c q (take n (x # s))) \<longleftrightarrow> (\<exists>n. regex_match_plus c q (x # take n s))"
    by (metis not0_implies_Suc regex_match_plus.simps(1) take0 take_Suc_Cons)
  then show ?case using 4 by auto
qed auto

lemma regex_suffix: "regex p s \<longleftrightarrow> (\<exists>u v. s = u @ v \<and> match p v)"
proof (induction s)
  case (Cons x s)
  show ?case using Cons by (auto simp: Cons_eq_append_conv)
qed simp

text \<open>C24: HW1 accepts exactly the names that belong to the language of the pattern, letters of either
  case being equal, and HW2 exactly those that contain a part which does.\<close>

theorem pattern_language:
  "(regex_match p s \<longleftrightarrow> map to_lower s \<in> lang (atoms p)) \<and>
   (regex p s \<longleftrightarrow> (\<exists>u v w. s = u @ v @ w \<and> map to_lower v \<in> lang (atoms p)))"
proof -
  have "match p v \<longleftrightarrow> (\<exists>a b. v = a @ b \<and> regex_match p a)" for v
    unfolding match_regex_match by (metis append_eq_conv_conj append_take_drop_id)
  then show ?thesis unfolding regex_suffix by (auto simp: regex_match_lang)
qed

end
