(* ===== verification/Find_Program.thy ===== *)
theory Find_Program
  imports File_Tree Find_Pattern
begin

text \<open>
  The file finder (\<open>HW1\<close>): its command line (\<open>parse_arguments.c\<close>), the comparison of a file with the
  criteria (\<open>compare.c\<close>), the search with the printing of the paths (\<open>search_directory.c\<close>,
  \<open>print_tree.c\<close>) and \<open>main\<close>.
\<close>

section \<open>Data\<close>

text \<open>\<open>t_file\<close>, \<open>t_path_info\<close> (a chain is a list, the innermost directory first) and the errors.\<close>

record t_file =
  link_count :: int
  file_size :: int
  target_dir :: "string option"
  filename :: "string option"
  file_type :: "string option"
  permissions :: "string option"

record path_info =
  pi_name :: string
  pi_depth :: nat
  pi_printed :: bool

datatype t_error = ERR_NO_VALUE | ERR_INVALID_PARAM | ERR_BAD_FORMAT | ERR_NO_TARGET_DIR | ERR_NO_CRITERIA | ERR_MUST_INT

abbreviation ESC :: char where "ESC \<equiv> CHR 0x1B"

section \<open>The command line\<close>

definition print_error :: "t_error \<Rightarrow> char \<Rightarrow> string \<Rightarrow> string" where
  "print_error e flag arg = ESC # ''[31m'' @
     (case e of
        ERR_NO_VALUE \<Rightarrow> ''ERROR!: No value was entered for parameter -'' @ [flag] @ ''.'' @ [LF]
      | ERR_INVALID_PARAM \<Rightarrow> ''ERROR! : Invalid parameter. -> '' @ ''-'' @ [flag] @ [LF]
      | ERR_BAD_FORMAT \<Rightarrow> ''ERROR! : Argument in unexpected format. -> '' @ arg @ [LF]
      | ERR_NO_TARGET_DIR \<Rightarrow> ''ERROR! : Parameter -w is mandatory.'' @ [LF]
      | ERR_NO_CRITERIA \<Rightarrow> ''ERROR! : At least one search criterion (-f, -b, -t, -p, -l) must be specified.'' @ [LF]
      | ERR_MUST_INT \<Rightarrow> ''ERROR! : Parameter must be followed by an integer value.'' @ [LF]) @
     ESC # ''[0m''"

text \<open>The flag with its value: an error message (result 0), or the criteria and whether it was a
  criterion (1) or the directory (2).\<close>

definition is_correct_flags :: "char \<Rightarrow> string \<Rightarrow> t_file \<Rightarrow> string + t_file \<times> bool" where
  "is_correct_flags flag v c =
     (if flag = CHR ''w'' then Inr (c\<lparr>target_dir := Some v\<rparr>, False)
      else if flag = CHR ''f'' then Inr (c\<lparr>filename := Some v\<rparr>, True)
      else if flag = CHR ''b'' then
        (if list_ex (\<lambda>x. \<not> is_digit x) v then Inl (print_error ERR_MUST_INT flag v)
         else Inr (c\<lparr>file_size := atoi v\<rparr>, True))
      else if flag = CHR ''t'' then Inr (c\<lparr>file_type := Some v\<rparr>, True)
      else if flag = CHR ''p'' then Inr (c\<lparr>permissions := Some v\<rparr>, True)
      else if flag = CHR ''l'' then
        (if list_ex (\<lambda>x. \<not> is_digit x) v then Inl (print_error ERR_MUST_INT flag v)
         else Inr (c\<lparr>link_count := atoi v\<rparr>, True))
      else Inl (print_error ERR_INVALID_PARAM flag []))"

fun parse_flags :: "string list \<Rightarrow> t_file \<Rightarrow> bool \<Rightarrow> string + t_file \<times> bool" where
  "parse_flags [] c has_criteria = Inr (c, has_criteria)"
| "parse_flags (a # as) c has_criteria =
     (if length a = 2 \<and> a ! 0 = CHR ''-'' then
        (case as of
           [] \<Rightarrow> Inl (print_error ERR_NO_VALUE (a ! 1) [])
         | v # bs \<Rightarrow>
             (case is_correct_flags (a ! 1) v c of
                Inl e \<Rightarrow> Inl e
              | Inr (c', crit) \<Rightarrow> parse_flags bs c' (has_criteria \<or> crit)))
      else Inl (print_error ERR_BAD_FORMAT NUL a))"

definition parse_arguments :: "string list \<Rightarrow> t_file \<Rightarrow> string + t_file" where
  "parse_arguments args c =
     (case parse_flags args c False of
        Inl e \<Rightarrow> Inl e
      | Inr (c', has_criteria) \<Rightarrow>
          (if target_dir c' = None then Inl (print_error ERR_NO_TARGET_DIR NUL [])
           else if \<not> has_criteria then Inl (print_error ERR_NO_CRITERIA NUL [])
           else Inr c'))"

section \<open>Comparing\<close>

definition mode_to_permission_string :: "nat \<Rightarrow> string" where
  "mode_to_permission_string m =
     [if bit m 8 then CHR ''r'' else CHR ''-'', if bit m 7 then CHR ''w'' else CHR ''-'', if bit m 6 then CHR ''x'' else CHR ''-'',
      if bit m 5 then CHR ''r'' else CHR ''-'', if bit m 4 then CHR ''w'' else CHR ''-'', if bit m 3 then CHR ''x'' else CHR ''-'',
      if bit m 2 then CHR ''r'' else CHR ''-'', if bit m 1 then CHR ''w'' else CHR ''-'', if bit m 0 then CHR ''x'' else CHR ''-'']"

definition is_correct_type :: "char \<Rightarrow> stat \<Rightarrow> bool" where
  "is_correct_type t st =
     (if t = CHR ''d'' \<and> st_type st \<noteq> S_DIR then False
      else if t = CHR ''f'' \<and> st_type st \<noteq> S_REG then False
      else if t = CHR ''l'' \<and> st_type st \<noteq> S_LNK then False
      else if t = CHR ''b'' \<and> st_type st \<noteq> S_BLK then False
      else if t = CHR ''c'' \<and> st_type st \<noteq> S_CHR then False
      else if t = CHR ''p'' \<and> st_type st \<noteq> S_FIFO then False
      else if t = CHR ''s'' \<and> st_type st \<noteq> S_SOCK then False
      else True)"

definition compare :: "stat \<Rightarrow> t_file \<Rightarrow> string \<Rightarrow> bool" where
  "compare st c name =
     (if (case filename c of None \<Rightarrow> False | Some p \<Rightarrow> \<not> regex_match p name) then False
      else if file_size c \<noteq> -1 \<and> st_size st \<noteq> file_size c then False
      else if link_count c \<noteq> -1 \<and> wrap32 (st_nlink st) \<noteq> link_count c then False
      else if (case file_type c of None \<Rightarrow> False | Some t \<Rightarrow> \<not> is_correct_type (if t = [] then NUL else hd t) st) then False
      else if (case permissions c of None \<Rightarrow> False | Some p \<Rightarrow> p \<noteq> mode_to_permission_string (st_perm st)) then False
      else True)"

section \<open>Printing\<close>

text \<open>The colour is reset with 5 bytes of a string of 4, so its final NUL is written, too.\<close>

definition print_tree :: "string \<Rightarrow> nat \<Rightarrow> bool \<Rightarrow> string" where
  "print_tree name depth is_dir =
     ESC # ''[1;33m'' @ ''|'' @ replicate (2 + (depth - 1) * 4) CHR ''-'' @ ESC # ''[0m'' @ [NUL] @
     (if is_dir then ESC # ''[32m'' else ESC # ''[37m'') @ name @ ESC # ''[0m'' @ [LF]"

fun print_path :: "path_info list \<Rightarrow> string list \<times> path_info list" where
  "print_path [] = ([], [])"
| "print_path (p # ps) =
     (if pi_printed p then ([], p # ps)
      else (case print_path ps of
              (ls, ps') \<Rightarrow> (ls @ [print_tree (pi_name p) (pi_depth p) True], p\<lparr>pi_printed := True\<rparr> # ps')))"

section \<open>Searching\<close>

text \<open>\<open>stop\<close> is the number of times \<open>g_stop_requested\<close> is still found clear, \<open>None\<close> when there is no
  signal.  \<open>fault\<close>: a path did not fit into the 1024 bytes of \<open>full_path\<close>, where the search ends.\<close>

record find_state =
  found_count :: nat
  out :: "string list"
  err :: "string list"
  stop :: "nat option"
  fault :: bool

definition stop_requested :: "find_state \<Rightarrow> bool \<times> find_state" where
  "stop_requested s = (stop s = Some 0, s\<lparr>stop := map_option (\<lambda>k. k - 1) (stop s)\<rparr>)"

definition complain :: "string \<Rightarrow> find_state \<Rightarrow> find_state" where
  "complain msg s = (case stop_requested s of (st, s') \<Rightarrow> if st then s' else s'\<lparr>err := err s' @ [msg]\<rparr>)"

text \<open>What happens for a match: the path to it, then the entry.\<close>

definition show_match :: "string \<Rightarrow> nat \<Rightarrow> bool \<Rightarrow> path_info list \<Rightarrow> find_state \<Rightarrow> path_info list \<times> find_state" where
  "show_match n depth is_dir chain s =
     (case print_path chain of
        (ls, chain') \<Rightarrow>
          (chain', s\<lparr>found_count := found_count s + 1, out := out s @ ls @ [print_tree n (depth + 1) is_dir]\<rparr>))"

function search_directory_internal :: "t_file \<Rightarrow> string \<Rightarrow> listing \<Rightarrow> nat \<Rightarrow> path_info list \<Rightarrow> find_state \<Rightarrow> path_info list \<times> find_state"
  and search_entries :: "t_file \<Rightarrow> string \<Rightarrow> (string \<times> node) list \<Rightarrow> nat \<Rightarrow> path_info list \<Rightarrow> find_state \<Rightarrow> path_info list \<times> find_state"
  and search_node :: "t_file \<Rightarrow> string \<Rightarrow> string \<Rightarrow> node \<Rightarrow> nat \<Rightarrow> path_info list \<Rightarrow> find_state \<Rightarrow> bool \<times> path_info list \<times> find_state" where
  "search_directory_internal c dir d depth chain s =
     (case stop_requested s of
        (st, s1) \<Rightarrow>
          if st then (chain, s1)
          else (case d of
                  None \<Rightarrow> (chain, complain (''Directory couldn'' @ [CHR 0x27] @ ''t be opened.'' @ [LF]) s1)
                | Some es \<Rightarrow> search_entries c dir es depth chain s1))"
| "search_entries c dir [] depth chain s = (case stop_requested s of (st, s1) \<Rightarrow> (chain, s1))"
| "search_entries c dir ((n, x) # es) depth chain s =
     (case stop_requested s of
        (st, s1) \<Rightarrow>
          if st then (chain, s1)
          else if is_dot n then search_entries c dir es depth chain s1
          else if 1024 \<le> length (path_join dir n) then (chain, s1\<lparr>fault := True, stop := Some 0\<rparr>)
          else (case search_node c (path_join dir n) n x depth chain s1 of
                  (quit, chain2, s2) \<Rightarrow> if quit then (chain2, s2) else search_entries c dir es depth chain2 s2))"
| "search_node c full n No_Stat depth chain s = (False, chain, complain (''lstat failed'' @ [LF]) s)"
| "search_node c full n (Node st d) depth chain s =
     (case stop_requested s of
        (q, s1) \<Rightarrow>
          if q then (True, chain, s1)
          else (let matched = compare st c n in
                case (if matched then show_match n depth (S_ISDIR st) chain s1 else (chain, s1)) of
                  (chain2, s2) \<Rightarrow>
                    if S_ISDIR st then
                      (case search_directory_internal c full d (depth + 1)
                              (\<lparr>pi_name = n, pi_depth = depth + 1, pi_printed = matched\<rparr> # chain2) s2 of
                         (chain3, s3) \<Rightarrow> (case stop_requested s3 of (q2, s4) \<Rightarrow> (q2, tl chain3, s4)))
                    else (False, chain2, s2)))"
  by pat_completeness auto
termination
  by (relation "measure (\<lambda>x. case x of
        Inl (c, dir, d, r) \<Rightarrow> listing_size d
      | Inr (Inl (c, dir, es, r)) \<Rightarrow> entries_size es
      | Inr (Inr (c, full, n, x, r)) \<Rightarrow> size x)") auto

definition search_directory :: "t_file \<Rightarrow> string \<Rightarrow> listing \<Rightarrow> nat \<Rightarrow> find_state \<Rightarrow> find_state" where
  "search_directory c dir d depth s = snd (search_directory_internal c dir d depth [] s)"

section \<open>The program\<close>

definition init_program :: "t_file" where
  "init_program = \<lparr>link_count = -1, file_size = -1, target_dir = None, filename = None, file_type = None, permissions = None\<rparr>"

definition print_target_dir :: "string \<Rightarrow> string" where
  "print_target_dir d = ESC # ''[35m'' @ d @ ESC # ''[0m'' @ [LF]"

definition check_signal :: "find_state \<Rightarrow> bool \<times> find_state" where
  "check_signal s =
     (case stop_requested s of
        (st, s1) \<Rightarrow> (st, if st then s1\<lparr>err := err s1 @ [ESC # ''[34m'', ''Interrupted by CTRL-C. Resources released, exiting.'' @ [LF], ESC # ''[0m'']\<rparr> else s1))"

text \<open>\<open>main\<close>: the exit status and what was written.  \<open>opendir\<close> gives the listing of the directory
  asked for; the handler of \<open>SIGINT\<close> can be installed.\<close>

definition find_main :: "(string \<Rightarrow> listing) \<Rightarrow> nat option \<Rightarrow> string list \<Rightarrow> int \<times> find_state" where
  "find_main opendir sig args =
     (let s0 = \<lparr>found_count = 0, out = [], err = [], stop = sig, fault = False\<rparr> in
      case parse_arguments args init_program of
        Inl e \<Rightarrow> (1, s0\<lparr>err := [e]\<rparr>)
      | Inr c \<Rightarrow>
          (case check_signal s0 of (q1, s1) \<Rightarrow>
             if q1 then (130, s1)
             else let dir = the (target_dir c);
                      s2 = search_directory c dir (opendir dir) 0 (s1\<lparr>out := out s1 @ [print_target_dir dir]\<rparr>) in
                  case check_signal s2 of (q2, s3) \<Rightarrow>
                    if q2 then (130, s3)
                    else if found_count s3 = 0 then (1, s3\<lparr>err := err s3 @ [''No file found.'' @ [LF]]\<rparr>)
                    else (0, s3)))"

end
