(* ===== verification/Find_Facts.thy ===== *)
theory Find_Facts
  imports Find_Program "HOL-Library.Sublist"
begin

text \<open>
  The search of \<open>HW1\<close> against the tree it prints: the entries that match, with the directories above
  them, in the order of the listings; and what a signal cuts off.
\<close>

section \<open>The tree of the matches\<close>

function pruned :: "t_file \<Rightarrow> nat \<Rightarrow> listing \<Rightarrow> string list"
  and pruned_entries :: "t_file \<Rightarrow> nat \<Rightarrow> (string \<times> node) list \<Rightarrow> string list"
  and pruned_node :: "t_file \<Rightarrow> nat \<Rightarrow> string \<Rightarrow> node \<Rightarrow> string list" where
  "pruned c depth None = []"
| "pruned c depth (Some es) = pruned_entries c depth es"
| "pruned_entries c depth [] = []"
| "pruned_entries c depth ((n, x) # es) = (if is_dot n then [] else pruned_node c depth n x) @ pruned_entries c depth es"
| "pruned_node c depth n No_Stat = []"
| "pruned_node c depth n (Node st d) =
     (let below = (if S_ISDIR st then pruned c (depth + 1) d else []) in
      if compare st c n \<or> below \<noteq> [] then print_tree n (depth + 1) (S_ISDIR st) # below else [])"
  by pat_completeness auto
termination
  by (relation "measure (\<lambda>x. case x of Inl (c, depth, d) \<Rightarrow> listing_size d | Inr (Inl (c, depth, es)) \<Rightarrow> entries_size es
      | Inr (Inr (c, depth, n, x)) \<Rightarrow> size x)") auto

function hits :: "t_file \<Rightarrow> listing \<Rightarrow> nat"
  and hits_entries :: "t_file \<Rightarrow> (string \<times> node) list \<Rightarrow> nat"
  and hits_node :: "t_file \<Rightarrow> string \<Rightarrow> node \<Rightarrow> nat" where
  "hits c None = 0"
| "hits c (Some es) = hits_entries c es"
| "hits_entries c [] = 0"
| "hits_entries c ((n, x) # es) = (if is_dot n then 0 else hits_node c n x) + hits_entries c es"
| "hits_node c n No_Stat = 0"
| "hits_node c n (Node st d) = (if compare st c n then 1 else 0) + (if S_ISDIR st then hits c d else 0)"
  by pat_completeness auto
termination
  by (relation "measure (\<lambda>x. case x of Inl (c, d) \<Rightarrow> listing_size d | Inr (Inl (c, es)) \<Rightarrow> entries_size es
      | Inr (Inr (c, n, x)) \<Rightarrow> size x)") auto

text \<open>The paths that fit into the buffer.\<close>

function fits :: "string \<Rightarrow> listing \<Rightarrow> bool"
  and fits_entries :: "string \<Rightarrow> (string \<times> node) list \<Rightarrow> bool"
  and fits_node :: "string \<Rightarrow> node \<Rightarrow> bool" where
  "fits dir None = True"
| "fits dir (Some es) = fits_entries dir es"
| "fits_entries dir [] = True"
| "fits_entries dir ((n, x) # es) =
     ((is_dot n \<or> length (path_join dir n) < 1024 \<and> fits_node (path_join dir n) x) \<and> fits_entries dir es)"
| "fits_node full No_Stat = True"
| "fits_node full (Node st d) = (S_ISDIR st \<longrightarrow> fits full d)"
  by pat_completeness auto
termination
  by (relation "measure (\<lambda>x. case x of Inl (dir, d) \<Rightarrow> listing_size d | Inr (Inl (dir, es)) \<Rightarrow> entries_size es
      | Inr (Inr (full, x)) \<Rightarrow> size x)") auto

section \<open>Without a signal\<close>

declare search_directory_internal.simps(1) [simp del]

lemmas search_start = search_directory_internal.simps(1)

lemma stop_requested_none [simp]: "stop s = None \<Longrightarrow> stop_requested s = (False, s)"
  by (simp add: stop_requested_def)

lemma complain_none [simp]: "stop s = None \<Longrightarrow> complain msg s = s\<lparr>err := err s @ [msg]\<rparr>"
  by (simp add: complain_def)

lemma print_path_again [simp]: "print_path (snd (print_path ch)) = ([], snd (print_path ch))"
  by (induction ch) (auto split: prod.splits)

text \<open>What a piece of the search shows: the lines \<open>ls\<close>, with the path above before the first one.\<close>

definition displays :: "string list \<Rightarrow> nat \<Rightarrow> path_info list \<Rightarrow> find_state \<Rightarrow> path_info list \<Rightarrow> find_state \<Rightarrow> bool" where
  "displays ls k ch s ch' s' \<longleftrightarrow>
     ch' = (if ls = [] then ch else snd (print_path ch)) \<and> stop s' = None \<and>
     out s' = out s @ (if ls = [] then [] else fst (print_path ch) @ ls) \<and>
     found_count s' = found_count s + k \<and> fault s' = fault s"

lemma shows_trans: "displays ls k ch s ch1 s1 \<Longrightarrow> displays ls' k' ch1 s1 ch2 s2 \<Longrightarrow> displays (ls @ ls') (k + k') ch s ch2 s2"
  by (auto simp: displays_def)

lemma shows_match: "stop s = None \<Longrightarrow> show_match n depth isdir ch s = (ch', s') \<Longrightarrow> displays [print_tree n (depth + 1) isdir] 1 ch s ch' s'"
  by (auto simp: displays_def show_match_def split: prod.splits)

lemma shows_below:
  "displays ls k (\<lparr>pi_name = n, pi_depth = depth, pi_printed = False\<rparr> # ch) s ch' s' \<Longrightarrow>
   displays (if ls = [] then [] else print_tree n depth True # ls) k ch s (tl ch') s'"
  by (auto simp: displays_def split: prod.splits)

lemma shows_below_printed:
  "displays ls k (\<lparr>pi_name = n, pi_depth = depth, pi_printed = True\<rparr> # snd (print_path ch)) s ch' s' \<Longrightarrow>
   displays ls k (snd (print_path ch)) s (tl ch') s'"
  by (auto simp: displays_def)

lemma search_shows:
  "stop s = None \<Longrightarrow> fits dir d \<Longrightarrow> search_directory_internal c dir d depth ch s = (ch', s') \<Longrightarrow>
     displays (pruned c depth d) (hits c d) ch s ch' s'"
  "stop s = None \<Longrightarrow> fits_entries dir es \<Longrightarrow> search_entries c dir es depth ch s = (ch', s') \<Longrightarrow>
     displays (pruned_entries c depth es) (hits_entries c es) ch s ch' s'"
  "stop s = None \<Longrightarrow> fits_node full x \<Longrightarrow> search_node c full n x depth ch s = (q, ch', s') \<Longrightarrow>
     \<not> q \<and> displays (pruned_node c depth n x) (hits_node c n x) ch s ch' s'"
proof (induction c dir d depth ch s and c dir es depth ch s and c full n x depth ch s arbitrary: ch' s' and ch' s' and q ch' s'
    rule: search_directory_internal_search_entries_search_node.induct)
  case (1 c dir d depth ch s)
  show ?case
  proof (cases d)
    case None
    then show ?thesis using 1 by (auto simp: displays_def search_start)
  next
    case (Some es)
    have "search_entries c dir es depth ch s = (ch', s')" using 1(2,4) Some by (simp add: search_start)
    from 1(1) [OF stop_requested_none [OF 1(2), symmetric] _ Some 1(2) _ this] show ?thesis using 1(3) Some by simp
  qed
next
  case (2 c dir depth ch s)
  then show ?case by (auto simp: displays_def)
next
  case (3 c dir n x es depth ch s)
  show ?case
  proof (cases "is_dot n")
    case True
    then show ?thesis using 3 by auto
  next
    case False
    obtain q ch2 s2 where n: "search_node c (path_join dir n) n x depth ch s = (q, ch2, s2)"
      by (cases "search_node c (path_join dir n) n x depth ch s")
    from 3 False n have a: "\<not> q \<and> displays (pruned_node c depth n x) (hits_node c n x) ch s ch2 s2" by auto
    then have "stop s2 = None" by (simp add: displays_def)
    then have "displays (pruned_entries c depth es) (hits_entries c es) ch2 s2 ch' s'" using 3 False n a by auto
    then show ?thesis using a False by (auto intro: shows_trans)
  qed
next
  case (4 c full n depth ch s)
  then show ?case by (auto simp: displays_def)
next
  case (5 c full n st d depth ch s)
  obtain ch2 s2 where m: "(if compare st c n then show_match n depth (S_ISDIR st) ch s else (ch, s)) = (ch2, s2)"
    by (cases "if compare st c n then show_match n depth (S_ISDIR st) ch s else (ch, s)")
  have sm: "displays (if compare st c n then [print_tree n (depth + 1) (S_ISDIR st)] else []) (if compare st c n then 1 else 0) ch s ch2 s2"
    using m 5(2) shows_match [of s n depth "S_ISDIR st" ch ch2 s2] by (auto simp: displays_def)
  show ?case
  proof (cases "S_ISDIR st")
    case False
    then show ?thesis using 5 m sm by (auto simp: Let_def)
  next
    case True
    obtain ch3 s3 where r: "search_directory_internal c full d (depth + 1)
        (\<lparr>pi_name = n, pi_depth = depth + 1, pi_printed = compare st c n\<rparr> # ch2) s2 = (ch3, s3)"
      by (cases "search_directory_internal c full d (depth + 1) (\<lparr>pi_name = n, pi_depth = depth + 1, pi_printed = compare st c n\<rparr> # ch2) s2")
    have st2: "stop s2 = None" using sm by (simp add: displays_def)
    have sub: "displays (pruned c (depth + 1) d) (hits c d) (\<lparr>pi_name = n, pi_depth = depth + 1, pi_printed = compare st c n\<rparr> # ch2) s2 ch3 s3"
      using 5(1) [OF stop_requested_none [OF 5(2), symmetric] _ refl m [symmetric] True st2 _ r] 5(3) True by simp
    then have st3: "stop s3 = None" by (simp add: displays_def)
    have res: "q = False \<and> ch' = tl ch3 \<and> s' = s3" using 5(2,4) m r True st3 by (auto simp: Let_def)
    show ?thesis
    proof (cases "compare st c n")
      case cmp: True
      then have "ch2 = snd (print_path ch)" using sm by (simp add: displays_def)
      then have "displays (pruned c (depth + 1) d) (hits c d) ch2 s2 (tl ch3) s3"
        using shows_below_printed sub cmp by simp
      from shows_trans [OF sm this] show ?thesis using res cmp True by simp
    next
      case cmp: False
      from shows_trans [OF sm shows_below [OF sub [unfolded if_not_P [OF cmp] eqTrueI [OF True], simplified cmp]]]
      show ?thesis using res cmp True by (auto simp: Let_def)
    qed
  qed
qed

section \<open>With a signal\<close>

abbreviation sig :: "nat \<Rightarrow> find_state \<Rightarrow> find_state" where
  "sig k t \<equiv> t\<lparr>stop := Some k\<rparr>"

lemma stop_requested_sig [simp]: "stop_requested (sig k t) = (k = 0, sig (k - 1) t)"
  by (simp add: stop_requested_def)

lemma stop_requested_stopped [simp]: "stop s = Some 0 \<Longrightarrow> stop_requested s = (True, s)"
  by (cases s) (simp add: stop_requested_def)

lemma complain_sig:
  "stop t = None \<Longrightarrow> complain msg (sig k t) = (if k = 0 then sig 0 t else sig (k - 1) (complain msg t))"
  by (auto simp: complain_def)

lemma complain_displays: "stop t = None \<Longrightarrow> displays [] 0 ch t ch (complain msg t)"
  by (simp add: displays_def)

lemma stopped:
  assumes "stop s = Some 0"
  shows "search_directory_internal c dir d depth ch s = (ch, s)" "search_entries c dir es depth ch s = (ch, s)"
    "\<exists>q. search_node c full n x depth ch s = (q, ch, s)"
  using assms by (simp add: search_start, (cases es; auto), (cases x; auto simp: complain_def))

text \<open>The state \<open>s\<close> after a search that was cut off, where the whole search ends in \<open>t\<close>.\<close>

definition cut_off :: "find_state \<Rightarrow> find_state \<Rightarrow> bool" where
  "cut_off s t \<longleftrightarrow> stop s = Some 0 \<and> prefix (out s) (out t) \<and> found_count s \<le> found_count t \<and> fault s = fault t"

lemma cut_grow: "cut_off s t \<Longrightarrow> displays ls k ch t ch' t' \<Longrightarrow> cut_off s t'"
  by (auto simp: cut_off_def displays_def intro: prefix_order.trans)

lemma cut_here: "displays ls k ch t ch' t' \<Longrightarrow> cut_off (sig 0 t) t'"
  by (auto simp: cut_off_def displays_def)

lemma complain_cut:
  "stop t = None \<Longrightarrow> (\<exists>j. complain msg (sig k t) = sig j (complain msg t)) \<or> cut_off (complain msg (sig k t)) (complain msg t)"
  using cut_here [OF complain_displays] by (auto simp: complain_sig simp del: complain_none)

lemma search_cut:
  "stop t = None \<Longrightarrow> fits dir d \<Longrightarrow> search_directory_internal c dir d depth ch t = (ch', t') \<Longrightarrow>
     search_directory_internal c dir d depth ch (sig k t) = (ch2, s') \<Longrightarrow> ch2 = ch' \<and> (\<exists>j. s' = sig j t') \<or> cut_off s' t'"
  "stop t = None \<Longrightarrow> fits_entries dir es \<Longrightarrow> search_entries c dir es depth ch t = (ch', t') \<Longrightarrow>
     search_entries c dir es depth ch (sig k t) = (ch2, s') \<Longrightarrow> ch2 = ch' \<and> (\<exists>j. s' = sig j t') \<or> cut_off s' t'"
  "stop t = None \<Longrightarrow> fits_node full x \<Longrightarrow> search_node c full n x depth ch t = (q', ch', t') \<Longrightarrow>
     search_node c full n x depth ch (sig k t) = (q, ch2, s') \<Longrightarrow> \<not> q \<and> ch2 = ch' \<and> (\<exists>j. s' = sig j t') \<or> cut_off s' t'"
proof (induction c dir d depth ch t and c dir es depth ch t and c full n x depth ch t
    arbitrary: ch' t' k ch2 s' and ch' t' k ch2 s' and q' ch' t' k q ch2 s'
    rule: search_directory_internal_search_entries_search_node.induct)
  case (1 c dir d depth ch t)
  note whole = search_shows(1) [OF 1(2-4)]
  show ?case
  proof (cases "k = 0")
    case True
    then have "s' = sig 0 t" using 1(5) by (simp add: search_start)
    then show ?thesis using cut_here [OF whole] by simp
  next
    case k: False
    show ?thesis
    proof (cases d)
      case None
      let ?msg = "''Directory couldn'' @ [CHR 0x27] @ ''t be opened.'' @ [LF]"
      have "s' = complain ?msg (sig (k - 1) t)" "ch2 = ch" "ch' = ch" "t' = complain ?msg t"
        using 1(2,4,5) k None by (auto simp: search_start)
      then show ?thesis using complain_cut [OF 1(2), of ?msg "k - 1"] by simp
    next
      case (Some es)
      have a: "search_entries c dir es depth ch t = (ch', t')" "search_entries c dir es depth ch (sig (k - 1) t) = (ch2, s')"
        using 1(2,4,5) Some k by (auto simp: search_start)
      from 1(1) [OF stop_requested_none [OF 1(2), symmetric] _ Some 1(2) _ a] show ?thesis using 1(3) Some by simp
    qed
  qed
next
  case (2 c dir depth ch t)
  then show ?case by auto
next
  case (3 c dir n x es depth ch t)
  note whole = search_shows(2) [OF 3(4-6)]
  show ?case
  proof (cases "k = 0")
    case True
    then have "s' = sig 0 t" using 3(7) by simp
    then show ?thesis using cut_here [OF whole] by simp
  next
    case k: False
    show ?thesis
    proof (cases "is_dot n")
      case True
      then show ?thesis using 3(1) [OF stop_requested_none [OF 3(4), symmetric] _ True 3(4)] 3(4-7) k by simp
    next
      case False
      obtain r ch1 t1 where n: "search_node c (path_join dir n) n x depth ch t = (r, ch1, t1)"
        by (cases "search_node c (path_join dir n) n x depth ch t")
      obtain q ch3 s1 where m: "search_node c (path_join dir n) n x depth ch (sig (k - 1) t) = (q, ch3, s1)"
        by (cases "search_node c (path_join dir n) n x depth ch (sig (k - 1) t)")
      have f: "\<not> 1024 \<le> length (path_join dir n)" "fits_node (path_join dir n) x" "fits_entries dir es" using 3(5) False by auto
      have w1: "\<not> r" "displays (pruned_node c depth n x) (hits_node c n x) ch t ch1 t1" using search_shows(3) [OF 3(4) f(2) n] by auto
      have st1: "stop t1 = None" using w1(2) by (simp add: displays_def)
      have e1: "search_entries c dir es depth ch1 t1 = (ch', t')" using 3(4,6) False f(1) n w1(1) by auto
      have e2: "(ch2, s') = (if q then (ch3, s1) else search_entries c dir es depth ch3 s1)" using 3(7) k False f(1) m by auto
      note w2 = search_shows(2) [OF st1 f(3) e1]
      from 3(2) [OF stop_requested_none [OF 3(4), symmetric] _ False f(1) 3(4) f(2) n m]
      consider (run) j where "\<not> q" "ch3 = ch1" "s1 = sig j t1" | (cut) "cut_off s1 t1" by auto
      then show ?thesis
      proof cases
        case run
        have "search_entries c dir es depth ch1 (sig j t1) = (ch2, s')" using e2 run by simp
        from 3(3) [OF stop_requested_none [OF 3(4), symmetric] _ False f(1) n [symmetric] refl w1(1) st1 f(3) e1 this] show ?thesis by simp
      next
        case cut
        then have "stop s1 = Some 0" by (simp add: cut_off_def)
        then have "s' = s1" using e2 stopped(2) by (auto split: if_splits)
        then show ?thesis using cut_grow [OF cut w2] by simp
      qed
    qed
  qed
next
  case (4 c full n depth ch t)
  then show ?case using complain_cut [OF 4(1), of "''lstat failed'' @ [LF]" k] by (simp del: complain_none)
next
  case (5 c full n st d depth ch t)
  note whole = search_shows(3) [OF 5(2-4), THEN conjunct2]
  show ?case
  proof (cases "k = 0")
    case True
    then have "s' = sig 0 t" using 5(5) by simp
    then show ?thesis using cut_here [OF whole] by simp
  next
    case k: False
    let ?m = "\<lambda>s. if compare st c n then show_match n depth (S_ISDIR st) ch s else (ch, s)"
    let ?info = "\<lparr>pi_name = n, pi_depth = depth + 1, pi_printed = compare st c n\<rparr>"
    obtain ch1 t1 where m: "?m t = (ch1, t1)" by (cases "?m t")
    then have ms: "?m (sig (k - 1) t) = (ch1, sig (k - 1) t1)" by (auto simp: show_match_def split: if_splits prod.splits)
    have st1: "stop t1 = None" using m 5(2) by (auto simp: show_match_def split: if_splits prod.splits)
    show ?thesis
    proof (cases "S_ISDIR st")
      case False
      then have "(q, ch2, s') = (case ?m (sig (k - 1) t) of (ch2, s2) \<Rightarrow> (False, ch2, s2))"
        "(q', ch', t') = (case ?m t of (ch2, s2) \<Rightarrow> (False, ch2, s2))"
        using 5(2,4,5) k by (simp_all add: Let_def del: One_nat_def)
      then show ?thesis unfolding m ms by auto
    next
      case True
      obtain ch3 t3 where r: "search_directory_internal c full d (depth + 1) (?info # ch1) t1 = (ch3, t3)"
        by (cases "search_directory_internal c full d (depth + 1) (?info # ch1) t1")
      obtain ch4 s3 where r': "search_directory_internal c full d (depth + 1) (?info # ch1) (sig (k - 1) t1) = (ch4, s3)"
        by (cases "search_directory_internal c full d (depth + 1) (?info # ch1) (sig (k - 1) t1)")
      have f: "fits full d" using 5(3) True by simp
      have "stop t3 = None" using search_shows(1) [OF st1 f r] by (simp add: displays_def)
      then have t': "ch' = tl ch3" "t' = t3" using 5(2,4) m r True by (auto simp: Let_def)
      have "(q, ch2, s') = (case ?m (sig (k - 1) t) of (ch5, s5) \<Rightarrow>
          (case search_directory_internal c full d (depth + 1) (?info # ch5) s5 of
             (ch6, s6) \<Rightarrow> (case stop_requested s6 of (q2, s4) \<Rightarrow> (q2, tl ch6, s4))))"
        using 5(5) k True by (simp add: Let_def del: One_nat_def)
      then have s': "(q, ch2, s') = (case stop_requested s3 of (q2, s4) \<Rightarrow> (q2, tl ch4, s4))"
        unfolding ms prod.case r' .
      from 5(1) [OF stop_requested_none [OF 5(2), symmetric] _ refl m [symmetric] True st1 f r r']
      consider (run) j where "ch4 = ch3" "s3 = sig j t3" | (cut) "cut_off s3 t3" by auto
      then show ?thesis
      proof cases
        case run
        then show ?thesis using s' t' by (cases "j = 0") (auto simp: cut_off_def)
      next
        case cut
        then have "stop s3 = Some 0" by (simp add: cut_off_def)
        then show ?thesis using s' t' cut by auto
      qed
    qed
  qed
qed

end
