(* ===== verification/Find_Properties.thy ===== *)
theory Find_Properties
  imports Find_Facts
begin

text \<open>The properties of the file finder (\<open>HW1\<close>).\<close>

lemma pruned_hits:
  "pruned c depth d \<noteq> [] \<longleftrightarrow> 0 < hits c d"
  "pruned_entries c depth es \<noteq> [] \<longleftrightarrow> 0 < hits_entries c es"
  "pruned_node c depth n x \<noteq> [] \<longleftrightarrow> 0 < hits_node c n x"
  by (induction c depth d and c depth es and c depth n x rule: pruned_pruned_entries_pruned_node.induct) (auto simp: Let_def)

text \<open>What \<open>main\<close> does once the arguments have been accepted.\<close>

lemma find_main_runs:
  assumes "parse_arguments args init_program = Inr c" "dir = the (target_dir c)" "opendir dir = d"
    "s1 = \<lparr>found_count = 0, out = [print_target_dir dir], err = [], stop = map_option (\<lambda>k. k - 1) sg, fault = False\<rparr>"
  shows "sg = Some 0 \<Longrightarrow> fst (find_main opendir sg args) = 130 \<and> out (snd (find_main opendir sg args)) = []"
    "sg \<noteq> Some 0 \<Longrightarrow> search_directory_internal c dir d 0 [] s1 = (ch, s2) \<Longrightarrow>
       fst (find_main opendir sg args) = (if stop s2 = Some 0 then 130 else if found_count s2 = 0 then 1 else 0) \<and>
       out (snd (find_main opendir sg args)) = out s2 \<and> found_count (snd (find_main opendir sg args)) = found_count s2 \<and>
       fault (snd (find_main opendir sg args)) = fault s2"
  using assms
  by (auto simp: find_main_def Let_def check_signal_def stop_requested_def search_directory_def split: prod.splits)

text \<open>The state in which the search begins.\<close>

definition finder_start :: "string \<Rightarrow> find_state" where
  "finder_start dir = \<lparr>found_count = 0, out = [print_target_dir dir], err = [], stop = None, fault = False\<rparr>"

lemma undisturbed_run:
  assumes "parse_arguments args init_program = Inr c" "find_main opendir None args = (code, s)"
    "search_directory_internal c (the (target_dir c)) (opendir (the (target_dir c))) 0 [] (finder_start (the (target_dir c))) = (ch, s2)"
    "stop s2 = None"
  shows "out s = out s2" "found_count s = found_count s2" "fault s = fault s2" "code = (if found_count s2 = 0 then 1 else 0)"
proof -
  have "fst (find_main opendir None args) = (if stop s2 = Some 0 then 130 else if found_count s2 = 0 then 1 else 0) \<and>
      out (snd (find_main opendir None args)) = out s2 \<and> found_count (snd (find_main opendir None args)) = found_count s2 \<and>
      fault (snd (find_main opendir None args)) = fault s2"
    by (rule find_main_runs(2) [of args c "the (target_dir c)" opendir "opendir (the (target_dir c))" "finder_start (the (target_dir c))" None ch s2])
      (use assms(1,3) in \<open>simp_all add: finder_start_def\<close>)
  then show "out s = out s2" "found_count s = found_count s2" "fault s = fault s2" "code = (if found_count s2 = 0 then 1 else 0)"
    using assms(2,4) by simp_all
qed

lemma disturbed_run:
  assumes "parse_arguments args init_program = Inr c" "fits (the (target_dir c)) (opendir (the (target_dir c)))"
    "search_directory_internal c (the (target_dir c)) (opendir (the (target_dir c))) 0 [] (finder_start (the (target_dir c))) = (ch, s2)"
    "find_main opendir (Some k) args = (code', s')"
  shows "code' = 130 \<and> prefix (out s') (out s2) \<and> fault s' = fault s2 \<or>
    code' = (if found_count s2 = 0 then 1 else 0) \<and> out s' = out s2 \<and> fault s' = fault s2"
proof (cases "k = 0")
  case True
  then have "code' = 130 \<and> out s' = [] \<and> \<not> fault s'"
    using find_main_runs(1) [OF assms(1) refl refl refl, of "Some k" opendir] assms(1,4)
    by (auto simp: find_main_def Let_def check_signal_def stop_requested_def)
  moreover have "\<not> fault s2" using search_shows(1) [OF _ assms(2,3)] by (simp add: displays_def finder_start_def)
  ultimately show ?thesis by simp
next
  case False
  let ?dir = "the (target_dir c)"
  obtain ch' s3 where r': "search_directory_internal c ?dir (opendir ?dir) 0 [] (sig (k - 1) (finder_start ?dir)) = (ch', s3)"
    by (cases "search_directory_internal c ?dir (opendir ?dir) 0 [] (sig (k - 1) (finder_start ?dir))")
  have some: "fst (find_main opendir (Some k) args) = (if stop s3 = Some 0 then 130 else if found_count s3 = 0 then 1 else 0) \<and>
       out (snd (find_main opendir (Some k) args)) = out s3 \<and> found_count (snd (find_main opendir (Some k) args)) = found_count s3 \<and>
       fault (snd (find_main opendir (Some k) args)) = fault s3"
    by (rule find_main_runs(2) [of args c ?dir opendir "opendir ?dir" "sig (k - 1) (finder_start ?dir)" "Some k" ch' s3])
      (use assms(1) r' False in \<open>simp_all add: finder_start_def\<close>)
  have "stop (finder_start ?dir) = None" by (simp add: finder_start_def)
  from search_cut(1) [OF this assms(2,3) r'] consider j where "s3 = sig j s2" | "cut_off s3 s2" by auto
  then show ?thesis
    by cases (use some assms(4) in \<open>auto simp: cut_off_def\<close>)
qed

text \<open>C23: without a signal the finder prints the directory and below it, in the order of the listings, every
  entry that matches the criteria and every directory on the way to one, each of them once, and its
  exit status says whether there was a match.  With a signal at any moment it prints the beginning of
  that and either ends with status 130 or has already shown everything.\<close>

theorem find_prints_matches:
  assumes "parse_arguments args init_program = Inr c" and "fits (the (target_dir c)) (opendir (the (target_dir c)))"
    and "find_main opendir None args = (code, s)" and "find_main opendir (Some k) args = (code', s')"
  shows "out s = print_target_dir (the (target_dir c)) # pruned c 0 (opendir (the (target_dir c))) \<and>
    found_count s = hits c (opendir (the (target_dir c))) \<and> \<not> fault s \<and>
    code = (if pruned c 0 (opendir (the (target_dir c))) \<noteq> [] then 0 else 1) \<and>
    prefix (out s') (out s) \<and> \<not> fault s' \<and> (code' = 130 \<or> code' = code \<and> out s' = out s)"
proof -
  let ?dir = "the (target_dir c)"
  obtain ch s2 where r: "search_directory_internal c ?dir (opendir ?dir) 0 [] (finder_start ?dir) = (ch, s2)"
    by (cases "search_directory_internal c ?dir (opendir ?dir) 0 [] (finder_start ?dir)")
  have d: "displays (pruned c 0 (opendir ?dir)) (hits c (opendir ?dir)) [] (finder_start ?dir) ch s2"
    by (rule search_shows(1) [OF _ assms(2) r]) (simp add: finder_start_def)
  then have "stop s2 = None" by (simp add: displays_def)
  note s = undisturbed_run [OF assms(1,3) r this]
  have whole: "out s = print_target_dir ?dir # pruned c 0 (opendir ?dir)" "found_count s = hits c (opendir ?dir)" "\<not> fault s"
    using d s by (auto simp: displays_def finder_start_def)
  have "code = (if pruned c 0 (opendir ?dir) \<noteq> [] then 0 else 1)" using s whole pruned_hits(1) [of c 0 "opendir ?dir"] by simp
  then show ?thesis using disturbed_run [OF assms(1,2) r assms(4)] s whole by auto
qed

definition demo_find_tree :: listing where
  "demo_find_tree =
     (let st = \<lambda>t n. \<lparr>st_type = t, st_perm = 420, st_nlink = 1, st_size = n\<rparr> in
      Some [(''.'', Node (st S_DIR 9) None), (''..'', Node (st S_DIR 9) None), (''a.txt'', Node (st S_REG 5) None),
            (''d'', Node (st S_DIR 9) (Some [(''e'', Node (st S_DIR 9) (Some [(''LOST.c'', Node (st S_REG 7) None), (''y'', No_Stat)])),
              (''lost.c'', Node (st S_REG 5) None)])), (''secret'', Node (st S_DIR 9) None)])"

definition demo_find_args :: "string list" where
  "demo_find_args = [''-w'', ''/t'', ''-f'', ''lo+st.c'', ''-b'', ''7'']"

definition demo_criteria :: t_file where
  "demo_criteria = init_program\<lparr>target_dir := Some ''/t'', filename := Some ''lo+st.c'', file_size := 7\<rparr>"

lemma find_prints_matches_witness:
  "out (snd (find_main (\<lambda>_. demo_find_tree) None demo_find_args)) =
     [print_target_dir ''/t'', print_tree ''d'' 1 True, print_tree ''e'' 2 True, print_tree ''LOST.c'' 3 False]"
proof -
  have "parse_arguments demo_find_args init_program = Inr demo_criteria" by code_simp
  moreover have "target_dir demo_criteria = Some ''/t''" by code_simp
  moreover have "fits ''/t'' demo_find_tree" by code_simp
  moreover have "pruned demo_criteria 0 demo_find_tree = [print_tree ''d'' 1 True, print_tree ''e'' 2 True, print_tree ''LOST.c'' 3 False]"
    by code_simp
  ultimately show ?thesis
    using find_prints_matches [of demo_find_args demo_criteria "\<lambda>_. demo_find_tree" _ _ 0] by (metis option.sel prod.collapse)
qed

end
