(* ===== verification/Search_Walk.thy ===== *)
theory Search_Walk
  imports File_Tree Find_Pattern
begin

text \<open>
  The parallel file search (\<open>HW2\<close>), what each process does for itself: the command line
  (\<open>parse_arguments.c\<close>), the walk over a directory (\<open>search_directory.c\<close>), the subdirectories of the
  root (\<open>subdirs.c\<close>), the tree of the matches (\<open>tree.c\<close>) and the summary (\<open>signal.c\<close>).
\<close>

section \<open>The command line\<close>

record s_args =
  root_dir :: string
  num_workers :: int
  pattern :: string
  min_size :: int
  d_flag :: bool
  n_flag :: bool
  f_flag :: bool
  s_flag :: bool

text \<open>\<open>min_size\<close> is an \<open>int\<close> that receives the \<open>long\<close> of \<open>atol\<close>.\<close>

fun search_options :: "opt_event list \<Rightarrow> s_args \<Rightarrow> s_args option" where
  "search_options [] a = Some a"
| "search_options (Opt f v # es) a =
     (if f = CHR ''d'' then search_options es (a\<lparr>root_dir := v, d_flag := True\<rparr>)
      else if f = CHR ''n'' then search_options es (a\<lparr>num_workers := atoi v, n_flag := True\<rparr>)
      else if f = CHR ''f'' then search_options es (a\<lparr>pattern := v, f_flag := True\<rparr>)
      else if f = CHR ''s'' then search_options es (a\<lparr>min_size := wrap32 (fst (strtol v)), s_flag := True\<rparr>)
      else None)"
| "search_options (e # es) a = None"

definition parse_arguments :: "string list \<Rightarrow> s_args option" where
  "parse_arguments argv =
     (case getopt ''dnfs'' [] argv of
        (es, rest) \<Rightarrow>
          (case search_options es \<lparr>root_dir = [], num_workers = 0, pattern = [], min_size = 0,
                  d_flag = False, n_flag = False, f_flag = False, s_flag = False\<rparr> of
             None \<Rightarrow> None
           | Some a \<Rightarrow>
               (if \<not> d_flag a \<or> \<not> n_flag a \<or> \<not> f_flag a then None
                else if rest \<noteq> [] then None
                else if num_workers a < 2 \<or> num_workers a > 8 then None
                else Some a)))"

section \<open>Walking a directory\<close>

record t_match =
  path :: string
  worker_pid :: int
  size_of :: int

text \<open>What the walk of a worker does that others can see: a file is files_counted, a match is written to the
  pipe and files_counted.\<close>

datatype action = Count_File | Send_Match t_match

definition accepts :: "s_args \<Rightarrow> string \<Rightarrow> stat \<Rightarrow> bool" where
  "accepts args n st \<longleftrightarrow> regex (pattern args) n \<and> (\<not> s_flag args \<or> st_size st \<ge> min_size args)"

definition make_match :: "int \<Rightarrow> string \<Rightarrow> stat \<Rightarrow> t_match" where
  "make_match pid full st = \<lparr>path = strncpy 4095 full, worker_pid = pid, size_of = st_size st\<rparr>"

text \<open>The results are the number of matches and the actions.  A path that had to be cut at 4095
  characters is one \<open>lstat\<close> fails on.\<close>

function search_directory :: "s_args \<Rightarrow> int \<Rightarrow> string \<Rightarrow> listing \<Rightarrow> nat \<times> action list"
  and search_files :: "s_args \<Rightarrow> int \<Rightarrow> string \<Rightarrow> (string \<times> node) list \<Rightarrow> nat \<times> action list"
  and search_file :: "s_args \<Rightarrow> int \<Rightarrow> string \<Rightarrow> string \<Rightarrow> node \<Rightarrow> nat \<times> action list" where
  "search_directory args pid dir None = (0, [])"
| "search_directory args pid dir (Some es) = search_files args pid dir es"
| "search_files args pid dir [] = (0, [])"
| "search_files args pid dir ((n, x) # es) =
     (case search_files args pid dir es of
        (tot, acts) \<Rightarrow>
          if is_dot n \<or> 4096 \<le> length (path_join dir n) then (tot, acts)
          else (case search_file args pid (path_join dir n) n x of
                  (t, as) \<Rightarrow> (t + tot, as @ acts)))"
| "search_file args pid full n No_Stat = (0, [])"
| "search_file args pid full n (Node st d) =
     (if S_ISDIR st then search_directory args pid full d
      else if accepts args n st then (1, [Count_File, Send_Match (make_match pid full st)])
      else (0, [Count_File]))"
  by pat_completeness auto
termination
  by (relation "measure (\<lambda>x. case x of Inl (a, p, dir, d) \<Rightarrow> listing_size d | Inr (Inl (a, p, dir, es)) \<Rightarrow> entries_size es
      | Inr (Inr (a, p, full, n, x)) \<Rightarrow> size x)") auto

definition MAX_MATCHES :: nat where "MAX_MATCHES = 1024"

definition add_match :: "t_match list \<Rightarrow> t_match \<Rightarrow> t_match list" where
  "add_match all m = (if length all < MAX_MATCHES then all @ [m] else all)"

text \<open>The walk of the parent when there are no subdirectories: matches go into its array.\<close>

function search_directory_collect :: "s_args \<Rightarrow> int \<Rightarrow> string \<Rightarrow> listing \<Rightarrow> t_match list \<Rightarrow> nat \<times> t_match list"
  and collect_files :: "s_args \<Rightarrow> int \<Rightarrow> string \<Rightarrow> (string \<times> node) list \<Rightarrow> t_match list \<Rightarrow> nat \<times> t_match list"
  and collect_file :: "s_args \<Rightarrow> int \<Rightarrow> string \<Rightarrow> string \<Rightarrow> node \<Rightarrow> t_match list \<Rightarrow> nat \<times> t_match list" where
  "search_directory_collect args pid dir None all = (0, all)"
| "search_directory_collect args pid dir (Some es) all = collect_files args pid dir es all"
| "collect_files args pid dir [] all = (0, all)"
| "collect_files args pid dir ((n, x) # es) all =
     (if is_dot n \<or> 4096 \<le> length (path_join dir n) then collect_files args pid dir es all
      else (case collect_file args pid (path_join dir n) n x all of
              (t, all1) \<Rightarrow> (case collect_files args pid dir es all1 of (tot, all2) \<Rightarrow> (t + tot, all2))))"
| "collect_file args pid full n No_Stat all = (0, all)"
| "collect_file args pid full n (Node st d) all =
     (if S_ISDIR st then search_directory_collect args pid full d all
      else if accepts args n st then (1, add_match all (make_match pid full st))
      else (0, all))"
  by pat_completeness auto
termination
  by (relation "measure (\<lambda>x. case x of Inl (a, p, dir, d, m) \<Rightarrow> listing_size d | Inr (Inl (a, p, dir, es, m)) \<Rightarrow> entries_size es
      | Inr (Inr (a, p, full, n, x, m)) \<Rightarrow> size x)") auto

section \<open>The subdirectories of the root\<close>

fun root_subdirs :: "string \<Rightarrow> (string \<times> node) list \<Rightarrow> nat" where
  "root_subdirs root [] = 0"
| "root_subdirs root ((n, x) # es) =
     (if is_dot n \<or> 4096 \<le> length (path_join root n) then root_subdirs root es
      else (case x of
              Node st d \<Rightarrow> (if S_ISDIR st then 1 + root_subdirs root es else root_subdirs root es)
            | No_Stat \<Rightarrow> root_subdirs root es))"

text \<open>The path of a subdirectory with what \<open>opendir\<close> gives for it.\<close>

fun fill_subdirs :: "string \<Rightarrow> nat \<Rightarrow> (string \<times> node) list \<Rightarrow> (string \<times> listing) list" where
  "fill_subdirs root 0 es = []"
| "fill_subdirs root (Suc k) [] = []"
| "fill_subdirs root (Suc k) ((n, x) # es) =
     (if is_dot n \<or> 4096 \<le> length (path_join root n) then fill_subdirs root (Suc k) es
      else (case x of
              Node st d \<Rightarrow> (if S_ISDIR st then (strncpy 4095 (path_join root n), d) # fill_subdirs root k es
                            else fill_subdirs root (Suc k) es)
            | No_Stat \<Rightarrow> fill_subdirs root (Suc k) es))"

text \<open>\<open>check_num_subdirs\<close>: the number of workers, and whether it is announced.\<close>

definition check_num_subdirs :: "nat \<Rightarrow> s_args \<Rightarrow> s_args" where
  "check_num_subdirs n args = (if int n < num_workers args then args\<lparr>num_workers := int n\<rparr> else args)"

text \<open>The loop of \<open>record_match_and_file\<close>: worker \<open>i\<close> takes the subdirectories \<open>i\<close>, \<open>i + nw\<close>, and so on.\<close>

definition share :: "nat \<Rightarrow> nat \<Rightarrow> 'a list \<Rightarrow> 'a list" where
  "share nw i xs = map ((!) xs) (filter (\<lambda>j. i \<le> j \<and> (j - i) mod nw = 0) [0..<length xs])"

definition record_match_and_file :: "s_args \<Rightarrow> int \<Rightarrow> nat \<Rightarrow> (string \<times> listing) list \<Rightarrow> nat \<times> action list" where
  "record_match_and_file args pid i subdirs =
     (let rs = map (\<lambda>(p, d). search_directory args pid p d) (share (nat (num_workers args)) i subdirs)
      in (sum_list (map fst rs), concat (map snd rs)))"

section \<open>Output\<close>

text \<open>\<open>strsep\<close> at every slash.\<close>

fun strsep_all :: "string \<Rightarrow> string \<Rightarrow> string list" where
  "strsep_all t [] = [t]"
| "strsep_all t (c # s) = (if c = CHR ''/'' then t # strsep_all [] s else strsep_all (t @ [c]) s)"

definition split_path :: "string \<Rightarrow> string list" where
  "split_path rel = map (strncpy 255) (take 32 (filter (\<lambda>t. t \<noteq> []) (strsep_all [] (strncpy 4095 rel))))"

definition print_indent :: "nat \<Rightarrow> string" where
  "print_indent depth = ''|'' @ replicate (depth * 6) CHR ''-''"

fun common_parts :: "string list \<Rightarrow> string list \<Rightarrow> nat" where
  "common_parts (p # ps) (q # qs) = (if p = q then 1 + common_parts ps qs else 0)"
| "common_parts _ _ = 0"

definition tree_line :: "t_match \<Rightarrow> string list \<Rightarrow> nat \<Rightarrow> string" where
  "tree_line m parts d =
     print_indent (d + 1) @ ''-- '' @ parts ! d @
     (if d = length parts - 1 then '' ('' @ int_dec (size_of m) @ '' bytes) [Worker '' @ int_dec (worker_pid m) @ '']'' else []) @ [LF]"

fun tree_lines :: "nat \<Rightarrow> string list \<Rightarrow> t_match list \<Rightarrow> string list" where
  "tree_lines root_len prev [] = []"
| "tree_lines root_len prev (m # ms) =
     (let parts = split_path (drop root_len (path m));
          common = common_parts (butlast prev) (butlast parts)
      in map (tree_line m parts) [common..<length parts] @ tree_lines root_len parts ms)"

definition print_tree :: "string \<Rightarrow> t_match list \<Rightarrow> string list" where
  "print_tree root ms =
     (if ms = [] then [''No matching files found.'' @ [LF]] else (root @ [LF]) # tree_lines (length root) [] ms)"

fun digits_up :: "nat \<Rightarrow> string" where
  "digits_up n = (if n = 0 then [] else char_of (n mod 10 + 48) # digits_up (n div 10))"

declare digits_up.simps [simp del]

text \<open>The digits are written from the last one and turned round; a negative number has none.\<close>

definition safe_int_to_str :: "int \<Rightarrow> string" where
  "safe_int_to_str n = (if n = 0 then ''0'' else rev (digits_up (nat n)))"

definition print_summary :: "int list \<Rightarrow> int list \<Rightarrow> int list \<Rightarrow> string list" where
  "print_summary pids matches files =
     [LF # ''--- Summary ---'' @ [LF],
      ''Total workers used  : '' @ safe_int_to_str (int (length pids)) @ [LF],
      ''Total files scanned : '' @ safe_int_to_str (wrap32 (sum_list files)) @ [LF],
      ''Total matches found : '' @ safe_int_to_str (wrap32 (sum_list matches)) @ [LF]] @
     map (\<lambda>(p, k). ''Worker PID '' @ safe_int_to_str p @ '' : '' @ safe_int_to_str k @
            (if k = 1 then '' match'' else '' matches'') @ [LF]) (zip pids matches)"

end
