(* ===== verification/Search_Workers.thy ===== *)
theory Search_Workers
  imports Search_Walk
begin

text \<open>
  The processes of the parallel file search (\<open>HW2/src/processes.c\<close>, \<open>utils.c\<close>, \<open>signal.c\<close>): workers
  that send their matches through a pipe each and their counts through another, and the parent
  that collects both and prints.  One step is one system call or one access to what others see.
\<close>

section \<open>State\<close>

datatype searcher_pc = W_Unborn | W_Start | W_Search | W_Report | W_Notify | W_Dead

text \<open>\<open>w_pipe\<close> holds the records that have been written to the pipe of the matches and not yet read;
  \<open>w_open\<close> and \<open>w_res_open\<close> say whether the writing ends are open.  \<open>w_count\<close> is what the walk
  returns.  \<open>w_term\<close>: \<open>SIGTERM\<close> is pending.\<close>

record searcher =
  w_pc :: searcher_pc
  w_todo :: "action list"
  w_count :: nat
  w_files :: nat
  w_partial :: nat
  w_pipe :: "t_match list"
  w_open :: bool
  w_result :: "(int \<times> int) option"
  w_res_open :: bool
  w_term :: bool

datatype parent_pc = P_Fork nat | P_Results nat | P_Matches nat | P_Wait nat | P_Show | P_Exit
  | I_Term nat | I_Read nat | I_Kill | I_Summary

record search =
  workers :: "searcher list"
  p_pc :: parent_pc
  all_matches :: "t_match list"
  g_worker_matches :: "int list"
  g_worker_files :: "int list"
  res_closed :: "bool list"
  sigusr1_count :: nat
  shown :: "string list"

section \<open>Workers\<close>

text \<open>\<open>slots\<close> is the number of records the pipe takes: 4112 bytes each of the 65536 of a pipe.  A write
  that does not fit waits for the reader.\<close>

definition searcher_step :: "nat \<Rightarrow> searcher \<Rightarrow> searcher option" where
  "searcher_step slots w =
     (case w_pc w of
        W_Unborn \<Rightarrow> None
      | W_Start \<Rightarrow> Some (w\<lparr>w_pc := W_Search\<rparr>)
      | W_Search \<Rightarrow>
          (case w_todo w of
             [] \<Rightarrow> Some (w\<lparr>w_pc := W_Report, w_open := False\<rparr>)
           | Count_File # as \<Rightarrow> Some (w\<lparr>w_todo := as, w_files := w_files w + 1\<rparr>)
           | Send_Match m # as \<Rightarrow>
               (if length (w_pipe w) < slots
                then Some (w\<lparr>w_todo := as, w_pipe := w_pipe w @ [m], w_partial := w_partial w + 1\<rparr>) else None))
      | W_Report \<Rightarrow> Some (w\<lparr>w_pc := W_Notify, w_result := Some (int (w_count w), int (w_files w)), w_res_open := False\<rparr>)
      | W_Notify \<Rightarrow> Some (w\<lparr>w_pc := W_Dead\<rparr>)
      | W_Dead \<Rightarrow> None)"

text \<open>\<open>sigterm_handler\<close>; before it is installed, \<open>SIGTERM\<close> just ends the worker.\<close>

definition sigterm_handler :: "searcher \<Rightarrow> searcher" where
  "sigterm_handler w =
     (let w1 = (if w_pc w \<noteq> W_Start \<and> w_res_open w
                then w\<lparr>w_result := Some (int (w_partial w), int (w_files w))\<rparr> else w)
      in w1\<lparr>w_pc := W_Dead, w_open := False, w_res_open := False, w_term := False\<rparr>)"

definition kill_worker :: "searcher \<Rightarrow> searcher" where
  "kill_worker w = (if w_pc w = W_Unborn then w else w\<lparr>w_pc := W_Dead, w_open := False, w_res_open := False, w_term := False\<rparr>)"

section \<open>The parent\<close>

definition set_worker :: "nat \<Rightarrow> (searcher \<Rightarrow> searcher) \<Rightarrow> search \<Rightarrow> search" where
  "set_worker i f s = s\<lparr>workers := (workers s)[i := f (workers s ! i)]\<rparr>"

text \<open>Reading the counts of worker \<open>i\<close>: zeros when the pipe has been closed without them or was closed by
  the parent before; \<open>None\<close> while the read waits.\<close>

definition read_counts :: "nat \<Rightarrow> search \<Rightarrow> (int \<times> int) option" where
  "read_counts i s =
     (if res_closed s ! i then Some (0, 0)
      else (case w_result (workers s ! i) of
              Some r \<Rightarrow> Some r
            | None \<Rightarrow> if w_res_open (workers s ! i) then None else Some (0, 0)))"

definition take_result :: "nat \<Rightarrow> int \<times> int \<Rightarrow> search \<Rightarrow> search" where
  "take_result i r s =
     (set_worker i (\<lambda>w. w\<lparr>w_result := None\<rparr>) s)
       \<lparr>g_worker_matches := (g_worker_matches s)[i := fst r], g_worker_files := (g_worker_files s)[i := snd r],
        res_closed := (res_closed s)[i := True]\<rparr>"

definition parent_step :: "string \<Rightarrow> int list \<Rightarrow> search \<Rightarrow> search option" where
  "parent_step root pids s =
     (let n = length (workers s) in
      case p_pc s of
        P_Fork i \<Rightarrow>
          (if i \<ge> n then Some (s\<lparr>p_pc := P_Results 0\<rparr>)
           else Some ((set_worker i (\<lambda>w. w\<lparr>w_pc := W_Start\<rparr>) s)\<lparr>p_pc := P_Fork (i + 1)\<rparr>))
      | P_Results i \<Rightarrow>
          (if i \<ge> n then Some (s\<lparr>p_pc := P_Matches 0\<rparr>)
           else map_option (\<lambda>r. (take_result i r s)\<lparr>p_pc := P_Results (i + 1)\<rparr>) (read_counts i s))
      | P_Matches i \<Rightarrow>
          (if i \<ge> n then Some (s\<lparr>p_pc := P_Wait 0\<rparr>)
           else (case w_pipe (workers s ! i) of
                   m # r \<Rightarrow> Some ((set_worker i (\<lambda>w. w\<lparr>w_pipe := r\<rparr>) s)\<lparr>all_matches := add_match (all_matches s) m\<rparr>)
                 | [] \<Rightarrow> if w_open (workers s ! i) then None else Some (s\<lparr>p_pc := P_Matches (i + 1)\<rparr>)))
      | P_Wait i \<Rightarrow>
          (if i \<ge> n then Some (s\<lparr>p_pc := P_Show\<rparr>)
           else if w_pc (workers s ! i) = W_Dead then Some (s\<lparr>p_pc := P_Wait (i + 1)\<rparr>) else None)
      | P_Show \<Rightarrow>
          Some (s\<lparr>p_pc := P_Exit, shown := shown s @ print_tree root (all_matches s) @
                    print_summary pids (g_worker_matches s) (g_worker_files s)\<rparr>)
      | P_Exit \<Rightarrow> None
      | I_Term i \<Rightarrow>
          (if i \<ge> n then Some (s\<lparr>p_pc := I_Read 0\<rparr>)
           else Some ((set_worker i (\<lambda>w. if w_pc w = W_Unborn \<or> w_pc w = W_Dead then w else w\<lparr>w_term := True\<rparr>) s)\<lparr>p_pc := I_Term (i + 1)\<rparr>))
      | I_Read i \<Rightarrow>
          (if i \<ge> n then Some (s\<lparr>p_pc := I_Kill\<rparr>)
           else map_option (\<lambda>r. (take_result i r s)\<lparr>p_pc := I_Read (i + 1)\<rparr>) (read_counts i s))
      | I_Kill \<Rightarrow> Some (s\<lparr>workers := map kill_worker (workers s), p_pc := I_Summary\<rparr>)
      | I_Summary \<Rightarrow>
          Some (s\<lparr>p_pc := P_Exit, shown := shown s @ print_summary pids (g_worker_matches s) (g_worker_files s)\<rparr>))"

text \<open>The steps without a signal, and \<open>SIGINT\<close> with what follows from it.\<close>

inductive search_step :: "nat \<Rightarrow> string \<Rightarrow> int list \<Rightarrow> search \<Rightarrow> search \<Rightarrow> bool" for slots root pids where
  worker_moves: "i < length (workers s) \<Longrightarrow> searcher_step slots (workers s ! i) = Some w \<Longrightarrow>
    search_step slots root pids s
      (s\<lparr>workers := (workers s)[i := w], sigusr1_count := sigusr1_count s + (if w_pc (workers s ! i) = W_Notify then 1 else 0)\<rparr>)"
| parent_moves: "parent_step root pids s = Some s' \<Longrightarrow> search_step slots root pids s s'"

definition in_handler :: "parent_pc \<Rightarrow> bool" where
  "in_handler pc = (case pc of I_Term i \<Rightarrow> True | I_Read i \<Rightarrow> True | I_Kill \<Rightarrow> True | I_Summary \<Rightarrow> True | _ \<Rightarrow> False)"

inductive signal_step :: "search \<Rightarrow> search \<Rightarrow> bool" where
  sigint: "\<not> in_handler (p_pc s) \<Longrightarrow> p_pc s \<noteq> P_Exit \<Longrightarrow> signal_step s (s\<lparr>p_pc := I_Term 0\<rparr>)"
| sigterm: "i < length (workers s) \<Longrightarrow> w_term (workers s ! i) \<Longrightarrow> signal_step s (set_worker i sigterm_handler s)"

inductive search_reach :: "nat \<Rightarrow> string \<Rightarrow> int list \<Rightarrow> search \<Rightarrow> search \<Rightarrow> bool" for slots root pids s0 where
  search_start: "search_reach slots root pids s0 s0"
| search_more: "search_reach slots root pids s0 s \<Longrightarrow> search_step slots root pids s s' \<Longrightarrow> search_reach slots root pids s0 s'"

section \<open>The program\<close>

definition new_worker :: "nat \<times> action list \<Rightarrow> searcher" where
  "new_worker r = \<lparr>w_pc = W_Unborn, w_todo = snd r, w_count = fst r, w_files = 0, w_partial = 0, w_pipe = [], w_open = True,
     w_result = None, w_res_open = True, w_term = False\<rparr>"

datatype search_run = Refused | Root_Only "string list" | Running s_args "int list" search

text \<open>\<open>create_workers\<close> up to the first fork; \<open>pid i\<close> is the process id worker \<open>i\<close> will get.  Without
  subdirectories the parent searches the root itself, and what it shows as the files scanned is the
  number of matches it has kept.\<close>

definition create_workers :: "s_args \<Rightarrow> int \<Rightarrow> (nat \<Rightarrow> int) \<Rightarrow> (string \<times> node) list \<Rightarrow> search_run" where
  "create_workers args0 ppid pid es =
     (let root = root_dir args0; num_subdirs = root_subdirs root es in
      if num_subdirs = 0 then
        (case search_directory_collect args0 ppid root (Some es) [] of
           (tot, all) \<Rightarrow>
             Root_Only (print_tree root all @ print_summary [ppid] [int tot] [int (length all)]))
      else
        (let args = check_num_subdirs num_subdirs args0;
             subdirs = fill_subdirs root num_subdirs es;
             n = nat (num_workers args) in
         Running args (map pid [0..<n])
           \<lparr>workers = map (\<lambda>i. new_worker (record_match_and_file args (pid i) i subdirs)) [0..<n], p_pc = P_Fork 0,
            all_matches = [], g_worker_matches = replicate n 0, g_worker_files = replicate n 0,
            res_closed = replicate n False, sigusr1_count = 0, shown = []\<rparr>))"

definition search_main :: "(string \<Rightarrow> listing) \<Rightarrow> int \<Rightarrow> (nat \<Rightarrow> int) \<Rightarrow> string list \<Rightarrow> search_run" where
  "search_main opendir ppid pid argv =
     (case parse_arguments argv of
        None \<Rightarrow> Refused
      | Some args \<Rightarrow>
          (case opendir (root_dir args) of
             None \<Rightarrow> Refused
           | Some es \<Rightarrow> create_workers args ppid pid es))"

end
