(* ===== verification/Search_Facts.thy ===== *)
theory Search_Facts
  imports Search_Workers
begin

text \<open>
  Facts on the parallel file search: the walk against the list of files found below a directory,
  the sharing of the subdirectories, and the invariant of the processes without signals.
\<close>

section \<open>The walk\<close>

definition sends :: "action list \<Rightarrow> t_match list" where
  "sends as = concat (map (\<lambda>a. case a of Send_Match m \<Rightarrow> [m] | Count_File \<Rightarrow> []) as)"

definition files_counted :: "action list \<Rightarrow> nat" where
  "files_counted as = length (filter ((=) Count_File) as)"

lemma sends_simps [simp]:
  "sends [] = []" "sends (Count_File # as) = sends as" "sends (Send_Match m # as) = m # sends as" "sends (as @ bs) = sends as @ sends bs"
  by (simp_all add: sends_def)

lemma sends_concat: "sends (concat ass) = concat (map sends ass)"
  by (induction ass) simp_all

lemma files_counted_simps [simp]:
  "files_counted [] = 0" "files_counted (Count_File # as) = files_counted as + 1" "files_counted (Send_Match m # as) = files_counted as" "files_counted (as @ bs) = files_counted as + files_counted bs"
  by (simp_all add: files_counted_def)

lemma files_counted_concat: "files_counted (concat ass) = sum_list (map files_counted ass)"
  by (induction ass) simp_all

text \<open>The files below a directory, each with its path, in the order of the listings.\<close>

function files_below :: "string \<Rightarrow> listing \<Rightarrow> (string \<times> string \<times> stat) list"
  and files_in :: "string \<Rightarrow> (string \<times> node) list \<Rightarrow> (string \<times> string \<times> stat) list"
  and files_at :: "string \<Rightarrow> string \<Rightarrow> node \<Rightarrow> (string \<times> string \<times> stat) list" where
  "files_below dir None = []"
| "files_below dir (Some es) = files_in dir es"
| "files_in dir [] = []"
| "files_in dir ((n, x) # es) =
     (if is_dot n \<or> 4096 \<le> length (path_join dir n) then [] else files_at (path_join dir n) n x) @ files_in dir es"
| "files_at full n No_Stat = []"
| "files_at full n (Node st d) = (if S_ISDIR st then files_below full d else [(full, n, st)])"
  by pat_completeness auto
termination
  by (relation "measure (\<lambda>x. case x of Inl (dir, d) \<Rightarrow> listing_size d | Inr (Inl (dir, es)) \<Rightarrow> entries_size es
      | Inr (Inr (full, n, x)) \<Rightarrow> size x)") auto

text \<open>Those that the arguments ask for.\<close>

definition found_in :: "s_args \<Rightarrow> (string \<times> string \<times> stat) list \<Rightarrow> (string \<times> int) list" where
  "found_in args fs = map (\<lambda>(full, n, st). (full, st_size st)) (filter (\<lambda>(full, n, st). accepts args n st) fs)"

lemma found_in_simps [simp]:
  "found_in args [] = []" "found_in args (fs @ gs) = found_in args fs @ found_in args gs"
  "found_in args ((full, n, st) # fs) = (if accepts args n st then [(full, st_size st)] else []) @ found_in args fs"
  by (auto simp: found_in_def)

lemma found_in_concat: "found_in args (concat fss) = concat (map (found_in args) fss)"
  by (induction fss) simp_all

definition shown_as :: "t_match \<Rightarrow> string \<times> int" where
  "shown_as m = (path m, size_of m)"

lemma search_found:
  "length dir < 4096 \<Longrightarrow> search_directory args pid dir d = (k, as) \<Longrightarrow>
     k = length (sends as) \<and> files_counted as = length (files_below dir d) \<and>
     map shown_as (sends as) = found_in args (files_below dir d) \<and> (\<forall>m \<in> set (sends as). worker_pid m = pid)"
  "length dir < 4096 \<Longrightarrow> search_files args pid dir es = (k, as) \<Longrightarrow>
     k = length (sends as) \<and> files_counted as = length (files_in dir es) \<and>
     map shown_as (sends as) = found_in args (files_in dir es) \<and> (\<forall>m \<in> set (sends as). worker_pid m = pid)"
  "length full < 4096 \<Longrightarrow> search_file args pid full n x = (k, as) \<Longrightarrow>
     k = length (sends as) \<and> files_counted as = length (files_at full n x) \<and>
     map shown_as (sends as) = found_in args (files_at full n x) \<and> (\<forall>m \<in> set (sends as). worker_pid m = pid)"
proof (induction args pid dir d and args pid dir es and args pid full n x arbitrary: k as and k as and k as
    rule: search_directory_search_files_search_file.induct)
  case (4 args pid dir n x es)
  show ?case using 4 by (fastforce split: prod.splits if_splits)
next
  case (6 args pid full n st d)
  then show ?case by (auto simp: shown_as_def make_match_def strncpy_def split: if_splits)
qed auto

lemma collect_found:
  "length dir < 4096 \<Longrightarrow> search_directory_collect args pid dir d all = (k, all') \<Longrightarrow>
     k = length (found_in args (files_below dir d)) \<and>
     (\<exists>ms. all' = take MAX_MATCHES (all @ ms) \<and> map shown_as ms = found_in args (files_below dir d)) \<or> length all > MAX_MATCHES"
  "length dir < 4096 \<Longrightarrow> collect_files args pid dir es all = (k, all') \<Longrightarrow>
     k = length (found_in args (files_in dir es)) \<and>
     (\<exists>ms. all' = take MAX_MATCHES (all @ ms) \<and> map shown_as ms = found_in args (files_in dir es)) \<or> length all > MAX_MATCHES"
  "length full < 4096 \<Longrightarrow> collect_file args pid full n x all = (k, all') \<Longrightarrow>
     k = length (found_in args (files_at full n x)) \<and>
     (\<exists>ms. all' = take MAX_MATCHES (all @ ms) \<and> map shown_as ms = found_in args (files_at full n x)) \<or> length all > MAX_MATCHES"
proof (induction args pid dir d all and args pid dir es all and args pid full n x all arbitrary: k all' and k all' and k all'
    rule: search_directory_collect_collect_files_collect_file.induct)
  case (4 args pid dir n x es all)
  show ?case
  proof (cases "is_dot n \<or> 4096 \<le> length (path_join dir n)")
    case True
    then show ?thesis using 4 by auto
  next
    case False
    obtain t all1 where c: "collect_file args pid (path_join dir n) n x all = (t, all1)"
      by (cases "collect_file args pid (path_join dir n) n x all")
    obtain tt all2 where r: "collect_files args pid dir es all1 = (tt, all2)" by (cases "collect_files args pid dir es all1")
    have k: "k = t + tt" "all' = all2" using 4(5) False c r by auto
    show ?thesis
    proof (cases "length all > MAX_MATCHES")
      case len: False
      from 4(2) [OF False _ c] False len obtain ms where ms: "t = length (found_in args (files_at (path_join dir n) n x))"
          "all1 = take MAX_MATCHES (all @ ms)" "map shown_as ms = found_in args (files_at (path_join dir n) n x)" by auto
      then have "\<not> length all1 > MAX_MATCHES" by simp
      with 4(3) [OF False c [symmetric] 4(4) r] obtain ms' where ms': "tt = length (found_in args (files_in dir es))"
          "all2 = take MAX_MATCHES (all1 @ ms')" "map shown_as ms' = found_in args (files_in dir es)" by auto
      have "all2 = take MAX_MATCHES (all @ (ms @ ms'))"
      proof (cases "length (all @ ms) \<le> MAX_MATCHES")
        case True
        then show ?thesis using ms ms' by simp
      next
        case False
        then show ?thesis using ms ms' by (simp add: min_def)
      qed
      then have "all2 = take MAX_MATCHES (all @ (ms @ ms')) \<and> map shown_as (ms @ ms') = found_in args (files_in dir ((n, x) # es))"
        using ms ms' False by simp
      then have ex: "\<exists>ms. all' = take MAX_MATCHES (all @ ms) \<and> map shown_as ms = found_in args (files_in dir ((n, x) # es))" using k(2) by blast
      have "k = length (found_in args (files_in dir ((n, x) # es)))" using k(1) ms(1) ms'(1) False by simp
      then show ?thesis using ex by blast
    qed simp
  qed
next
  case (6 args pid full n st d all)
  show ?case
  proof (cases "S_ISDIR st \<or> \<not> accepts args n st \<or> length all > MAX_MATCHES")
    case True
    then show ?thesis using 6 by (auto split: if_splits)
  next
    case False
    then have "all' = take MAX_MATCHES (all @ [make_match pid full st])" "k = 1" using 6(3) by (auto simp: add_match_def)
    then show ?thesis using False 6(2) by (auto simp: shown_as_def make_match_def strncpy_def intro!: exI [of _ "[make_match pid full st]"])
  qed
qed auto

end
