(* ===== verification/Search_Invariant.thy ===== *)
theory Search_Invariant
  imports Search_Facts Runs
begin

text \<open>The invariant of the processes of the file search, while there are no signals.\<close>

section \<open>Shares\<close>

lemma mset_concat: "mset (concat xss) = (\<Sum>xs\<leftarrow>xss. mset xs)"
  by (induction xss) simp_all

lemma mset_classes:
  assumes "\<forall>x \<in> set xs. f x < m"
  shows "mset (concat (map (\<lambda>i. filter (\<lambda>x. f x = i) xs) [0..<m])) = mset xs"
  using assms
proof (induction xs)
  case Nil
  then show ?case by simp
next
  case (Cons x xs)
  have one: "(\<Sum>i\<leftarrow>[0..<m]. if f x = i then {#x#} else {#}) = {#x#}"
    using Cons.prems by (simp add: sum_list_distinct_conv_sum_set)
  have "mset (concat (map (\<lambda>i. filter (\<lambda>y. f y = i) (x # xs)) [0..<m])) =
      (\<Sum>i\<leftarrow>[0..<m]. (if f x = i then {#x#} else {#}) + mset (filter (\<lambda>y. f y = i) xs))"
    unfolding mset_concat map_map o_def by (rule arg_cong [where f = sum_list], rule map_cong) auto
  also have "\<dots> = {#x#} + mset xs" using one Cons by (simp add: sum_list_addf mset_concat o_def)
  finally show ?case by simp
qed

lemma share_mod: "i < nw \<Longrightarrow> (i \<le> j \<and> (j - i) mod nw = 0) = (j mod nw = i)" for i j nw :: nat
proof
  assume i: "i < nw" and j: "i \<le> j \<and> (j - i) mod nw = 0"
  then obtain k where "j = i + k * nw" by (metis add.commute le_add_diff_inverse2 mod_0_imp_dvd dvdE mult.commute)
  then show "j mod nw = i" using i by simp
next
  assume "i < nw" "j mod nw = i"
  then show "i \<le> j \<and> (j - i) mod nw = 0" using mod_less_eq_dividend minus_mod_eq_mult_div [of j nw] by auto
qed

text \<open>Together the workers get every subdirectory once.\<close>

lemma share_mset:
  assumes "0 < nw"
  shows "mset (concat (map (\<lambda>i. share nw i xs) [0..<nw])) = mset xs"
proof -
  have "share nw i xs = map ((!) xs) (filter (\<lambda>j. j mod nw = i) [0..<length xs])" if "i < nw" for i
    unfolding share_def share_mod [OF that] ..
  then have eq: "map (\<lambda>i. share nw i xs) [0..<nw] = map (\<lambda>i. map ((!) xs) (filter (\<lambda>j. j mod nw = i) [0..<length xs])) [0..<nw]"
    by simp
  have "concat (map (\<lambda>i. share nw i xs) [0..<nw]) =
      map ((!) xs) (concat (map (\<lambda>i. filter (\<lambda>j. j mod nw = i) [0..<length xs]) [0..<nw]))"
    unfolding eq by (simp add: map_concat o_def)
  then have "mset (concat (map (\<lambda>i. share nw i xs) [0..<nw])) = image_mset ((!) xs) (mset [0..<length xs])"
    using mset_classes [of "[0..<length xs]" "\<lambda>j. j mod nw" nw] assms by simp
  also have "\<dots> = mset (map ((!) xs) [0..<length xs])" by simp
  finally show ?thesis by (simp only: map_nth)
qed

fun subdirs_of :: "string \<Rightarrow> (string \<times> node) list \<Rightarrow> (string \<times> listing) list" where
  "subdirs_of root [] = []"
| "subdirs_of root ((n, x) # es) =
     (case x of
        No_Stat \<Rightarrow> []
      | Node st d \<Rightarrow> (if S_ISDIR st \<and> \<not> is_dot n \<and> length (path_join root n) < 4096 then [(path_join root n, d)] else [])) @
     subdirs_of root es"

lemma fill_subdirs_all: "length (subdirs_of root es) \<le> k \<Longrightarrow> fill_subdirs root k es = subdirs_of root es"
proof (induction root k es rule: fill_subdirs.induct)
  case (3 root k n x es)
  then show ?case by (auto simp: strncpy_def split: node.splits)
qed auto

lemma root_subdirs_length: "root_subdirs root es = length (subdirs_of root es)"
  by (induction root es rule: root_subdirs.induct) (auto split: node.splits)

lemma subdirs_of_short: "(p, d) \<in> set (subdirs_of root es) \<Longrightarrow> length p < 4096"
  by (induction root es rule: subdirs_of.induct) (auto split: node.splits if_splits)

section \<open>The invariant\<close>

definition late :: "searcher_pc \<Rightarrow> bool" where
  "late pc \<longleftrightarrow> pc = W_Report \<or> pc = W_Notify \<or> pc = W_Dead"

definition reported :: "searcher_pc \<Rightarrow> bool" where
  "reported pc \<longleftrightarrow> pc = W_Notify \<or> pc = W_Dead"

text \<open>How far the parent is with worker \<open>i\<close>.\<close>

definition born :: "parent_pc \<Rightarrow> nat \<Rightarrow> bool" where
  "born pc i = (case pc of P_Fork j \<Rightarrow> i < j | _ \<Rightarrow> True)"

definition was_read :: "parent_pc \<Rightarrow> nat \<Rightarrow> bool" where
  "was_read pc i = (case pc of P_Fork j \<Rightarrow> False | P_Results j \<Rightarrow> i < j | _ \<Rightarrow> True)"

definition collecting :: "parent_pc \<Rightarrow> bool" where
  "collecting pc = (case pc of P_Fork j \<Rightarrow> False | P_Results j \<Rightarrow> False | _ \<Rightarrow> True)"

definition drained :: "parent_pc \<Rightarrow> nat \<Rightarrow> bool" where
  "drained pc i = (case pc of P_Fork j \<Rightarrow> False | P_Results j \<Rightarrow> False | P_Matches j \<Rightarrow> i < j | _ \<Rightarrow> True)"

definition waited :: "parent_pc \<Rightarrow> nat \<Rightarrow> bool" where
  "waited pc i = (case pc of P_Wait j \<Rightarrow> i < j | P_Show \<Rightarrow> True | P_Exit \<Rightarrow> True | _ \<Rightarrow> False)"

definition in_range :: "nat \<Rightarrow> parent_pc \<Rightarrow> bool" where
  "in_range n pc = (case pc of P_Fork j \<Rightarrow> j \<le> n | P_Results j \<Rightarrow> j \<le> n | P_Matches j \<Rightarrow> j \<le> n | P_Wait j \<Rightarrow> j \<le> n
     | P_Show \<Rightarrow> True | P_Exit \<Rightarrow> True | _ \<Rightarrow> False)"

lemmas phase_defs = born_def was_read_def collecting_def drained_def waited_def in_range_def late_def reported_def

definition worker_ok :: "nat \<Rightarrow> action list \<Rightarrow> parent_pc \<Rightarrow> nat \<Rightarrow> searcher \<Rightarrow> bool" where
  "worker_ok slots as pc i w \<longleftrightarrow>
     w_count w = length (sends as) \<and> w_files w + files_counted (w_todo w) = files_counted as \<and> (w_pc w = W_Unborn \<longleftrightarrow> \<not> born pc i) \<and>
     (late (w_pc w) \<longrightarrow> w_todo w = []) \<and> (w_open w \<longleftrightarrow> \<not> late (w_pc w)) \<and> (w_res_open w \<longleftrightarrow> \<not> reported (w_pc w)) \<and>
     w_result w = (if reported (w_pc w) \<and> \<not> was_read pc i then Some (int (length (sends as)), int (files_counted as)) else None) \<and>
     (was_read pc i \<longrightarrow> reported (w_pc w)) \<and>
     (\<not> collecting pc \<longrightarrow> w_pipe w @ sends (w_todo w) = sends as \<and> length (w_pipe w) \<le> slots) \<and>
     (drained pc i \<longrightarrow> w_pipe w = []) \<and> (waited pc i \<longrightarrow> w_pc w = W_Dead)"

definition search_inv :: "nat \<Rightarrow> string \<Rightarrow> int list \<Rightarrow> action list list \<Rightarrow> search \<Rightarrow> bool" where
  "search_inv slots root pids ass s \<longleftrightarrow>
     length (workers s) = length ass \<and> length (g_worker_matches s) = length ass \<and> length (g_worker_files s) = length ass \<and>
      length (res_closed s) = length ass \<and> in_range (length ass) (p_pc s) \<and>
      (\<forall>i < length ass. worker_ok slots (ass ! i) (p_pc s) i (workers s ! i)) \<and>
      (\<forall>i < length ass. res_closed s ! i = was_read (p_pc s) i) \<and>
      (\<forall>i < length ass. was_read (p_pc s) i \<longrightarrow> g_worker_matches s ! i = int (length (sends (ass ! i))) \<and> g_worker_files s ! i = int (files_counted (ass ! i))) \<and>
      (if collecting (p_pc s)
       then \<exists>got. all_matches s = take MAX_MATCHES got \<and> got @ concat (map w_pipe (workers s)) = concat (map sends ass)
       else all_matches s = []) \<and>
      shown s = (if p_pc s = P_Exit then print_tree root (all_matches s) @ print_summary pids (g_worker_matches s) (g_worker_files s) else [])"

lemma search_invD:
  assumes "search_inv slots root pids ass s"
  shows "length (workers s) = length ass" "length (g_worker_matches s) = length ass" "length (g_worker_files s) = length ass"
    "length (res_closed s) = length ass" "in_range (length ass) (p_pc s)"
    "\<And>i. i < length ass \<Longrightarrow> worker_ok slots (ass ! i) (p_pc s) i (workers s ! i)"
    "\<And>i. i < length ass \<Longrightarrow> res_closed s ! i = was_read (p_pc s) i"
    "\<And>i. i < length ass \<Longrightarrow> was_read (p_pc s) i \<Longrightarrow>
       g_worker_matches s ! i = int (length (sends (ass ! i))) \<and> g_worker_files s ! i = int (files_counted (ass ! i))"
    "collecting (p_pc s) \<Longrightarrow> \<exists>got. all_matches s = take MAX_MATCHES got \<and> got @ concat (map w_pipe (workers s)) = concat (map sends ass)"
    "\<not> collecting (p_pc s) \<Longrightarrow> all_matches s = []"
    "shown s = (if p_pc s = P_Exit then print_tree root (all_matches s) @ print_summary pids (g_worker_matches s) (g_worker_files s) else [])"
  using assms by (auto simp: search_inv_def)

lemma search_start_inv:
  assumes "workers s = map new_worker rs" "p_pc s = P_Fork 0" "all_matches s = []" "length (g_worker_matches s) = length rs"
    "length (g_worker_files s) = length rs" "res_closed s = replicate (length rs) False" "shown s = []"
    "\<forall>r \<in> set rs. fst r = length (sends (snd r))"
  shows "search_inv slots root pids (map snd rs) s"
proof -
  have "worker_ok slots (map snd rs ! i) (P_Fork 0) i (workers s ! i)" if "i < length rs" for i
    using that assms(1,8) by (simp add: worker_ok_def new_worker_def phase_defs)
  then show ?thesis using assms by (simp add: search_inv_def phase_defs)
qed

lemma worker_inv:
  assumes ok: "worker_ok slots as pc i w" and st: "searcher_step slots w = Some w'"
  shows "worker_ok slots as pc i w' \<and> (collecting pc \<longrightarrow> was_read pc i \<longrightarrow> w_pipe w' = w_pipe w)"
proof (cases "w_pc w")
  case W_Search
  have d: "\<not> was_read pc i" "\<not> drained pc i" "\<not> waited pc i"
    using ok W_Search by (auto simp: worker_ok_def phase_defs split: parent_pc.splits)
  show ?thesis
  proof (cases "w_todo w")
    case Nil
    then have w': "w' = w\<lparr>w_pc := W_Report, w_open := False\<rparr>" using st W_Search by (simp add: searcher_step_def)
    show ?thesis using ok W_Search d Nil unfolding w' by (auto simp: worker_ok_def late_def reported_def)
  next
    case (Cons a r)
    show ?thesis
    proof (cases a)
      case Count_File
      then have w': "w' = w\<lparr>w_todo := r, w_files := w_files w + 1\<rparr>" using st W_Search Cons by (simp add: searcher_step_def)
      show ?thesis using ok W_Search d Cons Count_File unfolding w' by (simp add: worker_ok_def late_def reported_def)
    next
      case (Send_Match m)
      then have w': "w' = w\<lparr>w_todo := r, w_pipe := w_pipe w @ [m], w_partial := w_partial w + 1\<rparr>" "length (w_pipe w) < slots"
        using st W_Search Cons by (simp_all add: searcher_step_def split: if_splits)
      show ?thesis using ok W_Search d Cons Send_Match w'(2) unfolding w'(1) by (simp add: worker_ok_def late_def reported_def)
    qed
  qed
next
  case W_Start
  then have w': "w' = w\<lparr>w_pc := W_Search\<rparr>" using st by (simp add: searcher_step_def)
  show ?thesis using ok W_Start unfolding w' by (simp add: worker_ok_def late_def reported_def) 
next
  case W_Report
  then have w': "w' = w\<lparr>w_pc := W_Notify, w_result := Some (int (w_count w), int (w_files w)), w_res_open := False\<rparr>"
    using st by (simp add: searcher_step_def)
  show ?thesis using ok W_Report unfolding w' by (auto simp: worker_ok_def late_def reported_def) 
next
  case W_Notify
  then have w': "w' = w\<lparr>w_pc := W_Dead\<rparr>" using st by (simp add: searcher_step_def)
  show ?thesis using ok W_Notify unfolding w' by (auto simp: worker_ok_def late_def reported_def) 
qed (use st in \<open>simp_all add: searcher_step_def\<close>)

section \<open>Preservation\<close>

definition same_phase :: "parent_pc \<Rightarrow> parent_pc \<Rightarrow> nat \<Rightarrow> bool" where
  "same_phase pc pc' i \<longleftrightarrow> born pc i = born pc' i \<and> was_read pc i = was_read pc' i \<and> collecting pc = collecting pc' \<and>
     drained pc i = drained pc' i \<and> waited pc i = waited pc' i"

lemma worker_ok_phase: "same_phase pc pc' i \<Longrightarrow> worker_ok slots as pc i w \<Longrightarrow> worker_ok slots as pc' i w"
  by (simp add: same_phase_def worker_ok_def)

lemma concat_head:
  "\<forall>i < j. xs ! i = [] \<Longrightarrow> j < length xs \<Longrightarrow> xs ! j = m # r \<Longrightarrow> concat xs = m # concat (xs[j := r])"
proof (induction xs arbitrary: j)
  case (Cons x xs)
  show ?case
  proof (cases j)
    case (Suc k)
    then have "\<forall>i < k. xs ! i = []" using Cons.prems(1) by auto
    then show ?thesis using Cons Suc by auto
  qed (use Cons in auto)
qed simp

lemma add_match_take: "add_match (take MAX_MATCHES got) m = take MAX_MATCHES (got @ [m])"
  by (auto simp: add_match_def)

lemma search_inv_worker:
  assumes inv: "search_inv slots root pids ass s" and i: "i < length (workers s)" and st: "searcher_step slots (workers s ! i) = Some w"
  shows "search_inv slots root pids ass (s\<lparr>workers := (workers s)[i := w], sigusr1_count := k\<rparr>)"
proof -
  note D = search_invD [OF inv]
  have ok: "worker_ok slots (ass ! i) (p_pc s) i w" and pipe: "collecting (p_pc s) \<Longrightarrow> w_pipe w = w_pipe (workers s ! i)"
    using worker_inv [OF D(6) st] i D(1) by (auto simp: collecting_def was_read_def split: parent_pc.splits)
  have "collecting (p_pc s) \<Longrightarrow> map w_pipe ((workers s)[i := w]) = map w_pipe (workers s)"
    unfolding map_update using pipe i by (metis list_update_id nth_map)
  then show ?thesis using inv ok i by (auto simp: search_inv_def nth_list_update)
qed

lemma search_inv_fork:
  assumes inv: "search_inv slots root pids ass s" and pc: "p_pc s = P_Fork i" and st: "parent_step root pids s = Some s'"
  shows "search_inv slots root pids ass s'"
proof -
  note D = search_invD [OF inv]
  show ?thesis
  proof (cases "i \<ge> length ass")
    case True
    then have s': "s' = s\<lparr>p_pc := P_Results 0\<rparr>" using st pc D(1) by (simp add: parent_step_def)
    have "same_phase (P_Fork i) (P_Results 0) k" if "k < length ass" for k using that True by (simp add: same_phase_def phase_defs)
    then have "worker_ok slots (ass ! k) (P_Results 0) k (workers s ! k)" if "k < length ass" for k
      using worker_ok_phase D(6) [OF that] that pc by metis
    then show ?thesis using inv pc unfolding s' by (simp add: search_inv_def phase_defs)
  next
    case False
    then have s': "s' = s\<lparr>workers := (workers s)[i := (workers s ! i)\<lparr>w_pc := W_Start\<rparr>], p_pc := P_Fork (i + 1)\<rparr>"
      using st pc D(1) by (simp add: parent_step_def set_worker_def)
    have same: "same_phase (P_Fork i) (P_Fork (i + 1)) k" if "k \<noteq> i" for k using that by (simp add: same_phase_def phase_defs) linarith
    have "worker_ok slots (ass ! i) (P_Fork (i + 1)) i ((workers s ! i)\<lparr>w_pc := W_Start\<rparr>)"
      using D(6) [of i] False pc by (simp add: worker_ok_def phase_defs)
    then have "worker_ok slots (ass ! k) (P_Fork (i + 1)) k ((workers s)[i := (workers s ! i)\<lparr>w_pc := W_Start\<rparr>] ! k)"
      if "k < length ass" for k
      using worker_ok_phase [OF same] D(6) [OF that] that pc D(1) by (cases "k = i") auto
    then show ?thesis using inv pc False unfolding s' by (simp add: search_inv_def phase_defs)
  qed
qed

lemma search_inv_results:
  assumes inv: "search_inv slots root pids ass s" and pc: "p_pc s = P_Results j" and st: "parent_step root pids s = Some s'"
  shows "search_inv slots root pids ass s'"
proof -
  note D = search_invD [OF inv]
  show ?thesis
  proof (cases "j \<ge> length ass")
    case True
    then have s': "s' = s\<lparr>p_pc := P_Matches 0\<rparr>" using st pc D(1) by (simp add: parent_step_def)
    have w: "worker_ok slots (ass ! k) (P_Matches 0) k (workers s ! k)" "w_pipe (workers s ! k) = sends (ass ! k)"
      if "k < length ass" for k
      using D(6) [OF that] that pc True by (auto simp: worker_ok_def phase_defs)
    have "map w_pipe (workers s) = map sends ass" using w(2) D(1) by (intro nth_equalityI) auto
    then show ?thesis using inv pc w(1) True unfolding s' by (simp add: search_inv_def phase_defs)
  next
    case False
    obtain r where r: "read_counts j s = Some r" "s' = (take_result j r s)\<lparr>p_pc := P_Results (j + 1)\<rparr>"
      using st pc D(1) False by (auto simp: parent_step_def)
    have rd: "reported (w_pc (workers s ! j))" "r = (int (length (sends (ass ! j))), int (files_counted (ass ! j)))"
      using r(1) D(6) [of j] D(7) [of j] False pc by (auto simp: read_counts_def worker_ok_def phase_defs split: option.splits if_splits)
    have same: "same_phase (P_Results j) (P_Results (j + 1)) k" if "k \<noteq> j" for k using that by (simp add: same_phase_def phase_defs) linarith
    have "worker_ok slots (ass ! j) (P_Results (j + 1)) j ((workers s ! j)\<lparr>w_result := None\<rparr>)"
      using D(6) [of j] False pc rd(1) by (auto simp: worker_ok_def phase_defs)
    then have "worker_ok slots (ass ! k) (P_Results (j + 1)) k ((workers s)[j := (workers s ! j)\<lparr>w_result := None\<rparr>] ! k)"
      if "k < length ass" for k
      using worker_ok_phase [OF same] D(6) [OF that] that pc D(1) by (cases "k = j") auto
    moreover have "was_read (P_Results (j + 1)) k = (k = j \<or> was_read (P_Results j) k)" for k by (auto simp: was_read_def)
    ultimately show ?thesis using inv pc False unfolding r(2)
      by (simp add: search_inv_def in_range_def collecting_def take_result_def set_worker_def nth_list_update rd(2))
  qed
qed

lemma search_inv_matches:
  assumes inv: "search_inv slots root pids ass s" and pc: "p_pc s = P_Matches j" and st: "parent_step root pids s = Some s'"
  shows "search_inv slots root pids ass s'"
proof -
  note D = search_invD [OF inv]
  show ?thesis
  proof (cases "j \<ge> length ass")
    case True
    then have s': "s' = s\<lparr>p_pc := P_Wait 0\<rparr>" using st pc D(1) by (simp add: parent_step_def)
    have "same_phase (P_Matches j) (P_Wait 0) k" if "k < length ass" for k using that True by (simp add: same_phase_def phase_defs)
    then have "worker_ok slots (ass ! k) (P_Wait 0) k (workers s ! k)" if "k < length ass" for k
      using worker_ok_phase D(6) [OF that] that pc by metis
    then show ?thesis using inv pc unfolding s' by (simp add: search_inv_def phase_defs)
  next
    case False
    show ?thesis
    proof (cases "w_pipe (workers s ! j)")
      case Nil
      then have s': "s' = s\<lparr>p_pc := P_Matches (j + 1)\<rparr>" using st pc D(1) False by (simp add: parent_step_def split: if_splits)
      have same: "same_phase (P_Matches j) (P_Matches (j + 1)) k" if "k \<noteq> j" for k using that by (simp add: same_phase_def phase_defs) linarith
      have "worker_ok slots (ass ! j) (P_Matches (j + 1)) j (workers s ! j)"
        using D(6) [of j] False pc Nil by (auto simp: worker_ok_def phase_defs)
      then have "worker_ok slots (ass ! k) (P_Matches (j + 1)) k (workers s ! k)" if "k < length ass" for k
        using worker_ok_phase [OF same] D(6) [OF that] that pc by (cases "k = j") auto
      then show ?thesis using inv pc False unfolding s' by (simp add: search_inv_def phase_defs)
    next
      case (Cons m r)
      then have s': "s' = s\<lparr>workers := (workers s)[j := (workers s ! j)\<lparr>w_pipe := r\<rparr>], all_matches := add_match (all_matches s) m\<rparr>"
        using st pc D(1) False by (simp add: parent_step_def set_worker_def)
      have "worker_ok slots (ass ! j) (P_Matches j) j ((workers s ! j)\<lparr>w_pipe := r\<rparr>)"
        using D(6) [of j] False pc by (auto simp: worker_ok_def phase_defs)
      then have ok: "worker_ok slots (ass ! k) (P_Matches j) k ((workers s)[j := (workers s ! j)\<lparr>w_pipe := r\<rparr>] ! k)" if "k < length ass" for k
        using D(6) [OF that] that pc D(1) by (cases "k = j") auto
      obtain got where got: "all_matches s = take MAX_MATCHES got" "got @ concat (map w_pipe (workers s)) = concat (map sends ass)"
        using D(9) pc by (auto simp: collecting_def)
      have "w_pipe (workers s ! k) = []" if "k < j" for k
        using D(6) [of k] that False pc by (simp add: worker_ok_def drained_def)
      then have "concat (map w_pipe (workers s)) = m # concat ((map w_pipe (workers s))[j := r])"
        using concat_head [of j "map w_pipe (workers s)" m r] False D(1) Cons by simp
      then have "(got @ [m]) @ concat (map w_pipe ((workers s)[j := (workers s ! j)\<lparr>w_pipe := r\<rparr>])) = concat (map sends ass)"
        using got(2) by (simp add: map_update)
      then have "\<exists>got. add_match (all_matches s) m = take MAX_MATCHES got \<and>
          got @ concat (map w_pipe ((workers s)[j := (workers s ! j)\<lparr>w_pipe := r\<rparr>])) = concat (map sends ass)"
        by (intro exI [of _ "got @ [m]"]) (simp add: got(1) add_match_take)
      then show ?thesis using inv pc ok unfolding s' by (simp add: search_inv_def collecting_def)
    qed
  qed
qed

lemma search_inv_end:
  assumes inv: "search_inv slots root pids ass s" and pc: "(\<exists>j. p_pc s = P_Wait j) \<or> p_pc s = P_Show" and st: "parent_step root pids s = Some s'"
  shows "search_inv slots root pids ass s'"
proof -
  note D = search_invD [OF inv]
  have kept: "search_inv slots root pids ass (s\<lparr>p_pc := pc'\<rparr>)" if "in_range (length ass) pc'" "\<And>k. k < length ass \<Longrightarrow> waited pc' k \<Longrightarrow> w_pc (workers s ! k) = W_Dead"
    "(\<exists>j. pc' = P_Wait j) \<or> pc' = P_Show" for pc'
  proof -
    have pc': "born pc' = born (p_pc s)" "was_read pc' = was_read (p_pc s)" "collecting pc' = collecting (p_pc s)" "drained pc' = drained (p_pc s)"
      using pc that(3) by (auto simp: fun_eq_iff born_def was_read_def collecting_def drained_def)
    have ok: "worker_ok slots (ass ! k) pc' k (workers s ! k)" if k: "k < length ass" for k
      using D(6) [OF k] \<open>\<And>k. k < length ass \<Longrightarrow> waited pc' k \<Longrightarrow> w_pc (workers s ! k) = W_Dead\<close> [OF k]
      unfolding worker_ok_def pc' by blast
    have "p_pc s \<noteq> P_Exit \<and> pc' \<noteq> P_Exit" using pc that(3) by auto
    then show ?thesis using inv that(1) ok unfolding search_inv_def by (simp add: pc')
  qed
  from pc show ?thesis
  proof
    assume "\<exists>j. p_pc s = P_Wait j"
    then obtain j where j: "p_pc s = P_Wait j" ..
    show ?thesis
    proof (cases "j \<ge> length ass")
      case True
      have "w_pc (workers s ! k) = W_Dead" if "k < length ass" for k
        using D(6) [OF that] that True j by (simp add: worker_ok_def waited_def)
      moreover have "s' = s\<lparr>p_pc := P_Show\<rparr>" using st j True D(1) by (simp add: parent_step_def)
      ultimately show ?thesis using kept by (simp add: in_range_def)
    next
      case False
      then have s': "s' = s\<lparr>p_pc := P_Wait (j + 1)\<rparr>" "w_pc (workers s ! j) = W_Dead" using st j D(1) by (simp_all add: parent_step_def split: if_splits)
      have "w_pc (workers s ! k) = W_Dead" if "k < length ass" "waited (P_Wait (j + 1)) k" for k
        using D(6) [OF that(1)] that(2) s'(2) j by (cases "k = j") (auto simp: worker_ok_def waited_def)
      then show ?thesis unfolding s'(1) by (intro kept) (use False in \<open>auto simp: in_range_def\<close>)
    qed
  next
    assume sh: "p_pc s = P_Show"
    then have s': "s' = s\<lparr>p_pc := P_Exit, shown := shown s @ print_tree root (all_matches s) @
                    print_summary pids (g_worker_matches s) (g_worker_files s)\<rparr>" using st by (simp add: parent_step_def)
    have "worker_ok slots (ass ! k) P_Exit k (workers s ! k)" if "k < length ass" for k
      using D(6) [OF that] sh by (auto simp: worker_ok_def phase_defs)
    then show ?thesis using inv sh unfolding s' by (simp add: search_inv_def phase_defs)
  qed
qed

lemma search_step_inv:
  assumes inv: "search_inv slots root pids ass s" and st: "search_step slots root pids s s'"
  shows "search_inv slots root pids ass s'"
  using st
proof cases
  case (worker_moves i w)
  show ?thesis unfolding worker_moves(1) by (rule search_inv_worker [OF inv worker_moves(2,3)])
next
  case parent_moves
  show ?thesis
  proof (cases "p_pc s")
    case (P_Fork i)
    then show ?thesis by (rule search_inv_fork [OF inv _ parent_moves])
  next
    case (P_Results j)
    then show ?thesis by (rule search_inv_results [OF inv _ parent_moves])
  next
    case (P_Matches j)
    then show ?thesis by (rule search_inv_matches [OF inv _ parent_moves])
  next
    case (P_Wait j)
    then show ?thesis by (intro search_inv_end [OF inv _ parent_moves]) simp
  next
    case P_Show
    then show ?thesis by (intro search_inv_end [OF inv _ parent_moves]) simp
  qed (use search_invD(5) [OF inv] parent_moves in \<open>simp_all add: in_range_def parent_step_def\<close>)
qed

interpretation search_sys: invariant_system "search_reach slots root pids" "search_step slots root pids" "search_inv slots root pids ass"
  for slots root pids ass
proof
  show "search_reach slots root pids s t \<Longrightarrow> (search_step slots root pids)\<^sup>*\<^sup>* s t" for s t
    by (induction rule: search_reach.induct) (auto intro: rtranclp.rtrancl_into_rtrancl)
qed (rule search_step_inv)

lemmas search_reach_inv = search_sys.reach_keeps

end
