(* ===== verification/Search_Properties.thy ===== *)
theory Search_Properties
  imports Search_Invariant
begin

text \<open>The properties of the parallel file search (\<open>HW2\<close>).\<close>

section \<open>Progress and termination\<close>

definition worker_weight :: "searcher \<Rightarrow> nat" where
  "worker_weight w = 3 * length (w_todo w) + length (w_pipe w) +
     (case w_pc w of W_Unborn \<Rightarrow> 5 | W_Start \<Rightarrow> 4 | W_Search \<Rightarrow> 3 | W_Report \<Rightarrow> 2 | W_Notify \<Rightarrow> 1 | W_Dead \<Rightarrow> 0)"

definition parent_weight :: "nat \<Rightarrow> parent_pc \<Rightarrow> nat" where
  "parent_weight n pc = (case pc of P_Fork i \<Rightarrow> 3 * (n + 1) + 2 + (n - i) | P_Results i \<Rightarrow> 2 * (n + 1) + 2 + (n - i)
     | P_Matches i \<Rightarrow> n + 1 + 2 + (n - i) | P_Wait i \<Rightarrow> 2 + (n - i) | P_Show \<Rightarrow> 1 | _ \<Rightarrow> 0)"

definition weight :: "search \<Rightarrow> nat" where
  "weight s = sum_list (map worker_weight (workers s)) + parent_weight (length (workers s)) (p_pc s)"

lemma weight_worker:
  assumes "i < length (workers s)"
  shows "sum_list (map worker_weight ((workers s)[i := w])) + worker_weight (workers s ! i) = sum_list (map worker_weight (workers s)) + worker_weight w"
proof -
  have "worker_weight (workers s ! i) \<le> sum_list (map worker_weight (workers s))" using assms by (intro member_le_sum_list) auto
  then show ?thesis using assms by (simp add: map_update sum_list_update)
qed

lemma weight_less:
  assumes "i < length (workers s)" "workers s' = (workers s)[i := w]"
    "worker_weight w + parent_weight (length (workers s)) (p_pc s') < worker_weight (workers s ! i) + parent_weight (length (workers s)) (p_pc s)"
  shows "weight s' < weight s"
  using weight_worker [OF assms(1), of w] assms by (simp add: weight_def)

lemma searcher_step_weight: "searcher_step slots w = Some w' \<Longrightarrow> worker_weight w' < worker_weight w"
  by (cases "w_pc w"; cases "w_todo w"; cases "hd (w_todo w)") (auto simp: searcher_step_def worker_weight_def split: if_splits)

lemma step_weight:
  assumes inv: "search_inv slots root pids ass s" and st: "search_step slots root pids s s'"
  shows "weight s' < weight s"
  using st
proof cases
  case (worker_moves i w)
  show ?thesis by (rule weight_less [OF worker_moves(2)]) (use searcher_step_weight [OF worker_moves(3)] in \<open>simp_all add: worker_moves(1)\<close>)
next
  case parent_moves
  note D = search_invD [OF inv]
  show ?thesis
  proof (cases "p_pc s")
    case (P_Fork i)
    show ?thesis
    proof (cases "i < length (workers s)")
      case True
      then have un: "w_pc (workers s ! i) = W_Unborn" using D(6) [of i] D(1) P_Fork by (simp add: worker_ok_def born_def)
      show ?thesis
        by (rule weight_less [OF True]) (use parent_moves P_Fork True un in \<open>auto simp: parent_step_def set_worker_def worker_weight_def parent_weight_def\<close>)
    next
      case False
      then show ?thesis using parent_moves P_Fork by (auto simp: parent_step_def weight_def parent_weight_def)
    qed
  next
    case (P_Results i)
    show ?thesis
    proof (cases "i < length (workers s)")
      case True
      show ?thesis
        by (rule weight_less [OF True])
          (use parent_moves P_Results True in \<open>auto simp: parent_step_def set_worker_def take_result_def worker_weight_def parent_weight_def\<close>)
    next
      case False
      then show ?thesis using parent_moves P_Results by (auto simp: parent_step_def weight_def parent_weight_def)
    qed
  next
    case (P_Matches i)
    show ?thesis
    proof (cases "i < length (workers s)")
      case True
      show ?thesis
      proof (cases "w_pipe (workers s ! i)")
        case Nil
        then show ?thesis using parent_moves P_Matches True by (auto simp: parent_step_def weight_def parent_weight_def split: if_splits)
      next
        case (Cons m r)
        show ?thesis
          by (rule weight_less [OF True]) (use parent_moves P_Matches True Cons in \<open>auto simp: parent_step_def set_worker_def worker_weight_def\<close>)
      qed
    next
      case False
      then show ?thesis using parent_moves P_Matches by (auto simp: parent_step_def weight_def parent_weight_def)
    qed
  next
    case (P_Wait i)
    then show ?thesis using parent_moves by (auto simp: parent_step_def weight_def parent_weight_def split: if_splits)
  next
    case P_Show
    then show ?thesis using parent_moves by (auto simp: parent_step_def weight_def parent_weight_def)
  qed (use D(5) parent_moves in \<open>simp_all add: in_range_def parent_step_def\<close>)
qed

text \<open>When the matches of each worker fit into its pipe, somebody can always go on.\<close>

lemma search_progress:
  assumes inv: "search_inv slots root pids ass s" and fit: "\<forall>as \<in> set ass. length (sends as) \<le> slots" and pc: "p_pc s \<noteq> P_Exit"
  shows "\<exists>s'. search_step slots root pids s s'"
proof -
  note D = search_invD [OF inv]
  have parent: ?thesis if "parent_step root pids s \<noteq> None" using that parent_moves by blast
  have go: ?thesis if "i < length ass" "w_pc (workers s ! i) \<noteq> W_Unborn" "w_pc (workers s ! i) \<noteq> W_Dead" for i
  proof -
    let ?w = "workers s ! i"
    have "searcher_step slots ?w \<noteq> None"
    proof (cases "w_pc ?w = W_Search \<and> (\<exists>m as. w_todo ?w = Send_Match m # as)")
      case True
      then obtain m as where m: "w_pc ?w = W_Search" "w_todo ?w = Send_Match m # as" by blast
      have "\<not> collecting (p_pc s)"
        using D(6) [OF that(1)] m(1) by (auto simp: worker_ok_def phase_defs split: parent_pc.splits)
      then have "w_pipe ?w @ sends (Send_Match m # as) = sends (ass ! i)" using D(6) [OF that(1)] m(2) by (auto simp: worker_ok_def)
      from arg_cong [OF this, of length] have "length (w_pipe ?w) < length (sends (ass ! i))" by simp
      then have "length (w_pipe ?w) < slots" using fit that(1) by (meson less_le_trans nth_mem)
      then show ?thesis using m by (simp add: searcher_step_def)
    next
      case False
      then show ?thesis using that(2,3) by (cases "w_pc ?w") (auto simp: searcher_step_def split: list.splits action.splits)
    qed
    then show ?thesis using worker_moves [of i s slots _ root pids] that(1) D(1) by auto
  qed
  show ?thesis
  proof (cases "p_pc s")
    case (P_Results j)
    show ?thesis
    proof (cases "j < length ass \<and> read_counts j s = None")
      case True
      then have "w_res_open (workers s ! j)" by (auto simp: read_counts_def split: if_splits option.splits)
      then have "w_pc (workers s ! j) \<noteq> W_Dead" "w_pc (workers s ! j) \<noteq> W_Unborn"
        using D(6) [of j] True P_Results by (auto simp: worker_ok_def reported_def born_def)
      then show ?thesis using go True by blast
    next
      case False
      then show ?thesis using P_Results D(1) by (intro parent) (auto simp: parent_step_def)
    qed
  next
    case (P_Matches j)
    have "\<not> w_open (workers s ! j)" if "j < length ass"
      using D(6) [OF that] P_Matches by (auto simp: worker_ok_def phase_defs)
    then have "j \<ge> length ass \<or> \<not> w_open (workers s ! j)" by linarith
    then show ?thesis using P_Matches D(1) by (intro parent) (auto simp: parent_step_def split: list.splits)
  next
    case (P_Wait j)
    show ?thesis
    proof (cases "j < length ass \<and> w_pc (workers s ! j) \<noteq> W_Dead")
      case True
      then have "w_pc (workers s ! j) \<noteq> W_Unborn" using D(6) [of j] P_Wait by (auto simp: worker_ok_def born_def)
      then show ?thesis using go True by blast
    next
      case False
      then show ?thesis using P_Wait D(1) by (intro parent) (auto simp: parent_step_def)
    qed
  qed (use pc D(5) in \<open>auto intro!: parent simp: parent_step_def in_range_def\<close>)
qed

interpretation search_ends: terminating_system "search_reach slots root pids" "search_step slots root pids" "search_inv slots root pids ass" weight
  for slots root pids ass
  by unfold_locales (rule step_weight)

definition fitting :: "nat \<Rightarrow> action list list \<Rightarrow> bool" where
  "fitting slots ass \<longleftrightarrow> (\<forall>as \<in> set ass. length (sends as) \<le> slots)"

interpretation search_lives: live_system "search_reach slots root pids" "search_step slots root pids"
    "\<lambda>s. search_inv slots root pids ass s \<and> fitting slots ass" weight "\<lambda>s. p_pc s = P_Exit"
  for slots root pids ass
  by unfold_locales (auto intro: search_sys.reach_closed search_step_inv step_weight search_progress simp: fitting_def)

text \<open>When some worker has more matches than its pipe takes, the parent never gets to read them.\<close>

lemma hang_step:
  assumes inv: "search_inv slots root pids ass s" and i: "i < length ass" "slots < length (sends (ass ! i))"
    and nc: "\<not> collecting (p_pc s)" and st: "search_step slots root pids s s'"
  shows "\<not> collecting (p_pc s')"
  using st
proof cases
  case (worker_moves j w)
  then show ?thesis using nc by simp
next
  case parent_moves
  note ok = search_invD(6) [OF inv i(1)]
  have "\<not> was_read (p_pc s) i"
  proof
    assume "was_read (p_pc s) i"
    then have "w_todo (workers s ! i) = []" using ok by (auto simp: worker_ok_def reported_def late_def)
    then have "length (sends (ass ! i)) \<le> slots" using ok nc by (auto simp: worker_ok_def)
    then show False using i(2) by simp
  qed
  then show ?thesis using nc parent_moves i search_invD(1) [OF inv]
    by (cases "p_pc s") (auto simp: parent_step_def collecting_def was_read_def split: if_splits)
qed

section \<open>From the start\<close>

lemma sum_list_of_nat: "(\<Sum>x\<leftarrow>xs. int (f x)) = int (\<Sum>x\<leftarrow>xs. f x)"
  by (induction xs) simp_all

lemma record_found:
  assumes "\<forall>(p, d) \<in> set subdirs. length p < 4096" "record_match_and_file args pid i subdirs = (k, as)"
  defines "mine \<equiv> concat (map (\<lambda>(p, d). files_below p d) (share (nat (num_workers args)) i subdirs))"
  shows "k = length (sends as) \<and> files_counted as = length mine \<and> map shown_as (sends as) = found_in args mine"
proof -
  let ?go = "\<lambda>(p, d). search_directory args pid p d"
  have "set (share (nat (num_workers args)) i subdirs) \<subseteq> set subdirs" by (auto simp: share_def)
  then have one: "fst (?go x) = length (sends (snd (?go x))) \<and> files_counted (snd (?go x)) = length ((\<lambda>(p, d). files_below p d) x) \<and>
      map shown_as (sends (snd (?go x))) = found_in args ((\<lambda>(p, d). files_below p d) x)"
    if "x \<in> set (share (nat (num_workers args)) i subdirs)" for x
  proof -
    obtain p d where x: "x = (p, d)" by (cases x)
    have "length p < 4096" using that assms(1) x \<open>_ \<subseteq> set subdirs\<close> by blast
    from search_found(1) [OF this surjective_pairing, of args pid d] show ?thesis by (simp add: x)
  qed
  have k: "k = sum_list (map (fst \<circ> ?go) (share (nat (num_workers args)) i subdirs))"
    "as = concat (map (snd \<circ> ?go) (share (nat (num_workers args)) i subdirs))"
    using assms(2) by (auto simp: record_match_and_file_def)
  show ?thesis unfolding k mine_def using one
    by (simp add: sends_concat files_counted_concat length_concat map_concat found_in_concat o_def cong: map_cong)
qed

lemma mset_found_concat:
  assumes "mset xs = mset ys"
  shows "mset (found_in args (concat (map f xs))) = mset (found_in args (concat (map f ys)))"
    "length (concat (map f xs)) = length (concat (map f ys))"
proof -
  have eq: "mset (concat (map f xs)) = mset (concat (map f ys))" using assms by (metis mset_concat mset_map sum_mset_sum_list)
  then show "mset (found_in args (concat (map f xs))) = mset (found_in args (concat (map f ys)))"
    unfolding found_in_def mset_map mset_filter by simp
  show "length (concat (map f xs)) = length (concat (map f ys))" using eq by (metis size_mset)
qed

text \<open>The files the workers go through: everything below the subdirectories of the root.\<close>

definition files_to_search :: "string \<Rightarrow> listing \<Rightarrow> (string \<times> string \<times> stat) list" where
  "files_to_search root d = concat (map (\<lambda>(p, l). files_below p l) (subdirs_of root (the d)))"

lemma search_main_start:
  assumes "search_main opendir ppid pid argv = Running args pids s0"
  obtains ass where "search_inv slots (root_dir args) pids ass s0" "map w_count (workers s0) = map (length \<circ> sends) ass"
    "mset (map shown_as (concat (map sends ass))) = mset (found_in args (files_to_search (root_dir args) (opendir (root_dir args))))"
    "sum_list (map files_counted ass) = length (files_to_search (root_dir args) (opendir (root_dir args)))"
    "\<not> collecting (p_pc s0)"
proof -
  obtain args0 es where a: "parse_arguments argv = Some args0" "opendir (root_dir args0) = Some es"
      "create_workers args0 ppid pid es = Running args pids s0"
    using assms by (auto simp: search_main_def split: option.splits)
  let ?k = "root_subdirs (root_dir args0) es"
  have k: "?k \<noteq> 0" and args: "args = check_num_subdirs ?k args0"
    using a(3) by (auto simp: create_workers_def Let_def split: if_splits prod.splits)
  have root: "root_dir args = root_dir args0" by (simp add: args check_num_subdirs_def)
  have nw: "0 < num_workers args"
    using a(1) k by (auto simp: args check_num_subdirs_def parse_arguments_def split: prod.splits option.splits if_splits)
  let ?n = "nat (num_workers args)" and ?sub = "subdirs_of (root_dir args0) es"
  define rec where "rec = (\<lambda>i. record_match_and_file args (pid i) i ?sub)"
  let ?rs = "map rec [0..<?n]" and ?fb = "\<lambda>(p, d). files_below p d"
  have sub: "fill_subdirs (root_dir args0) ?k es = ?sub" by (rule fill_subdirs_all) (simp add: root_subdirs_length)
  have s0: "workers s0 = map new_worker ?rs" "p_pc s0 = P_Fork 0" "all_matches s0 = []" "g_worker_matches s0 = replicate ?n 0"
    "g_worker_files s0 = replicate ?n 0" "res_closed s0 = replicate ?n False" "shown s0 = []"
    using a(3) k unfolding args rec_def by (auto simp: create_workers_def Let_def sub)
  have short: "\<forall>(p, d) \<in> set ?sub. length p < 4096" using subdirs_of_short by blast
  have r: "fst (rec i) = length (sends (snd (rec i)))" "files_counted (snd (rec i)) = length (concat (map ?fb (share ?n i ?sub)))"
    "map shown_as (sends (snd (rec i))) = found_in args (concat (map ?fb (share ?n i ?sub)))" for i
    using record_found [OF short, of args "pid i" i "fst (rec i)" "snd (rec i)"] by (simp_all add: rec_def)
  have all: "mset (concat (map (\<lambda>i. share ?n i ?sub) [0..<?n])) = mset ?sub" using share_mset [of ?n ?sub] nw by simp
  have fts: "files_to_search (root_dir args) (opendir (root_dir args)) = concat (map ?fb ?sub)"
    by (simp add: files_to_search_def root a(2))
  have nest: "concat (map (\<lambda>i. concat (map ?fb (share ?n i ?sub))) is) = concat (map ?fb (concat (map (\<lambda>i. share ?n i ?sub) is)))" for "is"
    by (induction "is") simp_all
  have "map shown_as (concat (map sends (map snd ?rs))) = found_in args (concat (map (\<lambda>i. concat (map ?fb (share ?n i ?sub))) [0..<?n]))"
    unfolding found_in_concat by (simp add: map_concat o_def r(3))
  then have "mset (map shown_as (concat (map sends (map snd ?rs)))) = mset (found_in args (files_to_search (root_dir args) (opendir (root_dir args))))"
    unfolding nest fts using mset_found_concat(1) [OF all] by simp
  moreover have "sum_list (map files_counted (map snd ?rs)) = length (concat (map (\<lambda>i. concat (map ?fb (share ?n i ?sub))) [0..<?n]))"
    by (simp add: length_concat [of "map _ [0..<_]"] o_def r(2))
  then have "sum_list (map files_counted (map snd ?rs)) = length (files_to_search (root_dir args) (opendir (root_dir args)))"
    unfolding nest fts using mset_found_concat(2) [OF all] by simp
  moreover have "search_inv slots (root_dir args) pids (map snd ?rs) s0"
    by (rule search_start_inv [OF s0(1,2,3) _ _ _ s0(7)]) (use s0(4,5,6) r(1) in auto)
  moreover have "map w_count (workers s0) = map (length \<circ> sends) (map snd ?rs)"
    by (simp add: s0(1) o_def new_worker_def r(1))
  moreover have "\<not> collecting (p_pc s0)" by (simp add: s0(2) collecting_def)
  ultimately show ?thesis using that by blast
qed

section \<open>A demonstration\<close>

text \<open>A schedule lists who moves: a worker, or the parent.\<close>

fun run_search :: "nat \<Rightarrow> string \<Rightarrow> int list \<Rightarrow> nat option list \<Rightarrow> search \<Rightarrow> search" where
  "run_search slots root pids [] s = s"
| "run_search slots root pids (Some i # ms) s =
     run_search slots root pids ms
       (if i < length (workers s) then
          (case searcher_step slots (workers s ! i) of
             None \<Rightarrow> s
           | Some w \<Rightarrow> s\<lparr>workers := (workers s)[i := w], sigusr1_count := sigusr1_count s + (if w_pc (workers s ! i) = W_Notify then 1 else 0)\<rparr>)
        else s)"
| "run_search slots root pids (None # ms) s =
     run_search slots root pids ms (case parent_step root pids s of None \<Rightarrow> s | Some s' \<Rightarrow> s')"

lemma run_search_reach: "search_reach slots root pids s0 s \<Longrightarrow> search_reach slots root pids s0 (run_search slots root pids ms s)"
proof (induction slots root pids ms s rule: run_search.induct)
  case (2 slots root pids i ms s)
  show ?case unfolding run_search.simps
    by (rule 2(1)) (use 2(2) search_more [OF 2(2) worker_moves [of i s slots _ root pids]] in \<open>auto split: option.splits\<close>)
next
  case (3 slots root pids ms s)
  show ?case unfolding run_search.simps
    by (rule 3(1)) (use 3(2) search_more [OF 3(2) parent_moves [of root pids s _ slots]] in \<open>auto split: option.splits\<close>)
qed simp

definition demo_stat :: "file_type \<Rightarrow> int \<Rightarrow> stat" where
  "demo_stat t n = \<lparr>st_type = t, st_perm = 420, st_nlink = 1, st_size = n\<rparr>"

definition demo_root :: "string \<Rightarrow> listing" where
  "demo_root dir =
     Some [(''.'', Node (demo_stat S_DIR 0) None), (''a.c'', Node (demo_stat S_REG 9) None),
           (''x'', Node (demo_stat S_DIR 0) (Some [(''A.c'', Node (demo_stat S_REG 9) None), (''b'', Node (demo_stat S_REG 1) None)])),
           (''y'', Node (demo_stat S_DIR 0) (Some [(''z'', Node (demo_stat S_DIR 0) (Some [(''aa.c'', Node (demo_stat S_REG 8) None)])),
                                                  (''a.c'', Node (demo_stat S_REG 3) None)]))]"

definition demo_search_argv :: "string list" where
  "demo_search_argv = [''-d'', ''/r'', ''-n'', ''2'', ''-f'', ''a+.c'']"

definition demo_search_args :: s_args where
  "demo_search_args = \<lparr>root_dir = ''/r'', num_workers = 2, pattern = ''a+.c'', min_size = 0, d_flag = True, n_flag = True, f_flag = True, s_flag = False\<rparr>"

definition demo_search :: search where
  "demo_search =
     (let m = \<lambda>p w n. \<lparr>path = p, worker_pid = w, size_of = n\<rparr> in
      \<lparr>workers = map new_worker
         [(1, [Count_File, Send_Match (m ''/r/x/A.c'' 101 9), Count_File]),
          (2, [Count_File, Send_Match (m ''/r/y/z/aa.c'' 102 8), Count_File, Send_Match (m ''/r/y/a.c'' 102 3)])],
       p_pc = P_Fork 0, all_matches = [], g_worker_matches = [0, 0], g_worker_files = [0, 0], res_closed = [False, False],
       sigusr1_count = 0, shown = []\<rparr>)"

lemma demo_search_main: "search_main demo_root 100 (\<lambda>i. 101 + int i) demo_search_argv = Running demo_search_args [101, 102] demo_search"
proof -
  have "parse_arguments demo_search_argv = Some demo_search_args" by code_simp
  moreover have "create_workers demo_search_args 100 (\<lambda>i. 101 + int i) (the (demo_root ''/r'')) = Running demo_search_args [101, 102] demo_search"
    by code_simp
  ultimately show ?thesis by (simp add: search_main_def demo_search_args_def demo_root_def)
qed

definition demo_schedule :: "nat option list" where
  "demo_schedule = replicate 3 None @ replicate 12 (Some 0) @ replicate 12 (Some 1) @ replicate 20 None"

definition demo_search_end :: search where
  "demo_search_end = run_search 15 ''/r'' [101, 102] demo_schedule demo_search"

section \<open>The search\<close>

text \<open>C21: when the pipe of each worker takes all its matches, the search cannot stop before its end, comes to it
  after a bounded number of steps in any order, and then shows the first 1024 of the matches there are
  below the subdirectories of the root - each once, whoever has found it - with the counts of all of
  them and of all files.\<close>

theorem search_completes:
  assumes "search_main opendir ppid pid argv = Running args pids s0" and "search_reach slots (root_dir args) pids s0 s"
    and "list_all (\<lambda>w. w_count w \<le> slots) (workers s0)"
  shows "(p_pc s = P_Exit \<or> (\<exists>s'. search_step slots (root_dir args) pids s s')) \<and>
    (\<forall>k t. (search_step slots (root_dir args) pids ^^ k) s t \<longrightarrow> k + weight t \<le> weight s) \<and>
    (\<exists>t. (search_step slots (root_dir args) pids)\<^sup>*\<^sup>* s t \<and> p_pc t = P_Exit) \<and>
    (p_pc s = P_Exit \<longrightarrow>
      (\<exists>found ms fs. mset (map shown_as found) = mset (found_in args (files_to_search (root_dir args) (opendir (root_dir args)))) \<and>
         sum_list ms = int (length found) \<and> sum_list fs = int (length (files_to_search (root_dir args) (opendir (root_dir args)))) \<and>
         shown s = print_tree (root_dir args) (take MAX_MATCHES found) @ print_summary pids ms fs))"
proof -
  obtain ass where ass: "search_inv slots (root_dir args) pids ass s0" "map w_count (workers s0) = map (length \<circ> sends) ass"
    "mset (map shown_as (concat (map sends ass))) = mset (found_in args (files_to_search (root_dir args) (opendir (root_dir args))))"
    "sum_list (map files_counted ass) = length (files_to_search (root_dir args) (opendir (root_dir args)))"
    by (rule search_main_start [OF assms(1)])
  note inv = search_reach_inv [OF assms(2) ass(1)]
  note D = search_invD [OF inv]
  have "\<forall>k \<in> set (map w_count (workers s0)). k \<le> slots" using assms(3) by (simp add: list_all_iff)
  then have "\<forall>as \<in> set ass. length (sends as) \<le> slots" unfolding ass(2) by simp
  then have live: "search_inv slots (root_dir args) pids ass s \<and> fitting slots ass" using inv by (simp add: fitting_def)
  have "\<exists>found ms fs. mset (map shown_as found) = mset (found_in args (files_to_search (root_dir args) (opendir (root_dir args)))) \<and>
         sum_list ms = int (length found) \<and> sum_list fs = int (length (files_to_search (root_dir args) (opendir (root_dir args)))) \<and>
         shown s = print_tree (root_dir args) (take MAX_MATCHES found) @ print_summary pids ms fs" if "p_pc s = P_Exit"
  proof -
    have "w_pipe (workers s ! i) = []" if "i < length ass" for i
      using D(6) [OF that] \<open>p_pc s = P_Exit\<close> by (simp add: worker_ok_def drained_def)
    then have "\<forall>p \<in> set (map w_pipe (workers s)). p = []" using D(1) by (auto simp: in_set_conv_nth)
    then have "concat (map w_pipe (workers s)) = []" by (simp only: concat_eq_Nil_conv)
    then have all: "all_matches s = take MAX_MATCHES (concat (map sends ass))" using D(9) that by (auto simp: collecting_def simp del: concat_eq_Nil_conv)
    have "g_worker_matches s = map (\<lambda>as. int (length (sends as))) ass" "g_worker_files s = map (\<lambda>as. int (files_counted as)) ass"
      using D(2,3,8) that by (auto intro!: nth_equalityI simp: was_read_def)
    then have "sum_list (g_worker_matches s) = int (length (concat (map sends ass)))" "sum_list (g_worker_files s) = int (sum_list (map files_counted ass))"
      by (simp_all add: length_concat o_def sum_list_of_nat)
    then show ?thesis using all ass(3,4) D(11) that by (intro exI [of _ "concat (map sends ass)"] exI) auto
  qed
  then show ?thesis using search_lives.goes_on [OF live] search_lives.gets_over [OF live] search_lives.runs_bounded [OF _ live] by blast
qed

lemma search_completes_witness:
  "p_pc demo_search_end = P_Exit \<and>
   mset (found_in demo_search_args (files_to_search ''/r'' (demo_root ''/r''))) = {#(''/r/x/A.c'', 9), (''/r/y/z/aa.c'', 8), (''/r/y/a.c'', 3)#} \<and>
   (\<exists>found ms fs. mset (map shown_as found) = {#(''/r/x/A.c'', 9), (''/r/y/z/aa.c'', 8), (''/r/y/a.c'', 3)#} \<and> sum_list fs = (4::int) \<and>
      shown demo_search_end = print_tree ''/r'' (take MAX_MATCHES found) @ print_summary [101, 102] ms fs)"
proof -
  have root: "root_dir demo_search_args = ''/r''" by (simp add: demo_search_args_def)
  have "search_reach 15 ''/r'' [101, 102] demo_search demo_search_end"
    unfolding demo_search_end_def by (rule run_search_reach [OF search_start])
  moreover have "list_all (\<lambda>w. w_count w \<le> 15) (workers demo_search)" by code_simp
  moreover have "p_pc demo_search_end = P_Exit" by code_simp
  moreover have "found_in demo_search_args (files_to_search ''/r'' (demo_root ''/r'')) = [(''/r/x/A.c'', 9), (''/r/y/z/aa.c'', 8), (''/r/y/a.c'', 3)]"
    by code_simp
  moreover have "length (files_to_search ''/r'' (demo_root ''/r'')) = 4" by code_simp
  ultimately show ?thesis
    using search_completes [OF demo_search_main, of 15 demo_search_end] unfolding root by auto
qed

text \<open>C22: when one worker has more matches than its pipe takes, the parent - which first waits for the counts of
  the workers and reads the matches after that - never shows anything: whatever the order of the steps,
  the processes stop after a bounded number of them, waiting for each other.\<close>

theorem search_hangs:
  assumes "search_main opendir ppid pid argv = Running args pids s0" and "search_reach slots (root_dir args) pids s0 s"
    and "i < length (workers s0)" and "slots < w_count (workers s0 ! i)"
  shows "p_pc s \<noteq> P_Exit \<and> shown s = [] \<and> all_matches s = [] \<and>
    (\<exists>t. (search_step slots (root_dir args) pids)\<^sup>*\<^sup>* s t \<and> (\<nexists>u. search_step slots (root_dir args) pids t u)) \<and>
    (\<forall>k t. (search_step slots (root_dir args) pids ^^ k) s t \<longrightarrow> k + weight t \<le> weight s)"
proof -
  obtain ass where ass: "search_inv slots (root_dir args) pids ass s0" "map w_count (workers s0) = map (length \<circ> sends) ass"
    "\<not> collecting (p_pc s0)" by (rule search_main_start [OF assms(1)])
  note inv = search_reach_inv [OF assms(2) ass(1)]
  have i: "i < length ass" using assms(3) search_invD(1) [OF ass(1)] by simp
  have "w_count (workers s0 ! i) = length (sends (ass ! i))" using arg_cong [OF ass(2), of "\<lambda>xs. xs ! i"] assms(3) i by simp
  then have many: "slots < length (sends (ass ! i))" using assms(4) by simp
  have "\<not> collecting (p_pc s)"
    using assms(2)
  proof (induction rule: search_reach.induct)
    case (search_more s s')
    then show ?case using hang_step [OF search_reach_inv [OF search_more.hyps(1) ass(1)] i many] by blast
  qed (rule ass(3))
  then show ?thesis
    using search_invD(10,11) [OF inv] search_ends.comes_to_rest [OF inv] search_ends.runs_bounded [OF _ inv] by (auto simp: collecting_def)
qed

lemma search_hangs_witness:
  "p_pc (run_search 1 ''/r'' [101, 102] demo_schedule demo_search) \<noteq> P_Exit \<and> w_count (workers demo_search ! 1) = 2"
proof -
  have "1 < length (workers demo_search) \<and> w_count (workers demo_search ! 1) = 2" by code_simp
  moreover have "search_reach 1 (root_dir demo_search_args) [101, 102] demo_search (run_search 1 ''/r'' [101, 102] demo_schedule demo_search)"
    using run_search_reach [OF search_start] by (simp add: demo_search_args_def)
  ultimately show ?thesis using search_hangs [OF demo_search_main, of 1 _ 1] by simp
qed

end
