(* ===== verification/Trade_Price.thy ===== *)
theory Trade_Price
  imports C_Library Complex_Main
begin

text \<open>
  The prices of the trading server (\<open>Final\<close>) are of the C type \<open>float\<close>, with 24 binary digits.  A
  price is the rational number the \<open>float\<close> stands for and every operation rounds its exact result
  to the nearest \<open>float\<close>, to the even one in the middle.  Infinities, \<open>nan\<close> and negative zero are
  left out: they only come from stock files with such words or with numbers beyond \<open>10^38\<close>.
\<close>

section \<open>Rounding\<close>

function ilog2 :: "int \<Rightarrow> int" where
  "ilog2 n = (if n < 2 then 0 else 1 + ilog2 (n div 2))"
  by auto
termination
  by (relation "measure nat") auto

declare ilog2.simps [simp del]

abbreviation pow2 :: "int \<Rightarrow> rat" where
  "pow2 e \<equiv> 2 powi e"

text \<open>The binary exponent of the last digit of a \<open>float\<close> near the positive number \<open>x\<close>; numbers below
  \<open>2^-126\<close> have fewer digits.\<close>

definition float_exp :: "rat \<Rightarrow> int" where
  "float_exp x =
     (case quotient_of x of
        (p, q) \<Rightarrow>
          let d = ilog2 p - ilog2 q;
              l = (if pow2 d \<le> x then d else d - 1)
          in max (l - 23) (- 149))"

definition round_even :: "rat \<Rightarrow> int" where
  "round_even x =
     (let f = \<lfloor>x\<rfloor>; r = x - of_int f in
      if r < 1 / 2 then f else if r > 1 / 2 then f + 1 else if even f then f else f + 1)"

definition to_float :: "rat \<Rightarrow> rat" where
  "to_float x =
     (if x = 0 then 0
      else let e = float_exp \<bar>x\<bar>; m = of_int (round_even (\<bar>x\<bar> / pow2 e)) * pow2 e in if x < 0 then - m else m)"

lemma round_even_pos: "1 \<le> x \<Longrightarrow> 1 \<le> round_even x"
proof -
  assume "1 \<le> x"
  then have "1 \<le> \<lfloor>x\<rfloor>" by linarith
  then show ?thesis by (simp add: round_even_def Let_def)
qed

lemma round_even_nonneg: "0 \<le> x \<Longrightarrow> 0 \<le> round_even x"
  by (simp add: round_even_def Let_def)

lemma ilog2_bounds: "1 \<le> n \<Longrightarrow> 0 \<le> ilog2 n \<and> 2 ^ nat (ilog2 n) \<le> n \<and> n < 2 ^ (nat (ilog2 n) + 1)"
proof (induction n rule: ilog2.induct)
  case (1 n)
  show ?case
  proof (cases "n < 2")
    case True
    then have "n = 1" using 1 by linarith
    then show ?thesis by (subst (1 2 3) ilog2.simps) simp
  next
    case False
    then have h: "0 \<le> ilog2 (n div 2)" "2 ^ nat (ilog2 (n div 2)) \<le> n div 2" "n div 2 < 2 ^ (nat (ilog2 (n div 2)) + 1)"
      using 1 by auto
    have l: "ilog2 n = 1 + ilog2 (n div 2)" using False by (subst ilog2.simps) simp
    have "nat (ilog2 n) = Suc (nat (ilog2 (n div 2)))" using h(1) l by simp
    moreover have "2 * m \<le> n \<and> n < 4 * m" if "m \<le> n div 2" "n div 2 < 2 * m" for m using that by presburger
    from this [OF h(2)] have "2 * 2 ^ nat (ilog2 (n div 2)) \<le> n \<and> n < 4 * 2 ^ nat (ilog2 (n div 2))" using h(3) by simp
    ultimately show ?thesis using h(1) l by simp
  qed
qed

text \<open>The smallest positive \<open>float\<close>.\<close>

definition float_min :: rat where
  "float_min = pow2 (- 149)"

lemma float_min_pos: "0 < float_min"
  by (simp add: float_min_def)

lemma float_exp_le:
  assumes "float_min \<le> x"
  shows "pow2 (float_exp x) \<le> x" "- 149 \<le> float_exp x"
proof -
  have x0: "0 < x" using assms float_min_pos by linarith
  obtain p q where pq: "quotient_of x = (p, q)" by (cases "quotient_of x")
  have q: "0 < q" using quotient_of_denom_pos [OF pq] .
  have x: "x = of_int p / of_int q" using quotient_of_div [OF pq] .
  have p: "0 < p" using x0 q unfolding x by (simp add: zero_less_divide_iff)
  let ?a = "ilog2 p" and ?b = "ilog2 q"
  define d where "d = ?a - ?b"
  define l where "l = (if pow2 d \<le> x then d else d - 1)"
  have e: "float_exp x = max (l - 23) (- 149)" by (simp add: float_exp_def pq Let_def l_def d_def)
  have bp: "0 \<le> ?a" "2 ^ nat ?a \<le> p" and bq: "0 \<le> ?b" "q < 2 ^ (nat ?b + 1)" using ilog2_bounds [of p] ilog2_bounds [of q] p q by auto
  have "pow2 ?a = 2 ^ nat ?a" "pow2 (?b + 1) = 2 ^ (nat ?b + 1)" using bp bq by (simp_all add: power_int_def nat_add_distrib)
  moreover have "of_int (2 ^ nat ?a) \<le> (of_int p :: rat)" "(of_int q :: rat) < of_int (2 ^ (nat ?b + 1))"
    using bp(2) bq(2) by (simp_all only: of_int_le_iff of_int_less_iff)
  ultimately have ab: "pow2 ?a \<le> of_int p" "of_int q < pow2 (?b + 1)" by simp_all
  have "pow2 (d - 1) = pow2 ?a / pow2 (?b + 1)" by (simp add: d_def power_int_diff power_int_add)
  also have "\<dots> \<le> of_int p / of_int q"
    by (rule frac_le) (use ab q p in auto)
  finally have "pow2 (d - 1) \<le> x" unfolding x .
  then have l: "pow2 l \<le> x" by (simp add: l_def)
  have "pow2 (l - 23) \<le> pow2 l" by (rule power_int_increasing) auto
  then have "pow2 (l - 23) \<le> x" using l by linarith
  then show "pow2 (float_exp x) \<le> x" "- 149 \<le> float_exp x" using assms unfolding e by (simp_all add: max_def float_min_def)
qed

lemma to_float_min:
  assumes "float_min \<le> x"
  shows "float_min \<le> to_float x"
proof -
  have x0: "0 < x" using assms float_min_pos by linarith
  let ?e = "float_exp x"
  have "1 \<le> x / pow2 ?e" using float_exp_le(1) [OF assms] by (simp add: pos_le_divide_eq)
  then have "(1 :: rat) \<le> of_int (round_even (x / pow2 ?e))" using round_even_pos by (metis of_int_1 of_int_le_iff)
  then have "pow2 ?e \<le> of_int (round_even (x / pow2 ?e)) * pow2 ?e"
    using mult_right_mono [of 1 "of_int (round_even (x / pow2 ?e))" "pow2 ?e"] by simp
  moreover have "float_min \<le> pow2 ?e" unfolding float_min_def by (rule power_int_increasing) (use float_exp_le(2) [OF assms] in auto)
  moreover have "to_float x = of_int (round_even (x / pow2 ?e)) * pow2 ?e" using x0 by (simp add: to_float_def Let_def)
  ultimately show ?thesis by linarith
qed

lemma to_float_nonneg: "0 \<le> x \<Longrightarrow> 0 \<le> to_float x"
  using round_even_nonneg by (simp add: to_float_def Let_def)

text \<open>A positive \<open>float\<close> is at least that.\<close>

lemma to_float_pos_min: "0 < to_float x \<Longrightarrow> float_min \<le> to_float x"
proof -
  assume pos: "0 < to_float x"
  let ?e = "float_exp \<bar>x\<bar>" and ?r = "round_even (\<bar>x\<bar> / pow2 (float_exp \<bar>x\<bar>))"
  have "0 \<le> ?r" by (rule round_even_nonneg) simp
  then have "0 \<le> of_int ?r * pow2 ?e" by simp
  then have "\<not> x < 0" "x \<noteq> 0" using pos by (auto simp: to_float_def Let_def)
  then have tf: "to_float x = of_int ?r * pow2 ?e" by (simp add: to_float_def Let_def)
  then have "?r \<noteq> 0" using pos by auto
  then have "(1 :: rat) \<le> of_int ?r" using \<open>0 \<le> ?r\<close> by (metis of_int_1 of_int_le_iff le_less int_one_le_iff_zero_less)
  then have "pow2 ?e \<le> to_float x" using mult_right_mono [of 1 "of_int ?r" "pow2 ?e"] tf by simp
  moreover have "float_min \<le> pow2 ?e" unfolding float_min_def by (rule power_int_increasing) (auto simp: float_exp_def Let_def split: prod.splits)
  ultimately show ?thesis by linarith
qed

section \<open>Printing and reading\<close>

text \<open>\<open>%.2f\<close>\<close>

definition show_price :: "rat \<Rightarrow> string" where
  "show_price x =
     (let n = round_even (\<bar>x\<bar> * 100); c = nat (n mod 100) in
      (if x < 0 then ''-'' else []) @ int_dec (n div 100) @ ''.'' @ [char_of (c div 10 + 48), char_of (c mod 10 + 48)])"

text \<open>\<open>%f\<close> of \<open>sscanf\<close>, without the hexadecimal form: the digits with a point, an exponent.\<close>

definition scan_exponent :: "string \<Rightarrow> int" where
  "scan_exponent s =
     (if s = [] \<or> to_lower (hd s) \<noteq> CHR ''e'' then 0
      else (case strtol (tl s) of (v, r, err) \<Rightarrow> if tl s = [] \<or> is_space (hd (tl s)) then 0 else v))"

definition scan_float :: "string \<Rightarrow> rat option" where
  "scan_float s =
     (let t = dropWhile is_space s;
          neg = (t \<noteq> [] \<and> hd t = CHR ''-'');
          u = (if t \<noteq> [] \<and> (hd t = CHR ''-'' \<or> hd t = CHR ''+'') then tl t else t);
          ds = takeWhile is_digit u;
          v = dropWhile is_digit u;
          fs = (if v \<noteq> [] \<and> hd v = CHR ''.'' then takeWhile is_digit (tl v) else []);
          w = (if v \<noteq> [] \<and> hd v = CHR ''.'' then dropWhile is_digit (tl v) else v);
          e = scan_exponent w - int (length fs);
          m = of_nat (dec_value (ds @ fs));
          x = (if e \<ge> 0 then m * 10 ^ nat e else m / 10 ^ nat (- e))
      in if ds = [] \<and> fs = [] then None else Some (to_float (if neg then - x else x)))"

section \<open>Trades\<close>

definition float_cent :: rat where
  "float_cent = to_float (1 / 100)"

definition buy_price :: "rat \<Rightarrow> int \<Rightarrow> rat" where
  "buy_price old qty = to_float (old + to_float (to_float (of_int qty) * float_cent))"

definition sell_price :: "rat \<Rightarrow> int \<Rightarrow> rat" where
  "sell_price old qty =
     (let new = to_float (old - to_float (to_float (of_int qty) * float_cent))
      in if new < float_cent then float_cent else new)"

lemma float_cent_min: "float_min \<le> float_cent"
  unfolding float_cent_def by (rule to_float_min) (simp add: float_min_def power_int_def power_one_over field_simps)

lemma buy_price_min: "float_min \<le> old \<Longrightarrow> 0 < qty \<Longrightarrow> float_min \<le> buy_price old qty"
proof -
  assume "float_min \<le> old" "0 < qty"
  moreover have "0 \<le> float_cent" using float_cent_min float_min_pos by linarith
  then have "0 \<le> to_float (to_float (of_int qty) * float_cent)" using \<open>0 < qty\<close> by (intro to_float_nonneg mult_nonneg_nonneg) simp_all
  ultimately show ?thesis unfolding buy_price_def by (intro to_float_min) linarith
qed

lemma sell_price_min: "float_cent \<le> sell_price old qty"
  by (simp add: sell_price_def Let_def)

end
