(* ===== verification/Trade_Server.thy ===== *)
theory Trade_Server
  imports Trade_Price
begin

text \<open>
  The trading server (\<open>Final/ServerTrd.c\<close>): stocks and their prices, clients with their portfolios, the
  commands, reading lines from a connection, and the loop of the server.
\<close>

section \<open>State\<close>

definition MAX_STOCKS :: nat where "MAX_STOCKS = 128"
definition MAX_TRADERS :: nat where "MAX_TRADERS = 10"
definition MAX_LINE :: nat where "MAX_LINE = 512"
definition SYMBOL_LEN :: nat where "SYMBOL_LEN = 9"
definition BCAST_INTERVAL :: int where "BCAST_INTERVAL = 5"

record stock_t =
  symbol :: string
  price :: rat

record holding_t =
  h_symbol :: string
  h_qty :: int

text \<open>\<open>trades\<close> is a history variable: what the client has bought and, negative, sold since it was accepted.\<close>

record client_t =
  fd :: int
  username :: string
  ctype :: string
  line_buf :: string
  joined :: bool
  portfolio :: "holding_t list"
  trades :: "(string \<times> int) list"

datatype trade_event = Server_Start int int nat | Connected int string | Disconnected string string | Joined string string int
  | Bought string string int rat rat | Sold string string int rat rat | Price_Broadcast string | Shut_Down | Cleanup_Done

text \<open>\<open>smashed\<close> is set when a text is written past the end of its buffer; nothing is said from then on.\<close>

record market =
  stocks :: "stock_t list"
  clients :: "client_t list"
  client_count :: int
  events :: "trade_event list"
  sent :: "(int \<times> string) list"
  broadcasts :: "string list"
  closed :: "int list"
  smashed :: bool

text \<open>The lines of the log.\<close>

fun trade_text :: "trade_event \<Rightarrow> string" where
  "trade_text (Server_Start tp up n) =
     ''[SERVER] SERVER_START tcp_port='' @ int_dec tp @ '' udp_port='' @ int_dec up @ '' stocks='' @ nat_dec n @ [LF]"
| "trade_text (Connected f ip) = ''[SERVER] CLIENT_CONNECTED fd='' @ int_dec f @ '' ip='' @ ip @ [LF]"
| "trade_text (Disconnected u r) = ''[SERVER] CLIENT_DISCONNECTED username='' @ u @ '' reason='' @ r @ [LF]"
| "trade_text (Joined u t f) = ''[SERVER] JOIN username='' @ u @ '' type='' @ t @ '' fd='' @ int_dec f @ [LF]"
| "trade_text (Bought u s q old new) =
     ''[SERVER] BUY trader='' @ u @ '' symbol='' @ s @ '' qty='' @ int_dec q @ '' old_price='' @ show_price old @
     '' new_price='' @ show_price new @ [LF]"
| "trade_text (Sold u s q old new) =
     ''[SERVER] SELL trader='' @ u @ '' symbol='' @ s @ '' qty='' @ int_dec q @ '' old_price='' @ show_price old @
     '' new_price='' @ show_price new @ [LF]"
| "trade_text (Price_Broadcast t) = ''[SERVER] PRICE_BROADCAST trigger='' @ t @ [LF]"
| "trade_text Shut_Down = ''[SERVER] SHUTDOWN signal=SIGINT'' @ [LF]"
| "trade_text Cleanup_Done = ''[SERVER] CLEANUP_DONE clients=0'' @ [LF]"

definition server_log :: "trade_event \<Rightarrow> market \<Rightarrow> market" where
  "server_log e s = s\<lparr>events := events s @ [e]\<rparr>"

text \<open>The loop of \<open>safe_send\<close> on the results of \<open>send\<close>: the bytes that went out and the result.\<close>

fun safe_send :: "int list \<Rightarrow> string \<Rightarrow> string \<times> int" where
  "safe_send rs [] = ([], 0)"
| "safe_send [] msg = ([], -1)"
| "safe_send (r # rs) msg =
     (if r \<le> 0 then ([], -1)
      else (case safe_send rs (drop (nat r) msg) of (out, e) \<Rightarrow> (take (nat r) msg @ out, e)))"

text \<open>A message to a client that takes all of it; the callers ignore the result.\<close>

definition send_to :: "int \<Rightarrow> string \<Rightarrow> market \<Rightarrow> market" where
  "send_to f msg s = s\<lparr>sent := sent s @ [(f, msg)]\<rparr>"

section \<open>Stocks\<close>

definition parse_stock :: "string \<Rightarrow> stock_t option" where
  "parse_stock line =
     (case scan_word (SYMBOL_LEN - 1) line of
        None \<Rightarrow> None
      | Some (sy, rest) \<Rightarrow>
          (case scan_float rest of
             None \<Rightarrow> None
           | Some p \<Rightarrow>
               if p \<le> 0 then None
               else if list_ex (\<lambda>c. \<not> (is_upper c \<or> is_digit c)) sy then None
               else Some \<lparr>symbol = sy, price = p\<rparr>))"

fun load_lines :: "string list \<Rightarrow> stock_t list \<Rightarrow> stock_t list" where
  "load_lines [] acc = acc"
| "load_lines (l # ls) acc =
     (case parse_stock (cstr l) of
        None \<Rightarrow> load_lines ls acc
      | Some st \<Rightarrow> if length acc \<ge> MAX_STOCKS then acc else load_lines ls (acc @ [st]))"

definition load_stocks :: "string \<Rightarrow> stock_t list" where
  "load_stocks content = load_lines (fgets_lines 256 content) []"

text \<open>\<open>find_stock\<close>; the position instead of the pointer.\<close>

fun find_stock :: "stock_t list \<Rightarrow> string \<Rightarrow> nat option" where
  "find_stock [] sy = None"
| "find_stock (st # sts) sy = (if symbol st = sy then Some 0 else map_option Suc (find_stock sts sy))"

definition set_price :: "nat \<Rightarrow> rat \<Rightarrow> market \<Rightarrow> market" where
  "set_price i p s = s\<lparr>stocks := (stocks s)[i := (stocks s ! i)\<lparr>price := p\<rparr>]\<rparr>"

section \<open>Clients\<close>

definition the_client :: "market \<Rightarrow> nat \<Rightarrow> client_t" where
  "the_client s i = clients s ! i"

definition set_client :: "nat \<Rightarrow> (client_t \<Rightarrow> client_t) \<Rightarrow> market \<Rightarrow> market" where
  "set_client i f s = s\<lparr>clients := (clients s)[i := f (clients s ! i)]\<rparr>"

definition empty_client :: client_t where
  "empty_client = \<lparr>fd = -1, username = [], ctype = [], line_buf = [], joined = False, portfolio = [], trades = []\<rparr>"

fun alloc_slot :: "client_t list \<Rightarrow> nat option" where
  "alloc_slot [] = None"
| "alloc_slot (c # cs) = (if fd c = -1 then Some 0 else map_option Suc (alloc_slot cs))"

definition name_taken :: "market \<Rightarrow> string \<Rightarrow> bool" where
  "name_taken s name = list_ex (\<lambda>c. fd c \<ge> 0 \<and> joined c \<and> username c = name) (clients s)"

definition disconnect_client :: "nat \<Rightarrow> string \<Rightarrow> market \<Rightarrow> market" where
  "disconnect_client i reason s =
     (let c = the_client s i in
      if fd c < 0 then s
      else (let s1 = server_log (Disconnected (if username c = [] then ''(unknown)'' else username c) reason) s;
                s2 = s1\<lparr>closed := closed s1 @ [fd c], client_count := client_count s1 - 1\<rparr>
            in set_client i (\<lambda>c. c\<lparr>fd := -1, joined := False, username := [], line_buf := []\<rparr>) s2))"

section \<open>Broadcasts\<close>

fun join_with :: "char \<Rightarrow> string list \<Rightarrow> string" where
  "join_with c [] = []"
| "join_with c [x] = x"
| "join_with c (x # y # xs) = x @ [c] @ join_with c (y # xs)"

text \<open>A text put together in a buffer of \<open>room\<close> bytes with an unchecked offset: it is right when it fits with
  its newline and the NUL, and otherwise goes past the end.\<close>

definition fill_buffer :: "nat \<Rightarrow> string \<Rightarrow> char \<Rightarrow> string list \<Rightarrow> string option" where
  "fill_buffer room prefix sep pieces =
     (let t = prefix @ join_with sep pieces in if length t + 2 \<le> room then Some (t @ [LF]) else None)"

definition quote_text :: "stock_t \<Rightarrow> string" where
  "quote_text st = symbol st @ '':'' @ show_price (price st)"

definition send_price_broadcast :: "string \<Rightarrow> market \<Rightarrow> market" where
  "send_price_broadcast trigger s =
     (case fill_buffer 4096 ''PRICE_UPDATE '' CHR '' '' (map quote_text (stocks s)) of
        None \<Rightarrow> s\<lparr>smashed := True\<rparr>
      | Some msg \<Rightarrow> server_log (Price_Broadcast trigger) (s\<lparr>broadcasts := broadcasts s @ [msg]\<rparr>))"

definition send_buffer :: "int \<Rightarrow> string option \<Rightarrow> market \<Rightarrow> market" where
  "send_buffer f msg s = (case msg of None \<Rightarrow> s\<lparr>smashed := True\<rparr> | Some m \<Rightarrow> send_to f m s)"

section \<open>Portfolios\<close>

fun find_holding :: "holding_t list \<Rightarrow> string \<Rightarrow> nat option" where
  "find_holding [] sy = None"
| "find_holding (h # hs) sy = (if h_symbol h = sy then Some 0 else map_option Suc (find_holding hs sy))"

definition add_holding :: "string \<Rightarrow> int \<Rightarrow> holding_t list \<Rightarrow> holding_t list" where
  "add_holding sy qty hs =
     (case find_holding hs sy of
        Some i \<Rightarrow> hs[i := (hs ! i)\<lparr>h_qty := wrap32 (h_qty (hs ! i) + qty)\<rparr>]
      | None \<Rightarrow> if length hs < MAX_STOCKS then hs @ [\<lparr>h_symbol = sy, h_qty = qty\<rparr>] else hs)"

text \<open>The last entry takes the place of one that has been sold out.\<close>

definition sub_holding :: "nat \<Rightarrow> int \<Rightarrow> holding_t list \<Rightarrow> holding_t list" where
  "sub_holding i qty hs =
     (let hs1 = hs[i := (hs ! i)\<lparr>h_qty := wrap32 (h_qty (hs ! i) - qty)\<rparr>] in
      if h_qty (hs1 ! i) = 0 then butlast (hs1[i := last hs1]) else hs1)"

section \<open>Commands\<close>

abbreviation starts :: "string \<Rightarrow> string \<Rightarrow> bool" where
  "starts p line \<equiv> take (length p) line = p"

definition cmd_join :: "nat \<Rightarrow> string \<Rightarrow> market \<Rightarrow> market" where
  "cmd_join i args s =
     (let c = the_client s i in
      if joined c then send_to (fd c) (''ERR ALREADY_JOINED'' @ [LF]) s
      else (case scan_word 15 args of
              None \<Rightarrow> send_to (fd c) (''ERR UNKNOWN JOIN'' @ [LF]) s
            | Some (ty, r) \<Rightarrow>
                (case scan_word 31 r of
                   None \<Rightarrow> send_to (fd c) (''ERR UNKNOWN JOIN'' @ [LF]) s
                 | Some (name, r2) \<Rightarrow>
                     if ty \<noteq> ''TRADER'' \<and> ty \<noteq> ''ANALYST'' then send_to (fd c) (''ERR UNKNOWN JOIN'' @ [LF]) s
                     else if name_taken s name then send_to (fd c) (''ERR JOIN name_taken'' @ [LF]) s
                     else (let s1 = set_client i (\<lambda>c. c\<lparr>username := name, ctype := ty, joined := True\<rparr>) s
                           in send_to (fd c) (''OK JOIN '' @ name @ [LF]) (server_log (Joined name ty (fd c)) s1)))))"

definition cmd_price :: "nat \<Rightarrow> string \<Rightarrow> market \<Rightarrow> market" where
  "cmd_price i args s =
     (let f = fd (the_client s i) in
      case scan_word (SYMBOL_LEN - 1) args of
        None \<Rightarrow> send_to f (''ERR UNKNOWN_SYMBOL'' @ [LF]) s
      | Some (sy, r) \<Rightarrow>
          (case find_stock (stocks s) sy of
             None \<Rightarrow> send_to f (''ERR UNKNOWN_SYMBOL'' @ [LF]) s
           | Some k \<Rightarrow> send_to f (''OK PRICE '' @ symbol (stocks s ! k) @ '' '' @ show_price (price (stocks s ! k)) @ [LF]) s))"

definition cmd_list :: "nat \<Rightarrow> market \<Rightarrow> market" where
  "cmd_list i s =
     send_buffer (fd (the_client s i))
       (fill_buffer 2048 ''OK LIST '' CHR '','' (map username (filter (\<lambda>c. fd c \<ge> 0 \<and> joined c) (clients s)))) s"

definition cmd_report :: "nat \<Rightarrow> market \<Rightarrow> market" where
  "cmd_report i s = send_buffer (fd (the_client s i)) (fill_buffer 4096 ''OK REPORT '' CHR '','' (map quote_text (stocks s))) s"

text \<open>The arguments of \<open>BUY\<close> and \<open>SELL\<close>: a symbol and a positive number, and the stock.\<close>

definition trade_args :: "market \<Rightarrow> string \<Rightarrow> (string \<times> int \<times> nat) option" where
  "trade_args s args =
     (case scan_word (SYMBOL_LEN - 1) args of
        None \<Rightarrow> None
      | Some (sy, r) \<Rightarrow>
          (case scan_int r of
             None \<Rightarrow> None
           | Some (qty, r2) \<Rightarrow> if qty \<le> 0 then None else map_option (\<lambda>k. (sy, qty, k)) (find_stock (stocks s) sy)))"

definition cmd_buy :: "nat \<Rightarrow> string \<Rightarrow> market \<Rightarrow> market" where
  "cmd_buy i args s =
     (let c = the_client s i in
      case trade_args s args of
        None \<Rightarrow> send_to (fd c) (''ERR UNKNOWN_SYMBOL'' @ [LF]) s
      | Some (sy, qty, k) \<Rightarrow>
          (let old = price (stocks s ! k); new = buy_price old qty;
               s1 = set_price k new s;
               s2 = set_client i (\<lambda>c. c\<lparr>portfolio := add_holding sy qty (portfolio c), trades := trades c @ [(sy, qty)]\<rparr>) s1;
               s3 = server_log (Bought (username c) sy qty old new) s2;
               s4 = send_to (fd c) (''OK BUY '' @ sy @ '' '' @ int_dec qty @ '' '' @ show_price new @ [LF]) s3
           in send_price_broadcast ''TRADE'' s4))"

definition cmd_sell :: "nat \<Rightarrow> string \<Rightarrow> market \<Rightarrow> market" where
  "cmd_sell i args s =
     (let c = the_client s i in
      case trade_args s args of
        None \<Rightarrow> send_to (fd c) (''ERR UNKNOWN_SYMBOL'' @ [LF]) s
      | Some (sy, qty, k) \<Rightarrow>
          (case find_holding (portfolio c) sy of
             None \<Rightarrow> send_to (fd c) (''ERR INSUFFICIENT_SHARES'' @ [LF]) s
           | Some h \<Rightarrow>
               if h_qty (portfolio c ! h) < qty then send_to (fd c) (''ERR INSUFFICIENT_SHARES'' @ [LF]) s
               else (let old = price (stocks s ! k); new = sell_price old qty;
                         s1 = set_price k new s;
                         s2 = set_client i (\<lambda>c. c\<lparr>portfolio := sub_holding h qty (portfolio c), trades := trades c @ [(sy, - qty)]\<rparr>) s1;
                         s3 = server_log (Sold (username c) sy qty old new) s2;
                         s4 = send_to (fd c) (''OK SELL '' @ sy @ '' '' @ int_dec qty @ '' '' @ show_price new @ [LF]) s3
                     in send_price_broadcast ''TRADE'' s4)))"

definition cmd_portfolio :: "nat \<Rightarrow> market \<Rightarrow> market" where
  "cmd_portfolio i s =
     (let c = the_client s i in
      if portfolio c = [] then send_to (fd c) (''OK PORTFOLIO EMPTY'' @ [LF]) s
      else send_buffer (fd c)
             (fill_buffer 2048 ''OK PORTFOLIO '' CHR '','' (map (\<lambda>h. h_symbol h @ '':'' @ int_dec (h_qty h)) (portfolio c))) s)"

text \<open>\<open>process_line\<close>; the result is whether the connection stays open.\<close>

definition process_line :: "nat \<Rightarrow> string \<Rightarrow> market \<Rightarrow> market \<times> bool" where
  "process_line i line s =
     (let c = the_client s i; say = (\<lambda>msg. (send_to (fd c) (msg @ [LF]) s, True)) in
      if starts ''JOIN '' line then (cmd_join i (drop 5 line) s, True)
      else if \<not> joined c then say ''ERR NOT_JOINED''
      else if line = ''QUIT'' then (send_to (fd c) (''OK QUIT'' @ [LF]) s, False)
      else if ctype c = ''ANALYST'' then
        (if starts ''PRICE '' line then (cmd_price i (drop 6 line) s, True)
         else if line = ''REPORT'' then (cmd_report i s, True)
         else if line = ''LIST'' then (cmd_list i s, True)
         else if starts ''BUY '' line \<or> starts ''SELL '' line then say ''ERR UNAUTHORIZED''
         else say (''ERR UNKNOWN '' @ line))
      else if ctype c = ''TRADER'' then
        (if starts ''BUY '' line then (cmd_buy i (drop 4 line) s, True)
         else if starts ''SELL '' line then (cmd_sell i (drop 5 line) s, True)
         else if line = ''PORTFOLIO'' then (cmd_portfolio i s, True)
         else if starts ''PRICE '' line \<or> line = ''REPORT'' \<or> line = ''LIST'' then say ''ERR UNAUTHORIZED''
         else say (''ERR UNKNOWN '' @ line))
      else say ''ERR UNKNOWN'')"

section \<open>Reading from a client\<close>

definition trade_line :: "string \<Rightarrow> string" where
  "trade_line raw = cstr (if raw \<noteq> [] \<and> last raw = CR then butlast raw else raw)"

text \<open>The loop over the lines in the buffer.\<close>

function read_lines :: "nat \<Rightarrow> string \<Rightarrow> market \<Rightarrow> market" where
  "read_lines i buf s =
     (if LF \<notin> set buf then set_client i (\<lambda>c. c\<lparr>line_buf := buf\<rparr>) s
      else (let raw = takeWhile (\<lambda>c. c \<noteq> LF) buf; rest = drop (length raw + 1) buf in
            if length raw \<ge> MAX_LINE - 1 then read_lines i rest (send_to (fd (the_client s i)) (''ERR TOOLONG'' @ [LF]) s)
            else (case process_line i (trade_line raw) s of
                    (s', False) \<Rightarrow> disconnect_client i ''QUIT'' s'
                  | (s', True) \<Rightarrow> read_lines i rest s')))"
  by pat_completeness auto
termination
  by (relation "measure (\<lambda>(i, buf, s). length buf)") (auto intro!: diff_less)

declare read_lines.simps [simp del]

text \<open>\<open>None\<close>: \<open>recv\<close> fails or the connection is closed.\<close>

definition client_recv :: "nat \<Rightarrow> string option \<Rightarrow> market \<Rightarrow> market" where
  "client_recv i got s =
     (let c = the_client s i; space = int MAX_LINE - 1 - int (length (line_buf c)) in
      if space \<le> 0 then set_client i (\<lambda>c. c\<lparr>line_buf := []\<rparr>) (send_to (fd c) (''ERR TOOLONG'' @ [LF]) s)
      else (case got of
              None \<Rightarrow> disconnect_client i ''hangup'' s
            | Some bs \<Rightarrow>
                if bs = [] then disconnect_client i ''hangup'' s
                else read_lines i (line_buf c @ take (nat space) bs) s))"

section \<open>The loop of the server\<close>

text \<open>The milliseconds between two times of the clock; C divides towards zero.\<close>

definition elapsed_ms :: "int \<times> int \<Rightarrow> int \<times> int \<Rightarrow> int" where
  "elapsed_ms now before =
     (fst now - fst before) * 1000 +
     (let d = snd now - snd before in if d < 0 then - ((- d) div 1000000) else d div 1000000)"

definition wait_time :: "int \<times> int \<Rightarrow> int \<times> int \<Rightarrow> int \<times> int" where
  "wait_time now prev =
     (let r = BCAST_INTERVAL * 1000 - elapsed_ms now prev; remain = (if r < 0 then 0 else r)
      in (remain div 1000, remain mod 1000 * 1000))"

text \<open>\<open>rebuild_fdset\<close>: the descriptors \<open>select\<close> watches and the greatest of them.\<close>

definition rebuild_fdset :: "int \<Rightarrow> client_t list \<Rightarrow> int list \<times> int" where
  "rebuild_fdset tcp cs =
     fold (\<lambda>c fm. if fd c \<ge> 0 then (fst fm @ [fd c], if fd c > snd fm then fd c else snd fm) else fm) cs ([tcp], tcp)"

definition accept_client :: "int \<Rightarrow> string \<Rightarrow> market \<Rightarrow> market" where
  "accept_client f ip s =
     (if f < 0 then s
      else (case alloc_slot (clients s) of
              None \<Rightarrow> s\<lparr>closed := closed s @ [f]\<rparr>
            | Some i \<Rightarrow>
                server_log (Connected f ip)
                  (set_client i (\<lambda>c. empty_client\<lparr>fd := f\<rparr>) (s\<lparr>client_count := client_count s + 1\<rparr>))))"

text \<open>What a pass gets from outside: the result of \<open>select\<close>, the clock after it and after a broadcast, the
  new connection, and for each descriptor that is ready what \<open>recv\<close> gives.\<close>

datatype trade_wake = Wake_Interrupted | Wake_Error | Wake_Timeout | Wake_Ready "(int \<times> string) option" "(int \<times> string option) list"

text \<open>The loop over the clients with the descriptors \<open>select\<close> has found ready.\<close>

fun read_clients :: "(int \<times> string option) list \<Rightarrow> nat list \<Rightarrow> market \<Rightarrow> market" where
  "read_clients ready [] s = s"
| "read_clients ready (i # is) s =
     (if fd (the_client s i) < 0 then read_clients ready is s
      else (case map_of ready (fd (the_client s i)) of
              None \<Rightarrow> read_clients ready is s
            | Some got \<Rightarrow> read_clients ready is (client_recv i got s)))"

definition trade_pass :: "int \<times> int \<Rightarrow> int \<times> int \<Rightarrow> trade_wake \<Rightarrow> market \<times> (int \<times> int) \<Rightarrow> (market \<times> (int \<times> int)) option" where
  "trade_pass now after w sl =
     (case sl of
        (s, prev) \<Rightarrow>
          (case w of
             Wake_Interrupted \<Rightarrow> Some (s, prev)
           | Wake_Error \<Rightarrow> None
           | _ \<Rightarrow>
               (let (s1, last1) = (if elapsed_ms now prev \<ge> BCAST_INTERVAL * 1000 \<or> w = Wake_Timeout
                                   then (send_price_broadcast ''PERIODIC'' s, after) else (s, prev)) in
                case w of
                  Wake_Ready conn ready \<Rightarrow>
                    (let s2 = (case conn of None \<Rightarrow> s1 | Some (f, ip) \<Rightarrow> accept_client f ip s1)
                     in Some (read_clients ready [0..<MAX_TRADERS] s2, last1))
                | _ \<Rightarrow> Some (s1, last1))))"

text \<open>The loop until \<open>SIGINT\<close>, here the end of the list, or an error.\<close>

fun trade_loop :: "((int \<times> int) \<times> (int \<times> int) \<times> trade_wake) list \<Rightarrow> market \<times> (int \<times> int) \<Rightarrow> market" where
  "trade_loop [] sl = fst sl"
| "trade_loop ((now, after, w) # ws) sl =
     (case trade_pass now after w sl of None \<Rightarrow> fst sl | Some sl' \<Rightarrow> trade_loop ws sl')"

definition shutdown_client :: "client_t \<Rightarrow> market \<Rightarrow> market" where
  "shutdown_client c s =
     (if fd c < 0 then s
      else (let s1 = send_to (fd c) (''SERVER SHUTDOWN'' @ [LF]) s in s1\<lparr>closed := closed s1 @ [fd c]\<rparr>))"

definition shut_down :: "market \<Rightarrow> market" where
  "shut_down s =
     (let s1 = fold shutdown_client (clients s) (server_log Shut_Down s)
      in server_log Cleanup_Done (s1\<lparr>clients := map (\<lambda>c. if fd c < 0 then c else c\<lparr>fd := -1\<rparr>) (clients s1)\<rparr>))"

section \<open>The command line\<close>

record server_args =
  tcp_port :: int
  udp_port :: int
  stocks_path :: "string option"
  log_path :: "string option"

fun trade_options :: "string list \<Rightarrow> server_args \<Rightarrow> server_args option" where
  "trade_options [] a = Some a"
| "trade_options [x] a = None"
| "trade_options (x # v # xs) a =
     (if x = ''-p'' then trade_options xs (a\<lparr>tcp_port := atoi v\<rparr>)
      else if x = ''-u'' then trade_options xs (a\<lparr>udp_port := atoi v\<rparr>)
      else if x = ''-s'' then trade_options xs (a\<lparr>stocks_path := Some v\<rparr>)
      else if x = ''-l'' then trade_options xs (a\<lparr>log_path := Some v\<rparr>)
      else None)"

text \<open>\<open>main\<close> up to the loop: \<open>ok\<close> says whether the log file and the sockets are to be had.\<close>

definition start_trading :: "(string \<Rightarrow> string option) \<Rightarrow> bool \<Rightarrow> string list \<Rightarrow> market option" where
  "start_trading fopen ok argv =
     (case trade_options argv \<lparr>tcp_port = -1, udp_port = -1, stocks_path = None, log_path = None\<rparr> of
        None \<Rightarrow> None
      | Some a \<Rightarrow>
          if tcp_port a < 1024 \<or> udp_port a < 1024 \<or> stocks_path a = None \<or> log_path a = None then None
          else if \<not> ok then None
          else (case fopen (the (stocks_path a)) of
                  None \<Rightarrow> None
                | Some content \<Rightarrow>
                    (let sts = load_stocks content in
                     if sts = [] then None
                     else Some (server_log (Server_Start (tcp_port a) (udp_port a) (length sts))
                       \<lparr>stocks = sts, clients = replicate MAX_TRADERS empty_client, client_count = 0, events = [], sent = [],
                        broadcasts = [], closed = [], smashed = False\<rparr>))))"

end
