(* ===== verification/Trade_Facts.thy ===== *)
theory Trade_Facts
  imports Trade_Server
begin

text \<open>
  What holds of the stocks and the clients of the trading server at all times, and that every
  operation keeps it.
\<close>

section \<open>Accounts\<close>

definition holding_of :: "string \<Rightarrow> holding_t list \<Rightarrow> int" where
  "holding_of sy hs = (case find_holding hs sy of None \<Rightarrow> 0 | Some i \<Rightarrow> h_qty (hs ! i))"

fun trade_sum :: "string \<Rightarrow> (string \<times> int) list \<Rightarrow> int" where
  "trade_sum sy [] = 0"
| "trade_sum sy ((t, q) # ts) = (if t = sy then q else 0) + trade_sum sy ts"

fun bought :: "string \<Rightarrow> (string \<times> int) list \<Rightarrow> int" where
  "bought sy [] = 0"
| "bought sy ((t, q) # ts) = (if t = sy \<and> 0 < q then q else 0) + bought sy ts"

lemma trade_sum_snoc [simp]: "trade_sum sy (ts @ [(t, q)]) = trade_sum sy ts + (if t = sy then q else 0)"
  by (induction ts) auto

lemma bought_snoc [simp]: "bought sy (ts @ [(t, q)]) = bought sy ts + (if t = sy \<and> 0 < q then q else 0)"
  by (induction ts) auto

lemma trade_sum_le_bought: "trade_sum sy ts \<le> bought sy ts"
  by (induction ts) auto

text \<open>The holding of a symbol is what was bought less what was sold, and never less than zero as
  long as no more than an \<open>int\<close> has been bought.\<close>

definition account_ok :: "holding_t list \<Rightarrow> (string \<times> int) list \<Rightarrow> string \<Rightarrow> bool" where
  "account_ok hs ts sy \<longleftrightarrow>
     holding_of sy hs = wrap32 (trade_sum sy ts) \<and> (bought sy ts \<le> int_max \<longrightarrow> 0 \<le> trade_sum sy ts)"

section \<open>The portfolio\<close>

lemma find_holding_Some:
  "find_holding hs sy = Some i \<Longrightarrow> i < length hs \<and> h_symbol (hs ! i) = sy"
proof (induction hs arbitrary: i)
  case (Cons h hs)
  then show ?case by (cases "h_symbol h = sy") auto
qed simp

lemma find_holding_None: "find_holding hs sy = None \<longleftrightarrow> sy \<notin> h_symbol ` set hs"
  by (induction hs) auto

lemma find_holding_distinct:
  "distinct (map h_symbol hs) \<Longrightarrow> i < length hs \<Longrightarrow> find_holding hs (h_symbol (hs ! i)) = Some i"
proof (induction hs arbitrary: i)
  case (Cons h hs)
  then show ?case by (cases i) auto
qed simp

lemma holding_of_distinct:
  "distinct (map h_symbol hs) \<Longrightarrow> h \<in> set hs \<Longrightarrow> holding_of (h_symbol h) hs = h_qty h"
  by (auto simp: in_set_conv_nth holding_of_def find_holding_distinct)

lemma holding_of_absent: "sy \<notin> h_symbol ` set hs \<Longrightarrow> holding_of sy hs = 0"
  by (simp add: holding_of_def find_holding_None [symmetric])

text \<open>With distinct symbols a portfolio is its set of entries.\<close>

lemma holding_of_cong:
  assumes "distinct (map h_symbol hs)" "distinct (map h_symbol hs')"
    "\<And>q. \<lparr>h_symbol = sy, h_qty = q\<rparr> \<in> set hs \<longleftrightarrow> \<lparr>h_symbol = sy, h_qty = q\<rparr> \<in> set hs'"
  shows "holding_of sy hs = holding_of sy hs'"
proof -
  have ex: "sy \<in> h_symbol ` set gs \<longleftrightarrow> (\<exists>q. \<lparr>h_symbol = sy, h_qty = q\<rparr> \<in> set gs)" for gs
    by (auto simp: image_iff) (metis holding_t.cases holding_t.select_convs(1), metis holding_t.select_convs(1))
  show ?thesis
  proof (cases "sy \<in> h_symbol ` set hs")
    case True
    then obtain q where "\<lparr>h_symbol = sy, h_qty = q\<rparr> \<in> set hs" using ex by blast
    then show ?thesis using assms(3) holding_of_distinct [OF assms(1)] holding_of_distinct [OF assms(2)] by fastforce
  next
    case False
    then have "sy \<notin> h_symbol ` set hs'" using ex assms(3) by blast
    then show ?thesis using False by (simp add: holding_of_absent)
  qed
qed

lemma set_qty_symbols:
  "i < length hs \<Longrightarrow> map h_symbol (hs[i := (hs ! i)\<lparr>h_qty := q\<rparr>]) = map h_symbol hs"
  by (metis holding_t.select_convs(1) holding_t.surjective holding_t.update_convs(2) list_update_id map_update)

lemma set_qty_holding:
  assumes "distinct (map h_symbol hs)" "i < length hs"
  shows "holding_of sy (hs[i := (hs ! i)\<lparr>h_qty := q\<rparr>]) = (if sy = h_symbol (hs ! i) then q else holding_of sy hs)"
proof -
  let ?hs = "hs[i := (hs ! i)\<lparr>h_qty := q\<rparr>]"
  have d: "distinct (map h_symbol ?hs)" using assms by (simp only: set_qty_symbols)
  show ?thesis
  proof (cases "sy = h_symbol (hs ! i)")
    case True
    have "(hs ! i)\<lparr>h_qty := q\<rparr> \<in> set ?hs" using assms(2) by (simp add: set_update_memI)
    from holding_of_distinct [OF d this] show ?thesis using True by simp
  next
    case False
    have "map h_symbol ?hs = map h_symbol hs" using assms(2) by (rule set_qty_symbols)
    have "find_holding ?hs sy = find_holding hs sy"
    proof (cases "find_holding hs sy")
      case None
      moreover have "h_symbol ` set ?hs = h_symbol ` set hs" using set_qty_symbols [OF assms(2)] by (metis list.set_map)
      ultimately show ?thesis using None by (metis find_holding_None)
    next
      case (Some j)
      then have j: "j < length hs" "h_symbol (hs ! j) = sy" using find_holding_Some by auto
      then have "j \<noteq> i" using False by auto
      then have "h_symbol (?hs ! j) = sy" using j by simp
      then show ?thesis using find_holding_distinct [OF d, of j] j(1) Some by simp
    qed
    moreover have "find_holding hs sy \<noteq> Some i" using False find_holding_Some by metis
    ultimately show ?thesis using False by (auto simp: holding_of_def split: option.split)
  qed
qed

text \<open>Overwriting an entry with the last one and dropping that removes it.\<close>

lemma move_last:
  assumes "i < length hs"
  shows "mset (butlast (hs[i := last hs])) + {#hs ! i#} = mset hs"
proof (cases "i = length hs - 1")
  case True
  then have "butlast (hs[i := last hs]) = butlast hs" by (metis list_update_beyond butlast_list_update order_refl)
  moreover have "hs ! i = last hs" using True assms by (metis last_conv_nth list.size(3) not_less_zero)
  moreover have "hs \<noteq> []" using assms by auto
  ultimately show ?thesis by (metis append_butlast_last_id mset_append mset_single_iff_right)
next
  case False
  then have i: "i < length (butlast hs)" using assms by simp
  have ne: "hs \<noteq> []" using assms by auto
  have "butlast (hs[i := last hs]) = (butlast hs)[i := last hs]" using False by (simp add: butlast_list_update)
  then have "mset (butlast (hs[i := last hs])) + {#butlast hs ! i#} = mset (butlast hs) + {#last hs#}"
    using i by (simp add: mset_update)
  moreover have "butlast hs ! i = hs ! i" using i by (simp add: nth_butlast)
  moreover have "mset hs = mset (butlast hs) + {#last hs#}" using ne by (metis append_butlast_last_id mset_append mset_single_iff_right)
  ultimately show ?thesis by simp
qed

lemma mset_map_Cons: "mset hs = add_mset x (mset gs) \<Longrightarrow> mset (map f hs) = mset (f x # map f gs)"
  by simp

text \<open>Buying adds to the holding, and selling what is held subtracts from it.\<close>

lemma add_holding_account:
  assumes d: "distinct (map h_symbol hs)" and room: "sy \<in> h_symbol ` set hs \<or> length hs < MAX_STOCKS"
  shows "distinct (map h_symbol (add_holding sy qty hs)) \<and>
     h_symbol ` set (add_holding sy qty hs) = insert sy (h_symbol ` set hs) \<and>
     holding_of ty (add_holding sy qty hs) =
       (if ty = sy then (if sy \<in> h_symbol ` set hs then wrap32 (holding_of sy hs + qty) else qty) else holding_of ty hs)"
  (is "?D \<and> ?S \<and> ?H")
proof (cases "find_holding hs sy")
    case None
    then have new: "sy \<notin> h_symbol ` set hs" by (simp add: find_holding_None)
    then have add: "add_holding sy qty hs = hs @ [\<lparr>h_symbol = sy, h_qty = qty\<rparr>]" using None room by (simp add: add_holding_def)
    then have dis: ?D using d new by simp
    moreover have ?S using add by simp
    moreover have ?H
    proof (cases "ty = sy")
      case True
      then show ?thesis
        using holding_of_distinct [OF dis, of "\<lparr>h_symbol = sy, h_qty = qty\<rparr>"] add new by simp
    next
      case False
      then have "holding_of ty (add_holding sy qty hs) = holding_of ty hs"
        by (intro holding_of_cong [OF dis d]) (auto simp: add)
      then show ?thesis using False by simp
    qed
    ultimately show ?thesis by blast
  next
    case (Some i)
    then have i: "i < length hs" "h_symbol (hs ! i) = sy" using find_holding_Some by auto
    then have old: "sy \<in> h_symbol ` set hs" by auto
    have add: "add_holding sy qty hs = hs[i := (hs ! i)\<lparr>h_qty := wrap32 (holding_of sy hs + qty)\<rparr>]"
      using Some by (simp add: add_holding_def holding_of_def)
    have syms: "map h_symbol (add_holding sy qty hs) = map h_symbol hs" unfolding add by (rule set_qty_symbols [OF i(1)])
    then have ?D using d by simp
    have "h_symbol ` set (add_holding sy qty hs) = h_symbol ` set hs" using syms by (metis list.set_map)
    then have ?S using old by auto
    moreover have ?H unfolding add set_qty_holding [OF d i(1)] using i(2) old by simp
    ultimately show ?thesis using \<open>?D\<close> by blast
qed

lemma sub_holding_account:
  assumes d: "distinct (map h_symbol hs)" and f: "find_holding hs sy = Some i"
  shows "distinct (map h_symbol (sub_holding i qty hs)) \<and>
     h_symbol ` set (sub_holding i qty hs) \<subseteq> h_symbol ` set hs \<and>
     holding_of ty (sub_holding i qty hs) = (if ty = sy then wrap32 (holding_of sy hs - qty) else holding_of ty hs)"
  (is "?D \<and> ?S \<and> ?H")
proof -
  have i: "i < length hs" "h_symbol (hs ! i) = sy" using find_holding_Some [OF f] by auto
  let ?q = "wrap32 (holding_of sy hs - qty)"
  let ?hs = "hs[i := (hs ! i)\<lparr>h_qty := ?q\<rparr>]"
  have q: "h_qty (hs ! i) = holding_of sy hs" using f by (simp add: holding_of_def)
  have syms: "map h_symbol ?hs = map h_symbol hs" by (rule set_qty_symbols [OF i(1)])
  then have d1: "distinct (map h_symbol ?hs)" using d by simp
  have s1: "h_symbol ` set ?hs = h_symbol ` set hs" using syms by (metis list.set_map)
  have h1: "holding_of ty ?hs = (if ty = sy then ?q else holding_of ty hs)" for ty
    using set_qty_holding [OF d i(1)] i(2) by simp
  have sub: "sub_holding i qty hs = (if ?q = 0 then butlast (?hs[i := last ?hs]) else ?hs)"
    using i(1) q by (simp add: sub_holding_def Let_def)
  show ?thesis
  proof (cases "?q = 0")
    case True
    let ?gs = "butlast (?hs[i := last ?hs])" and ?h = "?hs ! i"
    have gs: "sub_holding i qty hs = ?gs" using True sub by simp
    have m: "mset ?hs = mset ?gs + {#?h#}" using move_last [of i ?hs] i(1) by simp
    have "mset (map h_symbol ?hs) = mset (h_symbol ?h # map h_symbol ?gs)"
      by (rule mset_map_Cons) (simp add: m)
    then have "distinct (h_symbol ?h # map h_symbol ?gs)" using d1 mset_eq_imp_distinct_iff by blast
    then have dg: "distinct (map h_symbol ?gs)" and out: "sy \<notin> h_symbol ` set ?gs" using i by auto
    have sg: "set ?hs = insert ?h (set ?gs)" using m by (metis add_mset_add_single set_mset_add_mset_insert set_mset_mset)
    have ?D using gs dg by simp
    moreover have ?S using gs sg s1 by auto
    moreover have ?H
    proof (cases "ty = sy")
      case True
      then show ?thesis using gs out \<open>?q = 0\<close> by (simp add: holding_of_absent)
    next
      case False
      have "h_symbol ?h = sy" using i by simp
      then have "\<lparr>h_symbol = ty, h_qty = q\<rparr> \<noteq> ?h" for q using False by (metis holding_t.select_convs(1))
      then have "holding_of ty ?gs = holding_of ty ?hs" by (intro holding_of_cong [OF dg d1]) (simp add: sg)
      then show ?thesis using False gs h1 by simp
    qed
    ultimately show ?thesis by blast
  next
    case False
    then show ?thesis using sub d1 s1 h1 by auto
  qed
qed

section \<open>Sending\<close>

text \<open>When every call of \<open>send\<close> takes something the whole message goes out.\<close>

lemma safe_send_all: "list_all (\<lambda>r. 0 < r) rs \<Longrightarrow> length msg \<le> length rs \<Longrightarrow> safe_send rs msg = (msg, 0)"
proof (induction rs msg rule: safe_send.induct)
  case (3 r rs m msg)
  then have "safe_send rs (drop (nat r) (m # msg)) = (drop (nat r) (m # msg), 0)" by (intro 3(1)) auto
  then show ?case using 3(2) by (simp add: append_take_drop_id)
qed simp_all

end
