(* ===== verification/Trade_Invariant.thy ===== *)
theory Trade_Invariant
  imports Trade_Facts
begin

text \<open>The invariant of the trading server's state, and that a run keeps it.\<close>

section \<open>Trades keep the accounts\<close>

lemma buy_account:
  assumes "distinct (map h_symbol hs)" "sy \<in> h_symbol ` set hs \<or> length hs < MAX_STOCKS"
    "\<And>ty. account_ok hs ts ty" "0 < qty" "qty \<le> int_max"
  shows "account_ok (add_holding sy qty hs) (ts @ [(sy, qty)]) ty"
proof (cases "ty = sy")
  case True
  have q: "wrap32 qty = qty" using assms(4,5) by (intro wrap32_id) (auto simp: limits_defs)
  have h: "holding_of sy hs = wrap32 (trade_sum sy ts)" and pos: "bought sy ts \<le> int_max \<Longrightarrow> 0 \<le> trade_sum sy ts"
    using assms(3) by (auto simp: account_ok_def)
  have "holding_of sy (add_holding sy qty hs) = wrap32 (holding_of sy hs + qty)"
    using add_holding_account [OF assms(1,2), of qty sy] q by (auto simp: holding_of_absent)
  also have "\<dots> = wrap32 (trade_sum sy ts + qty)" by (simp only: h wrap_simps)
  finally show ?thesis using True pos assms(4) by (simp add: account_ok_def)
next
  case False
  then show ?thesis using add_holding_account [OF assms(1,2), of qty ty] assms(3) by (simp add: account_ok_def)
qed

lemma sell_account:
  assumes "distinct (map h_symbol hs)" "find_holding hs sy = Some i" "qty \<le> h_qty (hs ! i)"
    "\<And>ty. account_ok hs ts ty" "0 < qty"
  shows "account_ok (sub_holding i qty hs) (ts @ [(sy, - qty)]) ty"
proof (cases "ty = sy")
  case True
  have h: "holding_of sy hs = wrap32 (trade_sum sy ts)" and pos: "bought sy ts \<le> int_max \<Longrightarrow> 0 \<le> trade_sum sy ts"
    using assms(4) by (auto simp: account_ok_def)
  have "holding_of sy (sub_holding i qty hs) = wrap32 (holding_of sy hs - qty)"
    using sub_holding_account [OF assms(1,2), of qty sy] by simp
  also have "\<dots> = wrap32 (trade_sum sy ts - qty)" using wrap32_add_left [of "trade_sum sy ts" "- qty"] by (simp add: h)
  finally have "holding_of sy (sub_holding i qty hs) = wrap32 (trade_sum sy ts - qty)" .
  moreover have "0 \<le> trade_sum sy ts - qty" if b: "bought sy ts \<le> int_max"
  proof -
    have "0 \<le> trade_sum sy ts" "trade_sum sy ts \<le> int_max" using pos [OF b] trade_sum_le_bought [of sy ts] b by auto
    then have "holding_of sy hs = trade_sum sy ts" using h wrap32_id by (simp add: limits_defs)
    then show ?thesis using assms(2,3) by (simp add: holding_of_def)
  qed
  ultimately show ?thesis using True assms(5) by (simp add: account_ok_def)
next
  case False
  then show ?thesis using sub_holding_account [OF assms(1,2), of qty ty] assms(4) by (simp add: account_ok_def)
qed

section \<open>The invariant\<close>

definition trader_ok :: "string list \<Rightarrow> client_t \<Rightarrow> bool" where
  "trader_ok syms c \<longleftrightarrow>
     (fd c = -1 \<or> 0 \<le> fd c) \<and> LF \<notin> set (line_buf c) \<and> length (line_buf c) < MAX_LINE \<and>
     distinct (map h_symbol (portfolio c)) \<and> h_symbol ` set (portfolio c) \<subseteq> set syms \<and>
     (\<forall>sy. account_ok (portfolio c) (trades c) sy) \<and>
     (joined c \<longrightarrow> 0 \<le> fd c \<and> ctype c \<in> {''TRADER'', ''ANALYST''} \<and> username c \<noteq> [] \<and> length (username c) \<le> 31) \<and>
     (0 \<le> fd c \<and> \<not> (joined c \<and> ctype c = ''TRADER'') \<longrightarrow> portfolio c = [] \<and> trades c = [])"

definition live_clients :: "client_t list \<Rightarrow> int" where
  "live_clients cs = (\<Sum>c\<leftarrow>cs. if 0 \<le> fd c then 1 else 0)"

definition fresh_name :: "client_t list \<Rightarrow> nat \<Rightarrow> string \<Rightarrow> bool" where
  "fresh_name cs i name \<longleftrightarrow> (\<forall>j<length cs. j \<noteq> i \<longrightarrow> joined (cs ! j) \<longrightarrow> username (cs ! j) \<noteq> name)"

definition names_distinct :: "client_t list \<Rightarrow> bool" where
  "names_distinct cs \<longleftrightarrow> (\<forall>i<length cs. joined (cs ! i) \<longrightarrow> fresh_name cs i (username (cs ! i)))"

definition market_ok :: "string list \<Rightarrow> market \<Rightarrow> bool" where
  "market_ok syms s \<longleftrightarrow>
     length (clients s) = MAX_TRADERS \<and> map symbol (stocks s) = syms \<and> length syms \<le> MAX_STOCKS \<and>
     list_all (\<lambda>st. float_min \<le> price st) (stocks s) \<and> client_count s = live_clients (clients s) \<and>
     list_all (trader_ok syms) (clients s) \<and> names_distinct (clients s)"

lemma market_okD:
  assumes "market_ok syms s" "i < MAX_TRADERS"
  shows "i < length (clients s)" "trader_ok syms (clients s ! i)"
    "joined (clients s ! i) \<Longrightarrow> fresh_name (clients s) i (username (clients s ! i))"
  using assms by (auto simp: market_ok_def names_distinct_def list_all_length)

text \<open>Only the stocks, the clients and their number matter.\<close>

lemma market_ok_cong:
  "stocks s' = stocks s \<Longrightarrow> clients s' = clients s \<Longrightarrow> client_count s' = client_count s \<Longrightarrow> market_ok syms s' = market_ok syms s"
  by (simp add: market_ok_def)

lemma send_to_simps [simp]:
  "stocks (send_to f m s) = stocks s" "clients (send_to f m s) = clients s" "client_count (send_to f m s) = client_count s"
  by (simp_all add: send_to_def)

lemma server_log_simps [simp]:
  "stocks (server_log e s) = stocks s" "clients (server_log e s) = clients s" "client_count (server_log e s) = client_count s"
  by (simp_all add: server_log_def)

lemma broadcast_simps [simp]:
  "stocks (send_price_broadcast t s) = stocks s" "clients (send_price_broadcast t s) = clients s"
  "client_count (send_price_broadcast t s) = client_count s"
  by (simp_all add: send_price_broadcast_def split: option.splits)

lemma send_buffer_simps [simp]:
  "stocks (send_buffer f m s) = stocks s" "clients (send_buffer f m s) = clients s" "client_count (send_buffer f m s) = client_count s"
  by (simp_all add: send_buffer_def split: option.splits)

lemma set_client_simps [simp]:
  "stocks (set_client i f s) = stocks s" "clients (set_client i f s) = (clients s)[i := f (clients s ! i)]"
  "client_count (set_client i f s) = client_count s"
  by (simp_all add: set_client_def)

lemma set_price_simps [simp]:
  "clients (set_price k p s) = clients s" "client_count (set_price k p s) = client_count s"
  "stocks (set_price k p s) = (stocks s)[k := (stocks s ! k)\<lparr>price := p\<rparr>]"
  by (simp_all add: set_price_def)

lemma quiet_ok [simp]:
  "market_ok syms (send_to f m s) = market_ok syms s" "market_ok syms (server_log e s) = market_ok syms s"
  "market_ok syms (send_price_broadcast t s) = market_ok syms s" "market_ok syms (send_buffer f b s) = market_ok syms s"
  by (simp_all add: market_ok_def)

text \<open>One client is changed.\<close>

lemma set_client_ok:
  assumes ok: "market_ok syms s" and i: "i < MAX_TRADERS" and c: "trader_ok syms (f (clients s ! i))"
    and name: "joined (f (clients s ! i)) \<Longrightarrow> fresh_name (clients s) i (username (f (clients s ! i)))"
    and t: "clients t = clients s" "stocks t = stocks s"
    and n: "client_count t = client_count s + (if 0 \<le> fd (f (clients s ! i)) then 1 else 0) - (if 0 \<le> fd (clients s ! i) then 1 else 0)"
  shows "market_ok syms (set_client i f t)"
proof -
  let ?cs = "clients s" and ?c = "f (clients s ! i)"
  have il: "i < length ?cs" using ok i by (simp add: market_ok_def)
  have "live_clients (?cs[i := ?c]) + (if 0 \<le> fd (?cs ! i) then 1 else 0) = live_clients ?cs + (if 0 \<le> fd ?c then 1 else 0)"
    unfolding live_clients_def by (rule sum_list_upd [OF il, where f = "\<lambda>c. if 0 \<le> fd c then 1 else (0::int)"])
  then have "client_count t = live_clients (?cs[i := ?c])" using n ok by (simp add: market_ok_def)
  moreover have "names_distinct (?cs[i := ?c])"
    unfolding names_distinct_def fresh_name_def
  proof (intro allI impI)
    fix j k assume j: "j < length (?cs[i := ?c])" "joined (?cs[i := ?c] ! j)" and k: "k < length (?cs[i := ?c])" "k \<noteq> j" "joined (?cs[i := ?c] ! k)"
    show "username (?cs[i := ?c] ! k) \<noteq> username (?cs[i := ?c] ! j)"
    proof (cases "i = j \<or> i = k")
      case True
      then show ?thesis using j k il name by (auto simp: fresh_name_def)
    next
      case False
      then show ?thesis using j k ok by (simp add: market_ok_def names_distinct_def fresh_name_def)
    qed
  qed
  moreover have "list_all (trader_ok syms) (?cs[i := ?c])" using ok c by (intro list_all_upd) (simp_all add: market_ok_def)
  ultimately show ?thesis using ok t by (simp add: market_ok_def)
qed

text \<open>A change that leaves the descriptor and the name as they are.\<close>

lemma set_client_keeps:
  assumes "market_ok syms s" "i < MAX_TRADERS" "trader_ok syms (f (clients s ! i))"
    "fd (f (clients s ! i)) = fd (clients s ! i)"
    "joined (f (clients s ! i)) = joined (clients s ! i)" "username (f (clients s ! i)) = username (clients s ! i)"
  shows "market_ok syms (set_client i f s)"
  by (rule set_client_ok [where f = f and s = s, OF assms(1,2)]) (use assms market_okD [OF assms(1,2)] in auto)

lemma set_price_ok:
  assumes "market_ok syms s" "k < length (stocks s)" "float_min \<le> p"
  shows "market_ok syms (set_price k p s)"
proof -
  have "map symbol ((stocks s)[k := (stocks s ! k)\<lparr>price := p\<rparr>]) = map symbol (stocks s)"
    by (metis list_update_id map_update stock_t.select_convs(1) stock_t.surjective stock_t.update_convs(2))
  then show ?thesis using assms by (auto simp: market_ok_def intro: list_all_upd)
qed

section \<open>Commands\<close>

lemma name_free: "\<not> name_taken s name \<Longrightarrow> market_ok syms s \<Longrightarrow> fresh_name (clients s) i name"
  by (force simp: name_taken_def fresh_name_def market_ok_def list_all_length list_ex_length trader_ok_def)

lemma scan_word_length: "scan_word n s = Some (w, r) \<Longrightarrow> w \<noteq> [] \<and> length w \<le> n"
  by (auto simp: scan_word_def Let_def split: if_splits)

lemma find_stock_Some: "find_stock sts sy = Some k \<Longrightarrow> k < length sts \<and> symbol (sts ! k) = sy"
proof (induction sts arbitrary: k)
  case (Cons st sts)
  then show ?case by (cases "symbol st = sy") auto
qed simp

lemma find_stock_in: "find_stock sts sy = Some k \<Longrightarrow> sy \<in> symbol ` set sts"
  using find_stock_Some nth_mem by fastforce

lemma scan_int_le: "scan_int s = Some (n, r) \<Longrightarrow> n \<le> int_max"
  using wrap32_range by (auto simp: scan_int_def split: prod.splits if_splits)

lemma trade_args_Some:
  assumes "trade_args s args = Some (sy, qty, k)"
  shows "0 < qty \<and> qty \<le> int_max \<and> k < length (stocks s) \<and> symbol (stocks s ! k) = sy"
  using assms by (auto simp: trade_args_def scan_int_le dest: find_stock_Some split: option.splits prod.splits if_splits)

lemma cmd_join_ok:
  assumes ok: "market_ok syms s" and i: "i < MAX_TRADERS" and live: "0 \<le> fd (clients s ! i)"
  shows "market_ok syms (cmd_join i args s)"
proof (cases "cmd_join i args s = cmd_join i args s \<and> joined (clients s ! i)")
  case True
  then show ?thesis using ok by (simp add: cmd_join_def the_client_def)
next
  case False
  then have nj: "\<not> joined (clients s ! i)" by simp
  let ?c = "clients s ! i"
  have c: "trader_ok syms ?c" using market_okD [OF ok i] by simp
  have join: "market_ok syms (set_client i (\<lambda>c. c\<lparr>username := name, ctype := ty, joined := True\<rparr>) s)"
    if "scan_word 31 r = Some (name, r2)" "ty = ''TRADER'' \<or> ty = ''ANALYST''" "\<not> name_taken s name" for name ty r r2
    by (rule set_client_ok [where s = s, OF ok i])
      (use c nj live that scan_word_length [OF that(1)] name_free [OF that(3) ok] in \<open>auto simp: trader_ok_def\<close>)
  then show ?thesis using ok nj by (auto simp: cmd_join_def the_client_def Let_def split: option.split prod.splits)
qed

lemma cmd_buy_ok:
  assumes ok: "market_ok syms s" and i: "i < MAX_TRADERS" and tr: "joined (clients s ! i)" "ctype (clients s ! i) = ''TRADER''"
  shows "market_ok syms (cmd_buy i args s)"
proof (cases "trade_args s args")
  case None
  then show ?thesis using ok by (simp add: cmd_buy_def Let_def)
next
  case (Some a)
  obtain sy qty k where a: "trade_args s args = Some (sy, qty, k)" using Some by (cases a) auto
  let ?c = "clients s ! i" and ?s = "set_price k (buy_price (price (stocks s ! k)) qty) s"
    and ?f = "\<lambda>c. c\<lparr>portfolio := add_holding sy qty (portfolio c), trades := trades c @ [(sy, qty)]\<rparr>"
  have q: "0 < qty" "qty \<le> int_max" and k: "k < length (stocks s)" "symbol (stocks s ! k) = sy" using trade_args_Some [OF a] by auto
  have c: "trader_ok syms ?c" using market_okD [OF ok i] by simp
  have sy: "sy \<in> set syms" using k ok by (auto simp: market_ok_def)
  have "float_min \<le> price (stocks s ! k)" using ok k by (simp add: market_ok_def list_all_length)
  then have s: "market_ok syms ?s" using q by (intro set_price_ok [OF ok k(1)] buy_price_min)
  have d: "distinct (map h_symbol (portfolio ?c))" and sub: "h_symbol ` set (portfolio ?c) \<subseteq> set syms" using c by (auto simp: trader_ok_def)
  have room: "sy \<in> h_symbol ` set (portfolio ?c) \<or> length (portfolio ?c) < MAX_STOCKS"
  proof (rule disjCI)
    assume n: "\<not> length (portfolio ?c) < MAX_STOCKS"
    have "card (h_symbol ` set (portfolio ?c)) = length (portfolio ?c)" using d by (metis distinct_card length_map list.set_map)
    moreover have "card (set syms) \<le> MAX_STOCKS" using card_length [of syms] ok by (simp add: market_ok_def)
    ultimately have "h_symbol ` set (portfolio ?c) = set syms" using n sub by (intro card_seteq) auto
    then show "sy \<in> h_symbol ` set (portfolio ?c)" using sy by simp
  qed
  have "account_ok (add_holding sy qty (portfolio ?c)) (trades ?c @ [(sy, qty)]) ty" for ty
    by (rule buy_account [OF d room _ q]) (use c in \<open>simp add: trader_ok_def\<close>)
  then have "trader_ok syms (?f ?c)"
    using c tr sub sy add_holding_account [OF d room, of qty] by (auto simp: trader_ok_def)
  then have "market_ok syms (set_client i ?f ?s)" by (intro set_client_keeps [OF s i]) simp_all
  then show ?thesis by (simp add: cmd_buy_def a Let_def)
qed

lemma cmd_sell_ok:
  assumes ok: "market_ok syms s" and i: "i < MAX_TRADERS" and tr: "joined (clients s ! i)" "ctype (clients s ! i) = ''TRADER''"
  shows "market_ok syms (cmd_sell i args s)"
proof -
  let ?c = "clients s ! i"
  have c: "trader_ok syms ?c" using market_okD [OF ok i] by simp
  then have d: "distinct (map h_symbol (portfolio ?c))" and sub: "h_symbol ` set (portfolio ?c) \<subseteq> set syms" by (auto simp: trader_ok_def)
  have sell: "market_ok syms (set_client i (\<lambda>c. c\<lparr>portfolio := sub_holding h qty (portfolio c), trades := trades c @ [(sy, - qty)]\<rparr>)
      (set_price k (sell_price (price (stocks s ! k)) qty) s))" (is "market_ok syms (set_client i ?f ?s)")
    if a: "trade_args s args = Some (sy, qty, k)" and h: "find_holding (portfolio ?c) sy = Some h" "\<not> h_qty (portfolio ?c ! h) < qty"
    for sy qty k h
  proof -
    have q: "0 < qty" and k: "k < length (stocks s)" using trade_args_Some [OF a] by auto
    have s: "market_ok syms ?s" using sell_price_min float_cent_min by (intro set_price_ok [OF ok k]) (metis order_trans)
    have "account_ok (sub_holding h qty (portfolio ?c)) (trades ?c @ [(sy, - qty)]) ty" for ty
      by (rule sell_account [OF d h(1)]) (use h(2) q c in \<open>auto simp: trader_ok_def\<close>)
    moreover have "distinct (map h_symbol (sub_holding h qty (portfolio ?c)))"
      "h_symbol ` set (sub_holding h qty (portfolio ?c)) \<subseteq> set syms"
      using sub_holding_account [OF d h(1), of qty] sub by blast+
    ultimately have "trader_ok syms (?f ?c)" using c tr by (simp add: trader_ok_def)
    then show ?thesis by (intro set_client_keeps [OF s i]) simp_all
  qed
  show ?thesis
  proof (cases "trade_args s args")
    case None
    then show ?thesis using ok by (simp add: cmd_sell_def Let_def)
  next
    case (Some a)
    then show ?thesis
      using ok sell by (cases a) (auto simp: cmd_sell_def the_client_def Let_def split: option.split)
  qed
qed

lemma process_line_ok:
  assumes "market_ok syms s" "i < MAX_TRADERS" "0 \<le> fd (clients s ! i)"
  shows "market_ok syms (fst (process_line i line s))"
  using assms cmd_join_ok [OF assms] cmd_buy_ok [OF assms(1,2)] cmd_sell_ok [OF assms(1,2)]
  by (simp add: process_line_def the_client_def Let_def cmd_price_def cmd_report_def cmd_list_def cmd_portfolio_def split: option.split)

lemma same_fd: "i < length cs \<Longrightarrow> fd c = fd (cs ! i) \<Longrightarrow> map fd (cs[i := c]) = map fd cs"
  by (metis list_update_id map_update)

lemma process_line_fd:
  assumes "i < length (clients s)"
  shows "map fd (clients (fst (process_line i line s))) = map fd (clients s)"
  using assms
  by (auto simp: process_line_def the_client_def Let_def cmd_price_def cmd_report_def cmd_list_def cmd_portfolio_def
      cmd_join_def cmd_buy_def cmd_sell_def same_fd split: option.split)

section \<open>The loop\<close>

lemma disconnect_ok:
  assumes ok: "market_ok syms s" and i: "i < MAX_TRADERS"
  shows "market_ok syms (disconnect_client i reason s)"
proof (cases "fd (clients s ! i) < 0")
  case True
  then show ?thesis using ok by (simp add: disconnect_client_def the_client_def)
next
  case False
  have c: "trader_ok syms (clients s ! i)" using market_okD [OF ok i] by simp
  show ?thesis
    unfolding disconnect_client_def Let_def the_client_def if_not_P [OF False]
    by (rule set_client_ok [where s = s, OF ok i]) (use c False in \<open>auto simp: trader_ok_def MAX_LINE_def\<close>)
qed

lemma set_line_ok:
  assumes ok: "market_ok syms s" and i: "i < MAX_TRADERS" and "LF \<notin> set buf" "length buf < MAX_LINE"
  shows "market_ok syms (set_client i (\<lambda>c. c\<lparr>line_buf := buf\<rparr>) s)"
  by (rule set_client_keeps [OF ok i]) (use market_okD(2) [OF ok i] assms in \<open>auto simp: trader_ok_def\<close>)

lemma read_lines_ok:
  "market_ok syms s \<Longrightarrow> i < MAX_TRADERS \<Longrightarrow> 0 \<le> fd (clients s ! i) \<Longrightarrow> length buf < MAX_LINE \<Longrightarrow> market_ok syms (read_lines i buf s)"
proof (induction i buf s rule: read_lines.induct)
  case (1 i buf s)
  let ?raw = "takeWhile (\<lambda>c. c \<noteq> LF) buf"
  let ?rest = "drop (length ?raw + 1) buf"
  have rest: "length ?rest < MAX_LINE" using 1 by simp
  show ?case
  proof (cases "LF \<in> set buf")
    case False
    then show ?thesis using set_line_ok [OF 1(3,4)] 1(6) by (subst read_lines.simps) simp
  next
    case lf: True
    show ?thesis
    proof (cases "length ?raw \<ge> MAX_LINE - 1")
      case True
      then show ?thesis using lf rest 1 by (subst read_lines.simps) (simp add: Let_def)
    next
      case short: False
      obtain s' on where p: "process_line i (trade_line ?raw) s = (s', on)" by (cases "process_line i (trade_line ?raw) s") auto
      have s': "market_ok syms s'" using process_line_ok [OF 1(3-5), of "trade_line ?raw"] p by simp
      have il: "i < length (clients s)" "i < length (clients s')" using 1(4) market_okD [OF 1(3)] market_okD [OF s'] by auto
      have "map fd (clients s') = map fd (clients s)" using process_line_fd [OF il(1), of "trade_line ?raw"] p by simp
      then have "0 \<le> fd (clients s' ! i)" using 1(5) il by (metis nth_map)
      then show ?thesis
        using lf short p rest s' 1 disconnect_ok [OF s' 1(4)] by (subst read_lines.simps) (simp add: Let_def split: bool.split)
    qed
  qed
qed

lemma client_recv_ok:
  assumes ok: "market_ok syms s" and i: "i < MAX_TRADERS" and live: "0 \<le> fd (clients s ! i)"
  shows "market_ok syms (client_recv i got s)"
proof -
  let ?buf = "line_buf (clients s ! i)"
  have "length ?buf < MAX_LINE" using market_okD(2) [OF ok i] by (simp add: trader_ok_def)
  then have "length (?buf @ take (nat (int MAX_LINE - 1 - int (length ?buf))) bs) < MAX_LINE" for bs by simp
  then have read: "market_ok syms (read_lines i (?buf @ take (nat (int MAX_LINE - 1 - int (length ?buf))) bs) s)" for bs
    by (intro read_lines_ok [OF ok i live])
  have long: "market_ok syms (set_client i (\<lambda>c. c\<lparr>line_buf := []\<rparr>) (send_to f m s))" for f m
    by (rule set_line_ok) (use ok i in \<open>simp_all add: MAX_LINE_def\<close>)
  show ?thesis
    using read long disconnect_ok [OF ok i] by (simp add: client_recv_def the_client_def Let_def split: option.split)
qed

lemma read_clients_ok:
  "market_ok syms s \<Longrightarrow> set is \<subseteq> {0..<MAX_TRADERS} \<Longrightarrow> market_ok syms (read_clients ready is s)"
proof (induction "is" arbitrary: s)
  case (Cons i "is")
  then show ?case using client_recv_ok [OF Cons.prems(1), of i] by (auto simp: the_client_def split: option.split)
qed simp

lemma alloc_slot_Some: "alloc_slot cs = Some i \<Longrightarrow> i < length cs \<and> fd (cs ! i) = -1"
proof (induction cs arbitrary: i)
  case (Cons c cs)
  then show ?case by (cases "fd c = -1") auto
qed simp

lemma empty_client_ok: "0 \<le> f \<or> f = -1 \<Longrightarrow> trader_ok syms (empty_client\<lparr>fd := f\<rparr>)"
  by (auto simp: trader_ok_def empty_client_def account_ok_def holding_of_def MAX_LINE_def)

lemma accept_ok:
  assumes ok: "market_ok syms s"
  shows "market_ok syms (accept_client f ip s)"
proof (cases "alloc_slot (clients s)")
  case None
  then show ?thesis using ok by (simp add: accept_client_def market_ok_def)
next
  case (Some i)
  then have i: "i < MAX_TRADERS" "fd (clients s ! i) = -1" using ok alloc_slot_Some [OF Some] by (auto simp: market_ok_def)
  have "market_ok syms (set_client i (\<lambda>c. empty_client\<lparr>fd := f\<rparr>) (s\<lparr>client_count := client_count s + 1\<rparr>))" if "0 \<le> f"
    by (rule set_client_ok [where s = s, OF ok i(1)])
      (use that i(2) empty_client_ok [of f] in \<open>auto simp: empty_client_def\<close>)
  then show ?thesis using ok Some by (simp add: accept_client_def)
qed

lemma trade_pass_ok:
  assumes "market_ok syms (fst sl)" "trade_pass now after w sl = Some sl'"
  shows "market_ok syms (fst sl')"
proof -
  obtain s t where sl: "sl = (s, t)" by (cases sl)
  have s: "market_ok syms s" using assms(1) sl by simp
  define s1 where "s1 = (if elapsed_ms now t \<ge> BCAST_INTERVAL * 1000 \<or> w = Wake_Timeout then (send_price_broadcast ''PERIODIC'' s, after) else (s, t))"
  have s1: "market_ok syms (fst s1)" using s by (simp add: s1_def)
  show ?thesis
  proof (cases w)
    case (Wake_Ready conn ready)
    define s2 where "s2 = (case conn of None \<Rightarrow> fst s1 | Some (f, ip) \<Rightarrow> accept_client f ip (fst s1))"
    have "market_ok syms s2" using s1 accept_ok by (simp add: s2_def split: option.split prod.split)
    then have "market_ok syms (read_clients ready [0..<MAX_TRADERS] s2)" by (rule read_clients_ok) simp
    moreover have "sl' = (read_clients ready [0..<MAX_TRADERS] s2, snd s1)"
      using assms(2) unfolding trade_pass_def sl Wake_Ready s2_def s1_def by (cases conn) (auto simp: case_prod_beta Let_def)
    ultimately show ?thesis by simp
  qed (use assms(2) s s1 in \<open>auto simp: trade_pass_def sl s1_def case_prod_beta\<close>)
qed

lemma trade_loop_ok: "market_ok syms (fst sl) \<Longrightarrow> market_ok syms (trade_loop ws sl)"
proof (induction ws sl rule: trade_loop.induct)
  case (2 now after w ws sl)
  show ?case
  proof (cases "trade_pass now after w sl")
    case None
    then show ?thesis using 2(2) by simp
  next
    case (Some sl')
    then show ?thesis using 2(1) trade_pass_ok [OF 2(2) Some] by simp
  qed
qed simp

section \<open>The start\<close>

lemma scan_float_rounded: "scan_float s = Some p \<Longrightarrow> \<exists>x. p = to_float x"
  unfolding scan_float_def Let_def by (metis option.distinct(1) option.inject)

lemma parse_stock_min: "parse_stock l = Some st \<Longrightarrow> float_min \<le> price st"
  using scan_float_rounded to_float_pos_min by (fastforce simp: parse_stock_def split: option.splits prod.splits if_splits)

lemma load_lines_ok:
  "length acc \<le> MAX_STOCKS \<Longrightarrow> list_all (\<lambda>st. float_min \<le> price st) acc \<Longrightarrow>
   length (load_lines ls acc) \<le> MAX_STOCKS \<and> list_all (\<lambda>st. float_min \<le> price st) (load_lines ls acc)"
proof (induction ls acc rule: load_lines.induct)
  case (2 l ls acc)
  then show ?case using parse_stock_min by (auto split: option.split)
qed simp

lemma start_ok:
  assumes "start_trading fopen ok argv = Some s"
  shows "market_ok (map symbol (stocks s)) s"
proof -
  have e: "empty_client\<lparr>fd := -1\<rparr> = empty_client" by (simp add: empty_client_def)
  have "trader_ok syms empty_client" for syms using empty_client_ok [of "-1" syms] by (simp only: e) simp
  moreover have "live_clients (replicate n empty_client) = 0" for n by (induction n) (auto simp: live_clients_def empty_client_def)
  moreover have "names_distinct (replicate n empty_client)" for n by (simp add: names_distinct_def empty_client_def)
  ultimately show ?thesis
    using assms load_lines_ok [of "[]"]
    by (auto simp: start_trading_def load_stocks_def market_ok_def Let_def list_all_length split: option.splits if_splits)
qed

section \<open>Reading lines\<close>

lemma set_client_same: "f (clients s ! i) = clients s ! i \<Longrightarrow> set_client i f s = s"
  by (cases s) (simp add: set_client_def)

lemma set_client_twice:
  "i < length (clients s) \<Longrightarrow> set_client i f (send_to k m (set_client i g s)) = set_client i (f \<circ> g) (send_to k m s)"
  by (simp add: set_client_def send_to_def)

lemma empty_line_buf: "line_buf c = [] \<Longrightarrow> c\<lparr>line_buf := []\<rparr> = c"
  by (cases c) simp

lemma read_lines_none: "LF \<notin> set buf \<Longrightarrow> read_lines i buf s = set_client i (\<lambda>c. c\<lparr>line_buf := buf\<rparr>) s"
  by (subst read_lines.simps) simp

lemma read_lines_step:
  assumes "LF \<notin> set cmd" "length cmd < MAX_LINE - 1"
  shows "read_lines i (cmd @ LF # rest) s =
    (case process_line i (trade_line cmd) s of
       (s', False) \<Rightarrow> disconnect_client i ''QUIT'' s' | (s', True) \<Rightarrow> read_lines i rest s')"
proof -
  have raw: "takeWhile (\<lambda>c. c \<noteq> LF) (cmd @ LF # rest) = cmd" by (rule takeWhile_append_stop) (use assms in auto)
  show ?thesis using assms(2) by (subst read_lines.simps) (simp add: raw Let_def split: bool.split prod.split)
qed

lemma read_lines_one:
  assumes "LF \<notin> set cmd" "length cmd < MAX_LINE - 1"
  shows "read_lines i (cmd @ [LF]) s =
    (case process_line i (trade_line cmd) s of
       (s', False) \<Rightarrow> disconnect_client i ''QUIT'' s' | (s', True) \<Rightarrow> set_client i (\<lambda>c. c\<lparr>line_buf := []\<rparr>) s')"
  using read_lines_step [OF assms, of i "[]"] by (simp add: read_lines_none)

end
