(* ===== verification/Trade_Demo.thy ===== *)
theory Trade_Demo
  imports Trade_Invariant
begin

text \<open>A run of the trading server on a small stock file: a client connects, joins, buys three shares and sells one.\<close>


definition trade_argv :: "string list" where
  "trade_argv = [''-p'', ''5000'', ''-u'', ''5001'', ''-s'', ''st'', ''-l'', ''lg'']"

definition demo_file :: string where "demo_file = ''AA 1.5'' @ [LF] @ ''bad 2'' @ [LF] @ ''BB 3'' @ [LF]"

definition demo_wakes :: "((int \<times> int) \<times> (int \<times> int) \<times> trade_wake) list" where
  "demo_wakes =
    [((1, 0), (1, 0), Wake_Ready (Some (5, ''127.0.0.1'')) []),
     ((2, 0), (2, 0), Wake_Ready None [(5, Some (''JOIN TRADER ann'' @ [LF]))]),
     ((3, 0), (3, 0), Wake_Ready None [(5, Some (''BUY AA 3'' @ [LF]))]),
     ((4, 0), (4, 0), Wake_Ready None [(5, Some (''SELL AA 1'' @ [LF]))])]"

definition demo_client :: client_t where
  "demo_client = \<lparr>fd = 5, username = [], ctype = [], line_buf = [], joined = False, portfolio = [], trades = []\<rparr>"

definition demo_trader :: "holding_t list \<Rightarrow> (string \<times> int) list \<Rightarrow> client_t" where
  "demo_trader hs ts = \<lparr>fd = 5, username = ''ann'', ctype = ''TRADER'', line_buf = [], joined = True, portfolio = hs, trades = ts\<rparr>"

definition demo_market :: "rat \<Rightarrow> client_t \<Rightarrow> int \<Rightarrow> trade_event list \<Rightarrow> (int \<times> string) list \<Rightarrow> string list \<Rightarrow> market" where
  "demo_market p c n ev out bc =
     \<lparr>stocks = [\<lparr>symbol = ''AA'', price = p\<rparr>, \<lparr>symbol = ''BB'', price = 3\<rparr>], clients = c # replicate 9 empty_client,
      client_count = n, events = ev, sent = out, broadcasts = bc, closed = [], smashed = False\<rparr>"

lemma demo_stocks: "load_stocks demo_file = [\<lparr>symbol = ''AA'', price = 3/2\<rparr>, \<lparr>symbol = ''BB'', price = 3\<rparr>]"
  by code_simp

lemma demo_options: "trade_options trade_argv \<lparr>tcp_port = -1, udp_port = -1, stocks_path = None, log_path = None\<rparr> =
   Some \<lparr>tcp_port = 5000, udp_port = 5001, stocks_path = Some ''st'', log_path = Some ''lg''\<rparr>"
  by code_simp

lemma demo_start: "start_trading (\<lambda>p. Some demo_file) True trade_argv =
  Some (demo_market (3/2) empty_client 0 [Server_Start 5000 5001 2] [] [])"
  by (simp add: start_trading_def demo_options demo_stocks demo_market_def server_log_def MAX_TRADERS_def numeral_eq_Suc)

lemma demo_accept: "accept_client 5 ''127.0.0.1'' (demo_market p empty_client 0 ev out bc) =
  demo_market p demo_client 1 (ev @ [Connected 5 ''127.0.0.1'']) out bc"
  by (simp add: accept_client_def demo_market_def empty_client_def demo_client_def set_client_def server_log_def)

lemma demo_join: "process_line 0 ''JOIN TRADER ann'' (demo_market p demo_client 1 ev out bc) =
  (demo_market p (demo_trader [] []) 1
    (ev @ [Joined ''ann'' ''TRADER'' 5]) (out @ [(5, ''OK JOIN ann'' @ [LF])]) bc, True)"
proof -
  have "scan_word 15 ''TRADER ann'' = Some (''TRADER'', '' ann'')" "scan_word 31 '' ann'' = Some (''ann'', [])" by code_simp+
  then show ?thesis
  by (simp add: process_line_def cmd_join_def demo_market_def the_client_def demo_client_def name_taken_def empty_client_def
    set_client_def send_to_def server_log_def Let_def list_ex_iff demo_trader_def)
qed


lemma demo_prices: "buy_price (3/2) 3 = 6417285 / 4194304" "sell_price (6417285 / 4194304) 1 = 3187671 / 2097152"
 "show_price (6417285 / 4194304) = ''1.53''" "show_price (3187671 / 2097152) = ''1.52''" "show_price 3 = ''3.00''"
 "int_dec 1 = ''1''" "int_dec 3 = ''3''"
  by code_simp+

lemma demo_scans: "scan_word 8 ''AA 3'' = Some (''AA'', '' 3'')" "scan_int '' 3'' = Some (3, [])"
   "scan_word 8 ''AA 1'' = Some (''AA'', '' 1'')" "scan_int '' 1'' = Some (1, [])"
  by code_simp+

lemmas demo_defs = demo_market_def the_client_def demo_trader_def demo_prices demo_scans trade_args_def SYMBOL_LEN_def MAX_STOCKS_def
   set_price_def set_client_def send_to_def server_log_def send_price_broadcast_def fill_buffer_def quote_text_def Let_def

lemma demo_buy: "\<exists>ev out bc. process_line 0 ''BUY AA 3'' (demo_market (3/2) (demo_trader [] []) 1 ev0 out0 bc0) =
  (demo_market (6417285 / 4194304) (demo_trader [\<lparr>h_symbol = ''AA'', h_qty = 3\<rparr>] [(''AA'', 3)]) 1 ev out bc, True)"
  by (simp add: process_line_def cmd_buy_def add_holding_def demo_defs)

lemma demo_sell: "\<exists>ev out bc. process_line 0 ''SELL AA 1'' (demo_market (6417285 / 4194304) (demo_trader [\<lparr>h_symbol = ''AA'', h_qty = 3\<rparr>] [(''AA'', 3)]) 1 ev0 out0 bc0) =
  (demo_market (3187671 / 2097152) (demo_trader [\<lparr>h_symbol = ''AA'', h_qty = 2\<rparr>] [(''AA'', 3), (''AA'', - 1)]) 1 ev out bc, True)"
  by (simp add: process_line_def cmd_sell_def sub_holding_def wrap32_def demo_defs)


text \<open>A pass in which the client has sent a line.\<close>

lemma demo_skip: "(\<And>i. i \<in> set is \<Longrightarrow> fd (the_client s i) < 0) \<Longrightarrow> read_clients r is s = s"
  by (induction "is") auto

lemma trade_demo_pass:
  assumes line: "process_line 0 cmd (demo_market p c n ev out bc) = (demo_market p' c' n' ev' out' bc', True)"
    and cmd: "LF \<notin> set cmd" "length cmd < 500" "trade_line cmd = cmd"
    and c: "fd c = 5" "line_buf c = []" "line_buf c' = []" and t: "0 \<le> t" "t < 5"
  shows "trade_pass (t, 0) (t, 0) (Wake_Ready None [(5, Some (cmd @ [LF]))]) (demo_market p c n ev out bc, (0, 0)) =
    Some (demo_market p' c' n' ev' out' bc', (0, 0))"
proof -
  let ?s = "demo_market p c n ev out bc" and ?s' = "demo_market p' c' n' ev' out' bc'"
  have "client_recv 0 (Some (cmd @ [LF])) ?s = read_lines 0 (cmd @ [LF]) ?s"
    using cmd c by (simp add: client_recv_def the_client_def Let_def MAX_LINE_def demo_market_def)
  also have "\<dots> = ?s'"
    using cmd line c by (simp add: read_lines_one MAX_LINE_def set_client_same empty_line_buf demo_market_def)
  finally have "client_recv 0 (Some (cmd @ [LF])) ?s = ?s'" .
  moreover have "read_clients r [1..<10] ?s' = ?s'" for r
    by (rule demo_skip) (auto simp: the_client_def demo_market_def empty_client_def nth_Cons')
  moreover have "[0..<MAX_TRADERS] = 0 # [1..<10]" by (simp add: MAX_TRADERS_def upt_rec)
  moreover have "fd (the_client ?s 0) = 5" using c by (simp add: the_client_def demo_market_def)
  ultimately show ?thesis using t by (simp add: trade_pass_def elapsed_ms_def BCAST_INTERVAL_def)
qed

lemma demo_first_pass:
  "trade_pass (1, 0) (1, 0) (Wake_Ready (Some (5, ''127.0.0.1'')) []) (demo_market p empty_client 0 ev out bc, (0, 0)) =
     Some (demo_market p demo_client 1 (ev @ [Connected 5 ''127.0.0.1'']) out bc, (0, 0))"
proof -
  have none: "read_clients [] is s = s" for "is" s by (induction "is") auto
  show ?thesis by (simp add: trade_pass_def elapsed_ms_def BCAST_INTERVAL_def demo_accept none)
qed

lemma trade_demo_run: "\<exists>ev out bc. trade_loop demo_wakes (demo_market (3/2) empty_client 0 ev0 out0 bc0, (0, 0)) =
   demo_market (3187671 / 2097152) (demo_trader [\<lparr>h_symbol = ''AA'', h_qty = 2\<rparr>] [(''AA'', 3), (''AA'', - 1)]) 1 ev out bc"
proof -
  have lines: "trade_line ''JOIN TRADER ann'' = ''JOIN TRADER ann''" "trade_line ''BUY AA 3'' = ''BUY AA 3''"
    "trade_line ''SELL AA 1'' = ''SELL AA 1''" by code_simp+
  obtain ev2 out2 bc2 where b: "process_line 0 ''BUY AA 3''
      (demo_market (3/2) (demo_trader [] []) 1 (ev0 @ [Connected 5 ''127.0.0.1''] @ [Joined ''ann'' ''TRADER'' 5]) (out0 @ [(5, ''OK JOIN ann'' @ [LF])]) bc0) =
      (demo_market (6417285 / 4194304) (demo_trader [\<lparr>h_symbol = ''AA'', h_qty = 3\<rparr>] [(''AA'', 3)]) 1 ev2 out2 bc2, True)"
    using demo_buy by blast
  obtain ev3 out3 bc3 where s: "process_line 0 ''SELL AA 1''
      (demo_market (6417285 / 4194304) (demo_trader [\<lparr>h_symbol = ''AA'', h_qty = 3\<rparr>] [(''AA'', 3)]) 1 ev2 out2 bc2) =
      (demo_market (3187671 / 2097152) (demo_trader [\<lparr>h_symbol = ''AA'', h_qty = 2\<rparr>] [(''AA'', 3), (''AA'', - 1)]) 1 ev3 out3 bc3, True)"
    using demo_sell by blast
  note p1 = trade_demo_pass [OF demo_join, of "2"] and p2 = trade_demo_pass [OF b, of "3"] and p3 = trade_demo_pass [OF s, of "4"]
  have buf: "line_buf (demo_trader hs ts) = []" "line_buf demo_client = []" "fd (demo_trader hs ts) = 5" "fd demo_client = 5" for hs ts
    by (simp_all add: demo_trader_def demo_client_def)
  show ?thesis
    using p1 [of "3/2" "ev0 @ [Connected 5 ''127.0.0.1'']" out0 bc0] p2 p3
    by (simp add: demo_wakes_def demo_first_pass lines buf) blast
qed

end
