(* ===== verification/Trade_Client.thy ===== *)
theory Trade_Client
  imports Trade_Server
begin

text \<open>
  The programs that talk to the trading server: \<open>Final/trader.c\<close> and \<open>Final/analyst.c\<close>, which differ
  in the role they join with and print, a parameter here, and \<open>Final/ticker.c\<close>, which prints the
  price broadcasts.
\<close>

section \<open>Data\<close>

text \<open>\<open>srv_buf\<close> up to \<open>srv_len\<close>, the lines printed, and the messages sent to the server.\<close>

record trade_client =
  srv_buf :: string
  shown :: "string list"
  outbox :: "string list"

text \<open>What a pass gets from outside: \<open>select\<close> fails, or is interrupted, or finds the socket and the
  standard input ready or not, with the result of \<open>recv\<close> and of \<open>fgets\<close>; the last is the result of
  the \<open>recv\<close> after a \<open>QUIT\<close>.\<close>

datatype trade_input = In_Error | In_Interrupted | In_Ready "string option option" "string option option" "string option"

text \<open>The loop goes on or has been left; both ways out of it close the socket.\<close>

datatype trade_end = Going | Gone

definition client_log :: "string \<Rightarrow> string \<Rightarrow> string \<Rightarrow> trade_client \<Rightarrow> trade_client" where
  "client_log role name msg c = c\<lparr>shown := shown c @ [''['' @ role @ '' '' @ name @ ''] '' @ msg]\<rparr>"

definition to_market :: "string \<Rightarrow> trade_client \<Rightarrow> trade_client" where
  "to_market msg c = c\<lparr>outbox := outbox c @ [msg]\<rparr>"

section \<open>Lines of the server\<close>

function reply_lines :: "string \<Rightarrow> string \<Rightarrow> string \<Rightarrow> trade_client \<Rightarrow> trade_client \<times> trade_end" where
  "reply_lines role name buf c =
     (if LF \<notin> set buf then (c\<lparr>srv_buf := buf\<rparr>, Going)
      else (let raw = takeWhile (\<lambda>c. c \<noteq> LF) buf; line = trade_line raw in
            if line = ''SERVER SHUTDOWN'' then (client_log role name ''DISCONNECTED reason=shutdown'' (c\<lparr>srv_buf := buf\<rparr>), Gone)
            else reply_lines role name (drop (length raw + 1) buf) (client_log role name (''RECEIVED '' @ line) c)))"
  by pat_completeness auto
termination
  by (relation "measure (\<lambda>(role, name, buf, c). length buf)") (auto intro!: diff_less)

declare reply_lines.simps [simp del]

text \<open>One \<open>recv\<close> into what is left of \<open>srv_buf\<close>; asked for no bytes it returns 0.\<close>

definition read_reply :: "string \<Rightarrow> string \<Rightarrow> string option \<Rightarrow> trade_client \<Rightarrow> trade_client \<times> trade_end" where
  "read_reply role name got c =
     (case got of
        None \<Rightarrow> (client_log role name ''DISCONNECTED reason=shutdown'' c, Gone)
      | Some bs \<Rightarrow>
          (let new = take (MAX_LINE - 1 - length (srv_buf c)) bs in
           if new = [] then (client_log role name ''DISCONNECTED reason=shutdown'' c, Gone)
           else reply_lines role name (srv_buf c @ new) c))"

section \<open>Lines of the user\<close>

definition strip_line :: "string \<Rightarrow> string" where
  "strip_line s = rev (dropWhile (\<lambda>c. c = LF \<or> c = CR) (rev s))"

definition quit_market :: "string \<Rightarrow> string \<Rightarrow> string option \<Rightarrow> trade_client \<Rightarrow> trade_client" where
  "quit_market role name answer c =
     (let c1 = to_market (''QUIT'' @ [LF]) (client_log role name ''SENT QUIT'' c);
          c2 = (case answer of
                  None \<Rightarrow> c1
                | Some bs \<Rightarrow>
                    if bs = [] then c1
                    else client_log role name (''RECEIVED '' @ takeWhile (\<lambda>c. c \<noteq> LF) (cstr (take (MAX_LINE - 1) bs))) c1)
      in client_log role name ''DISCONNECTED reason=QUIT'' c2)"

definition user_line :: "string \<Rightarrow> string \<Rightarrow> string option \<Rightarrow> string option \<Rightarrow> trade_client \<Rightarrow> trade_client \<times> trade_end" where
  "user_line role name input answer c =
     (case input of
        None \<Rightarrow> (quit_market role name answer c, Gone)
      | Some chunk \<Rightarrow>
          (let line = strip_line (cstr chunk) in
           if line = [] then (c, Going)
           else if line = ''QUIT'' then (quit_market role name answer c, Gone)
           else (to_market (take (MAX_LINE - 2) line @ [LF]) (client_log role name (''SENT '' @ line) c), Going)))"

section \<open>The programs\<close>

definition trader_pass :: "string \<Rightarrow> string \<Rightarrow> trade_input \<Rightarrow> trade_client \<Rightarrow> trade_client \<times> trade_end" where
  "trader_pass role name inp c =
     (case inp of
        In_Error \<Rightarrow> (c, Gone)
      | In_Interrupted \<Rightarrow> (c, Going)
      | In_Ready sock stdin answer \<Rightarrow>
          (case (case sock of None \<Rightarrow> (c, Going) | Some got \<Rightarrow> read_reply role name got c) of
             (c1, Gone) \<Rightarrow> (c1, Gone)
           | (c1, Going) \<Rightarrow> (case stdin of None \<Rightarrow> (c1, Going) | Some input \<Rightarrow> user_line role name input answer c1)))"

text \<open>The list ends when \<open>SIGINT\<close> has come.\<close>

fun trader_loop :: "string \<Rightarrow> string \<Rightarrow> trade_input list \<Rightarrow> trade_client \<Rightarrow> trade_client" where
  "trader_loop role name [] c = c"
| "trader_loop role name (inp # inps) c =
     (case trader_pass role name inp c of (c', Gone) \<Rightarrow> c' | (c', Going) \<Rightarrow> trader_loop role name inps c')"

text \<open>\<open>main\<close> up to the loop; \<open>online\<close>: the address is one and the server takes the connection.\<close>

definition trader_start :: "string \<Rightarrow> string list \<Rightarrow> bool \<Rightarrow> (string \<times> trade_client) option" where
  "trader_start role argv online =
     (case argv of
        [ip, port, user] \<Rightarrow>
          (let name = strncpy 31 user in
           if atoi port < 1024 \<or> \<not> online then None
           else Some (name,
             to_market (snprintf MAX_LINE (''JOIN '' @ role @ '' '' @ name @ [LF]))
               (client_log role name ''SENT JOIN''
                 (client_log role name (''CONNECTED server='' @ ip @ '':'' @ int_dec (atoi port))
                   \<lparr>srv_buf = [], shown = [], outbox = []\<rparr>))))
      | _ \<Rightarrow> None)"

section \<open>The ticker\<close>

definition ticker_line :: "string \<Rightarrow> string" where
  "ticker_line datagram = ''[TICKER] RECEIVED '' @ cstr (strip_line (take 4095 datagram))"

text \<open>The results of \<open>recv\<close> until \<open>SIGINT\<close>.\<close>

fun ticker_loop :: "string option list \<Rightarrow> string list" where
  "ticker_loop [] = []"
| "ticker_loop (None # rs) = []"
| "ticker_loop (Some bs # rs) = ticker_line bs # ticker_loop rs"

definition ticker :: "string list \<Rightarrow> bool \<Rightarrow> string option list \<Rightarrow> string list option" where
  "ticker argv bound rs =
     (case argv of
        [port] \<Rightarrow>
          if atoi port < 1024 \<or> \<not> bound then None
          else Some ((''[TICKER] LISTENING udp_port='' @ int_dec (atoi port)) # ticker_loop rs)
      | _ \<Rightarrow> None)"

end
