(* ===== verification/Trade_Properties.thy ===== *)
theory Trade_Properties
  imports Trade_Demo Trade_Client
begin

text \<open>The properties of the trading server and its clients, each with an instance of it.\<close>

section \<open>Accounts\<close>





section \<open>Over-long lines\<close>

text \<open>C19: A client that sends one line of 511 bytes followed by a command, with no newline between the two,
  has the command executed: the first bytes fill the buffer, the next wake-up answers \<open>ERR TOOLONG\<close> and empties
  it without reading, and the rest of the same line is then taken for a line of its own.\<close>

theorem long_line_smuggled:
  assumes "i < length (clients s)" "line_buf (clients s ! i) = []"
    "LF \<notin> set junk" "length junk = MAX_LINE - 1" "LF \<notin> set cmd" "length cmd < MAX_LINE - 1"
  shows "client_recv i (Some (cmd @ [LF])) (client_recv i got (client_recv i (Some junk) s)) =
    (case process_line i (trade_line cmd) (send_to (fd (clients s ! i)) (''ERR TOOLONG'' @ [LF]) s) of
       (s', False) \<Rightarrow> disconnect_client i ''QUIT'' s' | (s', True) \<Rightarrow> set_client i (\<lambda>c. c\<lparr>line_buf := []\<rparr>) s')"
proof -
  let ?s1 = "set_client i (\<lambda>c. c\<lparr>line_buf := junk\<rparr>) s" and ?s2 = "send_to (fd (clients s ! i)) (''ERR TOOLONG'' @ [LF]) s"
  have "junk \<noteq> []" using assms(4) by (auto simp: MAX_LINE_def)
  then have "client_recv i (Some junk) s = ?s1"
    using assms by (simp add: client_recv_def the_client_def Let_def read_lines_none)
  moreover have "client_recv i got ?s1 = ?s2"
    using assms by (simp add: client_recv_def the_client_def Let_def set_client_twice set_client_same empty_line_buf)
  moreover have "client_recv i (Some (cmd @ [LF])) ?s2 = read_lines i (cmd @ [LF]) ?s2"
    using assms by (simp add: client_recv_def the_client_def Let_def)
  ultimately show ?thesis using read_lines_one [OF assms(5,6)] by simp
qed

theorem long_line_smuggled_witness:
  "\<exists>s junk. length junk = 511 \<and> LF \<notin> set junk \<and>
    sent (client_recv 0 (Some (''QUIT'' @ [LF])) (client_recv 0 None (client_recv 0 (Some junk) s))) =
      [(5, ''ERR TOOLONG'' @ [LF]), (5, ''OK QUIT'' @ [LF])]"
proof -
  define s where "s = demo_market 1 (demo_trader [] []) 1 [] [] []"
  define junk :: string where "junk = replicate 511 CHR ''x''"
  have j: "length junk = MAX_LINE - 1" "LF \<notin> set junk" by (simp_all add: junk_def MAX_LINE_def)
  have s: "0 < length (clients s)" "line_buf (clients s ! 0) = []" by (simp_all add: s_def demo_market_def demo_trader_def)
  have q: "trade_line ''QUIT'' = ''QUIT''" by code_simp
  have "client_recv 0 (Some (''QUIT'' @ [LF])) (client_recv 0 None (client_recv 0 (Some junk) s)) =
    disconnect_client 0 ''QUIT'' (send_to 5 (''OK QUIT'' @ [LF]) (send_to 5 (''ERR TOOLONG'' @ [LF]) s))"
    by (subst long_line_smuggled [OF s j(2,1)])
      (simp_all add: q, simp_all add: process_line_def the_client_def s_def demo_market_def demo_trader_def MAX_LINE_def)
  then show ?thesis using j
    by (intro exI [of _ s] exI [of _ junk])
      (simp add: disconnect_client_def the_client_def server_log_def set_client_def send_to_def s_def demo_market_def demo_trader_def MAX_LINE_def)
qed

section \<open>Long reports\<close>

lemma join_with_chars: "c \<in> set (join_with d xs) \<Longrightarrow> c = d \<or> (\<exists>x \<in> set xs. c \<in> set x)"
  by (induction d xs rule: join_with.induct) auto

lemma digit_char_no_LF: "d < 10 \<Longrightarrow> LF \<noteq> char_of (d + 48 :: nat)"
proof
  assume d: "d < 10" and "LF = char_of (d + 48)"
  then have "code_of LF = d + 48" using code_of_digit_char by metis
  then show False by (simp add: code_of_def)
qed

lemma price_no_LF: "LF \<notin> set (show_price x)"
proof -
  let ?c = "nat (round_even (\<bar>x\<bar> * 100) mod 100)"
  have "LF \<notin> set (int_dec n)" for n using set_int_dec by (fastforce simp: char_class_defs)
  moreover have "LF \<noteq> char_of (?c div 10 + 48)" "LF \<noteq> char_of (?c mod 10 + 48)"
    by (rule digit_char_no_LF, simp add: less_mult_imp_div_less nat_less_iff)+
  ultimately show ?thesis unfolding show_price_def Let_def by simp
qed

definition valid_symbol :: "string \<Rightarrow> bool" where
  "valid_symbol sy \<longleftrightarrow> list_all (\<lambda>c. is_upper c \<or> is_digit c) sy"

definition report_line :: "stock_t list \<Rightarrow> string" where
  "report_line sts = ''OK REPORT '' @ join_with CHR '','' (map quote_text sts)"

lemma report_no_LF: "list_all (\<lambda>st. valid_symbol (symbol st)) sts \<Longrightarrow> LF \<notin> set (report_line sts)"
proof -
  assume v: "list_all (\<lambda>st. valid_symbol (symbol st)) sts"
  have "\<not> (is_upper LF \<or> is_digit LF)" by (simp add: char_class_defs is_upper_def)
  then have "LF \<notin> set (quote_text st)" if "st \<in> set sts" for st
    using v that price_no_LF by (auto simp: quote_text_def valid_symbol_def list_all_iff)
  then show ?thesis by (auto simp: report_line_def dest!: join_with_chars)
qed

lemma full_buffer_leaves:
  assumes "LF \<notin> set (take (MAX_LINE - 1) m)" "MAX_LINE - 1 \<le> length m" "srv_buf c = []"
  shows "trader_loop role name [In_Ready (Some (Some m)) None None, In_Ready (Some (Some next_bytes)) stdin answer] c =
    client_log role name ''DISCONNECTED reason=shutdown'' (c\<lparr>srv_buf := take (MAX_LINE - 1) m\<rparr>)"
proof -
  have "take (MAX_LINE - 1) m \<noteq> []" using assms(2) by (auto simp: MAX_LINE_def)
  then have "trader_pass role name (In_Ready (Some (Some m)) None None) c = (c\<lparr>srv_buf := take (MAX_LINE - 1) m\<rparr>, Going)"
    using assms by (simp add: trader_pass_def read_reply_def Let_def reply_lines.simps)
  moreover have "trader_pass role name (In_Ready (Some (Some next_bytes)) stdin answer) (c\<lparr>srv_buf := take (MAX_LINE - 1) m\<rparr>) =
      (client_log role name ''DISCONNECTED reason=shutdown'' (c\<lparr>srv_buf := take (MAX_LINE - 1) m\<rparr>), Gone)"
    using assms(2) by (simp add: trader_pass_def read_reply_def Let_def MAX_LINE_def)
  ultimately show ?thesis by simp
qed

text \<open>C20: When the prices of all stocks make a line of 511 bytes or more, the answer to \<open>REPORT\<close> throws the
  analyst out: the line does not fit its buffer, the \<open>recv\<close> into the full buffer returns 0, and the program
  ends with \<open>DISCONNECTED reason=shutdown\<close> and prints nothing of the report.\<close>

theorem long_report_drops_analyst:
  assumes "list_all (\<lambda>st. valid_symbol (symbol st)) (stocks s)"
    "MAX_LINE - 1 \<le> length (report_line (stocks s))" "length (report_line (stocks s)) \<le> 4094" "srv_buf c = []"
  shows "\<exists>m. sent (cmd_report i s) = sent s @ [(fd (the_client s i), m)] \<and>
    trader_loop ''ANALYST'' name [In_Ready (Some (Some m)) None None, In_Ready (Some (Some (drop (MAX_LINE - 1) m))) stdin answer] c =
      client_log ''ANALYST'' name ''DISCONNECTED reason=shutdown'' (c\<lparr>srv_buf := take (MAX_LINE - 1) m\<rparr>)"
proof (intro exI conjI)
  let ?m = "report_line (stocks s) @ [LF]"
  show "sent (cmd_report i s) = sent s @ [(fd (the_client s i), ?m)]"
    using assms(3) by (simp add: cmd_report_def fill_buffer_def report_line_def send_buffer_def send_to_def Let_def)
  have "LF \<notin> set (take (MAX_LINE - 1) ?m)" using report_no_LF [OF assms(1)] assms(2) in_set_takeD by fastforce
  then show "trader_loop ''ANALYST'' name [In_Ready (Some (Some ?m)) None None, In_Ready (Some (Some (drop (MAX_LINE - 1) ?m))) stdin answer] c =
      client_log ''ANALYST'' name ''DISCONNECTED reason=shutdown'' (c\<lparr>srv_buf := take (MAX_LINE - 1) ?m\<rparr>)"
    using assms(2,4) by (intro full_buffer_leaves) simp_all
qed

lemma join_with_replicate: "length (join_with c (replicate (Suc n) x)) = Suc n * length x + n"
  by (induction n) simp_all

theorem long_report_drops_analyst_witness:
  "\<exists>s c. length (stocks s) = 40 \<and> last (shown (trader_loop ''ANALYST'' ''bob''
     [In_Ready (Some (Some (snd (last (sent (cmd_report 0 s)))))) None None,
      In_Ready (Some (Some (drop 511 (snd (last (sent (cmd_report 0 s))))))) None None] c)) =
     ''[ANALYST bob] DISCONNECTED reason=shutdown''"
proof -
  define s where "s = (demo_market 1 demo_client 1 [] [] [])\<lparr>stocks := replicate (Suc 39) \<lparr>symbol = ''ABCDEFGH'', price = 100\<rparr>\<rparr>"
  define c where "c = \<lparr>srv_buf = [], shown = [], outbox = []\<rparr>"
  have "show_price 100 = ''100.00''" by code_simp
  then have "map quote_text (stocks s) = replicate (Suc 39) ''ABCDEFGH:100.00''" by (simp add: s_def quote_text_def del: replicate_Suc)
  then have len: "length (report_line (stocks s)) = 649" by (simp only: report_line_def length_append join_with_replicate) simp
  have "valid_symbol ''ABCDEFGH''" by code_simp
  then have v: "list_all (\<lambda>st. valid_symbol (symbol st)) (stocks s)" by (simp add: s_def list_all_iff del: replicate_Suc)
  obtain m where m: "sent (cmd_report 0 s) = sent s @ [(fd (the_client s 0), m)]"
    "trader_loop ''ANALYST'' ''bob'' [In_Ready (Some (Some m)) None None, In_Ready (Some (Some (drop (MAX_LINE - 1) m))) None None] c =
      client_log ''ANALYST'' ''bob'' ''DISCONNECTED reason=shutdown'' (c\<lparr>srv_buf := take (MAX_LINE - 1) m\<rparr>)"
    using long_report_drops_analyst [OF v, of c 0 "''bob''" None None] len by (auto simp: c_def MAX_LINE_def)
  show ?thesis
  proof (intro exI conjI)
    show "length (stocks s) = 40" by (simp add: s_def)
    show "last (shown (trader_loop ''ANALYST'' ''bob''
     [In_Ready (Some (Some (snd (last (sent (cmd_report 0 s)))))) None None,
      In_Ready (Some (Some (drop 511 (snd (last (sent (cmd_report 0 s))))))) None None] c)) =
     ''[ANALYST bob] DISCONNECTED reason=shutdown''"
      using m(2) by (simp add: m(1) MAX_LINE_def client_log_def c_def)
  qed
qed

end
