(* ===== verification/Sort_Memory.thy ===== *)
theory Sort_Memory
  imports Sort_Input
begin

text \<open>
  What surrounds the processes of the sorting building: the layout of the shared memory and the life of its
  semaphores (\<open>HW3/src/shared_memory/shm.c\<close>, \<open>shm_init_utils.c\<close>), the end of the monitor and the handler
  of \<open>SIGINT\<close> (\<open>processes/process_spawn.c\<close>, \<open>check/output.c\<close>), the log (\<open>check/log.c\<close>) and the strings of
  \<open>get_next_line\<close> (\<open>get_next_line_utils.c\<close>).
\<close>

section \<open>The layout of the shared memory\<close>

text \<open>The sizes of the structures are the compiler's.\<close>

record sizes =
  sz_header :: nat
  sz_word :: nat
  sz_floor :: nat
  sz_elevator :: nat
  sz_int :: nat
  sz_lc :: nat

definition shm_calc_size :: "sizes \<Rightarrow> nat \<Rightarrow> nat \<Rightarrow> nat \<Rightarrow> nat" where
  "shm_calc_size z word_count floor_count lc_count =
     sz_header z + sz_word z * word_count + sz_floor z * floor_count + sz_elevator z * 2 +
     sz_int z * floor_count * 2 + sz_lc z * lc_count"

text \<open>A pointer is its distance from \<open>base\<close>.\<close>

definition bump :: "nat \<Rightarrow> nat \<Rightarrow> nat \<times> nat" where
  "bump offset bytes = (offset, offset + bytes)"

record pointers =
  at_header :: nat
  at_words :: nat
  at_floors :: nat
  at_delivery :: nat
  at_reposition :: nat
  at_delivery_requests :: nat
  at_reposition_requests :: nat
  at_lc_states :: nat

definition shm_assign_pointers :: "sizes \<Rightarrow> nat \<Rightarrow> nat \<Rightarrow> nat \<Rightarrow> pointers" where
  "shm_assign_pointers z word_count floor_count lc_count =
     (let (header, o1) = bump 0 (sz_header z);
          (ws, o2) = bump o1 (sz_word z * word_count);
          (fls, o3) = bump o2 (sz_floor z * floor_count);
          (deliv, o4) = bump o3 (sz_elevator z);
          (repos, o5) = bump o4 (sz_elevator z);
          (dreq, o6) = bump o5 (sz_int z * floor_count);
          (rreq, o7) = bump o6 (sz_int z * floor_count);
          (lcs, o8) = bump o7 (sz_lc z * lc_count)
      in \<lparr>at_header = header, at_words = ws, at_floors = fls, at_delivery = deliv, at_reposition = repos,
          at_delivery_requests = dreq, at_reposition_requests = rreq, at_lc_states = lcs\<rparr>)"

text \<open>The elements of an array: where each begins and how long it is.\<close>

definition elements :: "nat \<Rightarrow> nat \<Rightarrow> nat \<Rightarrow> (nat \<times> nat) list" where
  "elements start sz n = map (\<lambda>i. (start + sz * i, sz)) [0..<n]"

definition shm_objects :: "sizes \<Rightarrow> nat \<Rightarrow> nat \<Rightarrow> nat \<Rightarrow> (nat \<times> nat) list" where
  "shm_objects z word_count floor_count lc_count =
     (let p = shm_assign_pointers z word_count floor_count lc_count in
      [(at_header p, sz_header z)] @ elements (at_words p) (sz_word z) word_count @
      elements (at_floors p) (sz_floor z) floor_count @ [(at_delivery p, sz_elevator z), (at_reposition p, sz_elevator z)] @
      elements (at_delivery_requests p) (sz_int z) floor_count @ elements (at_reposition_requests p) (sz_int z) floor_count @
      elements (at_lc_states p) (sz_lc z) lc_count)"

text \<open>Objects one after the other, from one address to another.\<close>

inductive chain :: "nat \<Rightarrow> (nat \<times> nat) list \<Rightarrow> nat \<Rightarrow> bool" where
  chain_Nil: "chain a [] a"
| chain_Cons: "chain (a + n) os b \<Longrightarrow> chain a ((a, n) # os) b"

lemma chain_append: "chain a xs b \<Longrightarrow> chain b ys c \<Longrightarrow> chain a (xs @ ys) c"
  by (induction rule: chain.induct) (auto intro: chain.intros)

lemma chain_elements: "chain a (elements a sz n) (a + sz * n)"
proof (induction n)
  case 0
  then show ?case by (simp add: elements_def chain_Nil)
next
  case (Suc n)
  have "chain (a + sz * n) [(a + sz * n, sz)] (a + sz * Suc n)"
    using chain_Cons [OF chain_Nil, of "a + sz * n" sz] by (simp add: ac_simps)
  then show ?case using chain_append [OF Suc] by (simp add: elements_def)
qed

lemma chain_one: "chain a [(a, n)] (a + n)"
  by (rule chain_Cons [OF chain_Nil])

lemma chain_bounds:
  "chain a os b \<Longrightarrow> a \<le> b \<and> (\<forall>(x, n) \<in> set os. a \<le> x \<and> x + n \<le> b) \<and> sorted_wrt (\<lambda>(x, n) (y, m). x + n \<le> y) os"
  by (induction rule: chain.induct) fastforce+

lemma shm_objects_chain:
  "chain 0 (shm_objects z wc nf lc) (shm_calc_size z wc nf lc)"
proof -
  define o1 where "o1 = sz_header z"
  define o2 where "o2 = o1 + sz_word z * wc"
  define o3 where "o3 = o2 + sz_floor z * nf"
  define o5 where "o5 = o3 + sz_elevator z + sz_elevator z"
  define o6 where "o6 = o5 + sz_int z * nf"
  define o7 where "o7 = o6 + sz_int z * nf"
  have size: "shm_calc_size z wc nf lc = o7 + sz_lc z * lc"
    by (simp add: shm_calc_size_def o7_def o6_def o5_def o3_def o2_def o1_def)
  have objs: "shm_objects z wc nf lc = [(0, o1)] @ elements o1 (sz_word z) wc @ elements o2 (sz_floor z) nf @
      ([(o3, sz_elevator z)] @ [(o3 + sz_elevator z, sz_elevator z)]) @ elements o5 (sz_int z) nf @ elements o6 (sz_int z) nf @
      elements o7 (sz_lc z) lc"
    by (simp add: shm_objects_def shm_assign_pointers_def bump_def Let_def o7_def o6_def o5_def o3_def o2_def o1_def)
  have c5: "chain o3 ([(o3, sz_elevator z)] @ [(o3 + sz_elevator z, sz_elevator z)]) o5"
    unfolding o5_def by (intro chain_append [OF chain_one chain_one])
  have c1: "chain 0 [(0, o1)] o1" using chain_one [of 0 o1] by simp
  have c2: "chain o1 (elements o1 (sz_word z) wc) o2" and c3: "chain o2 (elements o2 (sz_floor z) nf) o3"
    and c6: "chain o5 (elements o5 (sz_int z) nf) o6" and c7: "chain o6 (elements o6 (sz_int z) nf) o7"
    and c8: "chain o7 (elements o7 (sz_lc z) lc) (o7 + sz_lc z * lc)"
    by (simp_all add: o2_def o3_def o6_def o7_def chain_elements)
  show ?thesis
    unfolding objs size
    by (rule chain_append [OF c1 chain_append [OF c2 chain_append [OF c3 chain_append [OF c5 chain_append [OF c6 chain_append [OF c7 c8]]]]]])
qed

lemma pointers_aligned:
  assumes "8 dvd sz_header z" "8 dvd sz_word z" "8 dvd sz_floor z" "8 dvd sz_elevator z" "sz_int z = 4" "4 dvd sz_lc z"
  shows "8 dvd at_words (shm_assign_pointers z wc nf lc) \<and> 8 dvd at_floors (shm_assign_pointers z wc nf lc) \<and>
    8 dvd at_delivery (shm_assign_pointers z wc nf lc) \<and> 8 dvd at_reposition (shm_assign_pointers z wc nf lc) \<and>
    4 dvd at_delivery_requests (shm_assign_pointers z wc nf lc) \<and> 4 dvd at_reposition_requests (shm_assign_pointers z wc nf lc) \<and>
    8 dvd at_lc_states (shm_assign_pointers z wc nf lc)"
proof -
  define o5 where "o5 = sz_header z + sz_word z * wc + sz_floor z * nf + sz_elevator z + sz_elevator z"
  have "8 dvd o5" using assms unfolding o5_def by (intro dvd_add dvd_mult2)
  then have "4 dvd o5 \<and> 4 dvd (o5 + 4 * nf) \<and> 8 dvd (o5 + 4 * nf + 4 * nf)" by presburger
  then show ?thesis
    using assms unfolding o5_def by (simp add: shm_assign_pointers_def bump_def Let_def dvd_add dvd_mult2 ac_simps)
qed

section \<open>Semaphores\<close>

datatype shm_sem = Rr_Mutex | Done_Mutex | Stats_Mutex | Word_Mutex nat | Floor_Mutex nat
  | Deliv_Mutex | Deliv_Request | Repos_Mutex | Repos_Request

text \<open>The calls of \<open>sem_init\<close> in \<open>shm_init\<close> with the value each semaphore gets, and those of \<open>sem_destroy\<close>.\<close>

definition sem_inits :: "nat \<Rightarrow> nat \<Rightarrow> (shm_sem \<times> nat) list" where
  "sem_inits word_count floor_count =
     [(Rr_Mutex, 1), (Done_Mutex, 1), (Stats_Mutex, 1)] @ map (\<lambda>i. (Word_Mutex i, 1)) [0..<word_count] @
     map (\<lambda>i. (Floor_Mutex i, 1)) [0..<floor_count] @
     [(Deliv_Mutex, 1), (Deliv_Request, 0), (Repos_Mutex, 1), (Repos_Request, 0)]"

definition shm_destroy :: "nat \<Rightarrow> nat \<Rightarrow> shm_sem list" where
  "shm_destroy word_count floor_count =
     [Rr_Mutex, Done_Mutex, Stats_Mutex] @ map Word_Mutex [0..<word_count] @ map Floor_Mutex [0..<floor_count] @
     [Deliv_Mutex, Deliv_Request, Repos_Mutex, Repos_Request]"

text \<open>A call that fails ends the program; what is left is the semaphores made before.\<close>

fun init_sems :: "(shm_sem \<Rightarrow> bool) \<Rightarrow> (shm_sem \<times> nat) list \<Rightarrow> (shm_sem \<times> nat) list \<times> bool" where
  "init_sems ok [] = ([], True)"
| "init_sems ok ((m, v) # ms) =
     (if ok m then (case init_sems ok ms of (done_sems, r) \<Rightarrow> ((m, v) # done_sems, r)) else ([], False))"

lemma init_sems_all: "(\<forall>m. ok m) \<Longrightarrow> init_sems ok ms = (ms, True)"
  by (induction ok ms rule: init_sems.induct) auto

lemma init_sems_prefix: "init_sems ok ms = (ms', r) \<Longrightarrow> (\<exists>rest. ms = ms' @ rest) \<and> (r \<longrightarrow> ms' = ms)"
proof (induction ok ms arbitrary: ms' rule: init_sems.induct)
  case (2 ok m v ms)
  then show ?case by (cases "init_sems ok ms") (auto split: if_splits)
qed simp

lemma sems_destroyed: "map fst (sem_inits wc nf) = shm_destroy wc nf" "distinct (shm_destroy wc nf)"
  by (auto simp: sem_inits_def shm_destroy_def o_def distinct_map inj_on_def)

section \<open>The end of the monitor\<close>

text \<open>The processes the parent knows of: those of \<open>spawn_all\<close>, and the replacements in a list that grows.\<close>

record pid_dyn =
  d_list :: "int list"
  d_cap :: nat

definition dyn_push :: "bool \<Rightarrow> int \<Rightarrow> pid_dyn \<Rightarrow> pid_dyn" where
  "dyn_push realloc_ok pid d =
     (if length (d_list d) \<ge> d_cap d then
        (if \<not> realloc_ok then d
         else d\<lparr>d_list := d_list d @ [pid], d_cap := (if d_cap d \<noteq> 0 then d_cap d * 2 else 8)\<rparr>)
      else d\<lparr>d_list := d_list d @ [pid]\<rparr>)"

text \<open>The calls that end the processes, in their order.\<close>

datatype parent_call = Shutdown_Set | Kill_Term int | Wait_Pid int | Destroy_Sem shm_sem | Unmap | Exit_Failure

definition monitor_end :: "int list \<Rightarrow> pid_dyn \<Rightarrow> parent_call list" where
  "monitor_end pid_list extra =
     [Shutdown_Set] @ map Kill_Term pid_list @ map Kill_Term (d_list extra) @ map Wait_Pid pid_list @
     map Wait_Pid (d_list extra)"

text \<open>The handler, once \<open>setup_signal_handler\<close> has filled the four variables it uses; before, \<open>None\<close>.\<close>

definition sort_sigint_handler :: "(int list \<times> nat \<times> nat) option \<Rightarrow> parent_call list" where
  "sort_sigint_handler g =
     (case g of
        None \<Rightarrow> [Exit_Failure]
      | Some (pid_list, word_count, floor_count) \<Rightarrow>
          [Shutdown_Set] @ map Kill_Term pid_list @ map Wait_Pid pid_list @
          map Destroy_Sem (shm_destroy word_count floor_count) @ [Unmap, Exit_Failure])"

definition setup_signal_handler :: "int list \<Rightarrow> nat \<Rightarrow> nat \<Rightarrow> (int list \<times> nat \<times> nat) option" where
  "setup_signal_handler pid_list word_count floor_count = Some (pid_list, word_count, floor_count)"

text \<open>The end of \<open>main\<close>.\<close>

definition sort_main_end :: "int list \<Rightarrow> pid_dyn \<Rightarrow> nat \<Rightarrow> nat \<Rightarrow> parent_call list" where
  "sort_main_end pid_list extra word_count floor_count =
     monitor_end pid_list extra @ map Destroy_Sem (shm_destroy word_count floor_count) @ [Unmap]"

lemma dyn_push_list: "realloc_ok \<Longrightarrow> d_list (dyn_push realloc_ok pid d) = d_list d @ [pid]"
  by (simp add: dyn_push_def)

text \<open>\<open>d_cap\<close> is the number of cells there are: a process id is never written behind them.\<close>

lemma dyn_push_fits:
  "length (d_list d) \<le> d_cap d \<Longrightarrow> length (d_list (dyn_push ok pid d)) \<le> d_cap (dyn_push ok pid d)"
  by (cases "d_list d") (auto simp: dyn_push_def)

section \<open>The log\<close>

definition LOG_BUF :: nat where "LOG_BUF = 512"

definition log_msg :: "string \<Rightarrow> string" where
  "log_msg msg = cstr msg"

text \<open>\<open>vsnprintf\<close> returns the length the text would have; that many bytes are written, from the buffer and from
  what lies behind it, \<open>mem\<close>.\<close>

definition log_fmt :: "string \<Rightarrow> string \<Rightarrow> string" where
  "log_fmt mem txt = take (length txt) (snprintf LOG_BUF txt @ [NUL] @ mem)"

lemma log_fmt_short: "length txt < LOG_BUF \<Longrightarrow> log_fmt mem txt = txt"
  by (simp add: log_fmt_def snprintf_def LOG_BUF_def)

lemma log_fmt_long:
  "LOG_BUF < length txt \<Longrightarrow> log_fmt mem txt = take 511 txt @ [NUL] @ take (length txt - 512) mem"
  by (simp add: log_fmt_def snprintf_def LOG_BUF_def min_def take_Cons')

section \<open>The strings of the line reader\<close>

text \<open>A string is its cells up to and including its NUL.\<close>

fun ft_strchr :: "string \<Rightarrow> char \<Rightarrow> nat option" where
  "ft_strchr [] c = None"
| "ft_strchr (x # xs) c =
     (if x = NUL then (if x = c then Some 0 else None)
      else if x = c then Some 0 else map_option Suc (ft_strchr xs c))"

definition ft_join :: "string option \<Rightarrow> string \<Rightarrow> string option" where
  "ft_join data buffer =
     (let data_len = (case data of None \<Rightarrow> Some 0 | Some d \<Rightarrow> ft_strchr d NUL); buf_len = ft_strchr buffer NUL in
      case (data_len, buf_len) of
        (Some n, Some k) \<Rightarrow> Some (take n (case data of None \<Rightarrow> [] | Some d \<Rightarrow> d) @ take k buffer @ [NUL])
      | _ \<Rightarrow> None)"

lemma ft_strchr_NUL: "NUL \<notin> set s \<Longrightarrow> ft_strchr (s @ NUL # r) NUL = Some (length s)"
  by (induction s) auto

lemma ft_strchr_char: "c \<noteq> NUL \<Longrightarrow> NUL \<notin> set s \<Longrightarrow> (ft_strchr (s @ NUL # r) c \<noteq> None) = (c \<in> set s)"
  by (induction s) auto

text \<open>What \<open>read_file\<close> does with a piece of the file: the model there joins \<open>cstr\<close> of it.\<close>

lemma split_cstr: "\<exists>r. s @ [NUL] = cstr s @ NUL # r"
  by (induction s) (auto simp: cstr_def)

lemma ft_join_cstr:
  assumes "NUL \<notin> set d"
  shows "ft_join (Some (d @ [NUL])) (chunk @ [NUL]) = Some (d @ cstr chunk @ [NUL])"
    "ft_join None (chunk @ [NUL]) = Some (cstr chunk @ [NUL])"
proof -
  obtain r where r: "chunk @ [NUL] = cstr chunk @ NUL # r" using split_cstr by blast
  then have "ft_strchr (chunk @ [NUL]) NUL = Some (length (cstr chunk))" by (simp add: ft_strchr_NUL)
  moreover have "take (length (cstr chunk)) (chunk @ [NUL]) = cstr chunk" by (simp add: r)
  ultimately show "ft_join (Some (d @ [NUL])) (chunk @ [NUL]) = Some (d @ cstr chunk @ [NUL])"
    "ft_join None (chunk @ [NUL]) = Some (cstr chunk @ [NUL])"
    using ft_strchr_NUL [OF assms, of "[]"] by (simp_all add: ft_join_def)
qed

section \<open>Properties\<close>

text \<open>C30: The arrays in the shared memory lie one behind the other: every object is inside the block that is mapped,
  no two overlap, and when the compiler's sizes are multiples of 8 (4 for \<open>int\<close>) each is aligned; every
  semaphore that was made is destroyed once at the end, and when one of the calls fails before, a beginning of the
  list has been made and no process exists.\<close>

theorem memory_laid_out:
  assumes "8 dvd sz_header z" "8 dvd sz_word z" "8 dvd sz_floor z" "8 dvd sz_elevator z" "sz_int z = 4" "4 dvd sz_lc z"
  shows "sorted_wrt (\<lambda>(x, n) (y, m). x + n \<le> y) (shm_objects z wc nf lc) \<and>
    list_all (\<lambda>(x, n). x + n \<le> shm_calc_size z wc nf lc) (shm_objects z wc nf lc) \<and>
    8 dvd at_words (shm_assign_pointers z wc nf lc) \<and> 8 dvd at_floors (shm_assign_pointers z wc nf lc) \<and>
    8 dvd at_delivery (shm_assign_pointers z wc nf lc) \<and> 8 dvd at_reposition (shm_assign_pointers z wc nf lc) \<and>
    4 dvd at_delivery_requests (shm_assign_pointers z wc nf lc) \<and> 4 dvd at_reposition_requests (shm_assign_pointers z wc nf lc) \<and>
    8 dvd at_lc_states (shm_assign_pointers z wc nf lc) \<and>
    distinct (shm_destroy wc nf) \<and>
    (\<forall>ok made all_made. init_sems ok (sem_inits wc nf) = (made, all_made) \<longrightarrow>
       take (length made) (sem_inits wc nf) = made \<and> (all_made \<longrightarrow> map fst made = shm_destroy wc nf))"
proof -
  have "sorted_wrt (\<lambda>(x, n) (y, m). x + n \<le> y) (shm_objects z wc nf lc)"
    "list_all (\<lambda>(x, n). x + n \<le> shm_calc_size z wc nf lc) (shm_objects z wc nf lc)"
    using chain_bounds [OF shm_objects_chain [of z wc nf lc]] by (auto simp: list_all_iff)
  moreover have "8 dvd at_words (shm_assign_pointers z wc nf lc) \<and> 8 dvd at_floors (shm_assign_pointers z wc nf lc) \<and>
    8 dvd at_delivery (shm_assign_pointers z wc nf lc) \<and> 8 dvd at_reposition (shm_assign_pointers z wc nf lc) \<and>
    4 dvd at_delivery_requests (shm_assign_pointers z wc nf lc) \<and> 4 dvd at_reposition_requests (shm_assign_pointers z wc nf lc) \<and>
    8 dvd at_lc_states (shm_assign_pointers z wc nf lc)"
    using assms by (rule pointers_aligned)
  moreover have "take (length made) (sem_inits wc nf) = made \<and> (all_made \<longrightarrow> map fst made = shm_destroy wc nf)"
    if "init_sems ok (sem_inits wc nf) = (made, all_made)" for ok made all_made
    using init_sems_prefix [OF that] sems_destroyed(1) [of wc nf] by auto
  ultimately show ?thesis using sems_destroyed(2) [of wc nf] by blast
qed

lemma memory_laid_out_witness:
  "shm_objects \<lparr>sz_header = 128, sz_word = 2400, sz_floor = 40, sz_elevator = 80, sz_int = 4, sz_lc = 12\<rparr> 1 1 1 =
     [(0, 128), (128, 2400), (2528, 40), (2568, 80), (2648, 80), (2728, 4), (2732, 4), (2736, 12)] \<and>
   8 dvd at_lc_states (shm_assign_pointers \<lparr>sz_header = 128, sz_word = 2400, sz_floor = 40, sz_elevator = 80, sz_int = 4, sz_lc = 12\<rparr> 1 1 1)"
  using memory_laid_out [of "\<lparr>sz_header = 128, sz_word = 2400, sz_floor = 40, sz_elevator = 80, sz_int = 4, sz_lc = 12\<rparr>" 1 1 1]
  by (simp add: shm_objects_def shm_assign_pointers_def bump_def elements_def)

text \<open>A regular end sends \<open>SIGTERM\<close> to every process that was ever started, waits for each, and only then
  destroys each semaphore, once; a \<open>SIGINT\<close> does the same for the processes of the start, but sends nothing
  to the replacements the monitor has made.\<close>

theorem processes_ended:
  assumes "extra = fold (dyn_push True) new_pids \<lparr>d_list = [], d_cap = 0\<rparr>" and "set new_pids \<inter> set pid_list = {}"
  shows "filter (\<lambda>c. case c of Kill_Term p \<Rightarrow> True | _ \<Rightarrow> False) (sort_main_end pid_list extra wc nf) = map Kill_Term (pid_list @ new_pids) \<and>
    sort_main_end pid_list extra wc nf =
      [Shutdown_Set] @ map Kill_Term (pid_list @ new_pids) @ map Wait_Pid (pid_list @ new_pids) @
      map Destroy_Sem (shm_destroy wc nf) @ [Unmap] \<and>
    (\<forall>p \<in> set new_pids. Kill_Term p \<notin> set (sort_sigint_handler (setup_signal_handler pid_list wc nf))) \<and>
    (\<forall>p \<in> set pid_list. Kill_Term p \<in> set (sort_sigint_handler (setup_signal_handler pid_list wc nf)))"
proof -
  have "d_list (fold (dyn_push True) ps d) = d_list d @ ps" for ps d
    by (induction ps arbitrary: d) (auto simp: dyn_push_list)
  then have e: "d_list extra = new_pids" using assms(1) by simp
  have none: "filter (\<lambda>c. case c of Kill_Term p \<Rightarrow> True | _ \<Rightarrow> False) (map Wait_Pid ps) = []"
    "filter (\<lambda>c. case c of Kill_Term p \<Rightarrow> True | _ \<Rightarrow> False) (map Destroy_Sem ms) = []"
    "filter (\<lambda>c. case c of Kill_Term p \<Rightarrow> True | _ \<Rightarrow> False) (map Kill_Term ps) = map Kill_Term ps" for ps ms
    by (simp_all add: filter_empty_conv filter_id_conv)
  show ?thesis
    using assms(2)
    by (auto simp: sort_main_end_def monitor_end_def sort_sigint_handler_def setup_signal_handler_def e none)
qed

lemma processes_ended_witness:
  "\<exists>extra. d_list extra = [13, 14] \<and>
     sort_main_end [11, 12] extra 0 0 =
       [Shutdown_Set, Kill_Term 11, Kill_Term 12, Kill_Term 13, Kill_Term 14, Wait_Pid 11, Wait_Pid 12, Wait_Pid 13, Wait_Pid 14] @
       map Destroy_Sem (shm_destroy 0 0) @ [Unmap] \<and>
     Kill_Term 13 \<notin> set (sort_sigint_handler (setup_signal_handler [11, 12] 0 0))"
proof -
  define extra where "extra = fold (dyn_push True) [13, 14] \<lparr>d_list = [], d_cap = 0\<rparr>"
  have "d_list extra = [13, 14]" by (simp add: extra_def dyn_push_def)
  then show ?thesis using processes_ended [OF extra_def, of "[11, 12]" 0 0] by (intro exI [of _ extra]) simp
qed

end
