(* ===== verification/Cargo_Log.thy ===== *)
theory Cargo_Log
  imports C_Library Runs
begin

text \<open>
  The log of CargoGTU (\<open>HW5/src/log.c\<close>): \<open>log_printf\<close> puts out the line and its end in two calls, under one
  mutex once \<open>log_init\<close> has been called.  Any number of threads may be in it; a step is one call of the library.
  \<open>logged\<close> notes the lines in the order in which they are ended.
\<close>

section \<open>The log\<close>

datatype log_pc = L_Call string | L_Text string | L_Newline string | L_Unlock | L_Back

record cargo_log =
  log_initialized :: bool
  log_mutex :: "nat option"
  log_out :: string
  log_at :: "log_pc list"
  logged :: "string list"

definition log_init :: "cargo_log \<Rightarrow> cargo_log" where
  "log_init l = (if log_initialized l then l else l\<lparr>log_mutex := None, log_initialized := True\<rparr>)"

definition log_destroy :: "cargo_log \<Rightarrow> cargo_log" where
  "log_destroy l = (if \<not> log_initialized l then l else l\<lparr>log_mutex := None, log_initialized := False\<rparr>)"

text \<open>The next step of thread \<open>t\<close>; \<open>None\<close> while it waits for the mutex or has returned.\<close>

definition log_printf_step :: "nat \<Rightarrow> cargo_log \<Rightarrow> cargo_log option" where
  "log_printf_step t l =
     (case log_at l ! t of
        L_Call s \<Rightarrow>
          (if \<not> log_initialized l then Some (l\<lparr>log_at := (log_at l)[t := L_Text s]\<rparr>)
           else if log_mutex l = None then Some (l\<lparr>log_mutex := Some t, log_at := (log_at l)[t := L_Text s]\<rparr>)
           else None)
      | L_Text s \<Rightarrow> Some (l\<lparr>log_out := log_out l @ s, log_at := (log_at l)[t := L_Newline s]\<rparr>)
      | L_Newline s \<Rightarrow> Some (l\<lparr>log_out := log_out l @ [LF], log_at := (log_at l)[t := L_Unlock], logged := logged l @ [s]\<rparr>)
      | L_Unlock \<Rightarrow>
          Some (l\<lparr>log_mutex := (if log_initialized l then None else log_mutex l), log_at := (log_at l)[t := L_Back]\<rparr>)
      | L_Back \<Rightarrow> None)"

definition log_step :: "cargo_log \<Rightarrow> cargo_log \<Rightarrow> bool" where
  "log_step l l' \<longleftrightarrow> (\<exists>t < length (log_at l). log_printf_step t l = Some l')"

text \<open>Threads about to print the lines \<open>ss\<close>.\<close>

definition log_callers :: "string list \<Rightarrow> cargo_log" where
  "log_callers ss = log_init \<lparr>log_initialized = False, log_mutex = None, log_out = [], log_at = map L_Call ss, logged = []\<rparr>"

section \<open>Lines stay whole\<close>

definition inside :: "log_pc \<Rightarrow> bool" where
  "inside pc \<longleftrightarrow> (case pc of L_Call _ \<Rightarrow> False | L_Back \<Rightarrow> False | _ \<Rightarrow> True)"

text \<open>What a thread has put out of its line, and whether its line is ended.\<close>

definition begun :: "log_pc \<Rightarrow> string" where
  "begun pc = (case pc of L_Newline s \<Rightarrow> s | _ \<Rightarrow> [])"

definition line_done :: "log_pc \<Rightarrow> bool" where
  "line_done pc \<longleftrightarrow> pc = L_Unlock \<or> pc = L_Back"

definition prints :: "string \<Rightarrow> log_pc \<Rightarrow> bool" where
  "prints s pc \<longleftrightarrow> (case pc of L_Call s' \<Rightarrow> s' = s | L_Text s' \<Rightarrow> s' = s | L_Newline s' \<Rightarrow> s' = s | _ \<Rightarrow> True)"

lemmas log_pc_defs = inside_def begun_def line_done_def prints_def

definition ended_lines :: "string list \<Rightarrow> log_pc list \<Rightarrow> string multiset" where
  "ended_lines ss pcs = mset (map ((!) ss) (filter (\<lambda>t. line_done (pcs ! t)) [0..<length ss]))"

definition log_inv :: "string list \<Rightarrow> cargo_log \<Rightarrow> bool" where
  "log_inv ss l \<longleftrightarrow> log_initialized l \<and> length (log_at l) = length ss \<and>
     (\<forall>t < length ss. inside (log_at l ! t) \<longleftrightarrow> log_mutex l = Some t) \<and>
     (\<forall>t < length ss. prints (ss ! t) (log_at l ! t)) \<and>
     mset (logged l) = ended_lines ss (log_at l) \<and>
     log_out l = concat (map (\<lambda>s. s @ [LF]) (logged l)) @ (case log_mutex l of None \<Rightarrow> [] | Some t \<Rightarrow> begun (log_at l ! t)) \<and>
     (\<forall>t. log_mutex l = Some t \<longrightarrow> t < length ss)"

lemma log_start: "log_inv ss (log_callers ss)"
  by (auto simp: log_inv_def log_callers_def log_init_def log_pc_defs ended_lines_def filter_empty_conv)

lemma ended_again:
  assumes "t < length ss" "line_done pc = line_done (pcs ! t)" "length pcs = length ss"
  shows "ended_lines ss (pcs[t := pc]) = ended_lines ss pcs"
proof -
  have "filter (\<lambda>j. line_done (pcs[t := pc] ! j)) [0..<length ss] = filter (\<lambda>j. line_done (pcs ! j)) [0..<length ss]"
    using assms by (intro filter_cong) (auto simp: nth_list_update)
  then show ?thesis unfolding ended_lines_def by (rule arg_cong)
qed

lemma ended_more:
  assumes "t < length ss" "line_done pc" "\<not> line_done (pcs ! t)" "length pcs = length ss"
  shows "ended_lines ss (pcs[t := pc]) = add_mset (ss ! t) (ended_lines ss pcs)"
proof -
  have u: "[0..<length ss] = [0..<t] @ t # [Suc t..<length ss]"
    using assms(1) upt_add_eq_append [of 0 t "length ss - t"] by (simp add: upt_conv_Cons)
  have f: "filter (\<lambda>j. line_done (pcs[t := pc] ! j)) [0..<t] = filter (\<lambda>j. line_done (pcs ! j)) [0..<t]"
    "filter (\<lambda>j. line_done (pcs[t := pc] ! j)) [Suc t..<length ss] = filter (\<lambda>j. line_done (pcs ! j)) [Suc t..<length ss]"
    by (auto intro: filter_cong)
  show ?thesis unfolding ended_lines_def u filter_append map_append mset_append using assms by (simp add: f del: mset_filter mset_map)
qed

text \<open>One thread moves on and the mutex changes hands with it.\<close>

lemma log_inv_move:
  assumes "log_inv ss l" "t < length ss" "prints (ss ! t) pc" "line_done pc = line_done (log_at l ! t)"
    "log_mutex l = None \<or> log_mutex l = Some t" "m = (if inside pc then Some t else None)" "begun (log_at l ! t) @ new = begun pc"
  shows "log_inv ss (l\<lparr>log_out := log_out l @ new, log_mutex := m, log_at := (log_at l)[t := pc]\<rparr>)"
proof -
  have l: "length (log_at l) = length ss" and i: "\<And>j. j < length ss \<Longrightarrow> inside (log_at l ! j) \<longleftrightarrow> log_mutex l = Some j"
    using assms(1) by (auto simp: log_inv_def)
  have "log_mutex l = None \<Longrightarrow> begun (log_at l ! t) = []" using i [OF assms(2)] by (auto simp: inside_def begun_def split: log_pc.splits)
  moreover have "\<not> inside pc \<Longrightarrow> begun pc = []" by (auto simp: inside_def begun_def split: log_pc.splits)
  moreover have "inside ((log_at l)[t := pc] ! j) \<longleftrightarrow> m = Some j" if "j < length ss" for j
    using i [OF that] assms(2,5,6) l by (cases "j = t") auto
  ultimately show ?thesis using assms l ended_again [OF assms(2,4) l]
    by (auto simp: log_inv_def nth_list_update split: if_splits)
qed

lemma log_step_inv: "log_inv ss l \<Longrightarrow> log_step l l' \<Longrightarrow> log_inv ss l'"
proof -
  assume inv: "log_inv ss l" and "log_step l l'"
  then obtain t where t: "t < length ss" "log_printf_step t l = Some l'" by (auto simp: log_step_def log_inv_def)
  have i: "log_initialized l" "length (log_at l) = length ss" "inside (log_at l ! t) \<longleftrightarrow> log_mutex l = Some t" "prints (ss ! t) (log_at l ! t)"
    using inv t(1) by (auto simp: log_inv_def)
  show ?thesis
  proof (cases "log_at l ! t")
    case (L_Call s)
    then show ?thesis using log_inv_move [OF inv t(1), of "L_Text s" "Some t" "[]"] i t
      by (auto simp: log_printf_step_def log_pc_defs split: if_splits)
  next
    case (L_Text s)
    then have m: "log_mutex l = Some t" using i by (simp add: inside_def)
    have e: "l' = l\<lparr>log_out := log_out l @ s, log_mutex := Some t, log_at := (log_at l)[t := L_Newline s]\<rparr>"
      using t(2) L_Text m by (cases l) (simp add: log_printf_step_def)
    show ?thesis unfolding e by (rule log_inv_move [OF inv t(1)]) (use i L_Text m in \<open>simp_all add: log_pc_defs\<close>)
  next
    case (L_Newline s)
    then have "log_mutex l = Some t" "s = ss ! t" using i by (simp_all add: inside_def prints_def)
    moreover have "ended_lines ss ((log_at l)[t := L_Unlock]) = add_mset (ss ! t) (ended_lines ss (log_at l))"
      using ended_more [of t ss L_Unlock "log_at l"] t(1) i L_Newline by (simp add: line_done_def)
    ultimately show ?thesis using inv t L_Newline i
      by (auto simp: log_inv_def log_printf_step_def nth_list_update log_pc_defs)
  next
    case L_Unlock
    then have "log_mutex l = Some t" using i by (simp add: inside_def)
    then show ?thesis using log_inv_move [OF inv t(1), of L_Back None "[]"] i t L_Unlock
      by (auto simp: log_printf_step_def log_pc_defs)
  qed (use t in \<open>simp add: log_printf_step_def\<close>)
qed

interpretation logging: invariant_system "log_step\<^sup>*\<^sup>*" log_step "log_inv ss" for ss
  by unfold_locales (auto intro: log_step_inv)

text \<open>When all have returned, the output is the lines, each whole, in some order.\<close>

theorem log_lines_whole:
  assumes "log_step\<^sup>*\<^sup>* (log_callers ss) l" "\<forall>t < length ss. log_at l ! t = L_Back"
  shows "\<exists>lines. mset lines = mset ss \<and> log_out l = concat (map (\<lambda>s. s @ [LF]) lines)"
proof -
  have inv: "log_inv ss l" by (rule logging.steps_keep [OF assms(1) log_start])
  have "filter (\<lambda>t. line_done (log_at l ! t)) [0..<length ss] = [0..<length ss]" using assms(2) by (auto simp: line_done_def)
  then have "ended_lines ss (log_at l) = mset ss" by (simp only: ended_lines_def map_nth)
  then have "mset (logged l) = mset ss" using inv by (simp add: log_inv_def)
  moreover have "log_out l = concat (map (\<lambda>s. s @ [LF]) (logged l))"
    using inv assms(2) by (auto simp: log_inv_def begun_def split: option.splits)
  ultimately show ?thesis by blast
qed

end
