(* ===== verification/Pipe_Ends.thy ===== *)
theory Pipe_Ends
  imports Prelude
begin

text \<open>
  The ends of numbered pipes that a process holds, as a list of numbers: what a process closes of what it has inherited,
  for the programs that fork one process per pipe (\<open>HW2\<close>, \<open>HW4\<close>).
\<close>

definition close_end :: "nat \<Rightarrow> nat list \<Rightarrow> nat list" where
  "close_end i ends = filter (\<lambda>j. j \<noteq> i) ends"

fun close_ends :: "nat list \<Rightarrow> nat list \<Rightarrow> nat list" where
  "close_ends [] ends = ends"
| "close_ends (i # is) ends = close_ends is (close_end i ends)"

lemma close_ends_filter: "close_ends is ends = filter (\<lambda>j. j \<notin> set is) ends"
  by (induction "is" arbitrary: ends) (auto simp: close_end_def filter_filter intro: filter_cong)

lemma close_end_upt: "close_end i [i..<n] = [Suc i..<n]"
  by (cases "i < n") (auto simp: close_end_def upt_conv_Cons intro!: filter_True)

text \<open>Closing all ends but one.\<close>

lemma filter_only: "i < n \<Longrightarrow> filter (\<lambda>j. j = i) [0..<n] = [i]"
proof -
  assume i: "i < n"
  have u: "[0..<n] = [0..<i] @ i # [Suc i..<n]" using i upt_add_eq_append [of 0 i "n - i"] by (simp add: upt_conv_Cons)
  show ?thesis unfolding u by (simp add: filter_empty_conv)
qed

lemma close_others: "i < n \<Longrightarrow> close_ends (filter (\<lambda>j. j \<noteq> i) [0..<n]) [0..<n] = [i]"
proof -
  assume i: "i < n"
  have "close_ends (filter (\<lambda>j. j \<noteq> i) [0..<n]) [0..<n] = filter (\<lambda>j. j = i) [0..<n]"
    by (auto simp: close_ends_filter intro: filter_cong)
  then show ?thesis using filter_only [OF i] by simp
qed

end
