(* ===== verification/Log_Processes.thy ===== *)
theory Log_Processes
  imports Log_Pipeline Pipe_Ends
begin

text \<open>
  The start of the log analyzer: the regions of shared memory (\<open>HW4/src/shm/shm.c\<close>, \<open>shm_utils.c\<close>), the processes
  with the pipes they inherit (\<open>processes/forks.c\<close>, \<open>utils/spawn_processes.c\<close>) and the order of all this in
  \<open>main.c\<close>, with every call of the system that may fail.
\<close>

section \<open>Regions\<close>

text \<open>A region is not asked for, or \<open>mmap\<close> has failed, or it is mapped.\<close>

datatype mapping = Null | Map_Failed | Mapped

record shm_maps =
  m_a :: mapping
  m_b :: "mapping list"
  m_c :: mapping
  m_d :: mapping

text \<open>What the system answers: whether each call of \<open>mmap\<close> succeeds (A, the four of B, C, D) and whether the
  mutex, the conditions and the semaphores of the region can be made.\<close>

record shm_env =
  map_ok :: "nat \<Rightarrow> bool"
  sync_ok :: "nat \<Rightarrow> bool"

definition map_region :: "shm_env \<Rightarrow> nat \<Rightarrow> mapping \<times> bool" where
  "map_region e k = (if map_ok e k then (Mapped, sync_ok e k) else (Map_Failed, False))"

fun map_regions_b :: "shm_env \<Rightarrow> nat list \<Rightarrow> mapping list \<times> bool" where
  "map_regions_b e [] = ([], True)"
| "map_regions_b e (k # ks) =
     (case map_region e k of
        (m, False) \<Rightarrow> (m # map (\<lambda>_. Null) ks, False)
      | (m, True) \<Rightarrow> (case map_regions_b e ks of (ms, ok) \<Rightarrow> (m # ms, ok)))"

definition log_shm_init :: "shm_env \<Rightarrow> shm_maps \<times> bool" where
  "log_shm_init e =
     (let s0 = \<lparr>m_a = Null, m_b = replicate 4 Null, m_c = Null, m_d = Null\<rparr>; (a, oka) = map_region e 0; s1 = s0\<lparr>m_a := a\<rparr> in
      if \<not> oka then (s1, False)
      else (let (b, okb) = map_regions_b e [1, 2, 3, 4]; s2 = s1\<lparr>m_b := b\<rparr> in
            if \<not> okb then (s2, False)
            else (let (c, okc) = map_region e 5; s3 = s2\<lparr>m_c := c\<rparr> in
                  if \<not> okc then (s3, False)
                  else (let (d, okd) = map_region e 6 in (s3\<lparr>m_d := d\<rparr>, okd)))))"

definition unmap :: "mapping \<Rightarrow> mapping" where
  "unmap m = (if m \<noteq> Null \<and> m \<noteq> Map_Failed then Null else m)"

definition log_shm_destroy :: "shm_maps \<Rightarrow> shm_maps" where
  "log_shm_destroy s = \<lparr>m_a = unmap (m_a s), m_b = map unmap (m_b s), m_c = unmap (m_c s), m_d = unmap (m_d s)\<rparr>"



section \<open>Processes and pipes\<close>

datatype role = Reader nat | Dispatcher | Analyzer nat | Aggregator

text \<open>A process holds the read and the write ends of some of the pipes; pipe \<open>i\<close> is the one of reader \<open>i\<close>.\<close>

record child =
  ch_role :: role
  ch_pid :: int
  r_ends :: "nat list"
  w_ends :: "nat list"

record parent =
  pa_r :: "nat list"
  pa_w :: "nat list"
  children :: "child list"
  all_pids :: "int list"
  pa_maps :: shm_maps

text \<open>The answers of \<open>pipe\<close>, and of \<open>fork\<close> by the number of processes there are: \<open>None\<close> when it fails.\<close>

record spawn_env =
  pipe_ok :: "nat \<Rightarrow> bool"
  fork_pid :: "nat \<Rightarrow> int option"
  thread_ok :: bool

definition close_pipe_read_ends :: "nat \<Rightarrow> nat list \<Rightarrow> nat list" where
  "close_pipe_read_ends n ends = close_ends [0..<n] ends"

definition close_pipe_write_ends :: "nat \<Rightarrow> nat list \<Rightarrow> nat list" where
  "close_pipe_write_ends n ends = close_ends [0..<n] ends"

text \<open>\<open>create_pipes\<close>: the pipes made, and whether all are.\<close>

fun create_pipes :: "spawn_env \<Rightarrow> nat list \<Rightarrow> parent \<Rightarrow> parent \<times> bool" where
  "create_pipes e [] p = (p, True)"
| "create_pipes e (i # is) p =
     (if pipe_ok e i then create_pipes e is (p\<lparr>pa_r := pa_r p @ [i], pa_w := pa_w p @ [i]\<rparr>) else (p, False))"

text \<open>One \<open>fork\<close>: the child inherits the ends of the parent and closes some.\<close>

definition fork_child :: "spawn_env \<Rightarrow> role \<Rightarrow> (nat list \<Rightarrow> nat list) \<Rightarrow> (nat list \<Rightarrow> nat list) \<Rightarrow> parent \<Rightarrow> parent \<times> int option" where
  "fork_child e r cr cw p =
     (case fork_pid e (length (children p)) of
        None \<Rightarrow> (p, None)
      | Some pid \<Rightarrow> (p\<lparr>children := children p @ [\<lparr>ch_role = r, ch_pid = pid, r_ends = cr (pa_r p), w_ends = cw (pa_w p)\<rparr>]\<rparr>, Some pid))"

text \<open>\<open>fork_readers\<close> with the process ids in \<open>reader_pids\<close>.\<close>

definition close_other_writers :: "nat \<Rightarrow> nat \<Rightarrow> nat list \<Rightarrow> nat list" where
  "close_other_writers n i ends = close_ends (filter (\<lambda>j. j \<noteq> i) [0..<n]) ends"

fun fork_readers :: "spawn_env \<Rightarrow> nat \<Rightarrow> nat list \<Rightarrow> parent \<Rightarrow> int list \<Rightarrow> parent \<times> int list \<times> bool" where
  "fork_readers e n [] p pids = (p, pids, True)"
| "fork_readers e n (i # is) p pids =
     (case fork_child e (Reader i) (close_pipe_read_ends n) (close_other_writers n i) p of
        (p', None) \<Rightarrow> (p', pids, False)
      | (p', Some pid) \<Rightarrow> fork_readers e n is p' (pids @ [pid]))"

definition fork_dispatcher :: "spawn_env \<Rightarrow> nat \<Rightarrow> parent \<Rightarrow> parent \<times> int option" where
  "fork_dispatcher e n = fork_child e Dispatcher (close_pipe_read_ends n) (close_pipe_write_ends n)"

fun fork_analyzers :: "spawn_env \<Rightarrow> nat \<Rightarrow> nat list \<Rightarrow> parent \<Rightarrow> int list \<Rightarrow> parent \<times> int list \<times> bool" where
  "fork_analyzers e n [] p pids = (p, pids, True)"
| "fork_analyzers e n (i # is) p pids =
     (case fork_child e (Analyzer i) (close_pipe_read_ends n) (close_pipe_write_ends n) p of
        (p', None) \<Rightarrow> (p', pids, False)
      | (p', Some pid) \<Rightarrow> fork_analyzers e n is p' (pids @ [pid]))"

definition fork_aggregator :: "spawn_env \<Rightarrow> nat \<Rightarrow> parent \<Rightarrow> parent \<times> int option" where
  "fork_aggregator e n = fork_child e Aggregator (close_pipe_read_ends n) (close_pipe_write_ends n)"

text \<open>The functions of \<open>spawn_processes.c\<close>: on a failure the regions are unmapped and \<open>main\<close> returns.\<close>

definition give_up :: "parent \<Rightarrow> parent \<times> bool" where
  "give_up p = (p\<lparr>pa_maps := log_shm_destroy (pa_maps p)\<rparr>, False)"

definition spawn_reader_processes :: "spawn_env \<Rightarrow> nat \<Rightarrow> parent \<Rightarrow> parent \<times> bool" where
  "spawn_reader_processes e n p =
     (case create_pipes e [0..<n] p of
        (p1, False) \<Rightarrow> give_up p1
      | (p1, True) \<Rightarrow>
          (case fork_readers e n [0..<n] p1 [] of
             (p2, pids, False) \<Rightarrow> give_up p2
           | (p2, pids, True) \<Rightarrow> (p2\<lparr>all_pids := all_pids p2 @ pids\<rparr>, True)))"

definition spawn_dispatcher_process :: "spawn_env \<Rightarrow> nat \<Rightarrow> parent \<Rightarrow> parent \<times> bool" where
  "spawn_dispatcher_process e n p =
     (case fork_dispatcher e n p of
        (p1, None) \<Rightarrow> give_up p1
      | (p1, Some pid) \<Rightarrow> (p1\<lparr>all_pids := all_pids p1 @ [pid]\<rparr>, True))"

definition spawn_analyzer_processses :: "spawn_env \<Rightarrow> nat \<Rightarrow> parent \<Rightarrow> parent \<times> bool" where
  "spawn_analyzer_processses e n p =
     (case fork_analyzers e n [0..<4] p [] of
        (p1, pids, False) \<Rightarrow> give_up p1
      | (p1, pids, True) \<Rightarrow> (p1\<lparr>all_pids := all_pids p1 @ pids\<rparr>, True))"

definition spawn_aggregator_process :: "spawn_env \<Rightarrow> nat \<Rightarrow> parent \<Rightarrow> parent \<times> bool" where
  "spawn_aggregator_process e n p =
     (case fork_aggregator e n p of
        (p1, None) \<Rightarrow> give_up p1
      | (p1, Some pid) \<Rightarrow> (p1\<lparr>all_pids := all_pids p1 @ [pid]\<rparr>, True))"

definition start_watchdog_thread :: "spawn_env \<Rightarrow> parent \<Rightarrow> parent \<times> bool" where
  "start_watchdog_thread e p = (if thread_ok e then (p, True) else give_up p)"

definition and_then :: "(parent \<Rightarrow> parent \<times> bool) \<Rightarrow> parent \<times> bool \<Rightarrow> parent \<times> bool" where
  "and_then f pb = (case pb of (p, True) \<Rightarrow> f p | (p, False) \<Rightarrow> (p, False))"

text \<open>\<open>main\<close> from \<open>shm_init\<close> to the watchdog, with \<open>n\<close> log files; the list of process ids is shown up to \<open>pid_count\<close>.\<close>

definition log_launch :: "shm_env \<Rightarrow> spawn_env \<Rightarrow> nat \<Rightarrow> parent \<times> bool" where
  "log_launch m e n =
     (case log_shm_init m of
        (maps, False) \<Rightarrow> (\<lparr>pa_r = [], pa_w = [], children = [], all_pids = [], pa_maps = maps\<rparr>, False)
      | (maps, True) \<Rightarrow>
          and_then (start_watchdog_thread e)
            (and_then (\<lambda>p. (p\<lparr>pa_w := close_pipe_write_ends n (pa_w p)\<rparr>, True))
              (and_then (spawn_aggregator_process e n)
                (and_then (spawn_analyzer_processses e n)
                  (and_then (spawn_dispatcher_process e n)
                    (spawn_reader_processes e n \<lparr>pa_r = [], pa_w = [], children = [], all_pids = [], pa_maps = maps\<rparr>))))))"

section \<open>What is started\<close>

























lemma launch_no_memory:
  assumes "log_shm_init m = (maps, False)"
  shows "log_launch m e n = (\<lparr>pa_r = [], pa_w = [], children = [], all_pids = [], pa_maps = maps\<rparr>, False)"
  by (simp add: log_launch_def assms)




end
