(* ===== verification/Log_Watch.thy ===== *)
theory Log_Watch
  imports Log_Processes Runs
begin

text \<open>
  What the readers of the log analyzer report and what the watchdog makes of it (\<open>HW4/src/processes/reader.c\<close>,
  \<open>watchdog.c\<close>), and the binary file the aggregator leaves behind (\<open>aggregator.c\<close>).
\<close>

section \<open>Heartbeats\<close>

definition send_heartbeat :: "nat \<Rightarrow> nat \<Rightarrow> string" where
  "send_heartbeat reader_index line_count =
     snprintf 128 (''[R'' @ nat_dec reader_index @ ''] '' @ nat_dec line_count @ '' lines processed'' @ [LF])"

text \<open>\<open>sscanf(buf, "[R%d] %ld lines processed", ...)\<close> when it returns 2; the words after the numbers
  cannot change the count.\<close>

definition parse_progress :: "string \<Rightarrow> (int \<times> int) option" where
  "parse_progress buf =
     (if take 2 buf \<noteq> ''[R'' then None
      else (case scan_int (drop 2 buf) of
              None \<Rightarrow> None
            | Some (ridx, r) \<Rightarrow>
                if r = [] \<or> hd r \<noteq> CHR '']'' then None
                else (case strtol (tl r) of
                        (v, r', e) \<Rightarrow> if r' = tl r then None else Some (ridx, v))))"

text \<open>One successful \<open>read\<close> of the watchdog: at most 255 bytes, of which the first report counts.\<close>

definition note_progress :: "nat \<Rightarrow> string \<Rightarrow> int list \<Rightarrow> int list" where
  "note_progress reader_count buf line_counts =
     (case parse_progress buf of
        None \<Rightarrow> line_counts
      | Some (ridx, lines) \<Rightarrow>
          if 0 \<le> ridx \<and> ridx < int reader_count then line_counts[nat ridx := lines] else line_counts)"

fun read_chunks :: "nat \<Rightarrow> string list \<Rightarrow> int list \<Rightarrow> int list" where
  "read_chunks reader_count [] line_counts = line_counts"
| "read_chunks reader_count (buf # bufs) line_counts = read_chunks reader_count bufs (note_progress reader_count buf line_counts)"

definition watchdog_line :: "int \<Rightarrow> int list \<Rightarrow> nat \<Rightarrow> string" where
  "watchdog_line elapsed line_counts alive =
     ''[WATCHDOG] Progress at T+'' @ int_dec elapsed @ ''s:'' @
     concat (map (\<lambda>(i, n). '' Reader'' @ nat_dec i @ ''='' @ int_dec n) (zip [0..<length line_counts] line_counts)) @
     '' children_alive='' @ nat_dec alive @ [LF]"

lemma heartbeat_whole:
  assumes "int r \<le> int_max" "int n \<le> long_max"
  shows "send_heartbeat r n = ''[R'' @ nat_dec r @ ''] '' @ nat_dec n @ '' lines processed'' @ [LF]"
proof -
  have "length (nat_dec r) \<le> 10" "length (nat_dec n) \<le> 19"
    using assms by (auto intro!: nat_dec_length simp: limits_defs)
  then show ?thesis by (simp add: send_heartbeat_def)
qed

lemma strtol_space: "strtol s = (v, r, e) \<Longrightarrow> r \<noteq> s \<Longrightarrow> is_space c \<Longrightarrow> strtol (c # s) = (v, r, e)"
  by (auto simp: strtol_def Let_def split: if_splits)

lemma scan_dec:
  assumes "int n \<le> long_max" "r = [] \<or> \<not> is_digit (hd r)"
  shows "strtol (nat_dec n @ r) = (int n, r, False)" "strtol (CHR '' '' # nat_dec n @ r) = (int n, r, False)"
proof -
  show f: "strtol (nat_dec n @ r) = (int n, r, False)" using strtol_int_dec [of "int n" r] assms by (simp add: int_dec_def limits_defs)
  have "is_space CHR '' ''" by (simp add: char_class_defs)
  then show "strtol (CHR '' '' # nat_dec n @ r) = (int n, r, False)" using strtol_space [OF f] by simp
qed

text \<open>A report is read back, whatever follows it in the same chunk.\<close>

lemma heartbeat_read:
  assumes "int r \<le> int_max" "int n \<le> long_max"
  shows "parse_progress (send_heartbeat r n @ rest) = Some (int r, int n)"
proof -
  have nd: "\<not> is_digit CHR '']''" "\<not> is_digit CHR '' ''" by (simp_all add: char_class_defs)
  have r: "strtol (nat_dec r @ CHR '']'' # t) = (int r, CHR '']'' # t, False)" for t
    by (rule scan_dec) (use assms(1) nd in \<open>auto simp: limits_defs\<close>)
  have n: "strtol (CHR '' '' # nat_dec n @ CHR '' '' # t) = (int n, CHR '' '' # t, False)" for t
    by (rule scan_dec) (use assms(2) nd in auto)
  have w: "wrap32 (int r) = int r" using assms(1) by (simp add: wrap32_id limits_defs)
  show ?thesis unfolding heartbeat_whole [OF assms] by (simp add: parse_progress_def scan_int_def r n w)
qed

text \<open>So of the reports that come in one chunk the first is shown and the later ones are lost.\<close>

lemma first_report_counts:
  assumes "r < reader_count" "int r \<le> int_max" "int n \<le> long_max" "length line_counts = reader_count"
  shows "note_progress reader_count (send_heartbeat r n @ rest) line_counts ! r = int n"
  using assms by (simp add: note_progress_def heartbeat_read)

lemma last_chunk_counts:
  assumes "r < reader_count" "int r \<le> int_max" "int n \<le> long_max" "length line_counts = reader_count"
  shows "read_chunks reader_count (bufs @ [send_heartbeat r n @ rest]) line_counts ! r = int n"
  using assms
proof (induction bufs arbitrary: line_counts)
  case (Cons b bufs)
  have "length (note_progress reader_count b line_counts) = reader_count"
    using Cons.prems by (auto simp: note_progress_def split: option.splits)
  then show ?case using Cons.IH Cons.prems by simp
qed (simp add: first_report_counts)

section \<open>The binary output\<close>

record bin_header =
  b_magic :: nat
  b_version :: nat
  b_num_levels :: nat
  b_num_keywords :: nat
  b_total_weighted :: int
  b_high_priority :: int

datatype bin_item = Bin_Header bin_header | Bin_Level level_result

definition BINARY_MAGIC :: nat where "BINARY_MAGIC = 3320005643"
definition BINARY_VERSION :: nat where "BINARY_VERSION = 1"

text \<open>The system: which calls succeed, and how many items the last flush gets into the file.\<close>

record disk_env =
  d_fopen :: bool
  d_fwrite :: "nat \<Rightarrow> bool"
  d_flushed :: nat
  d_rename :: bool

type_synonym disk = "string \<Rightarrow> bin_item list option"

fun fwrite_levels :: "disk_env \<Rightarrow> nat \<Rightarrow> level_result list \<Rightarrow> bin_item list \<Rightarrow> bin_item list \<times> bool" where
  "fwrite_levels e i [] f = (f, True)"
| "fwrite_levels e i (r # rs) f = (if d_fwrite e (i + 1) then fwrite_levels e (i + 1) rs (f @ [Bin_Level r]) else (f, False))"

definition bin_header_of :: "t_args \<Rightarrow> int \<Rightarrow> int \<Rightarrow> bin_header" where
  "bin_header_of a tot hp_score =
     \<lparr>b_magic = BINARY_MAGIC, b_version = BINARY_VERSION, b_num_levels = 4, b_num_keywords = length (keyword_list a),
      b_total_weighted = tot, b_high_priority = hp_score\<rparr>"

definition write_bin_output :: "t_args \<Rightarrow> string \<Rightarrow> level_result list \<Rightarrow> int \<Rightarrow> int \<Rightarrow> disk_env \<Rightarrow> disk \<Rightarrow> disk \<times> bool" where
  "write_bin_output a path results tot hp_score e d =
     (let tmp_path = snprintf 1024 (path @ ''.tmp'') in
      if \<not> d_fopen e then (d, False)
      else if \<not> d_fwrite e 0 then (d(tmp_path \<mapsto> []), False)
      else (case fwrite_levels e 0 (take 4 results) [Bin_Header (bin_header_of a tot hp_score)] of
              (f, False) \<Rightarrow> (d(tmp_path \<mapsto> take (d_flushed e) f), False)
            | (f, True) \<Rightarrow>
                (let d1 = d(tmp_path \<mapsto> take (d_flushed e) f) in
                 if \<not> d_rename e then (d1, False)
                 else ((d1(path := d1 tmp_path))(tmp_path := (if tmp_path = path then d1 tmp_path else None)), True))))"

lemma fwrite_levels_all: "fwrite_levels e i rs f = (g, True) \<Longrightarrow> g = f @ map Bin_Level rs"
  by (induction e i rs f rule: fwrite_levels.induct) (auto split: if_splits)

text \<open>With a path that leaves room for the suffix, the file is either as before or has the header and
  the levels, as far as the unchecked \<open>fclose\<close> got them onto the disk.\<close>

lemma binary_replaced:
  assumes "write_bin_output a path results tot hp e d = (d', ok)" "length path < 1020"
  shows "d' path = (if ok then Some (take (d_flushed e) (Bin_Header (bin_header_of a tot hp) # map Bin_Level (take 4 results)))
    else d path)"
proof -
  have tmp: "snprintf 1024 (path @ ''.tmp'') = path @ ''.tmp''" using assms(2) by simp
  obtain f r where f: "fwrite_levels e 0 (take 4 results) [Bin_Header (bin_header_of a tot hp)] = (f, r)"
    by (cases "fwrite_levels e 0 (take 4 results) [Bin_Header (bin_header_of a tot hp)]")
  show ?thesis
    using assms(1) fwrite_levels_all [of e 0 "take 4 results" "[Bin_Header (bin_header_of a tot hp)]" f] f
    by (cases r) (auto simp: write_bin_output_def tmp Let_def split: if_splits)
qed

end
