(* ===== verification/Log_Collect.thy ===== *)
theory Log_Collect
  imports Log_Watch
begin

text \<open>
  The two threads of the parent of the log analyzer while its children run, as steps on one state:
  \<open>wait_for_children\<close> and the end of \<open>main\<close> (\<open>HW4/src/main.c\<close>) and the watchdog
  (\<open>HW4/src/processes/watchdog.c\<close>), which both call \<open>waitpid\<close> and share \<open>all_pids\<close> and
  \<open>g_shutdown\<close> without a lock.  A turn of a loop in which \<open>waitpid\<close> has nothing to report changes
  nothing and is no step.
\<close>

section \<open>The state\<close>

datatype proc_st = Running | Zombie | Collected

datatype wait_pc = Poll | Forget int | Kill nat | Drain nat | Drain_Forget nat int | Joining | Ended

datatype dog_pc = Dog_Top | Dog_Select | Dog_Read "nat list" nat | Dog_Scan nat | Dog_Erase nat | Dog_Over

record watch =
  procs :: "proc_st list"
  pids :: "int list"
  g_shutdown :: bool
  interrupted :: bool
  remaining :: int
  wait_at :: wait_pc
  dog_at :: dog_pc
  sent :: "nat list"

text \<open>\<open>interrupted\<close> notes that SIGINT has come, \<open>sent\<close> which children were sent SIGTERM.\<close>

definition forget_pid :: "int \<Rightarrow> int list \<Rightarrow> int list" where
  "forget_pid w ps = map (\<lambda>q. if q = w then - 1 else q) ps"

definition collect :: "nat \<Rightarrow> watch \<Rightarrow> watch" where
  "collect k s = s\<lparr>procs := (procs s)[k := Collected]\<rparr>"

section \<open>The steps\<close>

inductive collector_step :: "int list \<Rightarrow> watch \<Rightarrow> watch \<Rightarrow> bool" for P where
  poll_done: "wait_at s = Poll \<Longrightarrow> remaining s \<le> 0 \<Longrightarrow> collector_step P s (s\<lparr>wait_at := Joining, g_shutdown := True\<rparr>)"
| poll_shutdown: "wait_at s = Poll \<Longrightarrow> remaining s > 0 \<Longrightarrow> g_shutdown s \<Longrightarrow> collector_step P s (s\<lparr>wait_at := Kill 0\<rparr>)"
| poll_child: "wait_at s = Poll \<Longrightarrow> remaining s > 0 \<Longrightarrow> \<not> g_shutdown s \<Longrightarrow> k < length (procs s) \<Longrightarrow> procs s ! k = Zombie \<Longrightarrow>
    collector_step P s ((collect k s)\<lparr>remaining := remaining s - 1, wait_at := Forget (P ! k)\<rparr>)"
| poll_no_child: "wait_at s = Poll \<Longrightarrow> remaining s > 0 \<Longrightarrow> \<not> g_shutdown s \<Longrightarrow> \<forall>k < length (procs s). procs s ! k = Collected \<Longrightarrow>
    collector_step P s (s\<lparr>wait_at := Joining, g_shutdown := True\<rparr>)"
| poll_forget: "wait_at s = Forget w \<Longrightarrow> collector_step P s (s\<lparr>pids := forget_pid w (pids s), wait_at := Poll\<rparr>)"
| kill_one: "wait_at s = Kill i \<Longrightarrow> i < length (pids s) \<Longrightarrow>
    collector_step P s (s\<lparr>wait_at := Kill (Suc i), sent := (if pids s ! i > 0 then sent s @ [i] else sent s)\<rparr>)"
| kill_all: "wait_at s = Kill i \<Longrightarrow> length (pids s) \<le> i \<Longrightarrow> collector_step P s (s\<lparr>wait_at := Drain 50\<rparr>)"
| drain_child: "wait_at s = Drain (Suc d) \<Longrightarrow> remaining s > 0 \<Longrightarrow> k < length (procs s) \<Longrightarrow> procs s ! k = Zombie \<Longrightarrow>
    collector_step P s ((collect k s)\<lparr>remaining := remaining s - 1, wait_at := Drain_Forget d (P ! k)\<rparr>)"
| drain_none: "wait_at s = Drain (Suc d) \<Longrightarrow> remaining s > 0 \<Longrightarrow> \<forall>k < length (procs s). procs s ! k \<noteq> Zombie \<Longrightarrow>
    collector_step P s (s\<lparr>wait_at := Drain d\<rparr>)"
| drain_forget: "wait_at s = Drain_Forget d w \<Longrightarrow> collector_step P s (s\<lparr>pids := forget_pid w (pids s), wait_at := Drain d\<rparr>)"
| drain_end: "wait_at s = Drain d \<Longrightarrow> d = 0 \<or> remaining s \<le> 0 \<Longrightarrow> collector_step P s (s\<lparr>wait_at := Joining, g_shutdown := True\<rparr>)"
| join_dog: "wait_at s = Joining \<Longrightarrow> dog_at s = Dog_Over \<Longrightarrow> collector_step P s (s\<lparr>wait_at := Ended\<rparr>)"

text \<open>The watchdog reads the pipe of a reader that \<open>select\<close> has flagged until the end of the pipe, which
  comes when the reader is gone: it is the only one with the write end.\<close>

inductive dog_step :: "nat \<Rightarrow> watch \<Rightarrow> watch \<Rightarrow> bool" for readers where
  dog_stops: "dog_at s = Dog_Top \<or> dog_at s = Dog_Select \<Longrightarrow> g_shutdown s \<Longrightarrow> dog_step readers s (s\<lparr>dog_at := Dog_Over\<rparr>)"
| dog_selects: "dog_at s = Dog_Top \<Longrightarrow> \<not> g_shutdown s \<Longrightarrow> dog_step readers s (s\<lparr>dog_at := Dog_Select\<rparr>)"
| dog_flagged: "dog_at s = Dog_Select \<Longrightarrow> \<not> g_shutdown s \<Longrightarrow> dog_step readers s (s\<lparr>dog_at := Dog_Read F 0\<rparr>)"
| dog_eintr: "dog_at s = Dog_Select \<Longrightarrow> dog_step readers s (s\<lparr>dog_at := Dog_Top\<rparr>)"
| dog_error: "dog_at s = Dog_Select \<Longrightarrow> dog_step readers s (s\<lparr>dog_at := Dog_Over\<rparr>)"
| dog_reads: "dog_at s = Dog_Read F i \<Longrightarrow> i < readers \<Longrightarrow> i \<notin> set F \<or> procs s ! i \<noteq> Running \<Longrightarrow>
    dog_step readers s (s\<lparr>dog_at := Dog_Read F (Suc i)\<rparr>)"
| dog_read_all: "dog_at s = Dog_Read F i \<Longrightarrow> readers \<le> i \<Longrightarrow> dog_step readers s (s\<lparr>dog_at := Dog_Scan 0\<rparr>)"
| dog_skips: "dog_at s = Dog_Scan i \<Longrightarrow> i < length (pids s) \<Longrightarrow> pids s ! i \<le> 0 \<or> procs s ! i \<noteq> Zombie \<Longrightarrow>
    dog_step readers s (s\<lparr>dog_at := Dog_Scan (Suc i)\<rparr>)"
| dog_collects: "dog_at s = Dog_Scan i \<Longrightarrow> i < length (pids s) \<Longrightarrow> pids s ! i > 0 \<Longrightarrow> procs s ! i = Zombie \<Longrightarrow>
    dog_step readers s ((collect i s)\<lparr>dog_at := Dog_Erase i\<rparr>)"
| dog_erases: "dog_at s = Dog_Erase i \<Longrightarrow> dog_step readers s (s\<lparr>pids := (pids s)[i := - 1], dog_at := Dog_Scan (Suc i)\<rparr>)"
| dog_prints: "dog_at s = Dog_Scan i \<Longrightarrow> length (pids s) \<le> i \<Longrightarrow> dog_step readers s (s\<lparr>dog_at := Dog_Top\<rparr>)"

inductive watch_step :: "int list \<Rightarrow> nat \<Rightarrow> watch \<Rightarrow> watch \<Rightarrow> bool" for P readers where
  child_exits: "k < length (procs s) \<Longrightarrow> procs s ! k = Running \<Longrightarrow> watch_step P readers s (s\<lparr>procs := (procs s)[k := Zombie]\<rparr>)"
| sigint: "watch_step P readers s (s\<lparr>g_shutdown := True, interrupted := True\<rparr>)"
| by_parent: "collector_step P s t \<Longrightarrow> watch_step P readers s t"
| by_dog: "dog_step readers s t \<Longrightarrow> watch_step P readers s t"


text \<open>When \<open>main\<close> begins to wait: every process is running or has already ended.\<close>

definition watch_start :: "int list \<Rightarrow> proc_st list \<Rightarrow> watch" where
  "watch_start P ps = \<lparr>procs = ps, pids = P, g_shutdown = False, interrupted = False, remaining = int (length P), wait_at = Poll,
     dog_at = Dog_Top, sent = []\<rparr>"

section \<open>The invariant\<close>












section \<open>The invariant is kept\<close>



lemma forget_length [simp]: "length (forget_pid w ps) = length ps"
  by (simp add: forget_pid_def)

lemma collect_sel [simp]:
  "procs (collect k s) = (procs s)[k := Collected]" "pids (collect k s) = pids s" "g_shutdown (collect k s) = g_shutdown s"
  "interrupted (collect k s) = interrupted s" "remaining (collect k s) = remaining s" "wait_at (collect k s) = wait_at s"
  "dog_at (collect k s) = dog_at s" "sent (collect k s) = sent s"
  by (simp_all add: collect_def)















section \<open>The end\<close>






















text \<open>The exception is real: the watchdog has waited for the child and not yet struck it out when SIGINT
  makes the parent send SIGTERM to the process id, which by then may belong to another process.\<close>

lemma signal_after_wait:
  "\<exists>s t. (watch_step [101] 1)\<^sup>*\<^sup>* (watch_start [101] [Zombie]) s \<and> collector_step [101] s t \<and> procs s ! 0 = Collected \<and>
     sent t = sent s @ [0]"
proof -
  let ?s0 = "watch_start [101] [Zombie]"
  let ?s1 = "?s0\<lparr>dog_at := Dog_Select\<rparr>" let ?s2 = "?s0\<lparr>dog_at := Dog_Read [] 0\<rparr>" let ?s3 = "?s0\<lparr>dog_at := Dog_Read [] 1\<rparr>"
  let ?s4 = "?s0\<lparr>dog_at := Dog_Scan 0\<rparr>" let ?s5 = "?s0\<lparr>procs := [Collected], dog_at := Dog_Erase 0\<rparr>"
  let ?s6 = "?s5\<lparr>g_shutdown := True, interrupted := True\<rparr>" let ?s7 = "?s6\<lparr>wait_at := Kill 0\<rparr>"
  note d = by_dog [of 1 _ _ "[101]"]
  have 1: "watch_step [101] 1 ?s0 ?s1" using dog_selects [of ?s0 1] by (intro d) (simp add: watch_start_def)
  have 2: "watch_step [101] 1 ?s1 ?s2" using dog_flagged [of ?s1 1 "[]"] by (intro d) (simp add: watch_start_def)
  have 3: "watch_step [101] 1 ?s2 ?s3" using dog_reads [of ?s2 "[]" 0 1] by (intro d) (simp add: watch_start_def)
  have 4: "watch_step [101] 1 ?s3 ?s4" using dog_read_all [of ?s3 "[]" 1 1] by (intro d) (simp add: watch_start_def)
  have 5: "watch_step [101] 1 ?s4 ?s5" using dog_collects [of ?s4 0 1] by (intro d) (simp add: watch_start_def collect_def)
  have 6: "watch_step [101] 1 ?s5 ?s6" by (rule sigint)
  have 7: "watch_step [101] 1 ?s6 ?s7" using poll_shutdown [of ?s6 "[101]"] by (intro by_parent) (simp add: watch_start_def)
  have "(watch_step [101] 1)\<^sup>*\<^sup>* ?s0 ?s7" using 1 2 3 4 5 6 7 by (meson converse_rtranclp_into_rtranclp rtranclp.rtrancl_refl)
  moreover have "collector_step [101] ?s7 (?s7\<lparr>wait_at := Kill (Suc 0), sent := [0]\<rparr>)"
    using kill_one [of ?s7 0 "[101]"] by (simp add: watch_start_def)
  ultimately show ?thesis by (intro exI [of _ ?s7] exI [of _ "?s7\<lparr>wait_at := Kill (Suc 0), sent := [0]\<rparr>"]) (simp add: watch_start_def)
qed

end
