(* ===== verification/Search_Start.thy ===== *)
theory Search_Start
  imports Search_Workers Pipe_Ends
begin

text \<open>
  How the processes of the parallel file search come about: the signal handlers (\<open>HW2/src/setup_signal_handlers.c\<close>),
  the pipes and forks of \<open>create_workers\<close> (\<open>processes.c\<close>, \<open>close_child_pipes\<close> of \<open>utils.c\<close>) with a fork that fails,
  and \<open>sigchld_handler\<close> (\<open>signal.c\<close>).
\<close>

section \<open>Signal handlers\<close>

datatype handler = Default | Ignore | H_Sigterm | H_Sigint | H_Sigusr1 | H_Sigchld

record dispositions =
  on_int :: handler
  on_term :: handler
  on_usr1 :: handler
  on_chld :: handler

definition setup_sigterm_handler :: "dispositions \<Rightarrow> dispositions" where
  "setup_sigterm_handler d = d\<lparr>on_term := H_Sigterm\<rparr>"

definition setup_sigint_handler :: "dispositions \<Rightarrow> dispositions" where
  "setup_sigint_handler d = d\<lparr>on_int := H_Sigint\<rparr>"

definition setup_sigchld_handler :: "dispositions \<Rightarrow> dispositions" where
  "setup_sigchld_handler d = d\<lparr>on_chld := H_Sigchld\<rparr>"

definition listen_sigusr1 :: "dispositions \<Rightarrow> dispositions" where
  "listen_sigusr1 d = d\<lparr>on_usr1 := H_Sigusr1\<rparr>"

definition ignore_child_sigint :: "dispositions \<Rightarrow> dispositions" where
  "ignore_child_sigint d = d\<lparr>on_int := Ignore\<rparr>"

definition sigusr1_handler :: "search \<Rightarrow> search" where
  "sigusr1_handler s = s\<lparr>sigusr1_count := sigusr1_count s + 1\<rparr>"

section \<open>Pipes and forks\<close>

text \<open>The ends a process holds, of the pipes for the counts and of those for the matches.\<close>

record search_ends =
  res_r :: "nat list"
  res_w :: "nat list"
  match_r :: "nat list"
  match_w :: "nat list"

record search_process =
  sp_ends :: search_ends
  sp_signals :: dispositions

definition worker_pipes :: "nat \<Rightarrow> search_ends" where
  "worker_pipes n = \<lparr>res_r = [0..<n], res_w = [0..<n], match_r = [0..<n], match_w = [0..<n]\<rparr>"

definition close_child_pipes :: "nat \<Rightarrow> nat \<Rightarrow> search_ends \<Rightarrow> search_ends" where
  "close_child_pipes n i e =
     (let others = filter (\<lambda>k. k \<noteq> i) [0..<n] in
      \<lparr>res_r = close_ends others (close_end i (res_r e)), res_w = close_ends others (res_w e),
       match_r = close_ends others (close_end i (match_r e)), match_w = close_ends others (match_w e)\<rparr>)"

text \<open>A worker begins with what the parent has at the fork.\<close>

definition start_worker :: "nat \<Rightarrow> nat \<Rightarrow> search_process \<Rightarrow> search_process" where
  "start_worker n i p =
     \<lparr>sp_ends = close_child_pipes n i (sp_ends p), sp_signals = setup_sigterm_handler (ignore_child_sigint (sp_signals p))\<rparr>"

definition close_writers :: "nat \<Rightarrow> search_ends \<Rightarrow> search_ends" where
  "close_writers i e = e\<lparr>res_w := close_end i (res_w e), match_w := close_end i (match_w e)\<rparr>"

text \<open>The loop of the forks: the parent, the workers started, and whether every fork has succeeded.\<close>

fun fork_workers :: "(nat \<Rightarrow> bool) \<Rightarrow> nat \<Rightarrow> nat list \<Rightarrow> search_process \<Rightarrow> search_process list \<Rightarrow> search_process \<times> search_process list \<times> bool" where
  "fork_workers fork_ok n [] p ws = (p, ws, True)"
| "fork_workers fork_ok n (i # is) p ws =
     (if \<not> fork_ok i then (p, ws, False)
      else fork_workers fork_ok n is (p\<lparr>sp_ends := close_writers i (sp_ends p)\<rparr>) (ws @ [start_worker n i p]))"

definition fork_all :: "(nat \<Rightarrow> bool) \<Rightarrow> nat \<Rightarrow> search_process \<times> search_process list \<times> bool" where
  "fork_all fork_ok n =
     fork_workers fork_ok n [0..<n]
       \<lparr>sp_ends = worker_pipes n, sp_signals = listen_sigusr1 (setup_sigint_handler \<lparr>on_int = Default, on_term = Default, on_usr1 = Default, on_chld = Default\<rparr>)\<rparr> []"

section \<open>The handler of SIGCHLD\<close>

text \<open>The processes \<open>waitpid\<close> hands out, with their exit status if they have ended by \<open>exit\<close>; the messages.\<close>

definition worker_expected :: "int list \<Rightarrow> bool list \<Rightarrow> bool list \<Rightarrow> int \<Rightarrow> bool" where
  "worker_expected pids term_sent worker_done p =
     list_ex (\<lambda>i. pids ! i = p \<and> (term_sent ! i \<or> worker_done ! i)) [0..<length pids]"

fun sigchld_handler :: "int list \<Rightarrow> bool list \<Rightarrow> bool list \<Rightarrow> (int \<times> int option) list \<Rightarrow> string list" where
  "sigchld_handler pids term_sent worker_done [] = []"
| "sigchld_handler pids term_sent worker_done ((p, status) # ws) =
     (let exit_status = (case status of Some n \<Rightarrow> n | None \<Rightarrow> - 1) in
      (if worker_expected pids term_sent worker_done p then []
       else [''[Parent] Worker PID:'' @ safe_int_to_str p @ '' terminated unexpectedly (exit status: '' @ safe_int_to_str exit_status @ '').'' @ [LF]]) @
      sigchld_handler pids term_sent worker_done ws)"

section \<open>Who holds which end\<close>

definition worker_as_started :: "nat \<Rightarrow> search_process" where
  "worker_as_started i =
     \<lparr>sp_ends = \<lparr>res_r = [], res_w = [i], match_r = [], match_w = [i]\<rparr>,
      sp_signals = \<lparr>on_int = Ignore, on_term = H_Sigterm, on_usr1 = H_Sigusr1, on_chld = Default\<rparr>\<rparr>"

definition parent_at :: "nat \<Rightarrow> nat \<Rightarrow> search_process" where
  "parent_at n i =
     \<lparr>sp_ends = \<lparr>res_r = [0..<n], res_w = [i..<n], match_r = [0..<n], match_w = [i..<n]\<rparr>,
      sp_signals = \<lparr>on_int = H_Sigint, on_term = Default, on_usr1 = H_Sigusr1, on_chld = Default\<rparr>\<rparr>"

lemma closed_but_one:
  assumes "i < n"
  shows "close_ends (filter (\<lambda>k. k \<noteq> i) [0..<n]) (close_end i [0..<n]) = []"
    "close_ends (filter (\<lambda>k. k \<noteq> i) [0..<n]) [i..<n] = [i]"
proof -
  show "close_ends (filter (\<lambda>k. k \<noteq> i) [0..<n]) (close_end i [0..<n]) = []"
    by (simp add: close_ends_filter close_end_def filter_empty_conv)
  have "close_ends (filter (\<lambda>k. k \<noteq> i) [0..<n]) [i..<n] = filter (\<lambda>j. j = i) [i..<n]"
    by (auto simp: close_ends_filter intro: filter_cong)
  also have "\<dots> = [i]" by (simp add: upt_conv_Cons [OF assms] filter_empty_conv)
  finally show "close_ends (filter (\<lambda>k. k \<noteq> i) [0..<n]) [i..<n] = [i]" .
qed

lemma start_worker_at: "i < n \<Longrightarrow> start_worker n i (parent_at n i) = worker_as_started i"
  using closed_but_one [of i n]
  by (simp add: start_worker_def close_child_pipes_def parent_at_def worker_as_started_def Let_def setup_sigterm_handler_def ignore_child_sigint_def)

lemma parent_moves_on: "parent_at n i\<lparr>sp_ends := close_writers i (sp_ends (parent_at n i))\<rparr> = parent_at n (Suc i)"
  by (simp add: close_writers_def parent_at_def close_end_upt)

lemma fork_workers_from:
  assumes "k \<le> n" "fork_workers fork_ok n [k..<n] (parent_at n k) (map worker_as_started [0..<k]) = (p, ws, ok)"
  shows "\<exists>m\<le>n. ws = map worker_as_started [0..<m] \<and> p = parent_at n m \<and> (\<forall>i<m. k \<le> i \<longrightarrow> fork_ok i) \<and>
    (if ok then m = n else m < n \<and> \<not> fork_ok m)"
  using assms
proof (induction "n - k" arbitrary: k)
  case (Suc d)
  then have k: "k < n" by simp
  show ?case
  proof (cases "fork_ok k")
    case True
    then have "fork_workers fork_ok n [Suc k..<n] (parent_at n (Suc k)) (map worker_as_started [0..<Suc k]) = (p, ws, ok)"
      using Suc.prems(2) k by (simp add: upt_conv_Cons start_worker_at parent_moves_on)
    moreover have "d = n - Suc k" "Suc k \<le> n" using Suc.hyps(2) k by simp_all
    ultimately obtain m where "m \<le> n" "ws = map worker_as_started [0..<m]" "p = parent_at n m"
      "\<forall>i<m. Suc k \<le> i \<longrightarrow> fork_ok i" "if ok then m = n else m < n \<and> \<not> fork_ok m" using Suc.hyps(1) by blast
    moreover have "\<forall>i<m. k \<le> i \<longrightarrow> fork_ok i" using calculation(4) True by (metis Suc_leI le_neq_implies_less)
    ultimately show ?thesis by blast
  next
    case False
    then have "p = parent_at n k" "ws = map worker_as_started [0..<k]" "\<not> ok"
      using Suc.prems(2) k by (simp_all add: upt_conv_Cons)
    then show ?thesis using False k by (intro exI [of _ k]) simp
  qed
qed auto

text \<open>
  Whatever fork fails: the workers started are the first ones, each holds the writing ends of its own two pipes
  and no other end, the parent has given up those writing ends and keeps all reading ends, and no process handles SIGCHLD.
\<close>

theorem workers_forked:
  assumes "fork_all fork_ok n = (p, ws, ok)"
  shows "\<exists>m\<le>n. ws = map worker_as_started [0..<m] \<and> p = parent_at n m \<and> (\<forall>i<m. fork_ok i) \<and> (if ok then m = n else m < n \<and> \<not> fork_ok m)"
    and "\<forall>q \<in> set (p # ws). on_chld (sp_signals q) = Default"
proof -
  have "fork_workers fork_ok n [0..<n] (parent_at n 0) (map worker_as_started [0..<0]) = (p, ws, ok)"
    using assms by (simp add: fork_all_def parent_at_def worker_pipes_def listen_sigusr1_def setup_sigint_handler_def)
  from fork_workers_from [OF _ this]
  show m: "\<exists>m\<le>n. ws = map worker_as_started [0..<m] \<and> p = parent_at n m \<and> (\<forall>i<m. fork_ok i) \<and> (if ok then m = n else m < n \<and> \<not> fork_ok m)"
    by auto
  then show "\<forall>q \<in> set (p # ws). on_chld (sp_signals q) = Default" by (auto simp: worker_as_started_def parent_at_def)
qed

lemma expected_workers_silent:
  "\<forall>(p, st) \<in> set deaths. worker_expected pids term_sent worker_done p \<Longrightarrow> sigchld_handler pids term_sent worker_done deaths = []"
  by (induction pids term_sent worker_done deaths rule: sigchld_handler.induct) auto

end
