(* ===== verification/Spec2Isabelle.thy ===== *)
theory Spec2Isabelle
  imports Cargo_Properties Log_Properties Hogwarts_Properties Sort_Missed Find_Properties Search_Properties Trade_Properties
    Sort_Memory Cargo_Log Log_Collect Search_Start
begin

text \<open>
  A verification library for the projects of GTU CSE344 (systems programming in C).  The repository holds
  seven programs that share no code; each has its theories here.

  \<^bold>\<open>Shared.\<close>  \<open>Prelude\<close> has the collections of hints, C integers as \<open>int\<close> with the wrap-around written out
  (\<open>wrap32\<close>, \<open>wrap64\<close>), C strings as lists of characters and facts on lists and multisets.  \<open>C_Library\<close> models
  what the programs use of the C library on data: \<open>strtok\<close>, \<open>strtol\<close>, \<open>atoi\<close>, \<open>fgets\<close>, \<open>snprintf\<close>,
  \<open>sscanf\<close>, \<open>getopt\<close>.  \<open>Runs\<close> states what a system of steps owes to theorems on its runs, as locales:
  \<open>invariant_system\<close> (an invariant is kept), \<open>terminating_system\<close> (and a weight goes down) and \<open>live_system\<close> (and it
  can go on until it is over); every concurrent program below interprets them on its own steps.  \<open>File_Tree\<close> is
  the tree of files as \<open>readdir\<close> and \<open>lstat\<close> show it to \<open>HW1\<close> and \<open>HW2\<close>.

  \<^bold>\<open>HW1, the file finder.\<close>  \<open>Find_Pattern\<close>: the patterns of \<open>regex.c\<close>, with the language they accept
  (\<open>HW2\<close> has the same matcher).  \<open>Find_Program\<close>: the command line (\<open>parse_arguments.c\<close>), the criteria and the
  recursive search that prints a tree (\<open>compare.c\<close>, \<open>search_directory.c\<close>, \<open>main.c\<close>).  \<open>Find_Facts\<close> and
  \<open>Find_Properties\<close> show that the tree printed is that of the matching files with the directories above them.

  \<^bold>\<open>HW2, the parallel file search.\<close>  \<open>Search_Walk\<close>: command line, walk, sharing of the subdirectories, tree and
  summary (\<open>parse_arguments.c\<close>, \<open>search_directory.c\<close>, \<open>subdirs.c\<close>, \<open>tree.c\<close>, \<open>signal.c\<close>).  \<open>Search_Workers\<close>: parent
  and workers of \<open>processes.c\<close> as one step relation with pipes that hold \<open>slots\<close> records, and the handler of
  SIGINT.  \<open>Search_Start\<close>: the forks, one of which may fail, with the ends of the pipes each process keeps (\<open>Pipe_Ends\<close>, shared
  with \<open>HW4\<close>) and the signal handlers.  \<open>Search_Facts\<close>, \<open>Search_Invariant\<close> and \<open>Search_Properties\<close>: without signals the search ends with every match
  once when the pipes are large enough, and hangs when a worker has more matches than its pipe takes.

  \<^bold>\<open>HW3, the sorting building.\<close>  \<open>Sort_Word\<close>: \<open>t_word\<close> with its tasks, \<open>place_char\<close> and the pass of the sorting
  process.  \<open>Sort_System\<close>: word carriers, letter carriers, sorting processes, the two elevators and the monitor
  (\<open>src/processes\<close>) on the record \<open>shm\<close>, each with its control points.  \<open>Sort_Input\<close>: command line, line reader, checks
  and output.  \<open>Sort_Memory\<close>: layout of the mapped block and its semaphores (\<open>shm.c\<close>), the ends of the processes in the
  monitor and in the handler of SIGINT, \<open>log.c\<close>.  \<open>Sort_Word_Facts\<close>, \<open>Sort_Invariants\<close>, \<open>Sort_Steps\<close> and
  \<open>Sort_Input_Facts\<close> carry \<open>Sort_Properties\<close> and \<open>Sort_Missed\<close>: letters are placed once, what is written is the sorted
  input, and two ways in which the program never ends.

  \<^bold>\<open>HW4, the log analyzer.\<close>  \<open>Log_Args\<close> and \<open>Log_Entry\<close>: the parsers of the command line and of a log line.
  \<open>Log_Reader\<close>: how the threads of a reader divide a file.  \<open>Log_Ring\<close>: \<open>buffer.c\<close> as the locale \<open>bounded_fifo\<close>, and the
  regions built on it.  \<open>Log_Scoring\<close>: the analyzers' scores, their merging, sorting and the text output.  \<open>Log_Pipeline\<close>:
  reader and parser threads, dispatcher, workers and aggregator as steps on the shared regions; a passing time limit is an
  argument of the step.  \<open>Log_Processes\<close>: the mapping of the regions, \<open>pipe\<close> and \<open>fork\<close> with their failures.
  \<open>Log_Watch\<close>: heartbeats, what the watchdog reads, and the binary output.  \<open>Log_Collect\<close>: \<open>wait_for_children\<close>
  beside the watchdog, SIGINT and SIGTERM.  \<open>Log_Flow\<close>, \<open>Log_Results\<close>, \<open>Log_End\<close> and \<open>Log_Demo\<close> carry \<open>Log_Properties\<close>:
  entries are neither invented nor doubled, one file is analyzed completely, two files may lose entries, no deadlock with
  readable files, an unreadable one stops everything.

  \<^bold>\<open>HW5, CargoGTU.\<close>  \<open>Cargo_Order\<close> and \<open>Cargo_Parser\<close>: orders, their file and the command line.  \<open>Cargo_Queue\<close>:
  the binary heap of \<open>priority_queue.c\<close>, with the locale \<open>min_queue\<close>.  \<open>Cargo_System\<close>: couriers, main thread, the handler
  of SIGINT and the statistics as steps on one state, with condition variables and spurious wake-ups.  \<open>Cargo_Log\<close>:
  \<open>log.c\<close>, whose lines stay whole.  \<open>Cargo_Invariants\<close> and \<open>Cargo_Shift\<close> carry \<open>Cargo_Properties\<close>: every order is
  delivered or cancelled once in the order of the queue, the totals are right, no deadlock, a bound on the steps.

  \<^bold>\<open>HW6, Hogwarts.\<close>  \<open>Hogwarts_Server\<close>: tables, ingredients file and descriptors of \<open>hogwarts.c\<close>;
  \<open>Hogwarts_Commands\<close>: the commands, input of a client, timeouts, and the loop around \<open>select\<close>; \<open>Hogwarts_Client\<close>:
  \<open>wizard.c\<close> and \<open>professor.c\<close>.  What the system answers is the argument of a pass of the loop.  \<open>Hogwarts_Stock\<close>,
  \<open>Hogwarts_Framing\<close>, \<open>Hogwarts_Invariants\<close>, \<open>Hogwarts_Facts\<close> and \<open>Hogwarts_Demo\<close> carry \<open>Hogwarts_Properties\<close>: accounts
  of the stock, valid clients, closed descriptors, and independence of how the input is cut.

  \<^bold>\<open>Final, the trading server.\<close>  \<open>Trade_Price\<close>: prices as \<open>float\<close>, rounded to 24 binary digits.  \<open>Trade_Server\<close>:
  \<open>ServerTrd.c\<close> with its clients, portfolios and the loop; \<open>Trade_Client\<close>: \<open>trader.c\<close>, \<open>analyst.c\<close> and \<open>ticker.c\<close>.
  \<open>Trade_Facts\<close>, \<open>Trade_Invariant\<close> and \<open>Trade_Demo\<close> carry \<open>Trade_Properties\<close>: shares are neither made nor lost, and two
  ways in which long lines go wrong.

  \<^bold>\<open>Conventions.\<close>  A record models a structure, a datatype an enumeration or the control points of a thread (named
  \<open>_pc\<close>), an operation is a function from the state to the state with the errors as values (\<open>None\<close>, or a flag), and
  threads and processes are step functions, \<open>None\<close> while they wait, joined by an inductive relation or by
  functions that say who moves.  Loops that end are recursive functions on the data; the loops of threads and servers
  are runs of steps, so that no fuel is needed; where a bound is used as fuel it is the length of the text or of the
  table.  \<open>_Properties\<close> theories hold the theorems that matter most, each with an instance at a concrete input.

  \<^bold>\<open>Not modelled.\<close>  In general: \<open>malloc\<close> and mutex calls that fail, real time, the wording of progress messages,
  address and port handling of the sockets.  \<open>HW1\<close>: the overflow of the path buffer is a flag (\<open>fault\<close>) and not what the
  memory then holds.  \<open>HW2\<close>: \<open>pipe\<close> succeeds, in the step relation \<open>fork\<close> too; a path that is cut counts as one \<open>lstat\<close> does not find, the lines
  printed while searching are left out, and \<open>sigchld_handler\<close> is never installed.  \<open>HW3\<close>: \<open>fork\<close> succeeds in the step relation.
  \<open>HW4\<close>: \<open>pthread_create\<close> succeeds except for the watchdog.  \<open>HW5\<close>: the sleeping of the couriers.  \<open>HW6\<close> and Final: creation
  of the sockets and the time stamps of the log; in Final a \<open>send\<close> takes the whole text, numbers of \<open>scanf\<close> are
  decimal, and a text that does not fit its buffer is the state \<open>smashed\<close>.
\<close>

end
